(* ===== verification/Prelude.thy ===== *)
theory Prelude
  imports Main "HOL-Library.Word" "HOL-Library.Monad_Syntax" "HOL-Library.Sublist"
begin

text \<open>
  Shared vocabulary of the development: Go's fixed-width integer types as words, the
  error type, the collections of simplification rules, and the generic facts on signed
  words, options and lists that the component theories use.

  A Go \<open>int64\<close> and a Go \<open>uint64\<close> are both a 64-bit word; the arithmetic operators wrap in the
  same way for both, and they differ only in how they are compared: a definition that
  models a comparison of \<open>int64\<close> values uses the signed orders \<open><s\<close> and \<open>\<le>s\<close>, one of
  \<open>uint64\<close> values the unsigned orders \<open><\<close> and \<open>\<le>\<close>.  A Go \<open>string\<close> is a byte sequence,
  as an Isabelle \<open>string\<close> is.
\<close>

type_synonym int64 = "64 word"
type_synonym uint64 = "64 word"
type_synonym uint32 = "32 word"
type_synonym uint16 = "16 word"
type_synonym uint8 = "8 word"
type_synonym byte = "8 word"
type_synonym error = string

text \<open>
  \<open>go_consts\<close> collects the defining equations of the named integer constants of the
  program; \<open>store_simps\<close> the equations of the reads and writes of the object store.
\<close>

named_theorems go_consts
named_theorems store_simps

subsection \<open>Signed 64-bit arithmetic\<close>

lemma sint_ge64: "- (2 ^ 63) \<le> sint (x :: int64)"
  using sint_ge [of x] by simp

lemma sint_lt64: "sint (x :: int64) < 2 ^ 63"
  using sint_lt [of x] by simp

lemma sint_of_range64:
  assumes "sint (w :: int64) = signed_take_bit 63 k" and "- (2 ^ 63) \<le> k" and "k < 2 ^ 63"
  shows "sint w = k"
  using assms by (simp add: signed_take_bit_int_eq_self)

lemma sint_minus_take: "sint (a - b) = signed_take_bit 63 (sint (a :: int64) - sint b)"
  by (simp add: sint_word_ariths)

lemma sint_plus_take: "sint (a + b) = signed_take_bit 63 (sint (a :: int64) + sint b)"
  by (simp add: sint_word_ariths)

lemma sint_sub64:
  assumes "0 \<le> sint b" and "sint b \<le> sint a"
  shows "sint (a - b) = sint (a :: int64) - sint b"
proof -
  have "- (2 ^ 63) \<le> sint a - sint b" and "sint a - sint b < 2 ^ 63"
    using assms sint_lt64 [of a] by linarith+
  then show ?thesis by (rule sint_of_range64 [OF sint_minus_take])
qed

lemma sint_add64:
  assumes "- (2 ^ 63) \<le> sint a + sint b" and "sint a + sint b < 2 ^ 63"
  shows "sint (a + b) = sint (a :: int64) + sint b"
  using assms by (rule sint_of_range64 [OF sint_plus_take])

lemma sint_of_int_le64:
  assumes "0 \<le> k"
  shows "sint (word_of_int k :: int64) \<le> k"
proof (cases "k < 2 ^ 63")
  case True
  with assms show ?thesis
    by (simp add: sint_sbintrunc' signed_take_bit_int_eq_self)
next
  case False
  with sint_lt64 [of "word_of_int k"] show ?thesis by simp
qed

lemma sless_sint: "(a :: int64) <s b \<longleftrightarrow> sint a < sint b"
  by (simp add: word_sless_alt)

lemma sle_sint: "(a :: int64) \<le>s b \<longleftrightarrow> sint a \<le> sint b"
  by (simp add: word_sle_eq)

lemmas signed_sint = sless_sint sle_sint

lemma not_sless_iff: "\<not> (a :: int64) <s b \<longleftrightarrow> b \<le>s a"
  by (auto simp: signed_sint)

lemma sint_inj64: "sint (a :: int64) = sint b \<longleftrightarrow> a = b"
  by (auto intro: signed_word_eqI)

subsection \<open>Folding a fallible step over a list\<close>

fun foldM :: "('s \<Rightarrow> 'a \<Rightarrow> 's option) \<Rightarrow> 's \<Rightarrow> 'a list \<Rightarrow> 's option" where
  "foldM f s [] = Some s"
| "foldM f s (x # xs) = Option.bind (f s x) (\<lambda>s'. foldM f s' xs)"

lemma foldM_append: "foldM f s (xs @ ys) = Option.bind (foldM f s xs) (\<lambda>s'. foldM f s' ys)"
  by (induction xs arbitrary: s) (auto split: bind_splits)

subsection \<open>Results that may be errors\<close>

text \<open>\<open>if err != nil { return ..., err }\<close>: go on with the value, or return the error.\<close>

definition ebind :: "'e + 'a \<Rightarrow> ('a \<Rightarrow> 'e + 'b) \<Rightarrow> 'e + 'b" where
  "ebind r f = (case r of Inl e \<Rightarrow> Inl e | Inr x \<Rightarrow> f x)"

lemma ebind_simps [simp]: "ebind (Inl e) f = Inl e" "ebind (Inr x) f = f x"
  by (simp_all add: ebind_def)

lemma ebind_Inr_iff: "ebind r f = Inr y \<longleftrightarrow> (\<exists>x. r = Inr x \<and> f x = Inr y)"
  by (cases r) auto

end
