(* ===== verification/Model_Types.thy ===== *)
theory Model_Types
  imports Prelude
begin

text \<open>
  The data model of \<open>internal/model/types.go\<close>.  The enumerations of the program are open
  integer types: a command read from the log may carry any byte in an enumeration
  field, and validation is the code that rejects the undefined ones.  They are words
  with named constants here, so that every such value is in the model.
\<close>

type_synonym Side = uint8
type_synonym CommandType = uint8
type_synonym OrderType = uint8
type_synonym TimeInForce = uint8
type_synonym RejectReason = uint16
type_synonym CancelReason = uint8
type_synonym EventType = uint8

definition SideBuy :: Side where [go_consts]: "SideBuy = 1"
definition SideSell :: Side where [go_consts]: "SideSell = 2"

definition Side_String :: "Side \<Rightarrow> string" where
  "Side_String s =
     (if s = SideBuy then ''BUY'' else if s = SideSell then ''SELL'' else ''UNKNOWN'')"

definition CommandNew :: CommandType where [go_consts]: "CommandNew = 1"
definition CommandCancel :: CommandType where [go_consts]: "CommandCancel = 2"
definition CommandReplace :: CommandType where [go_consts]: "CommandReplace = 3"

definition OrderTypeLimit :: OrderType where [go_consts]: "OrderTypeLimit = 1"
definition OrderTypeMarket :: OrderType where [go_consts]: "OrderTypeMarket = 2"

definition TIFGTC :: TimeInForce where [go_consts]: "TIFGTC = 1"
definition TIFIOC :: TimeInForce where [go_consts]: "TIFIOC = 2"
definition TIFFOK :: TimeInForce where [go_consts]: "TIFFOK = 3"

definition RejectNone :: RejectReason where [go_consts]: "RejectNone = 0"
definition RejectInvalidSymbol :: RejectReason where [go_consts]: "RejectInvalidSymbol = 1"
definition RejectInvalidPrice :: RejectReason where [go_consts]: "RejectInvalidPrice = 2"
definition RejectInvalidQuantity :: RejectReason where [go_consts]: "RejectInvalidQuantity = 3"
definition RejectDuplicateOrderID :: RejectReason where [go_consts]: "RejectDuplicateOrderID = 4"
definition RejectUnknownOrderID :: RejectReason where [go_consts]: "RejectUnknownOrderID = 5"
definition RejectInvalidReplace :: RejectReason where [go_consts]: "RejectInvalidReplace = 6"
definition RejectWouldNotFullyFill :: RejectReason
  where [go_consts]: "RejectWouldNotFullyFill = 7"
definition RejectInvalidOrderID :: RejectReason where [go_consts]: "RejectInvalidOrderID = 8"
definition RejectInvalidSide :: RejectReason where [go_consts]: "RejectInvalidSide = 9"
definition RejectInvalidOrderType :: RejectReason where [go_consts]: "RejectInvalidOrderType = 10"
definition RejectInvalidTimeInForce :: RejectReason
  where [go_consts]: "RejectInvalidTimeInForce = 11"
definition RejectInvalidCommandType :: RejectReason
  where [go_consts]: "RejectInvalidCommandType = 12"

definition CancelByUser :: CancelReason where [go_consts]: "CancelByUser = 1"
definition CancelUnfilledRemainder :: CancelReason
  where [go_consts]: "CancelUnfilledRemainder = 2"

definition EventAccepted :: EventType where [go_consts]: "EventAccepted = 1"
definition EventRejected :: EventType where [go_consts]: "EventRejected = 2"
definition EventTrade :: EventType where [go_consts]: "EventTrade = 3"
definition EventOrderReduced :: EventType where [go_consts]: "EventOrderReduced = 4"
definition EventOrderRested :: EventType where [go_consts]: "EventOrderRested = 5"
definition EventCanceled :: EventType where [go_consts]: "EventCanceled = 6"
definition EventReplaced :: EventType where [go_consts]: "EventReplaced = 7"

record Command =
  cmd_Seq :: uint64
  cmd_Symbol :: string
  cmd_Type :: CommandType
  cmd_OrderID :: uint64
  cmd_Side :: Side
  cmd_OrderType :: OrderType
  cmd_TimeInForce :: TimeInForce
  cmd_Price :: int64
  cmd_Quantity :: int64
  cmd_NewPrice :: int64
  cmd_NewLeavesQty :: int64

text \<open>\<open>Command.ValidationRejectReason\<close>: the reason code of the first check that fails.\<close>

definition ValidationRejectReason :: "Command \<Rightarrow> RejectReason" where
  "ValidationRejectReason c =
     (if cmd_Symbol c = [] then RejectInvalidSymbol
      else if cmd_Type c = CommandNew then
        (if cmd_OrderID c = 0 then RejectInvalidOrderID
         else if cmd_Side c \<noteq> SideBuy \<and> cmd_Side c \<noteq> SideSell then RejectInvalidSide
         else if cmd_OrderType c \<noteq> OrderTypeLimit \<and> cmd_OrderType c \<noteq> OrderTypeMarket
           then RejectInvalidOrderType
         else if cmd_TimeInForce c \<noteq> TIFGTC \<and> cmd_TimeInForce c \<noteq> TIFIOC
             \<and> cmd_TimeInForce c \<noteq> TIFFOK then RejectInvalidTimeInForce
         else if cmd_Quantity c \<le>s 0 then RejectInvalidQuantity
         else if cmd_OrderType c = OrderTypeLimit \<and> cmd_Price c \<le>s 0 then RejectInvalidPrice
         else RejectNone)
      else if cmd_Type c = CommandCancel then
        (if cmd_OrderID c = 0 then RejectInvalidOrderID else RejectNone)
      else if cmd_Type c = CommandReplace then
        (if cmd_OrderID c = 0 then RejectInvalidOrderID
         else if cmd_NewLeavesQty c \<le>s 0 \<or> cmd_NewPrice c <s 0 then RejectInvalidReplace
         else RejectNone)
      else RejectInvalidCommandType)"

text \<open>\<open>Command.Validate\<close>: the same checks with an error message; \<open>None\<close> is the nil error.\<close>

definition Validate :: "Command \<Rightarrow> error option" where
  "Validate c =
     (if cmd_Symbol c = [] then Some ''invalid symbol''
      else if cmd_Type c = CommandNew then
        (if cmd_OrderID c = 0 then Some ''order id is required''
         else if cmd_Side c \<noteq> SideBuy \<and> cmd_Side c \<noteq> SideSell then Some ''invalid side''
         else if cmd_OrderType c \<noteq> OrderTypeLimit \<and> cmd_OrderType c \<noteq> OrderTypeMarket
           then Some ''invalid order type''
         else if cmd_TimeInForce c \<noteq> TIFGTC \<and> cmd_TimeInForce c \<noteq> TIFIOC
             \<and> cmd_TimeInForce c \<noteq> TIFFOK then Some ''invalid tif''
         else if cmd_Quantity c \<le>s 0 then Some ''invalid quantity''
         else if cmd_OrderType c = OrderTypeLimit \<and> cmd_Price c \<le>s 0 then Some ''invalid price''
         else None)
      else if cmd_Type c = CommandCancel then
        (if cmd_OrderID c = 0 then Some ''order id is required'' else None)
      else if cmd_Type c = CommandReplace then
        (if cmd_OrderID c = 0 then Some ''order id is required''
         else if cmd_NewLeavesQty c \<le>s 0 then Some ''invalid replace quantity''
         else if cmd_NewPrice c <s 0 then Some ''invalid replace price''
         else None)
      else Some ''invalid command type'')"

record Event =
  ev_Type :: EventType
  ev_Reason :: RejectReason
  ev_OrderID :: uint64
  ev_MakerOrderID :: uint64
  ev_TakerOrderID :: uint64
  ev_TradeID :: uint64
  ev_Price :: int64
  ev_Quantity :: int64
  ev_LeavesQty :: int64
  ev_CanceledQty :: int64
  ev_CancelReason :: CancelReason
  ev_PriorityRetained :: bool

text \<open>A Go composite literal sets the fields it names; the others are zero.\<close>

definition zeroEvent :: Event where
  "zeroEvent = \<lparr>ev_Type = 0, ev_Reason = 0, ev_OrderID = 0, ev_MakerOrderID = 0,
     ev_TakerOrderID = 0, ev_TradeID = 0, ev_Price = 0, ev_Quantity = 0, ev_LeavesQty = 0,
     ev_CanceledQty = 0, ev_CancelReason = 0, ev_PriorityRetained = False\<rparr>"

record Result =
  res_CommandSeq :: uint64
  res_Events :: "Event list"

text \<open>\<open>result.Events = append(result.Events, e)\<close>.\<close>

definition emit :: "Event \<Rightarrow> Result \<Rightarrow> Result" where
  "emit e r = r\<lparr>res_Events := res_Events r @ [e]\<rparr>"

record Outcome =
  out_Result :: Result
  out_Err :: "error option"

subsection \<open>Agreement of the two validators\<close>

lemma ValidationRejectReason_none_iff:
  "ValidationRejectReason c = RejectNone \<longleftrightarrow> Validate c = None"
  unfolding ValidationRejectReason_def Validate_def
  by (auto simp: go_consts)

text \<open>What a command that passes validation satisfies, by command type.\<close>

lemma Validate_NewD:
  assumes "Validate c = None" and "cmd_Type c = CommandNew"
  shows "cmd_OrderID c \<noteq> 0" and "cmd_Side c = SideBuy \<or> cmd_Side c = SideSell"
    and "cmd_OrderType c = OrderTypeLimit \<or> cmd_OrderType c = OrderTypeMarket"
    and "0 < sint (cmd_Quantity c)"
    and "cmd_OrderType c = OrderTypeLimit \<Longrightarrow> 0 < sint (cmd_Price c)"
  using assms unfolding Validate_def
  by (auto simp: signed_sint split: if_splits)

lemma Validate_ReplaceD:
  assumes "Validate c = None" and "cmd_Type c = CommandReplace"
  shows "0 < sint (cmd_NewLeavesQty c)" and "0 \<le> sint (cmd_NewPrice c)"
  using assms unfolding Validate_def
  by (auto simp: signed_sint go_consts split: if_splits)

lemma Validate_Type:
  assumes "Validate c = None"
  shows "cmd_Type c = CommandNew \<or> cmd_Type c = CommandCancel \<or> cmd_Type c = CommandReplace"
  using assms unfolding Validate_def by (auto split: if_splits)

lemma emit_sel [simp]:
  "res_Events (emit e r) = res_Events r @ [e]" "res_CommandSeq (emit e r) = res_CommandSeq r"
  by (simp_all add: emit_def)

text \<open>
  The two validators of a command agree: a command has a reject reason other than
  RejectNone exactly when it has a validation error, so a command that fails validation is
  never reported with the reason "none", and a command reported with that reason is valid.
\<close>

theorem validators_agree:
  "Validate c = None \<longleftrightarrow> ValidationRejectReason c = RejectNone"
  by (simp add: ValidationRejectReason_none_iff)

end
