(* ===== verification/Book.thy ===== *)
theory Book
  imports Model_Types
begin

text \<open>
  The order book of \<open>internal/book/book.go\<close>, at the level of its pointers.  Every book
  owns the \<open>Order\<close> and \<open>PriceLevel\<close> objects it allocates; they live in an explicit store,
  a partial map from references to objects, so that the intrusive doubly linked queues
  and the aliasing between the order index, the queues and the price levels are those of
  the code.  A reference field that may be nil is an \<open>option\<close>; dereferencing nil, or a
  loop that never ends, is the result \<open>None\<close> of an operation.
\<close>

subsection \<open>Objects\<close>

type_synonym oref = nat
type_synonym lref = nat

record Order =
  ord_ID :: uint64
  ord_Side :: Side
  ord_Price :: int64
  ord_LeavesQty :: int64
  ord_Seq :: uint64
  ord_Prev :: "oref option"
  ord_Next :: "oref option"
  ord_Level :: "lref option"

record PriceLevel =
  lvl_Price :: int64
  lvl_TotalQty :: int64
  lvl_Head :: "oref option"
  lvl_Tail :: "oref option"

record sideBook =
  sb_levels :: "int64 \<rightharpoonup> lref"
  sb_prices :: "int64 list"
  sb_isBid :: bool

text \<open>The objects a book has allocated, and the next unused references.\<close>

record store =
  st_orders :: "oref \<rightharpoonup> Order"
  st_levels :: "lref \<rightharpoonup> PriceLevel"
  st_nextOrder :: nat
  st_nextLevel :: nat

definition emptyStore :: store where
  "emptyStore = \<lparr>st_orders = Map.empty, st_levels = Map.empty, st_nextOrder = 0, st_nextLevel = 0\<rparr>"

text \<open>\<open>&Order{...}\<close> and \<open>&PriceLevel{...}\<close>.\<close>

definition allocOrder :: "store \<Rightarrow> Order \<Rightarrow> oref \<times> store" where
  "allocOrder st od = (st_nextOrder st,
     st\<lparr>st_orders := (st_orders st)(st_nextOrder st \<mapsto> od), st_nextOrder := Suc (st_nextOrder st)\<rparr>)"

definition allocLevel :: "store \<Rightarrow> PriceLevel \<Rightarrow> lref \<times> store" where
  "allocLevel st lv = (st_nextLevel st,
     st\<lparr>st_levels := (st_levels st)(st_nextLevel st \<mapsto> lv), st_nextLevel := Suc (st_nextLevel st)\<rparr>)"

text \<open>An assignment to fields of an object through its reference.\<close>

definition updOrder :: "store \<Rightarrow> oref \<Rightarrow> (Order \<Rightarrow> Order) \<Rightarrow> store option" where
  "updOrder st r f =
     (case st_orders st r of
        None \<Rightarrow> None
      | Some od \<Rightarrow> Some (st\<lparr>st_orders := (st_orders st)(r \<mapsto> f od)\<rparr>))"

definition updLevel :: "store \<Rightarrow> lref \<Rightarrow> (PriceLevel \<Rightarrow> PriceLevel) \<Rightarrow> store option" where
  "updLevel st l f =
     (case st_levels st l of
        None \<Rightarrow> None
      | Some lv \<Rightarrow> Some (st\<lparr>st_levels := (st_levels st)(l \<mapsto> f lv)\<rparr>))"

subsection \<open>One side of the book: levels indexed by price\<close>

definition newSideBook :: "bool \<Rightarrow> sideBook" where
  "newSideBook isBid = \<lparr>sb_levels = Map.empty, sb_prices = [], sb_isBid = isBid\<rparr>"

text \<open>\<open>best\<close>: a map lookup of a missing key gives nil.\<close>

definition best :: "sideBook \<Rightarrow> lref option" where
  "best s = (case sb_prices s of [] \<Rightarrow> None | price # _ \<Rightarrow> sb_levels s price)"

text \<open>The loop of \<open>findInsertIndex\<close>, on the bounds \<open>left\<close> and \<open>right\<close>.\<close>

function insertSearch :: "bool \<Rightarrow> int64 list \<Rightarrow> int64 \<Rightarrow> nat \<Rightarrow> nat \<Rightarrow> nat" where
  "insertSearch isBid prices price left right =
     (if left < right then
        (let mid = left + (right - left) div 2 in
         if isBid then
           (if price <s prices ! mid then insertSearch isBid prices price (mid + 1) right
            else insertSearch isBid prices price left mid)
         else
           (if prices ! mid <s price then insertSearch isBid prices price (mid + 1) right
            else insertSearch isBid prices price left mid))
      else left)"
  by pat_completeness auto
termination
  by (relation "measure (\<lambda>(isBid, prices, price, left, right). right - left)") auto

declare insertSearch.simps [simp del]

definition findInsertIndex :: "sideBook \<Rightarrow> int64 \<Rightarrow> nat" where
  "findInsertIndex s price = insertSearch (sb_isBid s) (sb_prices s) price 0 (length (sb_prices s))"

definition findPriceIndex :: "sideBook \<Rightarrow> int64 \<Rightarrow> int" where
  "findPriceIndex s price =
     (let idx = findInsertIndex s price in
      if idx \<ge> length (sb_prices s) \<or> sb_prices s ! idx \<noteq> price then -1 else int idx)"

text \<open>Go's \<open>copy(xs[i:], xs[j:])\<close> on one slice.\<close>

definition copyWithin :: "'a list \<Rightarrow> nat \<Rightarrow> nat \<Rightarrow> 'a list" where
  "copyWithin xs i j =
     (let n = min (length xs - i) (length xs - j)
      in take i xs @ take n (drop j xs) @ drop (i + n) xs)"

definition getOrCreateLevel :: "sideBook \<Rightarrow> store \<Rightarrow> int64 \<Rightarrow> lref \<times> sideBook \<times> store" where
  "getOrCreateLevel s st price =
     (case sb_levels s price of
        Some level \<Rightarrow> (level, s, st)
      | None \<Rightarrow>
          (let (level, st) = allocLevel st
                 \<lparr>lvl_Price = price, lvl_TotalQty = 0, lvl_Head = None, lvl_Tail = None\<rparr>;
               s = s\<lparr>sb_levels := (sb_levels s)(price \<mapsto> level)\<rparr>;
               idx = findInsertIndex s price;
               prices = sb_prices s @ [0];
               prices = copyWithin prices (idx + 1) idx
           in (level, s\<lparr>sb_prices := prices[idx := price]\<rparr>, st)))"

definition removeLevelIfEmpty :: "sideBook \<Rightarrow> store \<Rightarrow> lref option \<Rightarrow> sideBook option" where
  "removeLevelIfEmpty s st level =
     (case level of
        None \<Rightarrow> Some s
      | Some l \<Rightarrow> do {
          lv \<leftarrow> st_levels st l;
          if lvl_Head lv \<noteq> None then Some s
          else do {
            let s = s\<lparr>sb_levels := (sb_levels s)(lvl_Price lv := None)\<rparr>;
            let idx = findPriceIndex s (lvl_Price lv);
            Some (if idx \<ge> 0
                  then s\<lparr>sb_prices := take (nat idx) (sb_prices s) @ drop (nat idx + 1) (sb_prices s)\<rparr>
                  else s)
          }
        })"

subsection \<open>The FIFO queue of a price level\<close>

text \<open>\<open>PriceLevel.append\<close>.\<close>

definition level_append :: "store \<Rightarrow> lref \<Rightarrow> oref \<Rightarrow> store option" where
  "level_append st l order = do {
     lv \<leftarrow> st_levels st l;
     st \<leftarrow> updOrder st order (\<lambda>x. x\<lparr>ord_Prev := lvl_Tail lv, ord_Next := None, ord_Level := Some l\<rparr>);
     st \<leftarrow> (case lvl_Tail lv of
             Some t \<Rightarrow> updOrder st t (\<lambda>x. x\<lparr>ord_Next := Some order\<rparr>)
           | None \<Rightarrow> updLevel st l (\<lambda>v. v\<lparr>lvl_Head := Some order\<rparr>));
     st \<leftarrow> updLevel st l (\<lambda>v. v\<lparr>lvl_Tail := Some order\<rparr>);
     od \<leftarrow> st_orders st order;
     updLevel st l (\<lambda>v. v\<lparr>lvl_TotalQty := lvl_TotalQty v + ord_LeavesQty od\<rparr>)
   }"

text \<open>\<open>PriceLevel.remove\<close>; the fields of the order are read again after every assignment.\<close>

definition level_remove :: "store \<Rightarrow> lref \<Rightarrow> oref \<Rightarrow> store option" where
  "level_remove st l order = do {
     od \<leftarrow> st_orders st order;
     st \<leftarrow> (case ord_Prev od of
             Some p \<Rightarrow> updOrder st p (\<lambda>x. x\<lparr>ord_Next := ord_Next od\<rparr>)
           | None \<Rightarrow> updLevel st l (\<lambda>v. v\<lparr>lvl_Head := ord_Next od\<rparr>));
     od \<leftarrow> st_orders st order;
     st \<leftarrow> (case ord_Next od of
             Some n \<Rightarrow> updOrder st n (\<lambda>x. x\<lparr>ord_Prev := ord_Prev od\<rparr>)
           | None \<Rightarrow> updLevel st l (\<lambda>v. v\<lparr>lvl_Tail := ord_Prev od\<rparr>));
     od \<leftarrow> st_orders st order;
     st \<leftarrow> updLevel st l (\<lambda>v. v\<lparr>lvl_TotalQty := lvl_TotalQty v - ord_LeavesQty od\<rparr>);
     updOrder st order (\<lambda>x. x\<lparr>ord_Prev := None, ord_Next := None, ord_Level := None\<rparr>)
   }"

subsection \<open>The book\<close>

record Book =
  bk_Symbol :: string
  bk_bids :: sideBook
  bk_asks :: sideBook
  bk_orders :: "uint64 \<rightharpoonup> oref"
  bk_nextTradeSeq :: uint64
  bk_store :: store

text \<open>A pointer to one of the two \<open>sideBook\<close> objects of a book, and the access through it.\<close>

datatype side_ptr = Bids | Asks

fun sideAt :: "Book \<Rightarrow> side_ptr \<Rightarrow> sideBook" where
  "sideAt b Bids = bk_bids b"
| "sideAt b Asks = bk_asks b"

fun setSide :: "Book \<Rightarrow> side_ptr \<Rightarrow> sideBook \<Rightarrow> Book" where
  "setSide b Bids s = b\<lparr>bk_bids := s\<rparr>"
| "setSide b Asks s = b\<lparr>bk_asks := s\<rparr>"

text \<open>\<open>bookSide := b.bids; if order.Side == model.SideSell { bookSide = b.asks }\<close>.\<close>

definition bookSide :: "Side \<Rightarrow> side_ptr" where
  "bookSide s = (if s = SideSell then Asks else Bids)"

definition New :: "string \<Rightarrow> Book" where
  "New symbol = \<lparr>bk_Symbol = symbol, bk_bids = newSideBook True, bk_asks = newSideBook False,
     bk_orders = Map.empty, bk_nextTradeSeq = 1, bk_store = emptyStore\<rparr>"

definition rest :: "Book \<Rightarrow> oref \<Rightarrow> Book option" where
  "rest b order = do {
     od \<leftarrow> st_orders (bk_store b) order;
     let side = bookSide (ord_Side od);
     let (level, sb, st) = getOrCreateLevel (sideAt b side) (bk_store b) (ord_Price od);
     st \<leftarrow> level_append st level order;
     Some ((setSide b side sb)\<lparr>bk_store := st, bk_orders := (bk_orders b)(ord_ID od \<mapsto> order)\<rparr>)
   }"

definition removeActive :: "Book \<Rightarrow> oref \<Rightarrow> Book option" where
  "removeActive b order = do {
     od \<leftarrow> st_orders (bk_store b) order;
     (case ord_Level od of
        None \<Rightarrow> Some b
      | Some level \<Rightarrow> do {
          let side = bookSide (ord_Side od);
          st \<leftarrow> level_remove (bk_store b) level order;
          sb \<leftarrow> removeLevelIfEmpty (sideAt b side) st (Some level);
          Some ((setSide b side sb)\<lparr>bk_store := st, bk_orders := (bk_orders b)(ord_ID od := None)\<rparr>)
        })
   }"

definition min64 :: "int64 \<Rightarrow> int64 \<Rightarrow> int64" where
  "min64 a b = (if a <s b then a else b)"

text \<open>\<open>nextTradeID\<close>: the command sequence shifted left by 20 bits, or-ed with the low 20 bits
  of the trade counter of the book.\<close>

definition tradeID :: "uint64 \<Rightarrow> uint64 \<Rightarrow> uint64" where
  "tradeID commandSeq tradeSeq =
     or (push_bit 20 commandSeq) (and tradeSeq (push_bit 20 1 - 1))"

definition nextTradeID :: "Book \<Rightarrow> uint64 \<Rightarrow> uint64 \<times> Book" where
  "nextTradeID b commandSeq =
     (tradeID commandSeq (bk_nextTradeSeq b), b\<lparr>bk_nextTradeSeq := bk_nextTradeSeq b + 1\<rparr>)"

subsection \<open>Matching\<close>

text \<open>The body of the loop of \<open>matchAgainst\<close> after the resting order has been chosen.\<close>

definition tradeWith :: "Book \<Rightarrow> oref \<Rightarrow> oref \<Rightarrow> Result \<Rightarrow> (Book \<times> Result) option" where
  "tradeWith b incoming resting result = do {
     ino \<leftarrow> st_orders (bk_store b) incoming;
     rso \<leftarrow> st_orders (bk_store b) resting;
     let tradeQty = min64 (ord_LeavesQty ino) (ord_LeavesQty rso);
     st \<leftarrow> updOrder (bk_store b) incoming (\<lambda>x. x\<lparr>ord_LeavesQty := ord_LeavesQty x - tradeQty\<rparr>);
     st \<leftarrow> updOrder st resting (\<lambda>x. x\<lparr>ord_LeavesQty := ord_LeavesQty x - tradeQty\<rparr>);
     rso \<leftarrow> st_orders st resting;
     level \<leftarrow> ord_Level rso;
     st \<leftarrow> updLevel st level (\<lambda>v. v\<lparr>lvl_TotalQty := lvl_TotalQty v - tradeQty\<rparr>);
     let (tid, b) = nextTradeID (b\<lparr>bk_store := st\<rparr>) (res_CommandSeq result);
     let result = emit (zeroEvent\<lparr>ev_Type := EventTrade, ev_TradeID := tid,
            ev_MakerOrderID := ord_ID rso, ev_TakerOrderID := ord_ID ino,
            ev_Price := ord_Price rso, ev_Quantity := tradeQty\<rparr>) result;
     if ord_LeavesQty rso = 0
     then do { b \<leftarrow> removeActive b resting; Some (b, result) }
     else Some (b, emit (zeroEvent\<lparr>ev_Type := EventOrderReduced, ev_OrderID := ord_ID rso,
            ev_LeavesQty := ord_LeavesQty rso\<rparr>) result)
   }"

partial_function (option) matchAgainst ::
  "oref \<Rightarrow> side_ptr \<Rightarrow> (int64 \<Rightarrow> bool) \<Rightarrow> Book \<Rightarrow> Result \<Rightarrow> (Book \<times> Result) option" where
  [code]: "matchAgainst incoming opposite priceAllowed b result =
     Option.bind (st_orders (bk_store b) incoming) (\<lambda>ino.
       if 0 <s ord_LeavesQty ino then
         (case best (sideAt b opposite) of
            None \<Rightarrow> Some (b, result)
          | Some l \<Rightarrow>
              Option.bind (st_levels (bk_store b) l) (\<lambda>lv.
                if \<not> priceAllowed (lvl_Price lv) then Some (b, result)
                else Option.bind (lvl_Head lv) (\<lambda>resting.
                  Option.bind (tradeWith b incoming resting result) (\<lambda>br.
                    matchAgainst incoming opposite priceAllowed (fst br) (snd br)))))
       else Some (b, result))"

text \<open>
  \<open>match\<close>: the price check of the incoming order is a closure over its price, which no
  trade changes; a price of zero accepts every level.
\<close>

definition match :: "Book \<Rightarrow> oref \<Rightarrow> Result \<Rightarrow> (Book \<times> Result) option" where
  "match b incoming result = do {
     ino \<leftarrow> st_orders (bk_store b) incoming;
     if ord_Side ino = SideBuy
     then matchAgainst incoming Asks
            (\<lambda>bestPrice. if ord_Price ino = 0 then True else bestPrice \<le>s ord_Price ino) b result
     else matchAgainst incoming Bids
            (\<lambda>bestPrice. if ord_Price ino = 0 then True else ord_Price ino \<le>s bestPrice) b result
   }"

text \<open>The loop of \<open>availableQtyFor\<close> over the prices, best first.\<close>

fun availableLoop ::
  "(int64 \<Rightarrow> bool) \<Rightarrow> (int64 \<rightharpoonup> lref) \<Rightarrow> store \<Rightarrow> int64 \<Rightarrow> int64 list \<Rightarrow> int64 \<Rightarrow> int64 option" where
  "availableLoop canTake levels st requiredQty [] acc = Some acc"
| "availableLoop canTake levels st requiredQty (price # prices) acc =
     (if \<not> canTake price then Some acc
      else do {
        l \<leftarrow> levels price;
        lv \<leftarrow> st_levels st l;
        if requiredQty - acc \<le>s lvl_TotalQty lv then Some requiredQty
        else availableLoop canTake levels st requiredQty prices (acc + lvl_TotalQty lv)
      })"

definition availableQtyFor :: "Book \<Rightarrow> Side \<Rightarrow> int64 \<Rightarrow> OrderType \<Rightarrow> int64 \<Rightarrow> int64 option" where
  "availableQtyFor b side limitPrice orderType requiredQty =
     (if side = SideBuy
      then availableLoop
             (\<lambda>price. if orderType = OrderTypeMarket then True else price \<le>s limitPrice)
             (sb_levels (bk_asks b)) (bk_store b) requiredQty (sb_prices (bk_asks b)) 0
      else availableLoop
             (\<lambda>price. if orderType = OrderTypeMarket then True else limitPrice \<le>s price)
             (sb_levels (bk_bids b)) (bk_store b) requiredQty (sb_prices (bk_bids b)) 0)"

subsection \<open>Command handlers\<close>

definition rejectEvent :: "RejectReason \<Rightarrow> uint64 \<Rightarrow> Event" where
  "rejectEvent reason oid = zeroEvent\<lparr>ev_Type := EventRejected, ev_Reason := reason, ev_OrderID := oid\<rparr>"

definition acceptEvent :: "uint64 \<Rightarrow> Event" where
  "acceptEvent oid = zeroEvent\<lparr>ev_Type := EventAccepted, ev_OrderID := oid\<rparr>"

definition cancelEvent :: "uint64 \<Rightarrow> int64 \<Rightarrow> CancelReason \<Rightarrow> Event" where
  "cancelEvent oid qty reason = zeroEvent\<lparr>ev_Type := EventCanceled, ev_OrderID := oid,
     ev_CanceledQty := qty, ev_CancelReason := reason\<rparr>"

definition restedEvent :: "uint64 \<Rightarrow> int64 \<Rightarrow> int64 \<Rightarrow> Event" where
  "restedEvent oid price leaves = zeroEvent\<lparr>ev_Type := EventOrderRested, ev_OrderID := oid,
     ev_Price := price, ev_LeavesQty := leaves\<rparr>"

definition reducedEvent :: "uint64 \<Rightarrow> int64 \<Rightarrow> Event" where
  "reducedEvent oid leaves = zeroEvent\<lparr>ev_Type := EventOrderReduced, ev_OrderID := oid,
     ev_LeavesQty := leaves\<rparr>"

definition replacedEvent :: "uint64 \<Rightarrow> int64 \<Rightarrow> int64 \<Rightarrow> bool \<Rightarrow> Event" where
  "replacedEvent oid price leaves retained = zeroEvent\<lparr>ev_Type := EventReplaced, ev_OrderID := oid,
     ev_Price := price, ev_LeavesQty := leaves, ev_PriorityRetained := retained\<rparr>"

definition freshOrder :: "uint64 \<Rightarrow> Side \<Rightarrow> int64 \<Rightarrow> int64 \<Rightarrow> uint64 \<Rightarrow> Order" where
  "freshOrder oid side price leaves sq = \<lparr>ord_ID = oid, ord_Side = side, ord_Price = price,
     ord_LeavesQty = leaves, ord_Seq = sq, ord_Prev = None, ord_Next = None, ord_Level = None\<rparr>"

text \<open>\<open>handleNew\<close> from the allocation of the order on.\<close>

definition placeNew :: "Book \<Rightarrow> Command \<Rightarrow> Result \<Rightarrow> (Book \<times> Result) option" where
  "placeNew b cmd result = do {
     let result = emit (acceptEvent (cmd_OrderID cmd)) result;
     let (order, st) = allocOrder (bk_store b)
           (freshOrder (cmd_OrderID cmd) (cmd_Side cmd) (cmd_Price cmd) (cmd_Quantity cmd) (cmd_Seq cmd));
     (b, result) \<leftarrow> match (b\<lparr>bk_store := st\<rparr>) order result;
     od \<leftarrow> st_orders (bk_store b) order;
     if ord_LeavesQty od = 0 then Some (b, result)
     else if cmd_OrderType cmd = OrderTypeMarket
     then Some (b, emit (cancelEvent (ord_ID od) (ord_LeavesQty od) CancelUnfilledRemainder) result)
     else if cmd_TimeInForce cmd = TIFIOC
     then Some (b, emit (cancelEvent (ord_ID od) (ord_LeavesQty od) CancelUnfilledRemainder) result)
     else do {
       b \<leftarrow> rest b order;
       Some (b, emit (restedEvent (ord_ID od) (ord_Price od) (ord_LeavesQty od)) result)
     }
   }"

definition handleNew :: "Book \<Rightarrow> Command \<Rightarrow> Result \<Rightarrow> (Book \<times> Result) option" where
  "handleNew b cmd result =
     (if bk_orders b (cmd_OrderID cmd) \<noteq> None
      then Some (b, emit (rejectEvent RejectDuplicateOrderID (cmd_OrderID cmd)) result)
      else if cmd_TimeInForce cmd = TIFFOK
      then do {
        avail \<leftarrow> availableQtyFor b (cmd_Side cmd) (cmd_Price cmd) (cmd_OrderType cmd) (cmd_Quantity cmd);
        if avail <s cmd_Quantity cmd
        then Some (b, emit (rejectEvent RejectWouldNotFullyFill (cmd_OrderID cmd)) result)
        else placeNew b cmd result
      }
      else placeNew b cmd result)"

definition handleCancel :: "Book \<Rightarrow> Command \<Rightarrow> Result \<Rightarrow> (Book \<times> Result) option" where
  "handleCancel b cmd result =
     (case bk_orders b (cmd_OrderID cmd) of
        None \<Rightarrow> Some (b, emit (rejectEvent RejectUnknownOrderID (cmd_OrderID cmd)) result)
      | Some order \<Rightarrow> do {
          let result = emit (acceptEvent (cmd_OrderID cmd)) result;
          od \<leftarrow> st_orders (bk_store b) order;
          b \<leftarrow> removeActive b order;
          Some (b, emit (cancelEvent (cmd_OrderID cmd) (ord_LeavesQty od) CancelByUser) result)
        })"

text \<open>\<open>handleReplace\<close> on the branch that keeps the queue position of the order.\<close>

definition reduceInPlace :: "Book \<Rightarrow> oref \<Rightarrow> int64 \<Rightarrow> Result \<Rightarrow> (Book \<times> Result) option" where
  "reduceInPlace b order newLeaves result = do {
     od \<leftarrow> st_orders (bk_store b) order;
     let reduced = ord_LeavesQty od - newLeaves;
     level \<leftarrow> ord_Level od;
     st \<leftarrow> updLevel (bk_store b) level (\<lambda>v. v\<lparr>lvl_TotalQty := lvl_TotalQty v - reduced\<rparr>);
     st \<leftarrow> updOrder st order (\<lambda>x. x\<lparr>ord_LeavesQty := newLeaves\<rparr>);
     od \<leftarrow> st_orders st order;
     let result = (if 0 <s reduced then emit (reducedEvent (ord_ID od) (ord_LeavesQty od)) result
                   else result);
     Some (b\<lparr>bk_store := st\<rparr>,
           emit (replacedEvent (ord_ID od) (ord_Price od) (ord_LeavesQty od) True) result)
   }"

text \<open>\<open>handleReplace\<close> on the branch that moves the order.\<close>

definition moveOrder :: "Book \<Rightarrow> Command \<Rightarrow> oref \<Rightarrow> int64 \<Rightarrow> int64 \<Rightarrow> Result \<Rightarrow> (Book \<times> Result) option" where
  "moveOrder b cmd order newPrice newLeaves result = do {
     od \<leftarrow> st_orders (bk_store b) order;
     let side = ord_Side od;
     b \<leftarrow> removeActive b order;
     let (replaced, st) = allocOrder (bk_store b)
           (freshOrder (cmd_OrderID cmd) side newPrice newLeaves (cmd_Seq cmd));
     (b, result) \<leftarrow> match (b\<lparr>bk_store := st\<rparr>) replaced result;
     ro \<leftarrow> st_orders (bk_store b) replaced;
     (b, result) \<leftarrow>
       (if 0 <s ord_LeavesQty ro
        then do {
          b \<leftarrow> rest b replaced;
          Some (b, emit (restedEvent (ord_ID ro) (ord_Price ro) (ord_LeavesQty ro)) result)
        }
        else Some (b, result));
     Some (b, emit (replacedEvent (cmd_OrderID cmd) newPrice (ord_LeavesQty ro) False) result)
   }"

definition handleReplace :: "Book \<Rightarrow> Command \<Rightarrow> Result \<Rightarrow> (Book \<times> Result) option" where
  "handleReplace b cmd result =
     (case bk_orders b (cmd_OrderID cmd) of
        None \<Rightarrow> Some (b, emit (rejectEvent RejectUnknownOrderID (cmd_OrderID cmd)) result)
      | Some order \<Rightarrow> do {
          od \<leftarrow> st_orders (bk_store b) order;
          let newPrice = (if 0 <s cmd_NewPrice cmd then cmd_NewPrice cmd else ord_Price od);
          if newPrice \<le>s 0
          then Some (b, emit (rejectEvent RejectInvalidReplace (cmd_OrderID cmd)) result)
          else do {
            let newLeaves = cmd_NewLeavesQty cmd;
            if newLeaves \<le>s 0
            then Some (b, emit (rejectEvent RejectInvalidReplace (cmd_OrderID cmd)) result)
            else do {
              let result = emit (acceptEvent (cmd_OrderID cmd)) result;
              if newPrice = ord_Price od \<and> newLeaves \<le>s ord_LeavesQty od
              then reduceInPlace b order newLeaves result
              else moveOrder b cmd order newPrice newLeaves result
            }
          }
        })"

definition Apply :: "Book \<Rightarrow> Command \<Rightarrow> (Book \<times> Result) option" where
  "Apply b cmd =
     (let result = \<lparr>res_CommandSeq = cmd_Seq cmd, res_Events = []\<rparr> in
      if cmd_Symbol cmd \<noteq> bk_Symbol b
      then Some (b, emit (rejectEvent RejectInvalidSymbol (cmd_OrderID cmd)) result)
      else if Validate cmd \<noteq> None
      then Some (b, emit (rejectEvent (ValidationRejectReason cmd) (cmd_OrderID cmd)) result)
      else if cmd_Type cmd = CommandNew then handleNew b cmd result
      else if cmd_Type cmd = CommandCancel then handleCancel b cmd result
      else if cmd_Type cmd = CommandReplace then handleReplace b cmd result
      else Some (b, result))"

subsection \<open>Snapshots of a book\<close>

record OrderSnapshot =
  os_ID :: uint64
  os_Side :: Side
  os_Price :: int64
  os_LeavesQty :: int64
  os_Seq :: uint64

record PriceLevelSnapshot =
  ps_Price :: int64
  ps_Orders :: "OrderSnapshot list"

record BookSnapshot =
  bs_Symbol :: string
  bs_NextTradeSeq :: uint64
  bs_Bids :: "PriceLevelSnapshot list"
  bs_Asks :: "PriceLevelSnapshot list"

definition orderSnapshot :: "Order \<Rightarrow> OrderSnapshot" where
  "orderSnapshot x = \<lparr>os_ID = ord_ID x, os_Side = ord_Side x, os_Price = ord_Price x,
     os_LeavesQty = ord_LeavesQty x, os_Seq = ord_Seq x\<rparr>"

text \<open>The inner loop of \<open>snapshotSide\<close>: from the head along the next references.\<close>

partial_function (option) snapshotQueue ::
  "store \<Rightarrow> oref option \<Rightarrow> OrderSnapshot list \<Rightarrow> OrderSnapshot list option" where
  [code]: "snapshotQueue st cur orders =
     (case cur of
        None \<Rightarrow> Some orders
      | Some r \<Rightarrow> Option.bind (st_orders st r) (\<lambda>od.
          snapshotQueue st (ord_Next od) (orders @ [orderSnapshot od])))"

fun snapshotPrices ::
  "(int64 \<rightharpoonup> lref) \<Rightarrow> store \<Rightarrow> int64 list \<Rightarrow> PriceLevelSnapshot list option" where
  "snapshotPrices levels st [] = Some []"
| "snapshotPrices levels st (price # prices) = do {
     l \<leftarrow> levels price;
     lv \<leftarrow> st_levels st l;
     orders \<leftarrow> snapshotQueue st (lvl_Head lv) [];
     out \<leftarrow> snapshotPrices levels st prices;
     Some (\<lparr>ps_Price = price, ps_Orders = orders\<rparr> # out)
   }"

definition snapshotSide :: "sideBook \<Rightarrow> store \<Rightarrow> PriceLevelSnapshot list option" where
  "snapshotSide side st = snapshotPrices (sb_levels side) st (sb_prices side)"

definition Snapshot :: "Book \<Rightarrow> BookSnapshot option" where
  "Snapshot b = do {
     bids \<leftarrow> snapshotSide (bk_bids b) (bk_store b);
     asks \<leftarrow> snapshotSide (bk_asks b) (bk_store b);
     Some \<lparr>bs_Symbol = bk_Symbol b, bs_NextTradeSeq = bk_nextTradeSeq b, bs_Bids = bids, bs_Asks = asks\<rparr>
   }"

text \<open>\<open>NewFromSnapshot\<close>: every order of the snapshot is allocated and rested in turn.\<close>

fun restoreOrders :: "Book \<Rightarrow> OrderSnapshot list \<Rightarrow> Book option" where
  "restoreOrders b [] = Some b"
| "restoreOrders b (ord # ords) = do {
     let (order, st) = allocOrder (bk_store b)
           (freshOrder (os_ID ord) (os_Side ord) (os_Price ord) (os_LeavesQty ord) (os_Seq ord));
     b \<leftarrow> rest (b\<lparr>bk_store := st\<rparr>) order;
     restoreOrders b ords
   }"

fun restoreSide :: "Book \<Rightarrow> PriceLevelSnapshot list \<Rightarrow> Book option" where
  "restoreSide b [] = Some b"
| "restoreSide b (lvl # lvls) = do {
     b \<leftarrow> restoreOrders b (ps_Orders lvl);
     restoreSide b lvls
   }"

definition NewFromSnapshot :: "BookSnapshot \<Rightarrow> Book option" where
  "NewFromSnapshot s = do {
     let b = (New (bs_Symbol s))\<lparr>bk_nextTradeSeq := bs_NextTradeSeq s\<rparr>;
     b \<leftarrow> restoreSide b (bs_Bids s);
     restoreSide b (bs_Asks s)
   }"

subsection \<open>The self-check of a book\<close>

text \<open>The first loop of \<open>CheckInvariants\<close>: adjacent prices.\<close>

fun checkSorted :: "bool \<Rightarrow> int64 list \<Rightarrow> error option" where
  "checkSorted isBid (p # q # ps) =
     (if isBid \<and> p <s q then Some ''bids are not sorted''
      else if \<not> isBid \<and> q <s p then Some ''asks are not sorted''
      else checkSorted isBid (q # ps))"
| "checkSorted isBid ps = None"

text \<open>The walk along one queue: the error found, or the sum of the leaves quantities.\<close>

partial_function (option) checkQueue ::
  "store \<Rightarrow> lref \<Rightarrow> oref option \<Rightarrow> int64 \<Rightarrow> (error + int64) option" where
  [code]: "checkQueue st level cur qty =
     (case cur of
        None \<Rightarrow> Some (Inr qty)
      | Some r \<Rightarrow> Option.bind (st_orders st r) (\<lambda>od.
          if ord_Level od \<noteq> Some level then Some (Inl ''order-level backref mismatch'')
          else if ord_LeavesQty od \<le>s 0 then Some (Inl ''non-positive leaves'')
          else checkQueue st level (ord_Next od) (qty + ord_LeavesQty od)))"

fun checkLevels :: "(int64 \<rightharpoonup> lref) \<Rightarrow> store \<Rightarrow> int64 list \<Rightarrow> error option option" where
  "checkLevels levels st [] = Some None"
| "checkLevels levels st (price # prices) =
     (case levels price of
        None \<Rightarrow> Some (Some ''missing level'')
      | Some l \<Rightarrow> do {
          lv \<leftarrow> st_levels st l;
          if lvl_Head lv = None \<or> lvl_Tail lv = None then Some (Some ''empty level in index'')
          else do {
            r \<leftarrow> checkQueue st l (lvl_Head lv) 0;
            (case r of
               Inl e \<Rightarrow> Some (Some e)
             | Inr qty \<Rightarrow> if qty \<noteq> lvl_TotalQty lv then Some (Some ''total qty mismatch'')
                          else checkLevels levels st prices)
          }
        })"

definition checkSide :: "sideBook \<Rightarrow> store \<Rightarrow> error option option" where
  "checkSide side st =
     (case checkSorted (sb_isBid side) (sb_prices side) of
        Some e \<Rightarrow> Some (Some e)
      | None \<Rightarrow> checkLevels (sb_levels side) st (sb_prices side))"

text \<open>
  \<open>CheckInvariants\<close>: \<open>Some None\<close> is the nil error, \<open>Some (Some e)\<close> an error, \<open>None\<close> a panic.
\<close>

definition CheckInvariants :: "Book \<Rightarrow> error option option" where
  "CheckInvariants b = do {
     e \<leftarrow> checkSide (bk_bids b) (bk_store b);
     if e \<noteq> None then Some e
     else do {
       e \<leftarrow> checkSide (bk_asks b) (bk_store b);
       if e \<noteq> None then Some e
       else (case (best (bk_bids b), best (bk_asks b)) of
               (Some lb, Some la) \<Rightarrow> do {
                 bl \<leftarrow> st_levels (bk_store b) lb;
                 al \<leftarrow> st_levels (bk_store b) la;
                 Some (if lvl_Price al \<le>s lvl_Price bl then Some ''crossed book detected'' else None)
               }
             | _ \<Rightarrow> Some None)
     }
   }"

end
