(* ===== verification/Price_Index.thy ===== *)
theory Price_Index
  imports Book
begin

text \<open>
  The sorted price slice of a side.  What the code relies on is that the prices are
  strictly sorted by a strict total order of priority: descending for bids, ascending for
  asks.  The locale below states the order, and proves once what a sorted list gives under it;
  it is interpreted on the two comparisons of \<open>findInsertIndex\<close>.  The binary search is then the
  linear scan, and the slice operations of \<open>getOrCreateLevel\<close> and \<open>removeLevelIfEmpty\<close> are
  insertion and deletion in the sorted list.
\<close>

definition before :: "bool \<Rightarrow> int64 \<Rightarrow> int64 \<Rightarrow> bool" where
  "before isBid p q = (if isBid then q <s p else p <s q)"

locale price_priority =
  fixes bef :: "'p \<Rightarrow> 'p \<Rightarrow> bool"
  assumes bef_irrefl: "\<not> bef p p"
    and bef_trans: "bef p q \<Longrightarrow> bef q r \<Longrightarrow> bef p r"
    and bef_total: "p \<noteq> q \<Longrightarrow> bef p q \<or> bef q p"
begin

lemma bef_asym: "bef p q \<Longrightarrow> \<not> bef q p"
  using bef_irrefl bef_trans by blast

lemma sorted_distinct: "sorted_wrt bef ps \<Longrightarrow> distinct ps"
  by (induction ps) (auto simp: bef_irrefl)

lemma split_at:
  assumes "k \<le> length ps" and "\<forall>i<k. bef (ps ! i) p"
    and "\<forall>i. k \<le> i \<longrightarrow> i < length ps \<longrightarrow> \<not> bef (ps ! i) p"
  shows "k = length (takeWhile (\<lambda>q. bef q p) ps)"
proof (rule antisym)
  show "k \<le> length (takeWhile (\<lambda>q. bef q p) ps)"
    using assms(1,2) by (metis (no_types, lifting) leI length_takeWhile_le nth_length_takeWhile
        order.strict_trans2)
  show "length (takeWhile (\<lambda>q. bef q p) ps) \<le> k"
  proof (rule ccontr)
    assume "\<not> ?thesis"
    then have lt: "k < length (takeWhile (\<lambda>q. bef q p) ps)" by simp
    then have "bef (takeWhile (\<lambda>q. bef q p) ps ! k) p"
      using nth_mem set_takeWhileD by metis
    moreover have "k < length ps"
      using lt length_takeWhile_le order.strict_trans2 by blast
    ultimately show False
      using assms(3) takeWhile_nth [OF lt] by auto
  qed
qed

lemma behind:
  assumes "sorted_wrt bef ps" and "i < j" and "j < length ps" and "\<not> bef (ps ! i) p"
  shows "\<not> bef (ps ! j) p"
  using assms bef_trans sorted_wrt_nth_less by blast

lemma ahead:
  assumes "sorted_wrt bef ps" and "i < j" and "j < length ps" and "bef (ps ! j) p"
  shows "bef (ps ! i) p"
  using assms bef_trans sorted_wrt_nth_less by blast

lemma set_dropWhile_not_bef:
  assumes "sorted_wrt bef ps" and "q \<in> set (dropWhile (\<lambda>q. bef q p) ps)"
  shows "\<not> bef q p"
  using assms by (induction ps) (auto split: if_splits dest: bef_trans)

lemma sorted_between:
  assumes "sorted_wrt bef (ts @ ds)" and "\<forall>q\<in>set ts. bef q p" and "\<forall>q\<in>set ds. bef p q"
  shows "sorted_wrt bef (ts @ p # ds)"
  using assms by (simp add: sorted_wrt_append)

lemma sorted_insert:
  assumes "sorted_wrt bef ps" and "p \<notin> set ps"
  shows "sorted_wrt bef (takeWhile (\<lambda>q. bef q p) ps @ p # dropWhile (\<lambda>q. bef q p) ps)"
proof (rule sorted_between)
  show "sorted_wrt bef (takeWhile (\<lambda>q. bef q p) ps @ dropWhile (\<lambda>q. bef q p) ps)"
    using assms(1) by simp
  show "\<forall>q\<in>set (takeWhile (\<lambda>q. bef q p) ps). bef q p"
    using set_takeWhileD by metis
  show "\<forall>q\<in>set (dropWhile (\<lambda>q. bef q p) ps). bef p q"
    using assms set_dropWhile_not_bef set_dropWhileD bef_total by metis
qed

lemma takeWhile_at:
  assumes "sorted_wrt bef (xs @ p # ys)"
  shows "takeWhile (\<lambda>q. bef q p) (xs @ p # ys) = xs"
  using assms bef_irrefl by (auto simp: sorted_wrt_append takeWhile_append)

end

interpretation prio: price_priority "before isBid" for isBid
proof unfold_locales
  fix p q :: int64
  assume "p \<noteq> q"
  then have "sint p \<noteq> sint q" by (simp add: sint_inj64)
  then show "before isBid p q \<or> before isBid q p"
    by (auto simp: before_def signed_sint)
qed (auto simp: before_def signed_sint split: if_splits)

text \<open>The loop of the binary search finds the end of the prices ahead of the given one.\<close>

lemma insertSearch_step:
  "insertSearch isBid prices price left right =
     (if left < right then
        (let mid = left + (right - left) div 2 in
         if before isBid (prices ! mid) price then insertSearch isBid prices price (mid + 1) right
         else insertSearch isBid prices price left mid)
      else left)"
  by (subst insertSearch.simps) (simp add: before_def Let_def)

lemma insertSearch_bounds:
  assumes "sorted_wrt (before isBid) prices" and "left \<le> right" and "right \<le> length prices"
    and "\<forall>i<left. before isBid (prices ! i) price"
    and "\<forall>i. right \<le> i \<longrightarrow> i < length prices \<longrightarrow> \<not> before isBid (prices ! i) price"
  shows "insertSearch isBid prices price left right
         = length (takeWhile (\<lambda>q. before isBid q price) prices)"
  using assms(2-)
proof (induction "right - left" arbitrary: left right rule: less_induct)
  case less
  let ?mid = "left + (right - left) div 2"
  show ?case
  proof (cases "left < right")
    case False
    with less.prems have "left = right" by simp
    then show ?thesis
      using less.prems prio.split_at [of left prices isBid price]
      by (subst insertSearch_step) auto
  next
    case lr: True
    then have m: "left \<le> ?mid" "?mid < right" by auto
    then have ml: "?mid < length prices" using less.prems by linarith
    show ?thesis
    proof (cases "before isBid (prices ! ?mid) price")
      case True
      have "\<forall>i<?mid + 1. before isBid (prices ! i) price"
        using True ml assms(1) prio.ahead [of isBid prices _ ?mid price]
        by (metis Suc_eq_plus1 less_Suc_eq)
      then have "insertSearch isBid prices price (?mid + 1) right
            = length (takeWhile (\<lambda>q. before isBid q price) prices)"
        using m less.prems by (intro less.hyps) auto
      then show ?thesis using lr True by (subst insertSearch_step) (simp add: Let_def)
    next
      case False
      have "\<forall>i. ?mid \<le> i \<longrightarrow> i < length prices \<longrightarrow> \<not> before isBid (prices ! i) price"
        using False assms(1) prio.behind [of isBid prices ?mid _ price]
        by (metis le_neq_implies_less)
      then have "insertSearch isBid prices price left ?mid
            = length (takeWhile (\<lambda>q. before isBid q price) prices)"
        using m ml less.prems by (intro less.hyps) auto
      then show ?thesis using lr False by (subst insertSearch_step) (simp add: Let_def)
    qed
  qed
qed

lemma findInsertIndex_scan:
  assumes "sorted_wrt (before (sb_isBid s)) (sb_prices s)"
  shows "findInsertIndex s price
         = length (takeWhile (\<lambda>q. before (sb_isBid s) q price) (sb_prices s))"
  unfolding findInsertIndex_def using assms by (intro insertSearch_bounds) auto

lemma findPriceIndex_at:
  assumes "sorted_wrt (before (sb_isBid s)) (sb_prices s)" and "sb_prices s = xs @ price # ys"
  shows "findPriceIndex s price = int (length xs)"
  using assms prio.takeWhile_at [of "sb_isBid s" xs price ys]
  by (simp add: findPriceIndex_def findInsertIndex_scan Let_def)

lemma copyWithin_shift:
  assumes "k \<le> length xs"
  shows "(copyWithin (xs @ [z]) (k + 1) k)[k := p] = take k xs @ p # drop k xs"
proof -
  have "copyWithin (xs @ [z]) (k + 1) k = take (k + 1) (xs @ [z]) @ drop k xs"
    using assms by (simp add: copyWithin_def Let_def)
  also have "take (k + 1) (xs @ [z]) = take k xs @ [(xs @ [z]) ! k]"
    using assms take_Suc_conv_app_nth [of k "xs @ [z]"] by auto
  finally have "copyWithin (xs @ [z]) (k + 1) k = take k xs @ (xs @ [z]) ! k # drop k xs"
    by simp
  then show ?thesis
    using assms by (simp only:) (simp add: list_update_append)
qed

text \<open>
  The binary search of a side finds, for any price, the position a linear scan finds: on a
  strictly sorted price slice \<open>findInsertIndex\<close> returns the number of prices that have
  priority over the given one, for bids (descending) and for asks (ascending) alike.
\<close>

lemma binary_search_is_scan:
  assumes "sorted_wrt (before (sb_isBid s)) (sb_prices s)"
  shows "findInsertIndex s price
         = length (filter (\<lambda>q. before (sb_isBid s) q price) (sb_prices s))"
proof -
  have "takeWhile (\<lambda>q. before (sb_isBid s) q price) (sb_prices s)
        = filter (\<lambda>q. before (sb_isBid s) q price) (sb_prices s)"
    using prio.set_dropWhile_not_bef [OF assms] by (intro takeWhile_eq_filter)
  then show ?thesis using assms by (simp add: findInsertIndex_scan)
qed

end
