(* ===== verification/Level_Queue.thy ===== *)
theory Level_Queue
  imports Book
begin

text \<open>
  The intrusive queue of a price level is a first-in first-out queue.  \<open>queue_ok st l rs\<close> says
  that the references \<open>rs\<close> are the queue of level \<open>l\<close> in the store: head and tail of the level,
  the two links and the level field of every order, and the total quantity all agree with the
  list.  \<open>level_append\<close> adds at the end, \<open>level_remove\<close> takes out one element, and neither
  touches anything outside the queue (\<open>frame\<close>) nor the data of any order (\<open>same_values\<close>).
\<close>

subsection \<open>Reads of the store\<close>

lemma updOrder_Some [store_simps]:
  "st_orders st r = Some od \<Longrightarrow>
   updOrder st r f = Some (st\<lparr>st_orders := (st_orders st)(r \<mapsto> f od)\<rparr>)"
  by (simp add: updOrder_def)

lemma updLevel_Some [store_simps]:
  "st_levels st l = Some lv \<Longrightarrow>
   updLevel st l f = Some (st\<lparr>st_levels := (st_levels st)(l \<mapsto> f lv)\<rparr>)"
  by (simp add: updLevel_def)

definition oval :: "store \<Rightarrow> oref \<Rightarrow> OrderSnapshot" where
  "oval st r = orderSnapshot (the (st_orders st r))"

lemma oval_Some [store_simps]: "st_orders st r = Some od \<Longrightarrow> oval st r = orderSnapshot od"
  by (simp add: oval_def)

lemma orderSnapshot_sel [simp]:
  "os_ID (orderSnapshot od) = ord_ID od" "os_Side (orderSnapshot od) = ord_Side od"
  "os_Price (orderSnapshot od) = ord_Price od" "os_LeavesQty (orderSnapshot od) = ord_LeavesQty od"
  "os_Seq (orderSnapshot od) = ord_Seq od"
  by (simp_all add: orderSnapshot_def)

lemma orderSnapshot_links [simp]:
  "orderSnapshot (od\<lparr>ord_Prev := p\<rparr>) = orderSnapshot od"
  "orderSnapshot (od\<lparr>ord_Next := n\<rparr>) = orderSnapshot od"
  "orderSnapshot (od\<lparr>ord_Level := l\<rparr>) = orderSnapshot od"
  by (simp_all add: orderSnapshot_def)

subsection \<open>Doubly linked segments\<close>

fun firstRef :: "'a list \<Rightarrow> 'a option \<Rightarrow> 'a option" where
  "firstRef [] n = n"
| "firstRef (r # rs) n = Some r"

fun lastRef :: "'a list \<Rightarrow> 'a option \<Rightarrow> 'a option" where
  "lastRef [] p = p"
| "lastRef (r # rs) p = lastRef rs (Some r)"

lemma firstRef_append [simp]: "firstRef (xs @ ys) n = firstRef xs (firstRef ys n)"
  by (cases xs) auto

lemma lastRef_append [simp]: "lastRef (xs @ ys) p = lastRef ys (lastRef xs p)"
  by (induction xs arbitrary: p) auto

lemma firstRef_None_iff [simp]: "firstRef rs None = None \<longleftrightarrow> rs = []"
  by (cases rs) auto

lemma firstRef_in: "firstRef rs None = Some x \<Longrightarrow> x \<in> set rs"
  by (cases rs) auto

lemma lastRef_in: "lastRef rs None = Some x \<Longrightarrow> x \<in> set rs"
  by (cases rs rule: rev_cases) auto

lemma lastRef_None_iff [simp]: "lastRef rs p = None \<longleftrightarrow> rs = [] \<and> p = None"
  by (induction rs arbitrary: p) auto

fun links :: "store \<Rightarrow> lref \<Rightarrow> oref option \<Rightarrow> oref list \<Rightarrow> oref option \<Rightarrow> bool" where
  "links st l p [] n = True"
| "links st l p (r # rs) n =
     ((\<exists>od. st_orders st r = Some od \<and> ord_Prev od = p \<and> ord_Next od = firstRef rs n
         \<and> ord_Level od = Some l) \<and> links st l (Some r) rs n)"

lemma links_append:
  "links st l p (xs @ ys) n \<longleftrightarrow> links st l p xs (firstRef ys n) \<and> links st l (lastRef xs p) ys n"
  by (induction xs arbitrary: p) auto

lemma links_cong:
  assumes "\<forall>r\<in>set rs. st_orders st' r = st_orders st r"
  shows "links st' l p rs n = links st l p rs n"
  using assms by (induction rs arbitrary: p) auto

lemma links_level:
  "links st l p rs n \<Longrightarrow> r \<in> set rs \<Longrightarrow> \<exists>od. st_orders st r = Some od \<and> ord_Level od = Some l"
  by (induction rs arbitrary: p) auto

definition leavesSum :: "store \<Rightarrow> oref list \<Rightarrow> int64" where
  "leavesSum st rs = (\<Sum>r\<leftarrow>rs. os_LeavesQty (oval st r))"

lemma leavesSum_simps [simp]:
  "leavesSum st [] = 0" "leavesSum st (r # rs) = os_LeavesQty (oval st r) + leavesSum st rs"
  "leavesSum st (xs @ ys) = leavesSum st xs + leavesSum st ys"
  by (simp_all add: leavesSum_def)

lemma leavesSum_cong:
  "(\<forall>r\<in>set rs. oval st' r = oval st r) \<Longrightarrow> leavesSum st' rs = leavesSum st rs"
  by (induction rs) auto

lemma oval_cong: "st_orders st' r = st_orders st r \<Longrightarrow> oval st' r = oval st r"
  by (simp add: oval_def)

definition queue_ok :: "store \<Rightarrow> lref \<Rightarrow> oref list \<Rightarrow> bool" where
  "queue_ok st l rs \<longleftrightarrow>
     (\<exists>lv. st_levels st l = Some lv \<and> lvl_Head lv = firstRef rs None \<and> lvl_Tail lv = lastRef rs None
        \<and> lvl_TotalQty lv = leavesSum st rs)
     \<and> links st l None rs None \<and> distinct rs"

definition frame :: "lref \<Rightarrow> oref set \<Rightarrow> store \<Rightarrow> store \<Rightarrow> bool" where
  "frame l R st st' \<longleftrightarrow>
     (\<forall>r. r \<notin> R \<longrightarrow> st_orders st' r = st_orders st r) \<and> (\<forall>k. k \<noteq> l \<longrightarrow> st_levels st' k = st_levels st k)
     \<and> map_option lvl_Price (st_levels st' l) = map_option lvl_Price (st_levels st l)
     \<and> dom (st_orders st') = dom (st_orders st)
     \<and> st_nextOrder st' = st_nextOrder st \<and> st_nextLevel st' = st_nextLevel st"

definition same_values :: "store \<Rightarrow> store \<Rightarrow> bool" where
  "same_values st st' \<longleftrightarrow>
     (\<forall>r. map_option orderSnapshot (st_orders st' r) = map_option orderSnapshot (st_orders st r))"

lemma same_values_oval: "same_values st st' \<Longrightarrow> r \<in> dom (st_orders st) \<Longrightarrow> oval st' r = oval st r"
  unfolding same_values_def oval_def by (drule spec [of _ r]) auto

lemma queue_ok_cong:
  assumes "queue_ok st l rs" and "st_levels st' l = st_levels st l"
    and "\<forall>r\<in>set rs. st_orders st' r = st_orders st r"
  shows "queue_ok st' l rs"
proof -
  have "leavesSum st' rs = leavesSum st rs"
    using assms(3) by (auto intro: leavesSum_cong oval_cong)
  then show ?thesis
    using assms links_cong [OF assms(3)] by (simp add: queue_ok_def)
qed

lemma queue_ok_level:
  assumes "queue_ok st l rs" and "r \<in> set rs"
  shows "\<exists>od. st_orders st r = Some od \<and> ord_Level od = Some l"
  using assms links_level by (auto simp: queue_ok_def)

lemma queue_ok_dom: "queue_ok st l rs \<Longrightarrow> set rs \<subseteq> dom (st_orders st)"
  using queue_ok_level by fastforce

lemma queue_ok_empty:
  "queue_ok st l [] \<longleftrightarrow> (\<exists>lv. st_levels st l = Some lv \<and> lvl_Head lv = None \<and> lvl_Tail lv = None
     \<and> lvl_TotalQty lv = 0)"
  by (auto simp: queue_ok_def)

subsection \<open>Appending at the tail\<close>

lemma level_append_empty:
  assumes "queue_ok st l []" and od: "st_orders st r = Some od"
  obtains st' where "level_append st l r = Some st'" and "queue_ok st' l [r]"
    and "frame l {r} st st'" and "same_values st st'"
proof -
  obtain lv where lv: "st_levels st l = Some lv" "lvl_Head lv = None" "lvl_Tail lv = None"
    "lvl_TotalQty lv = 0"
    using assms(1) by (auto simp: queue_ok_empty)
  let ?od = "od\<lparr>ord_Prev := None, ord_Next := None, ord_Level := Some l\<rparr>"
  let ?st = "st\<lparr>st_orders := (st_orders st)(r \<mapsto> ?od), st_levels := (st_levels st)(l \<mapsto>
      lv\<lparr>lvl_Head := Some r, lvl_Tail := Some r, lvl_TotalQty := ord_LeavesQty od\<rparr>)\<rparr>"
  show ?thesis
  proof (rule that)
    show "level_append st l r = Some ?st"
      using lv od by (simp add: level_append_def store_simps)
    show "queue_ok ?st l [r]" by (simp add: queue_ok_def oval_def)
    show "frame l {r} st ?st" using lv od by (auto simp: frame_def)
    show "same_values st ?st" using od by (simp add: same_values_def)
  qed
qed

lemma level_append_snoc:
  assumes q: "queue_ok st l (xs @ [t])" and od: "st_orders st r = Some od" and r: "r \<notin> set (xs @ [t])"
  obtains st' where "level_append st l r = Some st'" and "queue_ok st' l (xs @ [t, r])"
    and "frame l {t, r} st st'" and "same_values st st'"
proof -
  obtain lv where lv: "st_levels st l = Some lv" "lvl_Head lv = firstRef (xs @ [t]) None"
    "lvl_Tail lv = Some t" "lvl_TotalQty lv = leavesSum st (xs @ [t])"
    and lk: "links st l None xs (Some t)" and di: "distinct (xs @ [t])"
    using q by (auto simp: queue_ok_def links_append)
  obtain to where to: "st_orders st t = Some to" "ord_Prev to = lastRef xs None" "ord_Level to = Some l"
    using q by (auto simp: queue_ok_def links_append)
  let ?od = "od\<lparr>ord_Prev := Some t, ord_Next := None, ord_Level := Some l\<rparr>"
  let ?st = "st\<lparr>st_orders := (st_orders st)(r \<mapsto> ?od, t \<mapsto> to\<lparr>ord_Next := Some r\<rparr>),
      st_levels := (st_levels st)(l \<mapsto>
        lv\<lparr>lvl_Tail := Some r, lvl_TotalQty := lvl_TotalQty lv + ord_LeavesQty od\<rparr>)\<rparr>"
  have xs: "\<forall>x\<in>set xs. st_orders ?st x = st_orders st x" using di r by auto
  have sum: "leavesSum ?st xs = leavesSum st xs"
    using xs by (intro leavesSum_cong ballI oval_cong) blast
  show ?thesis
  proof (rule that)
    show "level_append st l r = Some ?st"
      using lv od to r by (simp add: level_append_def store_simps)
    show "queue_ok ?st l (xs @ [t, r])"
      using lv lk di r to sum links_cong [OF xs] by (simp add: queue_ok_def links_append store_simps)
    show "frame l {t, r} st ?st" using lv od to by (auto simp: frame_def)
    show "same_values st ?st" using od to by (simp add: same_values_def)
  qed
qed

lemma frame_mono: "frame l R st st' \<Longrightarrow> R \<subseteq> R' \<Longrightarrow> frame l R' st st'"
  by (auto simp: frame_def)

lemma level_append_queue:
  assumes "queue_ok st l rs" and "st_orders st r = Some od" and "r \<notin> set rs"
  obtains st' where "level_append st l r = Some st'" and "queue_ok st' l (rs @ [r])"
    and "frame l (insert r (set rs)) st st'" and "same_values st st'"
proof (cases rs rule: rev_cases)
  case Nil
  then show ?thesis using assms level_append_empty that by (metis append_Nil list.set(1))
next
  case (snoc xs t)
  then obtain st' where st': "level_append st l r = Some st'" "queue_ok st' l (xs @ [t, r])"
    "frame l {t, r} st st'" "same_values st st'"
    using assms level_append_snoc by metis
  have "frame l (insert r (set rs)) st st'"
    using st'(3) snoc by (auto intro: frame_mono)
  then show ?thesis using st' snoc that by simp
qed

subsection \<open>Removing from anywhere\<close>

lemma links_relink_next:
  assumes "links st l p xs m" and "distinct xs"
    and upd: "\<forall>x\<in>set xs. st_orders st' x =
      (if lastRef xs None = Some x then map_option (ord_Next_update (\<lambda>_. n)) (st_orders st x)
       else st_orders st x)"
  shows "links st' l p xs n"
proof (cases xs rule: rev_cases)
  case (snoc zs t)
  have "\<forall>x\<in>set zs. st_orders st' x = st_orders st x" using assms(2) upd snoc by auto
  from links_cong [OF this] show ?thesis using assms snoc by (auto simp: links_append)
qed simp

lemma links_relink_prev:
  assumes "links st l p ys n" and "distinct ys"
    and upd: "\<forall>x\<in>set ys. st_orders st' x =
      (if firstRef ys None = Some x then map_option (ord_Prev_update (\<lambda>_. q)) (st_orders st x)
       else st_orders st x)"
  shows "links st' l q ys n"
proof (cases ys)
  case (Cons t zs)
  have "\<forall>x\<in>set zs. st_orders st' x = st_orders st x" using assms(2) upd Cons by auto
  from links_cong [OF this] show ?thesis using assms Cons by auto
qed simp

text \<open>The store after an order between \<open>xs\<close> and \<open>ys\<close> has been taken out.\<close>

definition unlinked :: "store \<Rightarrow> lref \<Rightarrow> oref list \<Rightarrow> oref \<Rightarrow> oref list \<Rightarrow> store" where
  "unlinked st l xs r ys =
     st\<lparr>st_orders := (\<lambda>x.
          if x = r then map_option (\<lambda>y. y\<lparr>ord_Prev := None, ord_Next := None, ord_Level := None\<rparr>)
                          (st_orders st r)
          else if lastRef xs None = Some x
          then map_option (ord_Next_update (\<lambda>_. firstRef ys None)) (st_orders st x)
          else if firstRef ys None = Some x
          then map_option (ord_Prev_update (\<lambda>_. lastRef xs None)) (st_orders st x)
          else st_orders st x),
        st_levels := (\<lambda>k. if k = l
          then map_option (\<lambda>v. v\<lparr>lvl_Head := firstRef (xs @ ys) None, lvl_Tail := lastRef (xs @ ys) None,
                 lvl_TotalQty := lvl_TotalQty v - os_LeavesQty (oval st r)\<rparr>) (st_levels st l)
          else st_levels st k)\<rparr>"

lemma level_remove_unlinked:
  assumes "queue_ok st l (xs @ r # ys)"
  shows "level_remove st l r = Some (unlinked st l xs r ys)"
proof -
  obtain lv where lv: "st_levels st l = Some lv"
      "lvl_Head lv = firstRef (xs @ r # ys) None" "lvl_Tail lv = lastRef (xs @ r # ys) None"
    and di: "distinct (xs @ r # ys)" and lk: "links st l None (xs @ r # ys) None"
    using assms by (auto simp: queue_ok_def)
  obtain od where od: "st_orders st r = Some od" "ord_Prev od = lastRef xs None"
    "ord_Next od = firstRef ys None" using lk by (auto simp: links_append)
  show ?thesis
  proof (cases xs rule: rev_cases; cases ys)
    assume "xs = []" "ys = []"
    then show ?thesis using lv od
      by (auto simp: level_remove_def unlinked_def store_simps fun_eq_iff intro!: store.equality)
  next
    fix n zs assume "xs = []" and ys: "ys = n # zs"
    moreover obtain no where "st_orders st n = Some no" using lk ys by (auto simp: links_append)
    ultimately show ?thesis using lv od di
      by (auto simp: level_remove_def unlinked_def store_simps fun_eq_iff intro!: store.equality)
  next
    fix ws p assume xs: "xs = ws @ [p]" and "ys = []"
    moreover obtain po where "st_orders st p = Some po" using lk xs by (auto simp: links_append)
    ultimately show ?thesis using lv od di
      by (auto simp: level_remove_def unlinked_def store_simps fun_eq_iff intro!: store.equality)
  next
    fix ws p n zs assume xs: "xs = ws @ [p]" and ys: "ys = n # zs"
    moreover obtain po no where "st_orders st p = Some po" "st_orders st n = Some no"
      using lk xs ys by (auto simp: links_append)
    ultimately show ?thesis using lv od di
      by (auto simp: level_remove_def unlinked_def store_simps fun_eq_iff intro!: store.equality)
  qed
qed

lemma unlinked_queue:
  assumes "queue_ok st l (xs @ r # ys)"
  shows "queue_ok (unlinked st l xs r ys) l (xs @ ys)"
proof -
  let ?st = "unlinked st l xs r ys"
  have di: "distinct (xs @ r # ys)" and lk: "links st l None xs (Some r)" "links st l (Some r) ys None"
    using assms by (auto simp: queue_ok_def links_append)
  have n1: "lastRef xs None \<noteq> Some y" if "y \<in> set ys" for y
    using that di lastRef_in [of xs y] by auto
  have n2: "firstRef ys None \<noteq> Some x" if "x \<in> set xs" for x
    using that di firstRef_in [of ys x] by auto
  have "links ?st l None xs (firstRef ys None)"
    using di n1 n2 by (intro links_relink_next [OF lk(1)]) (auto simp: unlinked_def)
  moreover have "links ?st l (lastRef xs None) ys None"
    using di n1 n2 by (intro links_relink_prev [OF lk(2)]) (auto simp: unlinked_def)
  moreover have "leavesSum ?st (xs @ ys) = leavesSum st (xs @ ys)"
  proof (rule leavesSum_cong, rule ballI)
    fix x assume "x \<in> set (xs @ ys)"
    then obtain od where "st_orders st x = Some od" "x \<noteq> r"
      using di queue_ok_level [OF assms, of x] by auto
    then show "oval ?st x = oval st x" by (simp add: unlinked_def oval_def)
  qed
  ultimately show ?thesis
    using assms di by (auto simp: queue_ok_def links_append unlinked_def)
qed

lemma unlinked_frame:
  assumes "queue_ok st l (xs @ r # ys)"
  shows "frame l (set (xs @ r # ys)) st (unlinked st l xs r ys)"
  by (auto simp: frame_def unlinked_def option.map_comp o_def dest: firstRef_in lastRef_in split: if_splits)

lemma unlinked_values: "same_values st (unlinked st l xs r ys)"
  by (simp add: same_values_def unlinked_def option.map_comp o_def)
subsection \<open>Changing the quantity of a queued order\<close>

definition requantified :: "store \<Rightarrow> lref \<Rightarrow> oref \<Rightarrow> int64 \<Rightarrow> store" where
  "requantified st l r v =
     st\<lparr>st_orders := (st_orders st)(r := map_option (ord_LeavesQty_update (\<lambda>_. v)) (st_orders st r)),
        st_levels := (st_levels st)(l := map_option (\<lambda>lv. lv\<lparr>lvl_TotalQty :=
            lvl_TotalQty lv - (os_LeavesQty (oval st r) - v)\<rparr>) (st_levels st l))\<rparr>"

lemma requantified_oval:
  assumes "st_orders st r = Some od"
  shows "oval (requantified st l r v) x = (if x = r then (oval st r)\<lparr>os_LeavesQty := v\<rparr> else oval st x)"
  using assms by (simp add: requantified_def oval_def orderSnapshot_def)

lemma requantified_levels:
  "st_levels (requantified st l r v) k =
     (if k = l then map_option (\<lambda>lv. lv\<lparr>lvl_TotalQty := lvl_TotalQty lv - (os_LeavesQty (oval st r) - v)\<rparr>)
         (st_levels st l)
      else st_levels st k)"
  by (simp add: requantified_def)

lemma links_same_links:
  assumes "\<forall>r\<in>set rs. \<forall>od. st_orders st r = Some od \<longrightarrow> (\<exists>od'. st_orders st' r = Some od'
      \<and> ord_Prev od' = ord_Prev od \<and> ord_Next od' = ord_Next od \<and> ord_Level od' = ord_Level od)"
    and "links st l p rs n"
  shows "links st' l p rs n"
  using assms by (induction rs arbitrary: p) fastforce+

lemma requantified_queue:
  assumes q: "queue_ok st l (xs @ r # ys)"
  shows "queue_ok (requantified st l r v) l (xs @ r # ys)"
proof -
  let ?st = "requantified st l r v"
  obtain od where od: "st_orders st r = Some od" using queue_ok_level [OF q, of r] by auto
  have di: "distinct (xs @ r # ys)" using q by (simp add: queue_ok_def)
  have "links ?st l None (xs @ r # ys) None"
    by (rule links_same_links [of _ st]) (use q in \<open>auto simp: queue_ok_def requantified_def\<close>)
  moreover have "leavesSum ?st xs = leavesSum st xs" "leavesSum ?st ys = leavesSum st ys"
    using di by (auto intro!: leavesSum_cong simp: requantified_oval [OF od])
  ultimately show ?thesis
    using q di by (fastforce simp: queue_ok_def requantified_oval [OF od] requantified_levels)
qed

lemma requantified_frame:
  "r \<in> dom (st_orders st) \<Longrightarrow> frame l {r} st (requantified st l r v)"
  by (auto simp: frame_def requantified_def option.map_comp o_def)

subsection \<open>Walks along a queue\<close>

lemma snapshotQueue_links:
  "links st l p rs None \<Longrightarrow>
   snapshotQueue st (firstRef rs None) acc = Some (acc @ map (oval st) rs)"
proof (induction rs arbitrary: p acc)
  case Nil
  then show ?case by (simp add: snapshotQueue.simps)
next
  case (Cons r rs)
  then show ?case by (subst snapshotQueue.simps) (auto simp: store_simps)
qed

lemma checkQueue_links:
  assumes "links st l p rs None" and "\<forall>r\<in>set rs. 0 < sint (os_LeavesQty (oval st r))"
  shows "checkQueue st l (firstRef rs None) acc = Some (Inr (acc + leavesSum st rs))"
  using assms
proof (induction rs arbitrary: p acc)
  case Nil
  then show ?case by (simp add: checkQueue.simps)
next
  case (Cons r rs)
  then show ?case
    by (subst checkQueue.simps) (auto simp: store_simps signed_sint add.assoc)
qed

subsection \<open>The queue as a first-in first-out interface\<close>

text \<open>
  What the book relies on: appending allocated elements that are not queued puts them at the end,
  in order, and any queued element can be taken out without disturbing the others.
\<close>

locale fifo_queue =
  fixes app :: "'s \<Rightarrow> 'l \<Rightarrow> 'r \<Rightarrow> 's option" and rem :: "'s \<Rightarrow> 'l \<Rightarrow> 'r \<Rightarrow> 's option"
    and is_q :: "'s \<Rightarrow> 'l \<Rightarrow> 'r list \<Rightarrow> bool" and alloc :: "'s \<Rightarrow> 'r set"
    and contents :: "'s \<Rightarrow> 'r \<Rightarrow> 'v"
  assumes app_ok: "is_q s l rs \<Longrightarrow> r \<in> alloc s \<Longrightarrow> r \<notin> set rs \<Longrightarrow>
      \<exists>s'. app s l r = Some s' \<and> is_q s' l (rs @ [r]) \<and> alloc s' = alloc s
        \<and> (\<forall>x\<in>alloc s. contents s' x = contents s x)"
    and rem_ok: "is_q s l (xs @ r # ys) \<Longrightarrow>
      \<exists>s'. rem s l r = Some s' \<and> is_q s' l (xs @ ys) \<and> alloc s' = alloc s
        \<and> (\<forall>x\<in>alloc s. contents s' x = contents s x)"
    and q_alloc: "is_q s l rs \<Longrightarrow> set rs \<subseteq> alloc s \<and> distinct rs"
begin

lemma app_all:
  assumes "is_q s l rs" and "distinct (rs @ ys)" and "set ys \<subseteq> alloc s"
  shows "\<exists>s'. foldM (\<lambda>s. app s l) s ys = Some s' \<and> is_q s' l (rs @ ys)
         \<and> alloc s' = alloc s \<and> (\<forall>x\<in>alloc s. contents s' x = contents s x)"
  using assms
proof (induction ys arbitrary: s rs)
  case (Cons y ys)
  then obtain s1 where s1: "app s l y = Some s1" "is_q s1 l (rs @ [y])" "alloc s1 = alloc s"
    "\<forall>x\<in>alloc s. contents s1 x = contents s x"
    using app_ok [of s l rs y] by auto
  with Cons.IH [of s1 "rs @ [y]"] Cons.prems show ?case by auto
qed simp

lemma rem_all:
  assumes "is_q s l (xs @ ys)"
  shows "\<exists>s'. foldM (\<lambda>s. rem s l) s xs = Some s' \<and> is_q s' l ys"
  using assms
proof (induction xs arbitrary: s)
  case (Cons x xs)
  then obtain s1 where "rem s l x = Some s1" "is_q s1 l (xs @ ys)"
    using rem_ok [of s l "[]" x "xs @ ys"] by auto
  with Cons.IH [of s1] show ?case by auto
qed simp

end

interpretation lq: fifo_queue level_append level_remove queue_ok "\<lambda>st. dom (st_orders st)" oval
proof unfold_locales
  fix st l rs and r :: oref
  assume "queue_ok st l rs" and "r \<in> dom (st_orders st)" and "r \<notin> set rs"
  then obtain od st' where "level_append st l r = Some st'" "queue_ok st' l (rs @ [r])"
    "frame l (insert r (set rs)) st st'" "same_values st st'"
    using level_append_queue by (metis domD)
  then show "\<exists>s'. level_append st l r = Some s' \<and> queue_ok s' l (rs @ [r])
      \<and> dom (st_orders s') = dom (st_orders st) \<and> (\<forall>x\<in>dom (st_orders st). oval s' x = oval st x)"
    by (auto simp: frame_def same_values_oval domI)
next
  fix st l xs ys and r :: oref
  assume q: "queue_ok st l (xs @ r # ys)"
  show "\<exists>s'. level_remove st l r = Some s' \<and> queue_ok s' l (xs @ ys)
      \<and> dom (st_orders s') = dom (st_orders st) \<and> (\<forall>x\<in>dom (st_orders st). oval s' x = oval st x)"
    using level_remove_unlinked [OF q] unlinked_queue [OF q] unlinked_frame [OF q]
      same_values_oval [OF unlinked_values] by (auto simp: frame_def)
qed (auto simp: queue_ok_def dest: links_level)

end
