(* ===== verification/Book_Inv.thy ===== *)
theory Book_Inv
  imports Price_Index Level_Queue
begin

text \<open>
  The representation invariant of the pointer structure.  A layout lists, for each side, the
  cells (price, level, queued orders) in price order.  \<open>book_ok b L\<close> says that the book \<open>b\<close> has
  the layout \<open>L\<close>: every queue is well linked, the price slice and the level map of each side list
  exactly the cells, no level is shared or empty, and the order index is exactly the queued
  orders by their ids.  The operations that link, unlink and change orders keep it, and their
  effect on the layout is that of the corresponding list operation.
\<close>

type_synonym cell = "int64 \<times> lref \<times> oref list"
type_synonym layout = "side_ptr \<Rightarrow> cell list"

definition queued :: "cell list \<Rightarrow> oref list" where
  "queued cs = concat (map (\<lambda>(p, l, rs). rs) cs)"

lemma queued_simps [simp]:
  "queued [] = []" "queued ((p, l, rs) # cs) = rs @ queued cs" "queued (cs @ ds) = queued cs @ queued ds"
  by (simp_all add: queued_def)

lemma in_queued: "r \<in> set (queued cs) \<longleftrightarrow> (\<exists>p l rs. (p, l, rs) \<in> set cs \<and> r \<in> set rs)"
  by (force simp: queued_def)

definition live :: "layout \<Rightarrow> oref set" where
  "live L = (\<Union>s. set (queued (L s)))"

definition cell_ok :: "store \<Rightarrow> side_ptr \<Rightarrow> cell \<Rightarrow> bool" where
  "cell_ok st s c = (case c of (p, l, rs) \<Rightarrow>
     queue_ok st l rs \<and> map_option lvl_Price (st_levels st l) = Some p
     \<and> (\<forall>r\<in>set rs. os_Price (oval st r) = p \<and> bookSide (os_Side (oval st r)) = s))"

definition cells_ok :: "store \<Rightarrow> layout \<Rightarrow> bool" where
  "cells_ok st L \<longleftrightarrow> (\<forall>s. \<forall>c\<in>set (L s). cell_ok st s c)
     \<and> (\<forall>s t p q l rs qs. (p, l, rs) \<in> set (L s) \<longrightarrow> (q, l, qs) \<in> set (L t) \<longrightarrow> s = t \<and> p = q \<and> rs = qs)"

definition side_index :: "sideBook \<Rightarrow> bool \<Rightarrow> cell list \<Rightarrow> bool" where
  "side_index sb isBid cs \<longleftrightarrow> sb_isBid sb = isBid \<and> sb_prices sb = map fst cs
     \<and> sorted_wrt (before isBid) (map fst cs)
     \<and> (\<forall>p l. sb_levels sb p = Some l \<longleftrightarrow> (\<exists>rs. (p, l, rs) \<in> set cs))"

definition alloc_ok :: "store \<Rightarrow> bool" where
  "alloc_ok st \<longleftrightarrow> (\<forall>r. st_orders st r \<noteq> None \<longrightarrow> r < st_nextOrder st)
     \<and> (\<forall>l. st_levels st l \<noteq> None \<longrightarrow> l < st_nextLevel st)"

definition isBids :: "side_ptr \<Rightarrow> bool" where
  "isBids s = (s = Bids)"

definition index_ok :: "Book \<Rightarrow> layout \<Rightarrow> bool" where
  "index_ok b L \<longleftrightarrow>
     (\<forall>oid r. bk_orders b oid = Some r \<longleftrightarrow> r \<in> live L \<and> os_ID (oval (bk_store b) r) = oid)"

definition book_ok :: "Book \<Rightarrow> layout \<Rightarrow> bool" where
  "book_ok b L \<longleftrightarrow> cells_ok (bk_store b) L \<and> (\<forall>s. side_index (sideAt b s) (isBids s) (L s))
     \<and> (\<forall>s p l. (p, l, []) \<notin> set (L s)) \<and> index_ok b L \<and> alloc_ok (bk_store b)"

subsection \<open>Reading the invariant\<close>

lemma sideAt_setSide [simp]: "sideAt (setSide b s sb) t = (if s = t then sb else sideAt b t)"
  by (cases s; cases t) auto

lemma setSide_sel [simp]:
  "bk_store (setSide b s sb) = bk_store b" "bk_orders (setSide b s sb) = bk_orders b"
  "bk_Symbol (setSide b s sb) = bk_Symbol b" "bk_nextTradeSeq (setSide b s sb) = bk_nextTradeSeq b"
  by (cases s; simp)+

lemma sideAt_upd [simp]:
  "sideAt (b\<lparr>bk_store := st\<rparr>) s = sideAt b s" "sideAt (b\<lparr>bk_orders := m\<rparr>) s = sideAt b s"
  "sideAt (b\<lparr>bk_nextTradeSeq := n\<rparr>) s = sideAt b s"
  by (cases s; simp)+

lemma live_iff: "r \<in> live L \<longleftrightarrow> (\<exists>s p l rs. (p, l, rs) \<in> set (L s) \<and> r \<in> set rs)"
  by (auto simp: live_def in_queued)

lemma cells_okI:
  assumes "\<And>s p l rs. (p, l, rs) \<in> set (L s) \<Longrightarrow> cell_ok st s (p, l, rs)"
    and "\<And>s t p q l rs qs. (p, l, rs) \<in> set (L s) \<Longrightarrow> (q, l, qs) \<in> set (L t) \<Longrightarrow> s = t \<and> p = q \<and> rs = qs"
  shows "cells_ok st L"
  using assms unfolding cells_ok_def by (metis prod_cases3)

lemma cells_ok_inj:
  assumes "cells_ok st L" and "(p, l, rs) \<in> set (L s)" and "(q, l, qs) \<in> set (L t)"
  shows "s = t \<and> p = q \<and> rs = qs"
proof -
  from assms(1) have "\<forall>s t p q l rs qs. (p, l, rs) \<in> set (L s) \<longrightarrow> (q, l, qs) \<in> set (L t) \<longrightarrow>
      s = t \<and> p = q \<and> rs = qs"
    unfolding cells_ok_def by (rule conjunct2)
  then show ?thesis using assms(2,3) by blast
qed

lemma cells_okD:
  assumes "cells_ok st L" and "(p, l, rs) \<in> set (L s)"
  shows "queue_ok st l rs" and "map_option lvl_Price (st_levels st l) = Some p"
    and "r \<in> set rs \<Longrightarrow> os_Price (oval st r) = p" and "r \<in> set rs \<Longrightarrow> bookSide (os_Side (oval st r)) = s"
proof -
  have c: "cell_ok st s (p, l, rs)" using assms by (simp add: cells_ok_def)
  show "queue_ok st l rs" and "map_option lvl_Price (st_levels st l) = Some p"
    and "r \<in> set rs \<Longrightarrow> os_Price (oval st r) = p" and "r \<in> set rs \<Longrightarrow> bookSide (os_Side (oval st r)) = s"
    using c by (simp_all add: cell_ok_def)
qed

lemma cells_ok_same_cell:
  assumes "cells_ok st L" and "(p, l, rs) \<in> set (L s)" and "(q, k, qs) \<in> set (L t)"
    and "r \<in> set rs" and "r \<in> set qs"
  shows "s = t \<and> p = q \<and> l = k \<and> rs = qs"
proof -
  have "l = k"
    using assms cells_okD(1) queue_ok_level by (metis option.inject)
  then show ?thesis using cells_ok_inj [OF assms(1,2)] assms(3) by blast
qed

lemma live_dom: "cells_ok st L \<Longrightarrow> live L \<subseteq> dom (st_orders st)"
  using cells_okD(1) queue_ok_dom by (fastforce simp: live_iff)

lemma side_index_sorted: "side_index sb isBid cs \<Longrightarrow> sorted_wrt (before (sb_isBid sb)) (sb_prices sb)"
  by (simp add: side_index_def)

lemma side_index_distinct:
  assumes "side_index sb isBid cs" and "(p, l, rs) \<in> set cs" and "(p, k, qs) \<in> set cs"
  shows "l = k"
  using assms unfolding side_index_def by (metis option.inject)

text \<open>The place of a cell in its side.\<close>

lemma cells_split:
  assumes "side_index sb isBid cs" and "(p, l, rs) \<in> set cs"
  obtains cs1 cs2 where "cs = cs1 @ (p, l, rs) # cs2"
    and "\<forall>c\<in>set cs1. before isBid (fst c) p" and "\<forall>c\<in>set cs2. before isBid p (fst c)"
proof -
  obtain cs1 cs2 where cs: "cs = cs1 @ (p, l, rs) # cs2"
    using assms(2) by (meson split_list)
  then have "sorted_wrt (before isBid) (map fst cs1 @ p # map fst cs2)"
    using assms(1) by (simp add: side_index_def)
  then show ?thesis using that [OF cs] by (auto simp: sorted_wrt_append)
qed

subsection \<open>Changing one cell\<close>

lemma cell_ok_frame:
  assumes "cell_ok st s (q, k, qs)" and "frame l R st st'" and "k \<noteq> l" and "set qs \<inter> R = {}"
  shows "cell_ok st' s (q, k, qs)"
proof -
  have eq: "\<forall>r\<in>set qs. st_orders st' r = st_orders st r" "st_levels st' k = st_levels st k"
    using assms by (auto simp: frame_def)
  then have "\<forall>r\<in>set qs. oval st' r = oval st r" by (simp add: oval_def)
  then show ?thesis
    using assms(1) eq queue_ok_cong [of st k qs st'] by (simp add: cell_ok_def)
qed

text \<open>The other cells when one cell gets another queue.\<close>

lemma replaced_other:
  assumes ok: "cells_ok st L" and L: "L s = cs1 @ (p, l, rs) # cs2" and dist: "\<forall>c\<in>set cs1 \<union> set cs2. fst (snd c) \<noteq> l"
    and m: "(q, k, qs) \<in> set ((L(s := cs1 @ (p, l, rs') # cs2)) t)" "(t, q, k, qs) \<noteq> (s, p, l, rs')"
  shows "(q, k, qs) \<in> set (L t) \<and> k \<noteq> l"
proof (cases "t = s")
  case True
  with m have c: "(q, k, qs) \<in> set cs1 \<union> set cs2" by auto
  then have "k \<noteq> l" using dist by force
  with c True L show ?thesis by auto
next
  case False
  then have "(q, k, qs) \<in> set (L t)" using m by simp
  moreover from this have "k \<noteq> l" using cells_ok_inj [OF ok, of p l rs s q qs t] False L by auto
  ultimately show ?thesis by simp
qed

lemma cell_ok_elsewhere:
  assumes ok: "cells_ok st L" and here: "(p, l, rs) \<in> set (L s)" and there: "(q, k, qs) \<in> set (L t)" "k \<noteq> l"
    and fr: "frame l R st st'" and R: "R \<inter> live L \<subseteq> set rs"
  shows "cell_ok st' t (q, k, qs)"
proof -
  have "r \<notin> R" if "r \<in> set qs" for r
    using that R there cells_ok_same_cell [OF ok here there(1) _ that] live_iff by blast
  then have "set qs \<inter> R = {}" by blast
  moreover have "cell_ok st t (q, k, qs)" using ok there(1) unfolding cells_ok_def by blast
  ultimately show ?thesis using cell_ok_frame fr there(2) by blast
qed

lemma cells_ok_replace:
  assumes ok: "cells_ok st L" and L: "L s = cs1 @ (p, l, rs) # cs2"
    and dist: "\<forall>c\<in>set cs1 \<union> set cs2. fst (snd c) \<noteq> l"
    and new: "cell_ok st' s (p, l, rs')" and fr: "frame l R st st'"
    and R: "R \<inter> live L \<subseteq> set rs"
  shows "cells_ok st' (L(s := cs1 @ (p, l, rs') # cs2))"
proof -
  let ?L = "L(s := cs1 @ (p, l, rs') # cs2)"
  have here: "(p, l, rs) \<in> set (L s)" using L by simp
  note other = replaced_other [OF ok L dist]
  have cell: "cell_ok st' t (q, k, qs)" if m: "(q, k, qs) \<in> set (?L t)" for t q k qs
  proof (cases "(t, q, k, qs) = (s, p, l, rs')")
    case False
    from other [OF m False] show ?thesis using cell_ok_elsewhere [OF ok here _ _ fr R] by blast
  qed (use new in simp)
  have inj: "t = u \<and> q = q' \<and> qs = qs'"
    if "(q, k, qs) \<in> set (?L t)" and "(q', k, qs') \<in> set (?L u)" for t u q q' k qs qs'
  proof (cases "(t, q, k, qs) = (s, p, l, rs') \<or> (u, q', k, qs') = (s, p, l, rs')")
    case True
    then have "k = l" by blast
    then have "(t, q, k, qs) = (s, p, l, rs')" and "(u, q', k, qs') = (s, p, l, rs')"
      using other [OF that(1)] other [OF that(2)] by metis+
    then show ?thesis by simp
  next
    case False
    then have "(q, k, qs) \<in> set (L t)" "(q', k, qs') \<in> set (L u)"
      using other [OF that(1)] other [OF that(2)] by metis+
    then show ?thesis by (rule cells_ok_inj [OF ok])
  qed
  show ?thesis by (rule cells_okI) (fact cell, fact inj)
qed

lemma cells_ok_delete:
  assumes "cells_ok st (L(s := cs1 @ (p, l, rs) # cs2))"
  shows "cells_ok st (L(s := cs1 @ cs2))"
proof -
  have sub: "set ((L(s := cs1 @ cs2)) t) \<subseteq> set ((L(s := cs1 @ (p, l, rs) # cs2)) t)" for t
    by auto
  show ?thesis
  proof (rule cells_okI)
    fix t q k qs assume "(q, k, qs) \<in> set ((L(s := cs1 @ cs2)) t)"
    then show "cell_ok st t (q, k, qs)" using assms sub unfolding cells_ok_def by blast
  next
    fix t u q q' k qs qs'
    assume "(q, k, qs) \<in> set ((L(s := cs1 @ cs2)) t)" and "(q', k, qs') \<in> set ((L(s := cs1 @ cs2)) u)"
    then show "t = u \<and> q = q' \<and> qs = qs'" using sub by (intro cells_ok_inj [OF assms]) blast+
  qed
qed

lemma split_levels_differ:
  assumes "side_index sb isBid cs" and "cells_ok st L" and "L s = cs" and "cs = cs1 @ (p, l, rs) # cs2"
  shows "\<forall>c\<in>set cs1 \<union> set cs2. fst (snd c) \<noteq> l"
proof
  fix c assume c: "c \<in> set cs1 \<union> set cs2"
  obtain q k qs where [simp]: "c = (q, k, qs)" by (cases c)
  have "sorted_wrt (before isBid) (map fst cs1 @ p # map fst cs2)"
    using assms(1,4) by (simp add: side_index_def)
  then have "q \<noteq> p" using c prio.bef_irrefl by (auto simp: sorted_wrt_append)
  moreover have "(q, k, qs) \<in> set (L s)" "(p, l, rs) \<in> set (L s)" using c assms(3,4) by auto
  ultimately show "fst (snd c) \<noteq> l" using cells_ok_inj [OF assms(2)] by fastforce
qed

end
