(* ===== verification/Book_Links.thy ===== *)
theory Book_Links
  imports Book_Inv
begin

text \<open>
  The operations of the book that link and unlink orders keep the representation invariant:
  \<open>getOrCreateLevel\<close> and \<open>removeLevelIfEmpty\<close> on the index of a side, then \<open>rest\<close>,
  \<open>removeActive\<close> and a change of quantity on the whole book, each with its effect on the
  queues.  None of them dereferences nil on a book that satisfies the invariant.
\<close>

subsection \<open>The index of a side\<close>

lemma side_index_levels:
  "side_index sb isBid cs \<Longrightarrow> sb_levels sb p = Some l \<longleftrightarrow> (\<exists>rs. (p, l, rs) \<in> set cs)"
  by (simp add: side_index_def)

lemma side_index_level_None:
  "side_index sb isBid cs \<Longrightarrow> sb_levels sb p = None \<longleftrightarrow> p \<notin> set (map fst cs)"
proof -
  assume i: "side_index sb isBid cs"
  have "sb_levels sb p = None \<longleftrightarrow> (\<forall>l rs. (p, l, rs) \<notin> set cs)"
    using side_index_levels [OF i, of p] by (metis not_None_eq)
  then show ?thesis by force
qed

lemma side_index_requeue:
  assumes "side_index sb isBid (cs1 @ (p, l, rs) # cs2)"
  shows "side_index sb isBid (cs1 @ (p, l, rs') # cs2)"
proof -
  have "(\<exists>ys. (q, k, ys) \<in> set (cs1 @ (p, l, rs) # cs2)) \<longleftrightarrow> (\<exists>ys. (q, k, ys) \<in> set (cs1 @ (p, l, rs') # cs2))"
    for q k by auto
  then show ?thesis using assms by (simp add: side_index_def)
qed

lemma getOrCreateLevel_existing:
  assumes "side_index sb isBid cs" and "(p, l, rs) \<in> set cs"
  shows "getOrCreateLevel sb st p = (l, sb, st)"
proof -
  have "sb_levels sb p = Some l" using side_index_levels [OF assms(1)] assms(2) by blast
  then show ?thesis by (simp add: getOrCreateLevel_def)
qed

lemma side_index_insert:
  assumes i: "side_index sb isBid cs" and p: "p \<notin> set (map fst cs)"
    and cs: "cs = cs1 @ cs2" "cs1 = takeWhile (\<lambda>c. before isBid (fst c) p) cs"
  shows "side_index (sb\<lparr>sb_levels := (sb_levels sb)(p \<mapsto> l),
           sb_prices := map fst cs1 @ p # map fst cs2\<rparr>) isBid (cs1 @ (p, l, []) # cs2)"
proof -
  have cs2: "cs2 = dropWhile (\<lambda>c. before isBid (fst c) p) cs"
    using cs by (metis append_eq_conv_conj dropWhile_eq_drop)
  have "sorted_wrt (before isBid) (map fst cs)" using i by (simp add: side_index_def)
  from prio.sorted_insert [OF this p]
  have so: "sorted_wrt (before isBid) (map fst cs1 @ p # map fst cs2)"
    by (simp add: cs(2) cs2 takeWhile_map dropWhile_map o_def)
  have "(\<exists>rs. (q, k, rs) \<in> set (cs1 @ (p, l, []) # cs2)) \<longleftrightarrow> ((sb_levels sb)(p \<mapsto> l)) q = Some k" for q k
    using side_index_levels [OF i, of q k] p cs(1) by (auto simp: rev_image_eqI)
  then show ?thesis using so i by (simp add: side_index_def)
qed

lemma getOrCreateLevel_new:
  assumes i: "side_index sb isBid cs" and p: "p \<notin> set (map fst cs)"
  obtains sb' cs1 cs2 where "cs = cs1 @ cs2"
    and "\<forall>c\<in>set cs1. before isBid (fst c) p" and "\<forall>c\<in>set cs2. before isBid p (fst c)"
    and "getOrCreateLevel sb st p = (st_nextLevel st, sb',
           snd (allocLevel st \<lparr>lvl_Price = p, lvl_TotalQty = 0, lvl_Head = None, lvl_Tail = None\<rparr>))"
    and "side_index sb' isBid (cs1 @ (p, st_nextLevel st, []) # cs2)"
proof -
  let ?l = "st_nextLevel st"
  let ?sb = "sb\<lparr>sb_levels := (sb_levels sb)(p \<mapsto> ?l)\<rparr>"
  define cs1 cs2 where "cs1 = takeWhile (\<lambda>c. before isBid (fst c) p) cs"
    and "cs2 = dropWhile (\<lambda>c. before isBid (fst c) p) cs"
  then have cs: "cs = cs1 @ cs2" by simp
  have so: "sorted_wrt (before isBid) (map fst cs1 @ map fst cs2)"
    and pr: "sb_prices sb = map fst cs1 @ map fst cs2" "sb_isBid sb = isBid"
    using i cs by (simp_all add: side_index_def)
  have tw: "takeWhile (\<lambda>q. before isBid q p) (map fst cs) = map fst cs1"
    by (simp add: cs1_def takeWhile_map o_def)
  have idx: "findInsertIndex ?sb p = length cs1"
    using so pr tw cs by (subst findInsertIndex_scan) simp_all
  have prices: "(copyWithin (sb_prices sb @ [0]) (length cs1 + 1) (length cs1))[length cs1 := p]
        = map fst cs1 @ p # map fst cs2"
    using pr by (subst copyWithin_shift) simp_all
  have b1: "\<forall>c\<in>set cs1. before isBid (fst c) p"
    by (auto simp: cs1_def dest: set_takeWhileD)
  have b2: "\<forall>c\<in>set cs2. before isBid p (fst c)"
  proof
    fix c assume c: "c \<in> set cs2"
    have "set (dropWhile (\<lambda>q. before isBid q p) (map fst cs)) = fst ` set cs2"
      by (simp add: cs2_def dropWhile_map o_def)
    then have "\<not> before isBid (fst c) p"
      using c i prio.set_dropWhile_not_bef [of isBid "map fst cs" "fst c" p] by (simp add: side_index_def)
    moreover have "fst c \<noteq> p" using c p cs by auto
    ultimately show "before isBid p (fst c)" using prio.bef_total by blast
  qed
  have none: "sb_levels sb p = None" using side_index_level_None [OF i] p by simp
  show ?thesis
  proof (rule that [OF cs b1 b2])
    show "getOrCreateLevel sb st p = (?l, ?sb\<lparr>sb_prices := map fst cs1 @ p # map fst cs2\<rparr>,
           snd (allocLevel st \<lparr>lvl_Price = p, lvl_TotalQty = 0, lvl_Head = None, lvl_Tail = None\<rparr>))"
      using none idx prices by (simp add: getOrCreateLevel_def allocLevel_def Let_def)
    show "side_index (?sb\<lparr>sb_prices := map fst cs1 @ p # map fst cs2\<rparr>) isBid (cs1 @ (p, ?l, []) # cs2)"
      using side_index_insert [OF i p cs cs1_def] by simp
  qed
qed

lemma removeLevelIfEmpty_empty:
  assumes i: "side_index sb isBid (cs1 @ (p, l, rs) # cs2)"
    and lv: "st_levels st l = Some lv" "lvl_Price lv = p" "lvl_Head lv = None"
  obtains sb' where "removeLevelIfEmpty sb st (Some l) = Some sb'"
    and "side_index sb' isBid (cs1 @ cs2)"
proof -
  let ?sb = "sb\<lparr>sb_levels := (sb_levels sb)(p := None)\<rparr>"
  let ?sb' = "?sb\<lparr>sb_prices := map fst cs1 @ map fst cs2\<rparr>"
  have pr: "sb_prices sb = map fst cs1 @ p # map fst cs2" "sb_isBid sb = isBid"
    and so: "sorted_wrt (before isBid) (map fst cs1 @ p # map fst cs2)"
    using i by (simp_all add: side_index_def)
  have idx: "findPriceIndex ?sb p = int (length cs1)"
    using so pr findPriceIndex_at [of ?sb "map fst cs1" p "map fst cs2"] by simp
  have notin: "p \<notin> fst ` set cs1 \<union> fst ` set cs2"
    using so prio.bef_irrefl by (auto simp: sorted_wrt_append)
  have "(\<exists>ys. (q, k, ys) \<in> set (cs1 @ cs2)) \<longleftrightarrow> ((sb_levels sb)(p := None)) q = Some k" for q k
    using side_index_levels [OF i, of q k] notin by (auto simp: rev_image_eqI)
  then have "side_index ?sb' isBid (cs1 @ cs2)"
    using so pr by (simp add: side_index_def sorted_wrt_append)
  moreover have "removeLevelIfEmpty sb st (Some l) = Some ?sb'"
    using lv idx pr by (simp add: removeLevelIfEmpty_def Let_def)
  ultimately show ?thesis using that by blast
qed

lemma removeLevelIfEmpty_busy:
  "st_levels st l = Some lv \<Longrightarrow> lvl_Head lv \<noteq> None \<Longrightarrow> removeLevelIfEmpty sb st (Some l) = Some sb"
  by (simp add: removeLevelIfEmpty_def)

subsection \<open>Allocation\<close>

lemma frame_levels: "frame l R st st' \<Longrightarrow> st_levels st' k = None \<longleftrightarrow> st_levels st k = None"
  unfolding frame_def by (cases "k = l") (metis option.map_disc_iff, simp)

lemma alloc_ok_frame:
  assumes "alloc_ok st" and "frame l R st st'"
  shows "alloc_ok st'"
proof -
  have "st_orders st' r = None \<longleftrightarrow> st_orders st r = None" for r
    using assms(2) unfolding frame_def by (metis domIff)
  then show ?thesis
    using assms frame_levels [OF assms(2)] by (simp add: alloc_ok_def frame_def)
qed

lemma alloc_ok_fresh: "alloc_ok st \<Longrightarrow> st_orders st (st_nextOrder st) = None"
  by (auto simp: alloc_ok_def)

lemma cells_ok_same:
  assumes "cells_ok st L" and "\<forall>r\<in>live L. st_orders st' r = st_orders st r"
    and "\<forall>s p l rs. (p, l, rs) \<in> set (L s) \<longrightarrow> st_levels st' l = st_levels st l"
  shows "cells_ok st' L"
proof (rule cells_okI)
  fix s p l rs assume c: "(p, l, rs) \<in> set (L s)"
  have eq: "st_orders st' r = st_orders st r" if "r \<in> set rs" for r
    using assms(2) c that live_iff by blast
  have lev: "st_levels st' l = st_levels st l" using assms(3) c by blast
  have "queue_ok st' l rs"
    using lev eq by (intro queue_ok_cong [OF cells_okD(1) [OF assms(1) c]]) auto
  moreover have "oval st' r = oval st r" if "r \<in> set rs" for r
    using eq [OF that] by (rule oval_cong)
  ultimately show "cell_ok st' s (p, l, rs)"
    using cells_okD [OF assms(1) c] lev by (simp add: cell_ok_def)
qed (rule cells_ok_inj [OF assms(1)])

text \<open>A new order changes nothing of the book; it is not queued anywhere.\<close>

lemma book_ok_allocOrder:
  assumes "book_ok b L" and "allocOrder (bk_store b) od = (r, st')"
  shows "book_ok (b\<lparr>bk_store := st'\<rparr>) L" and "r \<notin> live L" and "st_orders st' r = Some od"
    and "\<forall>x\<in>live L. oval st' x = oval (bk_store b) x"
proof -
  let ?st = "bk_store b"
  have a: "alloc_ok ?st" and c: "cells_ok ?st L" using assms(1) by (simp_all add: book_ok_def)
  have r: "r = st_nextOrder ?st"
    and st': "st' = ?st\<lparr>st_orders := (st_orders ?st)(r \<mapsto> od), st_nextOrder := Suc r\<rparr>"
    using assms(2) by (auto simp: allocOrder_def)
  show nl: "r \<notin> live L" using alloc_ok_fresh [OF a] live_dom [OF c] r by auto
  show "st_orders st' r = Some od" using st' by simp
  have eq: "\<forall>x\<in>live L. st_orders st' x = st_orders ?st x" using nl st' by auto
  show ov: "\<forall>x\<in>live L. oval st' x = oval ?st x" using eq by (simp add: oval_def)
  have "cells_ok st' L" using c eq st' by (intro cells_ok_same [OF c]) simp_all
  moreover have "alloc_ok st'" using a r st' by (auto simp: alloc_ok_def intro: less_SucI)
  moreover have "index_ok (b\<lparr>bk_store := st'\<rparr>) L"
    using assms(1) ov by (auto simp: book_ok_def index_ok_def)
  ultimately show "book_ok (b\<lparr>bk_store := st'\<rparr>) L"
    using assms(1) by (simp add: book_ok_def)
qed

subsection \<open>Resting an order\<close>

lemma cells_ok_allocLevel:
  assumes c: "cells_ok st L" and a: "alloc_ok st" and L: "L s = cs1 @ cs2"
    and st': "st' = snd (allocLevel st \<lparr>lvl_Price = p, lvl_TotalQty = 0, lvl_Head = None, lvl_Tail = None\<rparr>)"
  shows "cells_ok st' (L(s := cs1 @ (p, st_nextLevel st, []) # cs2))" and "alloc_ok st'"
    and "st_orders st' = st_orders st"
proof -
  let ?l = "st_nextLevel st" and ?L = "L(s := cs1 @ (p, st_nextLevel st, []) # cs2)"
  have fresh: "?l \<noteq> k" if "(q, k, qs) \<in> set (L t)" for q k qs t
    using cells_okD(2) [OF c that] a by (auto simp: alloc_ok_def)
  show so: "st_orders st' = st_orders st" using st' by (simp add: allocLevel_def)
  show "alloc_ok st'" using a st' by (auto simp: alloc_ok_def allocLevel_def intro: less_SucI)
  have old: "cells_ok st' L"
    using st' fresh so by (intro cells_ok_same [OF c]) (auto simp: allocLevel_def)
  have new: "cell_ok st' s (p, ?l, [])"
    using st' by (simp add: cell_ok_def queue_ok_empty allocLevel_def)
  have mem: "(q, k, qs) \<in> set (L t) \<or> (t, q, k, qs) = (s, p, ?l, [])"
    if "(q, k, qs) \<in> set (?L t)" for q k qs t
    using that L by (auto split: if_splits)
  show "cells_ok st' ?L"
  proof (rule cells_okI)
    fix t q k qs assume "(q, k, qs) \<in> set (?L t)"
    then show "cell_ok st' t (q, k, qs)"
      using mem [of q k qs t] new old unfolding cells_ok_def by blast
  next
    fix t u q q' k qs qs' assume "(q, k, qs) \<in> set (?L t)" and "(q', k, qs') \<in> set (?L u)"
    then show "t = u \<and> q = q' \<and> qs = qs'"
      using mem [of q k qs t] mem [of q' k qs' u] fresh cells_ok_inj [OF old, of q k qs t q' qs' u]
      by blast
  qed
qed

lemma append_in_cell:
  assumes c: "cells_ok st L" and i: "side_index sb isBid (L s)" and L: "L s = cs1 @ (p, l, rs) # cs2"
    and r: "st_orders st r = Some od" "r \<notin> live L" "ord_Price od = p" "bookSide (ord_Side od) = s"
  obtains st' where "level_append st l r = Some st'"
    and "cells_ok st' (L(s := cs1 @ (p, l, rs @ [r]) # cs2))"
    and "frame l (insert r (set rs)) st st'" and "same_values st st'"
proof -
  have here: "(p, l, rs) \<in> set (L s)" using L by simp
  have nr: "r \<notin> set rs" using r(2) here live_iff by blast
  obtain st' where st': "level_append st l r = Some st'" "queue_ok st' l (rs @ [r])"
    "frame l (insert r (set rs)) st st'" "same_values st st'"
    using level_append_queue [OF cells_okD(1) [OF c here] r(1) nr] by metis
  have ov: "oval st' x = oval st x" if "x \<in> insert r (set rs)" for x
    using that same_values_oval [OF st'(4)] r(1) queue_ok_dom [OF cells_okD(1) [OF c here]] by blast
  have "cell_ok st' s (p, l, rs @ [r])"
    using st'(2,3) ov r cells_okD [OF c here] by (auto simp: cell_ok_def frame_def store_simps)
  then have "cells_ok st' (L(s := cs1 @ (p, l, rs @ [r]) # cs2))"
    using split_levels_differ [OF i c _ L] r(2)
    by (intro cells_ok_replace [OF c L _ _ st'(3)]) auto
  then show ?thesis using st' that by blast
qed

lemma queued_prices:
  assumes "cells_ok st L" and "cs1 @ cs2 = L s" and "x \<in> set (queued cs1)"
  shows "\<exists>c\<in>set cs1. os_Price (oval st x) = fst c"
proof -
  obtain p l rs where c: "(p, l, rs) \<in> set cs1" "x \<in> set rs" using assms(3) by (auto simp: in_queued)
  then have "(p, l, rs) \<in> set (L s)" using assms(2) [symmetric] by simp
  from cells_okD(3) [OF assms(1) this c(2)] c(1) show ?thesis by force
qed

lemma queued_live: "set (queued (L s)) \<subseteq> live L"
  by (auto simp: live_def)

lemma live_upd:
  "set (queued (L s)) \<subseteq> set (queued cs) \<Longrightarrow> live (L(s := cs)) = live L \<union> set (queued cs)"
  by (auto simp: live_def split: if_splits) (metis subset_iff)

text \<open>\<open>rest\<close> once the level of the order is at hand.\<close>

text \<open>An order at the end of its level stands behind all orders of the same or a better price.\<close>

lemma queued_behind:
  assumes c: "cells_ok st L" and L: "L s = cs1 @ (p, l, rs) # cs2"
    and ord: "\<forall>d\<in>set cs1. before (isBids s) (fst d) p" "\<forall>d\<in>set cs2. before (isBids s) p (fst d)"
  shows "\<forall>x\<in>set (queued cs1 @ rs). \<not> before (isBids s) p (os_Price (oval st x))"
    and "\<forall>x\<in>set (queued cs2). before (isBids s) p (os_Price (oval st x))"
proof -
  have price: "os_Price (oval st x) = q" if "(q, k, qs) \<in> set (cs1 @ (p, l, rs) # cs2)" "x \<in> set qs" for q k qs x
    using cells_okD(3) [OF c, of q k qs s x] L that by simp
  show "\<forall>x\<in>set (queued cs1 @ rs). \<not> before (isBids s) p (os_Price (oval st x))"
  proof
    fix x assume "x \<in> set (queued cs1 @ rs)"
    then consider q k qs where "(q, k, qs) \<in> set cs1" "x \<in> set qs" | "x \<in> set rs" by (auto simp: in_queued)
    then show "\<not> before (isBids s) p (os_Price (oval st x))"
    proof cases
      case 1
      then have "os_Price (oval st x) = q" "before (isBids s) q p" using price [of q k qs x] ord(1) by auto
      then show ?thesis using prio.bef_asym by metis
    next
      case 2
      then have "os_Price (oval st x) = p" using price [of p l rs x] by simp
      then show ?thesis using prio.bef_irrefl by metis
    qed
  qed
  show "\<forall>x\<in>set (queued cs2). before (isBids s) p (os_Price (oval st x))"
  proof
    fix x assume "x \<in> set (queued cs2)"
    then obtain q k qs where q: "(q, k, qs) \<in> set cs2" "x \<in> set qs" by (auto simp: in_queued)
    then have "os_Price (oval st x) = q" using price [of q k qs x] by simp
    then show "before (isBids s) p (os_Price (oval st x))" using ord(2) q(1) by force
  qed
qed

text \<open>Only the level that gets the order may have been empty.\<close>

lemma no_empty_level:
  assumes c: "cells_ok st L" and i: "side_index sb (isBids s) (L s)" and L: "L s = cs1 @ (p, l, rs) # cs2"
    and ne: "\<forall>t q k. (q, k, []) \<in> set (L t) \<longrightarrow> k = l"
  shows "(q, k, []) \<notin> set ((L(s := cs1 @ (p, l, rs @ [r]) # cs2)) t)"
proof
  assume m: "(q, k, []) \<in> set ((L(s := cs1 @ (p, l, rs @ [r]) # cs2)) t)"
  have here: "(p, l, rs) \<in> set (L s)" using L by simp
  show False
  proof (cases "t = s")
    case True
    then have "(q, k, []) \<in> set cs1 \<union> set cs2" using m by auto
    moreover from this have "(q, k, []) \<in> set (L s)" using L by auto
    then have "k = l" using ne by blast
    ultimately show False using split_levels_differ [OF i c refl L] by force
  next
    case False
    then have "(q, l, []) \<in> set (L t)" using m ne by auto
    from cells_ok_inj [OF c here this] False show False by simp
  qed
qed

text \<open>The index of orders with a new one.\<close>

lemma index_ok_insert:
  assumes ix: "index_ok b L" and r: "r \<notin> live L" "bk_orders b (ord_ID od) = None" "st_orders (bk_store b) r = Some od"
    and b': "bk_orders b' = (bk_orders b)(ord_ID od \<mapsto> r)" "\<And>x. x \<in> insert r (live L) \<Longrightarrow> oval (bk_store b') x = oval (bk_store b) x"
    and liv: "live L' = insert r (live L)"
  shows "index_ok b' L'"
  unfolding index_ok_def
proof (intro allI)
  fix oid x
  have "x \<in> live L \<Longrightarrow> ord_ID od \<noteq> os_ID (oval (bk_store b) x)"
    using ix r(2) unfolding index_ok_def by (metis option.distinct(1))
  then show "bk_orders b' oid = Some x \<longleftrightarrow> x \<in> live L' \<and> os_ID (oval (bk_store b') x) = oid"
    using ix r b' liv by (auto simp: index_ok_def store_simps)
qed

lemma rest_in_cell:
  assumes c: "cells_ok st1 L1" and i: "\<forall>t. side_index (sideAt (setSide b s sb1) t) (isBids t) (L1 t)"
    and L1: "L1 s = cs1 @ (p, l, rs) # cs2" and a: "alloc_ok st1"
    and ne: "\<forall>t q k. (q, k, []) \<in> set (L1 t) \<longrightarrow> k = l"
    and g: "getOrCreateLevel (sideAt b s) (bk_store b) p = (l, sb1, st1)"
    and so: "st_orders st1 = st_orders (bk_store b)" and ix: "index_ok b L1"
    and r: "st_orders (bk_store b) r = Some od" "r \<notin> live L1" "ord_Price od = p"
      "s = bookSide (ord_Side od)" "bk_orders b (ord_ID od) = None"
    and ord: "\<forall>d\<in>set cs1. before (isBids s) (fst d) p" "\<forall>d\<in>set cs2. before (isBids s) p (fst d)"
  shows "\<exists>b' L'. rest b r = Some b' \<and> book_ok b' L' \<and> (\<forall>t. t \<noteq> s \<longrightarrow> L' t = L1 t)
    \<and> same_values (bk_store b) (bk_store b') \<and> bk_Symbol b' = bk_Symbol b
    \<and> bk_nextTradeSeq b' = bk_nextTradeSeq b
    \<and> (\<exists>A B. queued (L1 s) = A @ B \<and> queued (L' s) = A @ r # B
        \<and> (\<forall>x\<in>set A. \<not> before (isBids s) p (os_Price (oval (bk_store b) x)))
        \<and> (\<forall>x\<in>set B. before (isBids s) p (os_Price (oval (bk_store b) x))))"
proof -
  let ?st = "bk_store b"
  have i1: "side_index sb1 (isBids s) (L1 s)" using i by (metis sideAt_setSide)
  have r1: "st_orders st1 r = Some od" using so r(1) by simp
  obtain st' where st': "level_append st1 l r = Some st'"
    "cells_ok st' (L1(s := cs1 @ (p, l, rs @ [r]) # cs2))"
    "frame l (insert r (set rs)) st1 st'" "same_values st1 st'"
    using append_in_cell [OF c i1 L1 r1 r(2) r(3) r(4) [symmetric]] by metis
  let ?L = "L1(s := cs1 @ (p, l, rs @ [r]) # cs2)"
  let ?b = "(setSide b s sb1)\<lparr>bk_store := st', bk_orders := (bk_orders b)(ord_ID od \<mapsto> r)\<rparr>"
  have ov1: "oval st1 x = oval ?st x" for x using so by (simp add: oval_def)
  have ov: "oval st' x = oval ?st x" if "x \<in> insert r (live L1)" for x
    using that r1 live_dom [OF c] same_values_oval [OF st'(4), of x] ov1 by auto
  have liv: "live ?L = insert r (live L1)"
    using L1 queued_live [of L1 s] by (subst live_upd) auto
  have res: "rest b r = Some ?b"
    using r(1,3,4) st'(1) g by (simp add: rest_def Let_def)
  have "index_ok ?b ?L" using ov by (intro index_ok_insert [OF ix r(2,5,1) _ _ liv]) simp_all
  moreover have "side_index (sideAt ?b t) (isBids t) (?L t)" for t
    using spec [OF i, of t] i1 L1 side_index_requeue by (cases "t = s") simp_all
  ultimately have ok': "book_ok ?b ?L"
    using st'(2) alloc_ok_frame [OF a st'(3)] no_empty_level [OF c i1 L1 ne] by (simp add: book_ok_def)
  have sv: "same_values ?st st'" using st'(4) so by (simp add: same_values_def)
  have "\<exists>A B. queued (L1 s) = A @ B \<and> queued (?L s) = A @ r # B
        \<and> (\<forall>x\<in>set A. \<not> before (isBids s) p (os_Price (oval ?st x)))
        \<and> (\<forall>x\<in>set B. before (isBids s) p (os_Price (oval ?st x)))"
    using queued_behind [OF c L1 ord] L1 unfolding ov1
    by (intro exI [of _ "queued cs1 @ rs"] exI [of _ "queued cs2"]) simp
  with res ok' sv show ?thesis by (intro exI [of _ ?b] exI [of _ ?L]) simp
qed

lemma rest_ok:
  assumes ok: "book_ok b L" and r: "st_orders (bk_store b) r = Some od" "r \<notin> live L"
    "bk_orders b (ord_ID od) = None" and s: "s = bookSide (ord_Side od)" and p: "p = ord_Price od"
  shows "\<exists>b' L'. rest b r = Some b' \<and> book_ok b' L' \<and> (\<forall>t. t \<noteq> s \<longrightarrow> L' t = L t)
    \<and> same_values (bk_store b) (bk_store b') \<and> bk_Symbol b' = bk_Symbol b
    \<and> bk_nextTradeSeq b' = bk_nextTradeSeq b
    \<and> (\<exists>A B. queued (L s) = A @ B \<and> queued (L' s) = A @ r # B
        \<and> (\<forall>x\<in>set A. \<not> before (isBids s) p (os_Price (oval (bk_store b) x)))
        \<and> (\<forall>x\<in>set B. before (isBids s) p (os_Price (oval (bk_store b) x))))"
proof -
  let ?st = "bk_store b" and ?sb = "sideAt b s"
  have c: "cells_ok ?st L" and i: "\<And>t. side_index (sideAt b t) (isBids t) (L t)"
    and ne: "\<And>t q k. (q, k, []) \<notin> set (L t)" and ix: "index_ok b L" and a: "alloc_ok ?st"
    using ok by (auto simp: book_ok_def)
  show ?thesis
  proof (cases "p \<in> set (map fst (L s))")
    case True
    then obtain l rs where here: "(p, l, rs) \<in> set (L s)" by auto
    obtain cs1 cs2 where L: "L s = cs1 @ (p, l, rs) # cs2"
      and o: "\<forall>d\<in>set cs1. before (isBids s) (fst d) p" "\<forall>d\<in>set cs2. before (isBids s) p (fst d)"
      using cells_split [OF i here] by metis
    have g: "getOrCreateLevel ?sb ?st p = (l, ?sb, ?st)"
      using getOrCreateLevel_existing [OF i here] .
    show ?thesis
      by (rule rest_in_cell [OF c _ L a _ g refl ix r(1,2) p [symmetric] s r(3) o]) (use i ne in auto)
  next
    case False
    let ?l = "st_nextLevel ?st"
    let ?st1 = "snd (allocLevel ?st \<lparr>lvl_Price = p, lvl_TotalQty = 0, lvl_Head = None, lvl_Tail = None\<rparr>)"
    obtain sb' cs1 cs2 where cs: "L s = cs1 @ cs2"
      and o: "\<forall>d\<in>set cs1. before (isBids s) (fst d) p" "\<forall>d\<in>set cs2. before (isBids s) p (fst d)"
      and g: "getOrCreateLevel ?sb ?st p = (?l, sb', ?st1)"
      and i': "side_index sb' (isBids s) (cs1 @ (p, ?l, []) # cs2)"
      using getOrCreateLevel_new [OF i False] by metis
    let ?L = "L(s := cs1 @ (p, ?l, []) # cs2)"
    note al = cells_ok_allocLevel [OF c a cs refl, of p]
    have q: "queued (?L t) = queued (L t)" for t using cs by simp
    then have liv: "live ?L = live L" by (simp only: live_def)
    have ix': "index_ok b ?L" using ix liv by (simp add: index_ok_def)
    have i2: "\<forall>t. side_index (sideAt (setSide b s sb') t) (isBids t) (?L t)"
      using i i' by simp
    have ne2: "\<forall>t q k. (q, k, []) \<in> set (?L t) \<longrightarrow> k = ?l"
    proof (intro allI impI)
      fix t q k assume m: "(q, k, []) \<in> set (?L t)"
      then show "k = ?l" using ne [of q k t] cs by (cases "t = s") auto
    qed
    have r2: "r \<notin> live ?L" using r(2) liv by simp
    have L': "?L s = cs1 @ (p, ?l, []) # cs2" by simp
    have oth: "t \<noteq> s \<Longrightarrow> ?L t = L t" for t by simp
    from rest_in_cell [OF al(1) i2 L' al(2) ne2 g al(3) ix' r(1) r2 p [symmetric] s r(3) o]
    show ?thesis unfolding q using oth by metis
  qed
qed

subsection \<open>Removing an order\<close>

lemma queued_once:
  assumes "cells_ok st L" and "side_index sb isBid (L s)" and L: "L s = cs1 @ (p, l, rs) # cs2"
    and r: "r \<in> set rs"
  shows "r \<notin> set (queued cs1)" and "r \<notin> set (queued cs2)" and "t \<noteq> s \<Longrightarrow> r \<notin> set (queued (L t))"
proof -
  have here: "(p, l, rs) \<in> set (L s)" using L by simp
  have same: "t = s \<and> k = l" if "(q, k, qs) \<in> set (L t)" and "r \<in> set qs" for t q k qs
    using cells_ok_same_cell [OF assms(1) here that(1) r that(2)] by simp
  have diff: "\<forall>c\<in>set cs1 \<union> set cs2. fst (snd c) \<noteq> l"
    using split_levels_differ [OF assms(2,1) refl L] .
  have "r \<notin> set qs" if c: "(q, k, qs) \<in> set cs1 \<union> set cs2" for q k qs
    using bspec [OF diff c] c L same [of q k qs s] by auto
  then show "r \<notin> set (queued cs1)" and "r \<notin> set (queued cs2)"
    unfolding in_queued by blast+
  show "t \<noteq> s \<Longrightarrow> r \<notin> set (queued (L t))"
    using same unfolding in_queued by blast
qed

lemma queued_distinct:
  assumes c: "cells_ok st L" and i: "side_index sb isBid (L s)"
  shows "distinct (queued (L s))"
proof -
  have "distinct (queued cs2)" if "L s = cs1 @ cs2" for cs1 cs2
    using that
  proof (induction cs2 arbitrary: cs1)
    case (Cons cl cs2)
    obtain p l rs where [simp]: "cl = (p, l, rs)" by (cases cl)
    have L: "L s = cs1 @ (p, l, rs) # cs2" using Cons.prems by simp
    have "distinct rs" using cells_okD(1) [OF c, of p l rs s] L by (simp add: queue_ok_def)
    moreover have "distinct (queued cs2)" using Cons.IH [of "cs1 @ [cl]"] Cons.prems by simp
    ultimately show ?case using queued_once(2) [OF c i L] by auto
  qed simp
  from this [of "[]" "L s"] show ?thesis by simp
qed

lemma live_remove:
  assumes q: "queued (L s) = A @ r # B" "queued (L' s) = A @ B" "\<forall>t. t \<noteq> s \<longrightarrow> L' t = L t"
    and once: "r \<notin> set A" "r \<notin> set B" "\<And>t. t \<noteq> s \<Longrightarrow> r \<notin> set (queued (L t))"
  shows "live L' = live L - {r}"
proof (rule set_eqI)
  fix x
  have "x \<in> set (queued (L' t)) \<longleftrightarrow> x \<in> set (queued (L t)) - {r}" for t
    using q once by (cases "t = s") auto
  then show "x \<in> live L' \<longleftrightarrow> x \<in> live L - {r}" by (simp add: live_def)
qed

lemma index_ok_remove:
  assumes "index_ok b L" and "live L' = live L - {r}" and "r \<in> live L"
    and "bk_orders b' = (bk_orders b)(os_ID (oval (bk_store b) r) := None)"
    and "\<forall>x\<in>live L. oval (bk_store b') x = oval (bk_store b) x"
  shows "index_ok b' L'"
  unfolding index_ok_def
proof (intro allI)
  fix oid x
  have "x = r" if "x \<in> live L" and "os_ID (oval (bk_store b) x) = os_ID (oval (bk_store b) r)"
    using assms(1,3) that unfolding index_ok_def by (metis option.inject)
  then show "bk_orders b' oid = Some x \<longleftrightarrow> x \<in> live L' \<and> os_ID (oval (bk_store b') x) = oid"
    using assms unfolding index_ok_def by auto
qed

text \<open>A level that has lost an order leaves the side when it is empty.\<close>

lemma level_after_remove:
  assumes i: "side_index sb (isBids s) (cs1 @ (p, l, zs) # cs2)" and c: "cells_ok st (L(s := cs1 @ (p, l, zs) # cs2))"
    and ne: "\<forall>q k. (q, k, []) \<notin> set (cs1 @ cs2)"
  shows "\<exists>sb' cs. removeLevelIfEmpty sb st (Some l) = Some sb' \<and> side_index sb' (isBids s) cs \<and> cells_ok st (L(s := cs))
    \<and> queued cs = queued cs1 @ zs @ queued cs2 \<and> (\<forall>q k. (q, k, []) \<notin> set cs)"
proof -
  let ?L = "L(s := cs1 @ (p, l, zs) # cs2)"
  have "(p, l, zs) \<in> set (?L s)" by simp
  from cells_okD(1,2) [OF c this] obtain lv where lv: "st_levels st l = Some lv" "lvl_Head lv = firstRef zs None" "lvl_Price lv = p"
    by (auto simp: queue_ok_def)
  show ?thesis
  proof (cases "zs = []")
    case True
    then obtain sb' where "removeLevelIfEmpty sb st (Some l) = Some sb'" "side_index sb' (isBids s) (cs1 @ cs2)"
      using removeLevelIfEmpty_empty [OF i lv(1,3)] lv(2) by auto
    moreover have "cells_ok st (L(s := cs1 @ cs2))" using cells_ok_delete [OF c] by simp
    ultimately show ?thesis using True ne by (intro exI [of _ sb'] exI [of _ "cs1 @ cs2"]) simp
  next
    case False
    then have "lvl_Head lv \<noteq> None" using lv(2) firstRef_None_iff [of zs] by metis
    then have "removeLevelIfEmpty sb st (Some l) = Some sb" by (rule removeLevelIfEmpty_busy [OF lv(1)])
    then show ?thesis using i c ne False by (intro exI [of _ sb] exI [of _ "cs1 @ (p, l, zs) # cs2"]) auto
  qed
qed

lemma removeActive_cell:
  assumes ok: "book_ok b L" and L: "L s = cs1 @ (p, l, xs @ r # ys) # cs2"
  shows "\<exists>b' L'. removeActive b r = Some b' \<and> book_ok b' L' \<and> (\<forall>t. t \<noteq> s \<longrightarrow> L' t = L t)
    \<and> same_values (bk_store b) (bk_store b') \<and> bk_Symbol b' = bk_Symbol b
    \<and> bk_nextTradeSeq b' = bk_nextTradeSeq b \<and> live L' = live L - {r}
    \<and> queued (L' s) = (queued cs1 @ xs) @ (ys @ queued cs2)"
proof -
  let ?st = "bk_store b" and ?rs = "xs @ r # ys"
  let ?st' = "unlinked ?st l xs r ys"
  have c: "cells_ok ?st L" and i: "\<And>t. side_index (sideAt b t) (isBids t) (L t)"
    and ne: "\<And>t q k. (q, k, []) \<notin> set (L t)" and ix: "index_ok b L" and a: "alloc_ok ?st"
    using ok by (auto simp: book_ok_def)
  have here: "(p, l, ?rs) \<in> set (L s)" using L by simp
  have q: "queue_ok ?st l ?rs" using cells_okD(1) [OF c here] .
  obtain od where od: "st_orders ?st r = Some od" "ord_Level od = Some l"
    using queue_ok_level [OF q, of r] by auto
  have s: "bookSide (ord_Side od) = s" using cells_okD(4) [OF c here, of r] od by (simp add: store_simps)
  note fr = unlinked_frame [OF q] and sv = unlinked_values [of ?st l xs r ys]
  have ov: "oval ?st' x = oval ?st x" if "x \<in> live L" for x
    using that live_dom [OF c] same_values_oval [OF sv] by blast
  have rl: "r \<in> live L" and rsl: "set ?rs \<subseteq> live L" using here live_iff by (fastforce, blast)
  have "cell_ok ?st' s (p, l, xs @ ys)"
    using unlinked_queue [OF q] fr ov rsl cells_okD(2-) [OF c here]
    by (auto simp: cell_ok_def frame_def)
  then have "cells_ok ?st' (L(s := cs1 @ (p, l, xs @ ys) # cs2))"
    using split_levels_differ [OF i c refl L] by (intro cells_ok_replace [OF c L _ _ fr]) auto
  moreover have "side_index (sideAt b s) (isBids s) (cs1 @ (p, l, xs @ ys) # cs2)" "\<forall>q k. (q, k, []) \<notin> set (cs1 @ cs2)"
    using i [of s] ne [of _ _ s] L side_index_requeue by auto
  ultimately obtain sb' cs where sb': "removeLevelIfEmpty (sideAt b s) ?st' (Some l) = Some sb'" "side_index sb' (isBids s) cs"
    "cells_ok ?st' (L(s := cs))" "queued cs = queued cs1 @ (xs @ ys) @ queued cs2" "\<forall>q k. (q, k, []) \<notin> set cs"
    using level_after_remove by blast
  let ?b = "(setSide b s sb')\<lparr>bk_store := ?st', bk_orders := (bk_orders b)(ord_ID od := None)\<rparr>"
  have res: "removeActive b r = Some ?b"
    using od s level_remove_unlinked [OF q] sb'(1) by (simp add: removeActive_def Let_def)
  have dr: "r \<notin> set xs" "r \<notin> set ys" using q by (auto simp: queue_ok_def)
  have liv: "live (L(s := cs)) = live L - {r}"
    using L sb'(4) queued_once [OF c i L, of r] dr by (intro live_remove [of L s "queued cs1 @ xs" r "ys @ queued cs2"]) auto
  have "index_ok ?b (L(s := cs))"
    using od ov by (intro index_ok_remove [OF ix liv rl]) (auto simp: store_simps)
  then have "book_ok ?b (L(s := cs))"
    using sb' i ne alloc_ok_frame [OF a fr] by (auto simp: book_ok_def)
  then show ?thesis using res sv liv sb'(4)
    by (intro exI [of _ ?b] exI [of _ "L(s := cs)"]) simp
qed

lemma removeActive_ok:
  assumes ok: "book_ok b L" and q: "queued (L s) = A @ r # B"
  shows "\<exists>b' L'. removeActive b r = Some b' \<and> book_ok b' L' \<and> (\<forall>t. t \<noteq> s \<longrightarrow> L' t = L t)
    \<and> same_values (bk_store b) (bk_store b') \<and> bk_Symbol b' = bk_Symbol b
    \<and> bk_nextTradeSeq b' = bk_nextTradeSeq b \<and> live L' = live L - {r} \<and> queued (L' s) = A @ B"
proof -
  have "r \<in> set (queued (L s))" using q by simp
  then obtain p l rs where "(p, l, rs) \<in> set (L s)" "r \<in> set rs" by (auto simp: in_queued)
  then obtain cs1 cs2 xs ys where L: "L s = cs1 @ (p, l, xs @ r # ys) # cs2"
    by (metis split_list)
  have "distinct (queued (L s))"
    using ok unfolding book_ok_def by (blast intro: queued_distinct)
  then have "r \<notin> set A" "r \<notin> set B" using q by auto
  moreover have "A @ r # B = (queued cs1 @ xs) @ r # (ys @ queued cs2)" using q L by simp
  ultimately have "A = queued cs1 @ xs" "B = ys @ queued cs2"
    using append_Cons_eq_iff [of r A B "queued cs1 @ xs" "ys @ queued cs2"] by blast+
  then show ?thesis using removeActive_cell [OF ok L] by simp
qed

subsection \<open>Changing the quantity of a resting order\<close>

lemma queued_cell:
  assumes "book_ok b L" and "r \<in> set (queued (L s))"
  obtains p l rs od where "(p, l, rs) \<in> set (L s)" and "r \<in> set rs"
    and "st_orders (bk_store b) r = Some od" and "ord_Level od = Some l"
    and "ord_Price od = p" and "bookSide (ord_Side od) = s"
proof -
  have c: "cells_ok (bk_store b) L" using assms(1) by (simp add: book_ok_def)
  obtain p l rs where h: "(p, l, rs) \<in> set (L s)" "r \<in> set rs" using assms(2) by (auto simp: in_queued)
  obtain od where "st_orders (bk_store b) r = Some od" "ord_Level od = Some l"
    using queue_ok_level [OF cells_okD(1) [OF c h(1)] h(2)] by blast
  then show ?thesis
    using that [OF h] cells_okD(3,4) [OF c h(1,2)] by (simp add: store_simps)
qed

lemma book_ok_requantified:
  assumes ok: "book_ok b L" and here: "(p, l, rs) \<in> set (L s)" and r: "r \<in> set rs"
  shows "book_ok (b\<lparr>bk_store := requantified (bk_store b) l r v\<rparr>) L"
proof -
  let ?st = "bk_store b" and ?st' = "requantified (bk_store b) l r v"
  have c: "cells_ok ?st L" and i: "\<And>t. side_index (sideAt b t) (isBids t) (L t)"
    and ix: "index_ok b L" and a: "alloc_ok ?st"
    using ok by (auto simp: book_ok_def)
  obtain xs ys where rs: "rs = xs @ r # ys" using r by (meson split_list)
  obtain cs1 cs2 where L: "L s = cs1 @ (p, l, rs) # cs2" using here by (meson split_list)
  have q: "queue_ok ?st l rs" using cells_okD(1) [OF c here] .
  obtain od where od: "st_orders ?st r = Some od" using queue_ok_level [OF q r] by blast
  note ov = requantified_oval [OF od, of l v]
  have fr: "frame l {r} ?st ?st'" using od by (intro requantified_frame) auto
  have "cell_ok ?st' s (p, l, rs)"
    using requantified_queue [of ?st l xs r ys v] q rs fr cells_okD(2-) [OF c here] ov
    by (auto simp: cell_ok_def frame_def)
  then have "cells_ok ?st' (L(s := cs1 @ (p, l, rs) # cs2))"
    using split_levels_differ [OF i c refl L] r by (intro cells_ok_replace [OF c L _ _ fr]) auto
  then have "cells_ok ?st' L" using L by (metis fun_upd_triv)
  moreover have "index_ok (b\<lparr>bk_store := ?st'\<rparr>) L" using ix ov by (simp add: index_ok_def)
  ultimately show ?thesis
    using ok alloc_ok_frame [OF a fr] by (simp add: book_ok_def)
qed

text \<open>An assignment to an order that is not queued changes nothing of the book.\<close>

lemma book_ok_unqueued:
  assumes ok: "book_ok b L" and r: "r \<notin> live L" "r \<in> dom (st_orders (bk_store b))"
  shows "book_ok (b\<lparr>bk_store := (bk_store b)\<lparr>st_orders := (st_orders (bk_store b))(r \<mapsto> od)\<rparr>\<rparr>) L"
proof -
  let ?st = "(bk_store b)\<lparr>st_orders := (st_orders (bk_store b))(r \<mapsto> od)\<rparr>"
  have "cells_ok ?st L"
    by (rule cells_ok_same [of "bk_store b"]) (use ok r(1) in \<open>auto simp: book_ok_def\<close>)
  moreover have "alloc_ok ?st" using ok r(2) by (auto simp: book_ok_def alloc_ok_def)
  moreover have "index_ok (b\<lparr>bk_store := ?st\<rparr>) L"
    using ok r(1) by (auto simp: book_ok_def index_ok_def oval_def)
  ultimately show ?thesis using ok by (simp add: book_ok_def)
qed

end
