(* ===== verification/Book_Spec.thy ===== *)
theory Book_Spec
  imports Price_Index
begin

text \<open>
  What a book promises, without pointers: each side is one list of orders in the order in which
  they will trade (price first, then time of arrival).  A new order is filled against a prefix of
  the opposite list, and its remainder is inserted behind all orders of the same or a better
  price.  The commands return the events the clients of the engine see.
\<close>

record abook =
  ab_Symbol :: string
  ab_queue :: "side_ptr \<Rightarrow> OrderSnapshot list"
  ab_nextTradeSeq :: uint64

fun opposite :: "side_ptr \<Rightarrow> side_ptr" where
  "opposite Bids = Asks"
| "opposite Asks = Bids"

definition emptyBook :: "string \<Rightarrow> abook" where
  "emptyBook symbol = \<lparr>ab_Symbol = symbol, ab_queue = (\<lambda>_. []), ab_nextTradeSeq = 1\<rparr>"

subsection \<open>Filling\<close>

text \<open>The prices an order may trade at: all of them for price zero, else up to its limit.\<close>

definition crosses :: "Side \<Rightarrow> int64 \<Rightarrow> int64 \<Rightarrow> bool" where
  "crosses side limit price =
     (if limit = 0 then True else if side = SideBuy then price \<le>s limit else limit \<le>s price)"

definition tradeEvent :: "uint64 \<Rightarrow> uint64 \<Rightarrow> OrderSnapshot \<Rightarrow> int64 \<Rightarrow> Event" where
  "tradeEvent tid taker maker qty = zeroEvent\<lparr>ev_Type := EventTrade, ev_TradeID := tid,
     ev_MakerOrderID := os_ID maker, ev_TakerOrderID := taker, ev_Price := os_Price maker,
     ev_Quantity := qty\<rparr>"

text \<open>
  \<open>fill allowed taker sq ts q xs\<close> trades \<open>q\<close> units against the resting orders \<open>xs\<close>, from the
  front: what is left of the orders, of the quantity, the trade counter, and the events.
\<close>

fun fill :: "(int64 \<Rightarrow> bool) \<Rightarrow> uint64 \<Rightarrow> uint64 \<Rightarrow> uint64 \<Rightarrow> int64 \<Rightarrow> OrderSnapshot list
    \<Rightarrow> OrderSnapshot list \<times> int64 \<times> uint64 \<times> Event list" where
  "fill allowed taker sq ts q [] = ([], q, ts, [])"
| "fill allowed taker sq ts q (x # xs) =
     (if q \<le>s 0 \<or> \<not> allowed (os_Price x) then (x # xs, q, ts, [])
      else (let k = min64 q (os_LeavesQty x); e = tradeEvent (tradeID sq ts) taker x k in
        if k = os_LeavesQty x
        then (let (xs', q', ts', es) = fill allowed taker sq (ts + 1) (q - k) xs
              in (xs', q', ts', e # es))
        else (x\<lparr>os_LeavesQty := os_LeavesQty x - k\<rparr> # xs, q - k, ts + 1,
              [e, reducedEvent (os_ID x) (os_LeavesQty x - k)])))"

definition insertOrder :: "bool \<Rightarrow> OrderSnapshot \<Rightarrow> OrderSnapshot list \<Rightarrow> OrderSnapshot list" where
  "insertOrder isBid x xs =
     takeWhile (\<lambda>y. \<not> before isBid (os_Price x) (os_Price y)) xs
     @ x # dropWhile (\<lambda>y. \<not> before isBid (os_Price x) (os_Price y)) xs"

definition abs_rest :: "abook \<Rightarrow> OrderSnapshot \<Rightarrow> abook" where
  "abs_rest a x = (let s = bookSide (os_Side x) in
     a\<lparr>ab_queue := (ab_queue a)(s := insertOrder (s = Bids) x (ab_queue a s))\<rparr>)"

definition abs_match :: "abook \<Rightarrow> OrderSnapshot \<Rightarrow> uint64 \<Rightarrow> abook \<times> OrderSnapshot \<times> Event list" where
  "abs_match a x sq =
     (let s = (if os_Side x = SideBuy then Asks else Bids);
          (xs, q, ts, es) = fill (crosses (os_Side x) (os_Price x)) (os_ID x) sq
             (ab_nextTradeSeq a) (os_LeavesQty x) (ab_queue a s)
      in (a\<lparr>ab_queue := (ab_queue a)(s := xs), ab_nextTradeSeq := ts\<rparr>, x\<lparr>os_LeavesQty := q\<rparr>, es))"

subsection \<open>Availability for fill-or-kill orders\<close>

text \<open>
  The total of every price level, in 64-bit arithmetic, best price first, and the scan over
  the levels.
\<close>

definition levelTotals :: "OrderSnapshot list \<Rightarrow> (int64 \<times> int64) list" where
  "levelTotals xs =
     map (\<lambda>p. (p, \<Sum>x\<leftarrow>filter (\<lambda>x. os_Price x = p) xs. os_LeavesQty x)) (remdups_adj (map os_Price xs))"

fun scanTotals :: "(int64 \<Rightarrow> bool) \<Rightarrow> int64 \<Rightarrow> (int64 \<times> int64) list \<Rightarrow> int64 \<Rightarrow> int64" where
  "scanTotals canTake required [] acc = acc"
| "scanTotals canTake required ((p, t) # ls) acc =
     (if \<not> canTake p then acc
      else if required - acc \<le>s t then required
      else scanTotals canTake required ls (acc + t))"

definition abs_available :: "abook \<Rightarrow> Command \<Rightarrow> int64" where
  "abs_available a cmd = scanTotals
     (\<lambda>p. if cmd_OrderType cmd = OrderTypeMarket then True
          else if cmd_Side cmd = SideBuy then p \<le>s cmd_Price cmd else cmd_Price cmd \<le>s p)
     (cmd_Quantity cmd)
     (levelTotals (ab_queue a (if cmd_Side cmd = SideBuy then Asks else Bids))) 0"

subsection \<open>Commands\<close>

definition allOrders :: "abook \<Rightarrow> OrderSnapshot list" where
  "allOrders a = ab_queue a Bids @ ab_queue a Asks"

definition findOrder :: "abook \<Rightarrow> uint64 \<Rightarrow> OrderSnapshot option" where
  "findOrder a oid = find (\<lambda>x. os_ID x = oid) (allOrders a)"

definition dropOrder :: "abook \<Rightarrow> uint64 \<Rightarrow> abook" where
  "dropOrder a oid = a\<lparr>ab_queue := (\<lambda>s. filter (\<lambda>x. os_ID x \<noteq> oid) (ab_queue a s))\<rparr>"

definition setLeaves :: "abook \<Rightarrow> uint64 \<Rightarrow> int64 \<Rightarrow> abook" where
  "setLeaves a oid v = a\<lparr>ab_queue := (\<lambda>s.
     map (\<lambda>x. if os_ID x = oid then x\<lparr>os_LeavesQty := v\<rparr> else x) (ab_queue a s))\<rparr>"

definition abs_place :: "abook \<Rightarrow> Command \<Rightarrow> abook \<times> Event list" where
  "abs_place a cmd =
     (let (a, x, es) = abs_match a \<lparr>os_ID = cmd_OrderID cmd, os_Side = cmd_Side cmd,
            os_Price = cmd_Price cmd, os_LeavesQty = cmd_Quantity cmd, os_Seq = cmd_Seq cmd\<rparr> (cmd_Seq cmd);
          es = acceptEvent (cmd_OrderID cmd) # es
      in if os_LeavesQty x = 0 then (a, es)
         else if cmd_OrderType cmd = OrderTypeMarket \<or> cmd_TimeInForce cmd = TIFIOC
         then (a, es @ [cancelEvent (os_ID x) (os_LeavesQty x) CancelUnfilledRemainder])
         else (abs_rest a x, es @ [restedEvent (os_ID x) (os_Price x) (os_LeavesQty x)]))"

definition abs_new :: "abook \<Rightarrow> Command \<Rightarrow> abook \<times> Event list" where
  "abs_new a cmd =
     (if findOrder a (cmd_OrderID cmd) \<noteq> None
      then (a, [rejectEvent RejectDuplicateOrderID (cmd_OrderID cmd)])
      else if cmd_TimeInForce cmd = TIFFOK \<and> abs_available a cmd <s cmd_Quantity cmd
      then (a, [rejectEvent RejectWouldNotFullyFill (cmd_OrderID cmd)])
      else abs_place a cmd)"

definition abs_cancel :: "abook \<Rightarrow> Command \<Rightarrow> abook \<times> Event list" where
  "abs_cancel a cmd =
     (case findOrder a (cmd_OrderID cmd) of
        None \<Rightarrow> (a, [rejectEvent RejectUnknownOrderID (cmd_OrderID cmd)])
      | Some x \<Rightarrow> (dropOrder a (cmd_OrderID cmd),
          [acceptEvent (cmd_OrderID cmd), cancelEvent (cmd_OrderID cmd) (os_LeavesQty x) CancelByUser]))"

definition abs_reduce :: "abook \<Rightarrow> OrderSnapshot \<Rightarrow> int64 \<Rightarrow> abook \<times> Event list" where
  "abs_reduce a x v =
     (setLeaves a (os_ID x) v,
      (if 0 <s os_LeavesQty x - v then [reducedEvent (os_ID x) v] else [])
      @ [replacedEvent (os_ID x) (os_Price x) v True])"

definition abs_move :: "abook \<Rightarrow> Command \<Rightarrow> OrderSnapshot \<Rightarrow> int64 \<Rightarrow> abook \<times> Event list" where
  "abs_move a cmd x newPrice =
     (let (a, y, es) = abs_match (dropOrder a (cmd_OrderID cmd)) \<lparr>os_ID = cmd_OrderID cmd,
            os_Side = os_Side x, os_Price = newPrice, os_LeavesQty = cmd_NewLeavesQty cmd,
            os_Seq = cmd_Seq cmd\<rparr> (cmd_Seq cmd);
          (a, es) = (if 0 <s os_LeavesQty y
            then (abs_rest a y, es @ [restedEvent (os_ID y) (os_Price y) (os_LeavesQty y)])
            else (a, es))
      in (a, es @ [replacedEvent (cmd_OrderID cmd) newPrice (os_LeavesQty y) False]))"

definition replacePrice :: "Command \<Rightarrow> OrderSnapshot \<Rightarrow> int64" where
  "replacePrice cmd x = (if 0 <s cmd_NewPrice cmd then cmd_NewPrice cmd else os_Price x)"

definition abs_replace :: "abook \<Rightarrow> Command \<Rightarrow> abook \<times> Event list" where
  "abs_replace a cmd =
     (case findOrder a (cmd_OrderID cmd) of
        None \<Rightarrow> (a, [rejectEvent RejectUnknownOrderID (cmd_OrderID cmd)])
      | Some x \<Rightarrow>
          if replacePrice cmd x \<le>s 0 \<or> cmd_NewLeavesQty cmd \<le>s 0
          then (a, [rejectEvent RejectInvalidReplace (cmd_OrderID cmd)])
          else (let (a, es) =
                  (if replacePrice cmd x = os_Price x \<and> cmd_NewLeavesQty cmd \<le>s os_LeavesQty x
                   then abs_reduce a x (cmd_NewLeavesQty cmd)
                   else abs_move a cmd x (replacePrice cmd x))
                in (a, acceptEvent (cmd_OrderID cmd) # es)))"

definition abs_apply :: "abook \<Rightarrow> Command \<Rightarrow> abook \<times> Event list" where
  "abs_apply a cmd =
     (if cmd_Symbol cmd \<noteq> ab_Symbol a
      then (a, [rejectEvent RejectInvalidSymbol (cmd_OrderID cmd)])
      else if Validate cmd \<noteq> None
      then (a, [rejectEvent (ValidationRejectReason cmd) (cmd_OrderID cmd)])
      else if cmd_Type cmd = CommandNew then abs_new a cmd
      else if cmd_Type cmd = CommandCancel then abs_cancel a cmd
      else if cmd_Type cmd = CommandReplace then abs_replace a cmd
      else (a, []))"

end
