(* ===== verification/Book_Refine.thy ===== *)
theory Book_Refine
  imports Book_Links Book_Spec
begin

text \<open>
  The pointer book implements the list book.  \<open>represents b a\<close> says that the book \<open>b\<close> is well
  formed and that the queues of its layout, read in price order, are the lists of \<open>a\<close>.  Every
  operation of the book, applied to a book that represents \<open>a\<close>, returns (it neither
  dereferences nil nor loops) and gives the result and a representation of the state that the
  specification gives.
\<close>

definition absq :: "store \<Rightarrow> cell list \<Rightarrow> OrderSnapshot list" where
  "absq st cs = map (oval st) (queued cs)"

definition shows_as :: "Book \<Rightarrow> layout \<Rightarrow> abook \<Rightarrow> bool" where
  "shows_as b L a \<longleftrightarrow> book_ok b L \<and> ab_Symbol a = bk_Symbol b \<and> ab_nextTradeSeq a = bk_nextTradeSeq b
     \<and> (\<forall>s. ab_queue a s = absq (bk_store b) (L s))"

definition represents :: "Book \<Rightarrow> abook \<Rightarrow> bool" where
  "represents b a \<longleftrightarrow> (\<exists>L. shows_as b L a)"

lemma shows_as_queue: "shows_as b L a \<Longrightarrow> absq (bk_store b) (L s) = ab_queue a s"
  by (simp add: shows_as_def)

lemma book_ok_side: "book_ok b L \<Longrightarrow> side_index (sideAt b s) (isBids s) (L s)"
  by (simp add: book_ok_def)

lemma book_ok_cells: "book_ok b L \<Longrightarrow> cells_ok (bk_store b) L"
  by (simp add: book_ok_def)

lemma book_ok_queue_cases:
  assumes "book_ok b L"
  obtains "L s = []" | p l r rs cs where "L s = (p, l, r # rs) # cs"
proof (cases "L s")
  case (Cons c cs)
  obtain p l rs where c: "c = (p, l, rs)" by (cases c)
  moreover have "(p, l, []) \<notin> set (L s)" using assms by (simp add: book_ok_def)
  ultimately show thesis using Cons that(2) by (cases rs) auto
qed (use that in simp)

lemma abook_upd_triv:
  "xs = ab_queue a s \<Longrightarrow> n = ab_nextTradeSeq a \<Longrightarrow>
   a\<lparr>ab_queue := (ab_queue a)(s := xs), ab_nextTradeSeq := n\<rparr> = a"
  by (cases a) simp

lemma orderSnapshot_upd_triv: "(orderSnapshot od)\<lparr>os_LeavesQty := ord_LeavesQty od\<rparr> = orderSnapshot od"
  by (simp add: orderSnapshot_def)

lemma absq_cong:
  assumes "\<forall>r\<in>set (queued cs). oval st' r = oval st r"
  shows "absq st' cs = absq st cs"
  using assms by (simp add: absq_def)

lemma absq_same_values:
  assumes "same_values st st'" and "cells_ok st L"
  shows "absq st' (L s) = absq st (L s)"
proof (rule absq_cong, rule ballI)
  fix r assume "r \<in> set (queued (L s))"
  then have "r \<in> dom (st_orders st)" using live_dom [OF assms(2)] queued_live by blast
  then show "oval st' r = oval st r" by (rule same_values_oval [OF assms(1)])
qed

subsection \<open>Finding an order by its id\<close>

lemma book_ok_ids:
  assumes "book_ok b L" and "x \<in> live L" and "y \<in> live L"
    and "os_ID (oval (bk_store b) x) = os_ID (oval (bk_store b) y)"
  shows "x = y"
  using assms unfolding book_ok_def index_ok_def by (metis option.inject)

lemma allOrders_live:
  assumes "shows_as b L a"
  shows "set (allOrders a) = oval (bk_store b) ` live L"
proof -
  have "live L = set (queued (L Bids)) \<union> set (queued (L Asks))"
    unfolding live_def by (auto intro: side_ptr.exhaust) (metis side_ptr.exhaust)
  then show ?thesis using assms by (simp add: shows_as_def allOrders_def absq_def image_Un)
qed

lemma findOrder_None:
  assumes "shows_as b L a"
  shows "findOrder a oid = None \<longleftrightarrow> bk_orders b oid = None"
proof -
  have "findOrder a oid = None \<longleftrightarrow> (\<forall>x\<in>set (allOrders a). os_ID x \<noteq> oid)"
    by (simp add: findOrder_def find_None_iff) blast
  also have "\<dots> \<longleftrightarrow> (\<forall>r\<in>live L. os_ID (oval (bk_store b) r) \<noteq> oid)"
    by (simp add: allOrders_live [OF assms])
  also have "\<dots> \<longleftrightarrow> bk_orders b oid = None"
    using assms unfolding shows_as_def book_ok_def index_ok_def by (metis option.exhaust option.simps(3))
  finally show ?thesis .
qed

lemma findOrder_Some:
  assumes sh: "shows_as b L a" and r: "bk_orders b oid = Some r"
  shows "findOrder a oid = Some (oval (bk_store b) r)" and "r \<in> live L"
    and "os_ID (oval (bk_store b) r) = oid"
proof -
  have ok: "book_ok b L" using sh by (simp add: shows_as_def)
  then show l: "r \<in> live L" and i: "os_ID (oval (bk_store b) r) = oid"
    using r unfolding book_ok_def index_ok_def by metis+
  obtain x where x: "findOrder a oid = Some x"
    using findOrder_None [OF sh, of oid] r by (metis option.exhaust option.simps(3))
  then have "os_ID x = oid" "x \<in> set (allOrders a)"
    unfolding findOrder_def by (auto simp: find_Some_iff)
  then obtain y where y: "y \<in> live L" "x = oval (bk_store b) y" "os_ID (oval (bk_store b) y) = oid"
    using allOrders_live [OF sh] by auto
  then have "y = r" using book_ok_ids [OF ok] l i by metis
  with x y show "findOrder a oid = Some (oval (bk_store b) r)" by simp
qed

subsection \<open>Resting, removing and reducing\<close>

lemma insertOrder_split:
  assumes "\<forall>y\<in>set A. \<not> before isBid (os_Price x) (os_Price y)"
    and "\<forall>y\<in>set B. before isBid (os_Price x) (os_Price y)"
  shows "insertOrder isBid x (A @ B) = A @ x # B"
proof -
  have "takeWhile (\<lambda>y. \<not> before isBid (os_Price x) (os_Price y)) (A @ B) = A"
    using assms by (cases B) (simp_all add: takeWhile_append)
  moreover have "dropWhile (\<lambda>y. \<not> before isBid (os_Price x) (os_Price y)) (A @ B) = B"
    using assms by (cases B) (simp_all add: dropWhile_append)
  ultimately show ?thesis by (simp add: insertOrder_def)
qed

lemma rest_refines:
  assumes sh: "shows_as b L a" and r: "st_orders (bk_store b) r = Some od" "r \<notin> live L"
    and new: "findOrder a (ord_ID od) = None"
  shows "\<exists>b'. rest b r = Some b' \<and> represents b' (abs_rest a (orderSnapshot od))"
proof -
  let ?s = "bookSide (ord_Side od)" and ?st = "bk_store b"
  have ok: "book_ok b L" using sh by (simp add: shows_as_def)
  have n: "bk_orders b (ord_ID od) = None" using findOrder_None [OF sh] new by simp
  obtain b' L' A B where b': "rest b r = Some b'" "book_ok b' L'" "\<forall>t. t \<noteq> ?s \<longrightarrow> L' t = L t"
    and sv: "same_values ?st (bk_store b')" and f: "bk_Symbol b' = bk_Symbol b" "bk_nextTradeSeq b' = bk_nextTradeSeq b"
    and q: "queued (L ?s) = A @ B" "queued (L' ?s) = A @ r # B"
      "\<forall>x\<in>set A. \<not> before (isBids ?s) (ord_Price od) (os_Price (oval ?st x))"
      "\<forall>x\<in>set B. before (isBids ?s) (ord_Price od) (os_Price (oval ?st x))"
    using rest_ok [OF ok r n refl refl] by auto
  have c: "cells_ok ?st L" using ok by (simp add: book_ok_def)
  have ov: "oval (bk_store b') x = oval ?st x" if "x \<in> insert r (live L)" for x
    using that r(1) live_dom [OF c] same_values_oval [OF sv, of x] by auto
  have ovq: "oval (bk_store b') x = oval ?st x" if "x \<in> set A \<union> set B" for x
    using that ov q(1) queued_live [of L ?s] by auto
  have "insertOrder (?s = Bids) (orderSnapshot od) (absq ?st (L ?s)) = absq (bk_store b') (L' ?s)"
    using q insertOrder_split [of "map (oval ?st) A" "?s = Bids" "orderSnapshot od" "map (oval ?st) B"]
      ov [of r] ovq r(1) by (simp add: absq_def isBids_def store_simps)
  moreover have "absq (bk_store b') (L t) = absq ?st (L t)" for t
    using absq_same_values [OF sv c] .
  ultimately have "shows_as b' L' (abs_rest a (orderSnapshot od))"
    using b' f sh by (auto simp: shows_as_def abs_rest_def Let_def)
  with b'(1) show ?thesis by (auto simp: represents_def)
qed

lemma removeActive_refines:
  assumes sh: "shows_as b L a" and r: "r \<in> live L" and oid: "oid = os_ID (oval (bk_store b) r)"
  shows "\<exists>b' L'. removeActive b r = Some b' \<and> shows_as b' L' (dropOrder a oid)"
proof -
  let ?st = "bk_store b"
  have ok: "book_ok b L" using sh by (simp add: shows_as_def)
  then have c: "cells_ok ?st L" by (simp add: book_ok_def)
  obtain s where "r \<in> set (queued (L s))" using r by (auto simp: live_def)
  then obtain A B where q: "queued (L s) = A @ r # B" by (meson split_list)
  obtain b' L' where b': "removeActive b r = Some b'" "book_ok b' L'" "\<forall>t. t \<noteq> s \<longrightarrow> L' t = L t"
    and sv: "same_values ?st (bk_store b')" and f: "bk_Symbol b' = bk_Symbol b" "bk_nextTradeSeq b' = bk_nextTradeSeq b"
    and q': "live L' = live L - {r}" "queued (L' s) = A @ B"
    using removeActive_ok [OF ok q] by auto
  have diff: "os_ID (oval ?st x) \<noteq> oid" if "x \<in> live L'" for x
    using that book_ok_ids [OF ok _ r] q'(1) oid by auto
  have keep: "filter (\<lambda>x. os_ID x \<noteq> oid) (map (oval ?st) xs) = map (oval ?st) xs"
    if "set xs \<subseteq> live L'" for xs
    using that diff by (auto simp: filter_id_conv)
  have "filter (\<lambda>x. os_ID x \<noteq> oid) (absq ?st (L t)) = absq ?st (L' t)" for t
  proof (cases "t = s")
    case True
    have "set (A @ B) \<subseteq> live L'" using queued_live [of L' s] q'(2) by simp
    then show ?thesis
      using True q q'(2) keep [of A] keep [of B] oid by (simp add: absq_def)
  next
    case False
    then show ?thesis using keep queued_live [of L' t] b'(3) by (simp add: absq_def)
  qed
  moreover have "absq (bk_store b') (L' t) = absq ?st (L' t)" for t
  proof (rule absq_cong, rule ballI)
    fix x assume "x \<in> set (queued (L' t))"
    then have "x \<in> dom (st_orders ?st)" using q'(1) queued_live [of L' t] live_dom [OF c] by auto
    then show "oval (bk_store b') x = oval ?st x" by (rule same_values_oval [OF sv])
  qed
  ultimately have "shows_as b' L' (dropOrder a oid)"
    using sh b' f by (simp add: shows_as_def dropOrder_def)
  with b'(1) show ?thesis by blast
qed

lemma allocOrder_refines:
  assumes sh: "shows_as b L a" and "allocOrder (bk_store b) od = (r, st')"
  shows "shows_as (b\<lparr>bk_store := st'\<rparr>) L a" and "r \<notin> live L" and "st_orders st' r = Some od"
proof -
  have ok: "book_ok b L" using sh by (simp add: shows_as_def)
  note al = book_ok_allocOrder [OF ok assms(2)]
  have "absq st' (L s) = absq (bk_store b) (L s)" for s
    using al(4) queued_live by (intro absq_cong) blast
  then show "shows_as (b\<lparr>bk_store := st'\<rparr>) L a" using sh al(1) by (simp add: shows_as_def)
  show "r \<notin> live L" and "st_orders st' r = Some od" using al by simp_all
qed

lemma reduceInPlace_refines:
  assumes sh: "shows_as b L a" and r: "r \<in> live L" and x: "x = oval (bk_store b) r"
  shows "\<exists>b'. reduceInPlace b r v res = Some (b', res\<lparr>res_Events := res_Events res @ snd (abs_reduce a x v)\<rparr>)
         \<and> represents b' (fst (abs_reduce a x v))"
proof -
  let ?st = "bk_store b"
  have ok: "book_ok b L" using sh by (simp add: shows_as_def)
  obtain s where "r \<in> set (queued (L s))" using r by (auto simp: live_def)
  then obtain p l rs od where h: "(p, l, rs) \<in> set (L s)" "r \<in> set rs"
    and od: "st_orders ?st r = Some od" "ord_Level od = Some l"
    using queued_cell [OF ok] by metis
  let ?st' = "requantified ?st l r v"
  obtain lv where lv: "st_levels ?st l = Some lv"
    using ok cells_okD(2) [of ?st L p l rs s] h(1) by (auto simp: book_ok_def)
  have eq: "?st\<lparr>st_levels := (st_levels ?st)(l \<mapsto> lv\<lparr>lvl_TotalQty := lvl_TotalQty lv - (ord_LeavesQty od - v)\<rparr>),
      st_orders := (st_orders ?st)(r \<mapsto> od\<lparr>ord_LeavesQty := v\<rparr>)\<rparr> = ?st'"
    using od lv by (simp add: requantified_def store_simps)
  have so: "st_orders ?st' r = Some (od\<lparr>ord_LeavesQty := v\<rparr>)"
    using od by (simp add: requantified_def)
  have "absq ?st' (L t) = map (\<lambda>x. if os_ID x = os_ID (oval ?st r) then x\<lparr>os_LeavesQty := v\<rparr> else x) (absq ?st (L t))" for t
    using book_ok_ids [OF ok _ r] queued_live [of L t] requantified_oval [OF od(1), of l v]
    by (auto simp: absq_def)
  then have sh': "shows_as (b\<lparr>bk_store := ?st'\<rparr>) L (setLeaves a (os_ID x) v)"
    using sh book_ok_requantified [OF ok h, of v] x by (simp add: shows_as_def setLeaves_def)
  have "reduceInPlace b r v res = Some (b\<lparr>bk_store := ?st'\<rparr>,
      res\<lparr>res_Events := res_Events res @ snd (abs_reduce a x v)\<rparr>)"
    using od lv eq x so
    by (simp add: reduceInPlace_def Let_def store_simps abs_reduce_def emit_def)
  with sh' show ?thesis by (auto simp: represents_def abs_reduce_def)
qed

subsection \<open>Matching\<close>

lemma book_ok_tradeSeq [simp]: "book_ok (b\<lparr>bk_nextTradeSeq := n\<rparr>) L = book_ok b L"
  by (simp add: book_ok_def index_ok_def)

text \<open>The store after a trade of \<open>k\<close> units, before a filled resting order is removed.\<close>

definition traded :: "store \<Rightarrow> oref \<Rightarrow> lref \<Rightarrow> oref \<Rightarrow> int64 \<Rightarrow> store" where
  "traded st inc l r k =
     requantified (st\<lparr>st_orders := (st_orders st)(inc := map_option (\<lambda>y. y\<lparr>ord_LeavesQty := ord_LeavesQty y - k\<rparr>)
        (st_orders st inc))\<rparr>) l r (os_LeavesQty (oval st r) - k)"

lemma traded_refines:
  assumes sh: "shows_as b L a" and L: "L s = (p, l, r # rs) # cs"
    and io: "st_orders (bk_store b) inc = Some io" "inc \<notin> live L"
    and x: "x = oval (bk_store b) r"
  shows "shows_as (b\<lparr>bk_store := traded (bk_store b) inc l r k\<rparr>) L
     (a\<lparr>ab_queue := (ab_queue a)(s := x\<lparr>os_LeavesQty := os_LeavesQty x - k\<rparr> # tl (ab_queue a s))\<rparr>)"
proof -
  let ?st = "bk_store b"
  let ?st1 = "?st\<lparr>st_orders := (st_orders ?st)(inc \<mapsto> io\<lparr>ord_LeavesQty := ord_LeavesQty io - k\<rparr>)\<rparr>"
  let ?st2 = "traded ?st inc l r k"
  have ok: "book_ok b L" using sh by (simp add: shows_as_def)
  then have c: "cells_ok ?st L" by (simp add: book_ok_def)
  have ok1: "book_ok (b\<lparr>bk_store := ?st1\<rparr>) L" using io by (intro book_ok_unqueued [OF ok]) auto
  have h: "(p, l, r # rs) \<in> set (L s)" "r \<in> set (r # rs)" using L by simp_all
  have rl: "r \<in> live L" using h live_iff by blast
  obtain ro where ro: "st_orders ?st1 r = Some ro"
    using queue_ok_level [OF cells_okD(1) [OF c h(1)] h(2)] by (cases "r = inc") auto
  have st2: "?st2 = requantified ?st1 l r (os_LeavesQty (oval ?st r) - k)"
    using io by (simp add: traded_def)
  have ok2: "book_ok (b\<lparr>bk_store := ?st2\<rparr>) L"
    using book_ok_requantified [OF ok1 h, of "os_LeavesQty (oval ?st r) - k"] st2 by simp
  have ov: "oval ?st2 z = (if z = r then x\<lparr>os_LeavesQty := os_LeavesQty x - k\<rparr> else oval ?st z)"
    if "z \<in> live L" for z
  proof -
    have "oval ?st1 z = oval ?st z" if "z \<in> live L" for z using that io(2) by (auto simp: oval_def)
    then show ?thesis using that rl requantified_oval [OF ro] st2 x by simp
  qed
  have di: "distinct (queued (L s))"
    using ok unfolding book_ok_def by (blast intro: queued_distinct)
  have tail: "map (oval ?st2) (rs @ queued cs) = map (oval ?st) (rs @ queued cs)"
    using di L ov queued_live [of L s] by auto
  have "absq ?st2 (L t) = (if t = s then x\<lparr>os_LeavesQty := os_LeavesQty x - k\<rparr> # tl (absq ?st (L s)) else absq ?st (L t))" for t
  proof (cases "t = s")
    case True
    then show ?thesis using L tail ov [OF rl] by (simp add: absq_def)
  next
    case False
    have "r \<notin> set (queued (L t))"
      using queued_once(3) [OF c book_ok_side [OF ok] _ h(2) False, of "[]" p l cs] L by simp
    then have "absq ?st2 (L t) = absq ?st (L t)"
      using ov queued_live [of L t] by (intro absq_cong) auto
    then show ?thesis using False by simp
  qed
  then show ?thesis using sh ok2 by (simp add: shows_as_def)
qed

text \<open>A resting order that was filled leaves the head of its side; the incoming order is not touched.\<close>

lemma filled_removed:
  assumes sh: "shows_as b L a" and L: "L s = (p, l, r # rs) # cs" and inc: "st_orders (bk_store b) inc = Some y" "inc \<notin> live L"
  shows "\<exists>b' L' io'. removeActive b r = Some b' \<and> shows_as b' L' (a\<lparr>ab_queue := (ab_queue a)(s := tl (ab_queue a s))\<rparr>)
    \<and> inc \<notin> live L' \<and> st_orders (bk_store b') inc = Some io' \<and> orderSnapshot io' = orderSnapshot y"
proof -
  let ?st = "bk_store b"
  have ok: "book_ok b L" and q: "queued (L s) = [] @ r # (rs @ queued cs)" using sh L by (simp_all add: shows_as_def)
  obtain b' L' where b': "removeActive b r = Some b'" "book_ok b' L'" "\<forall>t. t \<noteq> s \<longrightarrow> L' t = L t"
    and sv: "same_values ?st (bk_store b')" and f: "bk_Symbol b' = bk_Symbol b" "bk_nextTradeSeq b' = bk_nextTradeSeq b"
    and q': "live L' = live L - {r}" "queued (L' s) = [] @ rs @ queued cs"
    using removeActive_ok [OF ok q] by auto
  have c: "cells_ok ?st L" using ok by (simp add: book_ok_def)
  have sq: "absq (bk_store b') (L' t) = absq ?st (L' t)" for t
  proof (rule absq_cong, rule ballI)
    fix z assume "z \<in> set (queued (L' t))"
    then have "z \<in> dom (st_orders ?st)" using q'(1) queued_live [of L' t] live_dom [OF c] by auto
    then show "oval (bk_store b') z = oval ?st z" by (rule same_values_oval [OF sv])
  qed
  have "absq ?st (L' s) = tl (absq ?st (L s))" using q q'(2) by (simp add: absq_def)
  then have "shows_as b' L' (a\<lparr>ab_queue := (ab_queue a)(s := tl (ab_queue a s))\<rparr>)"
    using sh b' f sq shows_as_queue [OF sh] by (auto simp: shows_as_def)
  moreover have "map_option orderSnapshot (st_orders (bk_store b') inc) = Some (orderSnapshot y)"
    using sv inc(1) by (auto simp: same_values_def)
  ultimately show ?thesis using b'(1) q'(1) inc(2) by (auto intro!: exI [of _ b'] exI [of _ L'])
qed

lemma tradeWith_refines:
  assumes sh: "shows_as b L a" and L: "L s = (p, l, r # rs) # cs"
    and io: "st_orders (bk_store b) inc = Some io" "inc \<notin> live L"
    and x: "x = oval (bk_store b) r" and k: "k = min64 (ord_LeavesQty io) (os_LeavesQty x)"
    and e: "e = tradeEvent (tradeID (res_CommandSeq res) (ab_nextTradeSeq a)) (ord_ID io) x k"
  shows "\<exists>b' L' io'. tradeWith b inc r res = Some (b', res\<lparr>res_Events := res_Events res @
      (if k = os_LeavesQty x then [e] else [e, reducedEvent (os_ID x) (os_LeavesQty x - k)])\<rparr>)
    \<and> shows_as b' L' (a\<lparr>ab_queue := (ab_queue a)(s :=
        (if k = os_LeavesQty x then [] else [x\<lparr>os_LeavesQty := os_LeavesQty x - k\<rparr>]) @ tl (ab_queue a s)),
        ab_nextTradeSeq := ab_nextTradeSeq a + 1\<rparr>)
    \<and> inc \<notin> live L' \<and> st_orders (bk_store b') inc = Some io'
    \<and> orderSnapshot io' = (orderSnapshot io)\<lparr>os_LeavesQty := ord_LeavesQty io - k\<rparr>"
proof -
  let ?st = "bk_store b" and ?st2 = "traded (bk_store b) inc l r k"
  let ?b2 = "b\<lparr>bk_store := ?st2, bk_nextTradeSeq := bk_nextTradeSeq b + 1\<rparr>"
  let ?y = "io\<lparr>ord_LeavesQty := ord_LeavesQty io - k\<rparr>"
  have ok: "book_ok b L" and ts: "ab_nextTradeSeq a = bk_nextTradeSeq b" using sh by (simp_all add: shows_as_def)
  then have c: "cells_ok ?st L" by (simp add: book_ok_def)
  have h: "(p, l, r # rs) \<in> set (L s)" "r \<in> set (r # rs)" using L by simp_all
  have ne: "r \<noteq> inc" using io(2) h live_iff by blast
  obtain ro where ro: "st_orders ?st r = Some ro" "ord_Level ro = Some l"
    using queue_ok_level [OF cells_okD(1) [OF c h(1)] h(2)] by blast
  obtain lv where lv: "st_levels ?st l = Some lv" using cells_okD(2) [OF c h(1)] by auto
  have xs: "x = orderSnapshot ro" using x ro by (simp add: store_simps)
  have st2: "traded ?st inc l r k = ?st\<lparr>st_orders := (st_orders ?st)
        (inc \<mapsto> io\<lparr>ord_LeavesQty := ord_LeavesQty io - k\<rparr>, r \<mapsto> ro\<lparr>ord_LeavesQty := ord_LeavesQty ro - k\<rparr>),
      st_levels := (st_levels ?st)(l \<mapsto> lv\<lparr>lvl_TotalQty := lvl_TotalQty lv - k\<rparr>)\<rparr>" for k
    using io ro lv ne by (simp add: traded_def requantified_def store_simps)
  have sh2: "shows_as ?b2 L (a\<lparr>ab_queue := (ab_queue a)(s := x\<lparr>os_LeavesQty := os_LeavesQty x - k\<rparr> # tl (ab_queue a s)),
        ab_nextTradeSeq := ab_nextTradeSeq a + 1\<rparr>)"
    using traded_refines [OF sh L io x, of k] ts by (simp add: shows_as_def)
  have kq: "min64 (ord_LeavesQty io) (ord_LeavesQty ro) = k" using k xs by simp
  have tw: "tradeWith b inc r res = (if k = os_LeavesQty x
      then Option.bind (removeActive ?b2 r) (\<lambda>b. Some (b, emit e res))
      else Some (?b2, emit (reducedEvent (os_ID x) (os_LeavesQty x - k)) (emit e res)))"
    using io(1) ro lv ne ts kq
    by (simp add: tradeWith_def Let_def store_simps nextTradeID_def st2 xs e tradeEvent_def reducedEvent_def)
  have y: "st_orders (bk_store ?b2) inc = Some ?y" using st2 ne by simp
  have ys: "orderSnapshot ?y = (orderSnapshot io)\<lparr>os_LeavesQty := ord_LeavesQty io - k\<rparr>" by (simp add: orderSnapshot_def)
  show ?thesis
  proof (cases "k = os_LeavesQty x")
    case False
    then show ?thesis using tw sh2 io(2) y ys
      by (intro exI [of _ ?b2] exI [of _ L] exI [of _ ?y]) (simp add: emit_def)
  next
    case True
    have comm: "a\<lparr>ab_nextTradeSeq := n, ab_queue := f\<rparr> = a\<lparr>ab_queue := f, ab_nextTradeSeq := n\<rparr>" for f n by simp
    from filled_removed [OF sh2 L y io(2)] show ?thesis using True tw ys by (auto simp: emit_def comm)
  qed
qed

text \<open>The first cell of a side is what \<open>best\<close> finds.\<close>

lemma best_first:
  assumes "book_ok b L"
  shows "L s = [] \<Longrightarrow> best (sideAt b s) = None"
    and "L s = (p, l, rs) # cs \<Longrightarrow> best (sideAt b s) = Some l
      \<and> (\<exists>lv r rs'. st_levels (bk_store b) l = Some lv \<and> lvl_Price lv = p \<and> rs = r # rs' \<and> lvl_Head lv = Some r)"
proof -
  have i: "side_index (sideAt b s) (isBids s) (L s)" and c: "cells_ok (bk_store b) L"
    and ne: "(p, l, []) \<notin> set (L s)" using assms by (auto simp: book_ok_def)
  show "best (sideAt b s) = None" if "L s = []"
    using i that by (simp add: best_def side_index_def)
  show "best (sideAt b s) = Some l
      \<and> (\<exists>lv r rs'. st_levels (bk_store b) l = Some lv \<and> lvl_Price lv = p \<and> rs = r # rs' \<and> lvl_Head lv = Some r)"
    if L: "L s = (p, l, rs) # cs"
  proof -
    have h: "(p, l, rs) \<in> set (L s)" using L by simp
    have "best (sideAt b s) = Some l"
      using i L side_index_levels [OF i, of p l] by (auto simp: best_def side_index_def)
    moreover obtain r rs' where "rs = r # rs'" using ne L by (cases rs) auto
    ultimately show ?thesis
      using cells_okD(1,2) [OF c h] by (auto simp: queue_ok_def)
  qed
qed

text \<open>The head of the best level is the first order of the side.\<close>

lemma best_none: "shows_as b L a \<Longrightarrow> ab_queue a s = [] \<Longrightarrow> best (sideAt b s) = None"
proof -
  assume sh: "shows_as b L a" and q: "ab_queue a s = []"
  have ok: "book_ok b L" using sh by (simp add: shows_as_def)
  have "L s = []" by (rule book_ok_queue_cases [OF ok, of s]) (use shows_as_queue [OF sh, of s] q in \<open>auto simp: absq_def\<close>)
  then show ?thesis using best_first(1) [OF ok] by blast
qed

lemma best_order:
  assumes sh: "shows_as b L a" and q: "ab_queue a s = x # zs"
  obtains p l r rs cs lv where "L s = (p, l, r # rs) # cs" and "x = oval (bk_store b) r" and "best (sideAt b s) = Some l"
    and "st_levels (bk_store b) l = Some lv" and "lvl_Price lv = os_Price x" and "lvl_Head lv = Some r"
proof -
  have ok: "book_ok b L" using sh by (simp add: shows_as_def)
  obtain p l r rs cs where L: "L s = (p, l, r # rs) # cs"
    by (rule book_ok_queue_cases [OF ok, of s]) (use shows_as_queue [OF sh, of s] q in \<open>auto simp: absq_def\<close>)
  have x: "x = oval (bk_store b) r" using shows_as_queue [OF sh, of s] q L by (simp add: absq_def)
  have "os_Price x = p" using cells_okD(3) [OF book_ok_cells [OF ok], of p l "r # rs" s r] L x by simp
  then show thesis using best_first(2) [OF ok L] that [OF L x] by auto
qed

text \<open>One turn of the loop: a trade with the first order.\<close>

lemma match_turn:
  assumes sh: "shows_as b L a" and io: "st_orders (bk_store b) inc = Some io" "inc \<notin> live L" and q: "ab_queue a s = x # zs"
    and turn: "\<not> (ord_LeavesQty io \<le>s 0 \<or> \<not> allowed (os_Price x))"
    and k: "k = min64 (ord_LeavesQty io) (os_LeavesQty x)"
    and e: "e = tradeEvent (tradeID (res_CommandSeq res) (ab_nextTradeSeq a)) (ord_ID io) x k"
    and res': "res' = res\<lparr>res_Events := res_Events res @ (if k = os_LeavesQty x then [e] else [e, reducedEvent (os_ID x) (os_LeavesQty x - k)])\<rparr>"
    and a': "a' = a\<lparr>ab_queue := (ab_queue a)(s := (if k = os_LeavesQty x then [] else [x\<lparr>os_LeavesQty := os_LeavesQty x - k\<rparr>]) @ zs),
        ab_nextTradeSeq := ab_nextTradeSeq a + 1\<rparr>"
  obtains b' L' io' where "matchAgainst inc s allowed b res = matchAgainst inc s allowed b' res'" and "shows_as b' L' a'"
    and "st_orders (bk_store b') inc = Some io'" and "inc \<notin> live L'"
    and "orderSnapshot io' = (orderSnapshot io)\<lparr>os_LeavesQty := ord_LeavesQty io - k\<rparr>"
proof -
  obtain p l r rs cs lv where L: "L s = (p, l, r # rs) # cs" "x = oval (bk_store b) r" and b: "best (sideAt b s) = Some l"
    "st_levels (bk_store b) l = Some lv" "lvl_Price lv = os_Price x" "lvl_Head lv = Some r" by (rule best_order [OF sh q])
  obtain b' L' io' where t: "tradeWith b inc r res = Some (b', res')" "shows_as b' L' a'" "inc \<notin> live L'"
    "st_orders (bk_store b') inc = Some io'" "orderSnapshot io' = (orderSnapshot io)\<lparr>os_LeavesQty := ord_LeavesQty io - k\<rparr>"
    using tradeWith_refines [OF sh L(1) io L(2) k e] q unfolding res' a' by auto
  have "matchAgainst inc s allowed b res = matchAgainst inc s allowed b' res'"
    using turn io(1) b t(1) by (subst matchAgainst.simps) (simp add: signed_sint)
  then show thesis using that t by blast
qed

lemma matchAgainst_refines:
  assumes "shows_as b L a" and "st_orders (bk_store b) inc = Some io" and "inc \<notin> live L"
    and "fill allowed (ord_ID io) (res_CommandSeq res) (ab_nextTradeSeq a) (ord_LeavesQty io) (ab_queue a s)
         = (xs', q', ts', es)"
  shows "\<exists>b' L' io'. matchAgainst inc s allowed b res = Some (b', res\<lparr>res_Events := res_Events res @ es\<rparr>)
    \<and> shows_as b' L' (a\<lparr>ab_queue := (ab_queue a)(s := xs'), ab_nextTradeSeq := ts'\<rparr>)
    \<and> inc \<notin> live L' \<and> st_orders (bk_store b') inc = Some io'
    \<and> orderSnapshot io' = (orderSnapshot io)\<lparr>os_LeavesQty := q'\<rparr>"
  using assms
proof (induction "ab_queue a s" arbitrary: b L a io res xs' q' ts' es)
  case Nil
  have "best (sideAt b s) = None" using best_none [OF Nil.prems(1)] Nil.hyps by simp
  then have "matchAgainst inc s allowed b res = Some (b, res)"
    using Nil.prems(2) by (subst matchAgainst.simps) simp
  moreover have f: "xs' = ab_queue a s" "q' = ord_LeavesQty io" "ts' = ab_nextTradeSeq a" "es = []"
    using Nil.prems(4) Nil.hyps [symmetric] by simp_all
  ultimately show ?case
    unfolding abook_upd_triv [OF f(1,3)] f(2,4) orderSnapshot_upd_triv using Nil.prems(1-3) by auto
next
  case (Cons x zs)
  have q: "ab_queue a s = x # zs" using Cons.hyps(2) by simp
  show ?case
  proof (cases "ord_LeavesQty io \<le>s 0 \<or> \<not> allowed (os_Price x)")
    case True
    have "matchAgainst inc s allowed b res = Some (b, res)"
      using True Cons.prems(2) by (rule_tac best_order [OF Cons.prems(1) q], subst matchAgainst.simps) (auto simp: signed_sint)
    moreover have f: "xs' = ab_queue a s" "q' = ord_LeavesQty io" "ts' = ab_nextTradeSeq a" "es = []"
      using True Cons.prems(4) q by auto
    ultimately show ?thesis
      unfolding abook_upd_triv [OF f(1,3)] f(2,4) orderSnapshot_upd_triv using Cons.prems(1-3) by auto
  next
    case False
    let ?q = "ord_LeavesQty io"
    define k where "k = min64 ?q (os_LeavesQty x)"
    define e where "e = tradeEvent (tradeID (res_CommandSeq res) (ab_nextTradeSeq a)) (ord_ID io) x k"
    let ?full = "k = os_LeavesQty x"
    let ?res = "res\<lparr>res_Events := res_Events res @ (if ?full then [e] else [e, reducedEvent (os_ID x) (os_LeavesQty x - k)])\<rparr>"
    let ?a = "a\<lparr>ab_queue := (ab_queue a)(s := (if ?full then [] else [x\<lparr>os_LeavesQty := os_LeavesQty x - k\<rparr>]) @ zs),
        ab_nextTradeSeq := ab_nextTradeSeq a + 1\<rparr>"
    obtain b1 L1 io1 where t: "matchAgainst inc s allowed b res = matchAgainst inc s allowed b1 ?res" "shows_as b1 L1 ?a"
      "st_orders (bk_store b1) inc = Some io1" "inc \<notin> live L1" "orderSnapshot io1 = (orderSnapshot io)\<lparr>os_LeavesQty := ?q - k\<rparr>"
      by (rule match_turn [where allowed = allowed, OF Cons.prems(1-3) q False k_def e_def refl refl])
    have io1: "ord_ID io1 = ord_ID io" "ord_LeavesQty io1 = ?q - k" using t(5) by (simp_all add: orderSnapshot_def)
    show ?thesis
    proof (cases ?full)
      case True
      obtain xs1 q1 ts1 es1 where f1: "fill allowed (ord_ID io1) (res_CommandSeq ?res) (ab_nextTradeSeq ?a)
          (ord_LeavesQty io1) (ab_queue ?a s) = (xs1, q1, ts1, es1)" using prod_cases4 by blast
      have "zs = ab_queue ?a s" using True by simp
      note m = Cons.hyps(1) [OF this t(2,3,4) f1]
      have "xs' = xs1" "q' = q1" "ts' = ts1" "es = e # es1"
        using Cons.prems(4) q False True f1 io1 by (auto simp: Let_def k_def [symmetric] e_def)
      then show ?thesis using t(1,5) m True by simp
    next
      case part: False
      then have kq: "k = ?q" by (simp add: k_def min64_def split: if_splits)
      have "matchAgainst inc s allowed b1 ?res = Some (b1, ?res)"
        using t(3) io1 kq by (subst matchAgainst.simps) (simp add: signed_sint)
      moreover have "xs' = x\<lparr>os_LeavesQty := os_LeavesQty x - k\<rparr> # zs" "q' = ?q - k" "ts' = ab_nextTradeSeq a + 1"
          "es = [e, reducedEvent (os_ID x) (os_LeavesQty x - k)]"
        using Cons.prems(4) q False part by (auto simp: Let_def k_def [symmetric] e_def)
      ultimately show ?thesis using t part by (intro exI [of _ b1] exI [of _ L1] exI [of _ io1]) simp
    qed
  qed
qed

lemma match_refines:
  assumes sh: "shows_as b L a" and io: "st_orders (bk_store b) inc = Some io" "inc \<notin> live L"
    and m: "abs_match a (orderSnapshot io) (res_CommandSeq res) = (a', y, es)"
  shows "\<exists>b' L' io'. match b inc res = Some (b', res\<lparr>res_Events := res_Events res @ es\<rparr>)
    \<and> shows_as b' L' a' \<and> inc \<notin> live L' \<and> st_orders (bk_store b') inc = Some io' \<and> orderSnapshot io' = y"
proof -
  let ?s = "if ord_Side io = SideBuy then Asks else Bids"
  obtain xs q ts es' where f: "fill (crosses (ord_Side io) (ord_Price io)) (ord_ID io) (res_CommandSeq res)
      (ab_nextTradeSeq a) (ord_LeavesQty io) (ab_queue a ?s) = (xs, q, ts, es')"
    using prod_cases4 by blast
  have e: "a' = a\<lparr>ab_queue := (ab_queue a)(?s := xs), ab_nextTradeSeq := ts\<rparr>"
    "y = (orderSnapshot io)\<lparr>os_LeavesQty := q\<rparr>" "es = es'"
    using m f by (auto simp: abs_match_def Let_def split: if_splits)
  have "match b inc res = matchAgainst inc ?s (crosses (ord_Side io) (ord_Price io)) b res"
    using io(1) by (simp add: match_def crosses_def [abs_def])
  with matchAgainst_refines [OF sh io f] e show ?thesis by auto
qed

end
