(* ===== verification/Book_Commands.thy ===== *)
theory Book_Commands
  imports Book_Refine
begin

text \<open>
  The command handlers implement the list book: the availability scan for fill-or-kill orders,
  the handlers of the three commands and \<open>Apply\<close> itself, each shown to return and to agree with
  the specification; then whole runs of commands from the empty book.
\<close>

subsection \<open>Availability\<close>

definition cellTotals :: "store \<Rightarrow> cell list \<Rightarrow> (int64 \<times> int64) list" where
  "cellTotals st cs = map (\<lambda>(p, l, rs). (p, leavesSum st rs)) cs"

lemma availableLoop_cells:
  assumes "\<forall>(p, l, rs)\<in>set cs. levels p = Some l \<and> queue_ok st l rs"
  shows "availableLoop canTake levels st req (map fst cs) acc
         = Some (scanTotals canTake req (cellTotals st cs) acc)"
  using assms
proof (induction cs arbitrary: acc)
  case (Cons c cs)
  obtain p l rs where "c = (p, l, rs)" by (cases c)
  with Cons show ?case by (auto simp: cellTotals_def queue_ok_def)
qed (simp add: cellTotals_def)

lemma remdups_adj_group:
  assumes "xs \<noteq> []" and "\<forall>x\<in>set xs. x = p" and "p \<notin> set ys"
  shows "remdups_adj (xs @ ys) = p # remdups_adj ys"
proof -
  obtain xs' where xs: "xs = p # xs'" using assms by (cases xs) auto
  have "dropWhile (\<lambda>y. y = p) (xs' @ ys) = ys"
    using assms(2,3) xs by (subst dropWhile_append2) (auto simp: dropWhile_eq_self_iff)
  then show ?thesis using xs by (simp add: remdups_adj_Cons')
qed

lemma levelTotals_group:
  assumes "xs \<noteq> []" and "\<forall>x\<in>set xs. os_Price x = p" and "\<forall>y\<in>set ys. os_Price y \<noteq> p"
  shows "levelTotals (xs @ ys) = (p, \<Sum>x\<leftarrow>xs. os_LeavesQty x) # levelTotals ys"
proof -
  have "remdups_adj (map os_Price (xs @ ys)) = p # remdups_adj (map os_Price ys)"
    using assms remdups_adj_group [of "map os_Price xs" p "map os_Price ys"] by auto
  moreover have "filter (\<lambda>x. os_Price x = p) xs = xs" "filter (\<lambda>x. os_Price x = p) ys = []"
    using assms by (auto simp: filter_id_conv filter_empty_conv)
  moreover have "filter (\<lambda>x. os_Price x = q) xs = []" if "q \<in> set (map os_Price ys)" for q
    using that assms by (auto simp: filter_empty_conv)
  ultimately show ?thesis by (auto simp: levelTotals_def)
qed

lemma levelTotals_cells:
  assumes "\<forall>(p, l, rs)\<in>set cs. rs \<noteq> [] \<and> (\<forall>r\<in>set rs. os_Price (oval st r) = p)" and "distinct (map fst cs)"
  shows "levelTotals (absq st cs) = cellTotals st cs"
  using assms
proof (induction cs)
  case (Cons c cs)
  obtain p l rs where c: "c = (p, l, rs)" by (cases c)
  have "os_Price (oval st r) \<noteq> p" if m: "r \<in> set (queued cs)" for r
  proof -
    obtain q k qs where "(q, k, qs) \<in> set cs" "r \<in> set qs" using m unfolding in_queued by blast
    then have "q \<noteq> p" "os_Price (oval st r) = q"
      using Cons.prems(2) c bspec [OF Cons.prems(1), of "(q, k, qs)"] by (auto simp: rev_image_eqI)
    then show ?thesis by simp
  qed
  then have "levelTotals (absq st (c # cs)) = (p, leavesSum st rs) # levelTotals (absq st cs)"
    using Cons.prems c levelTotals_group [of "map (oval st) rs" p "absq st cs"]
    by (auto simp: absq_def leavesSum_def o_def)
  then show ?case using Cons c by (simp add: cellTotals_def)
qed (simp add: absq_def levelTotals_def cellTotals_def)

lemma available_side:
  assumes sh: "shows_as b L a"
  shows "availableLoop canTake (sb_levels (sideAt b s)) (bk_store b) req (sb_prices (sideAt b s)) 0
         = Some (scanTotals canTake req (levelTotals (ab_queue a s)) 0)"
proof -
  have ok: "book_ok b L" using sh by (simp add: shows_as_def)
  note c = book_ok_cells [OF ok] and i = book_ok_side [OF ok, of s]
  have h: "\<forall>(p, l, rs)\<in>set (L s). sb_levels (sideAt b s) p = Some l \<and> queue_ok (bk_store b) l rs"
    using side_index_levels [OF i] cells_okD(1) [OF c] by fastforce
  have "\<forall>(p, l, rs)\<in>set (L s). rs \<noteq> [] \<and> (\<forall>r\<in>set rs. os_Price (oval (bk_store b) r) = p)"
    using ok cells_okD(3) [OF c] by (fastforce simp: book_ok_def)
  moreover have "distinct (map fst (L s))"
    using i prio.sorted_distinct by (auto simp: side_index_def)
  ultimately have "levelTotals (ab_queue a s) = cellTotals (bk_store b) (L s)"
    using levelTotals_cells [of "L s" "bk_store b"] shows_as_queue [OF sh, of s] by simp
  then show ?thesis using availableLoop_cells [OF h] i by (simp add: side_index_def)
qed

lemma available_refines:
  assumes "shows_as b L a"
  shows "availableQtyFor b (cmd_Side cmd) (cmd_Price cmd) (cmd_OrderType cmd) (cmd_Quantity cmd)
         = Some (abs_available a cmd)"
  using available_side [OF assms, of _ Asks] available_side [OF assms, of _ Bids]
  by (simp add: availableQtyFor_def abs_available_def)

subsection \<open>Commands\<close>

lemma fill_ids:
  "fill allowed t sq ts q xs = (xs', q', ts', es) \<Longrightarrow> os_ID ` set xs' \<subseteq> os_ID ` set xs"
  by (induction xs arbitrary: ts q xs' q' ts' es)
    (fastforce simp: Let_def split: if_splits prod.splits)+

lemma findOrder_None_iff: "findOrder a oid = None \<longleftrightarrow> (\<forall>s. oid \<notin> os_ID ` set (ab_queue a s))"
proof -
  have "(\<forall>s. oid \<notin> os_ID ` set (ab_queue a s)) \<longleftrightarrow> oid \<notin> os_ID ` set (ab_queue a Bids) \<and> oid \<notin> os_ID ` set (ab_queue a Asks)"
    by (metis side_ptr.exhaust)
  then show ?thesis by (auto simp: findOrder_def find_None_iff allOrders_def)
qed

lemma abs_match_ids:
  assumes "abs_match a x sq = (a', y, es)" and "findOrder a oid = None"
  shows "findOrder a' oid = None"
  using assms fill_ids
  by (fastforce simp: abs_match_def Let_def findOrder_None_iff split: prod.splits if_splits)

lemma abs_match_order:
  assumes "abs_match a x sq = (a', y, es)"
  shows "os_ID y = os_ID x" and "os_Price y = os_Price x" and "os_Side y = os_Side x" and "os_Seq y = os_Seq x"
  using assms by (auto simp: abs_match_def Let_def split: prod.splits)

lemma dropOrder_fresh: "findOrder (dropOrder a oid) oid = None"
  by (auto simp: findOrder_None_iff dropOrder_def)

definition addEvents :: "Result \<Rightarrow> Event list \<Rightarrow> Result" where
  "addEvents res es = res\<lparr>res_Events := res_Events res @ es\<rparr>"

lemma addEvents_simps [simp]:
  "emit e (addEvents res es) = addEvents res (es @ [e])" "addEvents (addEvents res es) fs = addEvents res (es @ fs)"
  "res_CommandSeq (addEvents res es) = res_CommandSeq res" "addEvents res [] = res"
  by (simp_all add: addEvents_def emit_def)

lemma emit_addEvents: "emit e res = addEvents res [e]"
  by (simp add: addEvents_def emit_def)

lemma shows_as_object:
  assumes "shows_as b L a" and "r \<in> live L"
  obtains od where "st_orders (bk_store b) r = Some od" and "oval (bk_store b) r = orderSnapshot od"
proof -
  have "book_ok b L" using assms(1) by (simp add: shows_as_def)
  then have "live L \<subseteq> dom (st_orders (bk_store b))" using live_dom book_ok_cells by blast
  then obtain od where "st_orders (bk_store b) r = Some od" using assms(2) by blast
  then show thesis using that oval_Some by blast
qed

text \<open>Allocating an order with an unused id, matching it and, if need be, resting it.\<close>

lemma match_fresh:
  assumes sh: "shows_as b L a" and new: "findOrder a oid = None"
    and m: "abs_match a \<lparr>os_ID = oid, os_Side = sd, os_Price = p, os_LeavesQty = q, os_Seq = n\<rparr>
              (res_CommandSeq res) = (a', y, es)"
  obtains r st b' L' io b2 where "allocOrder (bk_store b) (freshOrder oid sd p q n) = (r, st)"
    and "match (b\<lparr>bk_store := st\<rparr>) r res = Some (b', addEvents res es)" and "shows_as b' L' a'"
    and "st_orders (bk_store b') r = Some io" and "orderSnapshot io = y"
    and "rest b' r = Some b2" and "represents b2 (abs_rest a' y)"
proof -
  let ?o = "freshOrder oid sd p q n"
  obtain r st where al: "allocOrder (bk_store b) ?o = (r, st)" by (metis surj_pair)
  note sh1 = allocOrder_refines [OF sh al]
  have r1: "st_orders (bk_store (b\<lparr>bk_store := st\<rparr>)) r = Some ?o" using sh1(3) by simp
  have "orderSnapshot ?o = \<lparr>os_ID = oid, os_Side = sd, os_Price = p, os_LeavesQty = q, os_Seq = n\<rparr>"
    by (simp add: orderSnapshot_def freshOrder_def)
  then obtain b' L' io where b': "match (b\<lparr>bk_store := st\<rparr>) r res = Some (b', addEvents res es)"
    "shows_as b' L' a'" "r \<notin> live L'" "st_orders (bk_store b') r = Some io" "orderSnapshot io = y"
    using match_refines [OF sh1(1) r1 sh1(2), of res a' y es] m unfolding addEvents_def by auto
  have "ord_ID io = oid" using abs_match_order(1) [OF m] b'(5) by auto
  then have "findOrder a' (ord_ID io) = None" using abs_match_ids [OF m new] by simp
  then obtain b2 where "rest b' r = Some b2" "represents b2 (abs_rest a' y)"
    using rest_refines [OF b'(2,4,3)] b'(5) by auto
  then show thesis using that al b' by blast
qed

lemma placeNew_refines:
  assumes sh: "shows_as b L a" and new: "findOrder a (cmd_OrderID cmd) = None"
    and sq: "res_CommandSeq res = cmd_Seq cmd"
  shows "\<exists>b'. placeNew b cmd res = Some (b', addEvents res (snd (abs_place a cmd)))
    \<and> represents b' (fst (abs_place a cmd))"
proof -
  let ?res = "addEvents res [acceptEvent (cmd_OrderID cmd)]"
  let ?x = "\<lparr>os_ID = cmd_OrderID cmd, os_Side = cmd_Side cmd, os_Price = cmd_Price cmd,
      os_LeavesQty = cmd_Quantity cmd, os_Seq = cmd_Seq cmd\<rparr>"
  obtain a' y es where m: "abs_match a ?x (res_CommandSeq ?res) = (a', y, es)" by (metis prod_cases3)
  obtain r st b' L' io b2 where b': "allocOrder (bk_store b) (freshOrder (cmd_OrderID cmd) (cmd_Side cmd)
        (cmd_Price cmd) (cmd_Quantity cmd) (cmd_Seq cmd)) = (r, st)"
    "match (b\<lparr>bk_store := st\<rparr>) r ?res = Some (b', addEvents ?res es)" "shows_as b' L' a'"
    "st_orders (bk_store b') r = Some io" "orderSnapshot io = y" "rest b' r = Some b2" "represents b2 (abs_rest a' y)"
    using match_fresh [OF sh new m] .
  have io: "ord_ID io = os_ID y" "ord_LeavesQty io = os_LeavesQty y" "ord_Price io = os_Price y"
    using b'(5) by auto
  have sp: "abs_place a cmd = (let es = acceptEvent (cmd_OrderID cmd) # es in
         if os_LeavesQty y = 0 then (a', es)
         else if cmd_OrderType cmd = OrderTypeMarket \<or> cmd_TimeInForce cmd = TIFIOC
         then (a', es @ [cancelEvent (os_ID y) (os_LeavesQty y) CancelUnfilledRemainder])
         else (abs_rest a' y, es @ [restedEvent (os_ID y) (os_Price y) (os_LeavesQty y)]))"
    using m sq by (simp add: abs_place_def)
  show ?thesis
    unfolding sp placeNew_def emit_addEvents using b' io
    by (auto simp: Let_def represents_def)
qed

lemma handleNew_refines:
  assumes rep: "represents b a" and sq: "res_CommandSeq res = cmd_Seq cmd"
  shows "\<exists>b'. handleNew b cmd res = Some (b', addEvents res (snd (abs_new a cmd)))
    \<and> represents b' (fst (abs_new a cmd))"
proof -
  obtain L where sh: "shows_as b L a" using rep by (auto simp: represents_def)
  note n = findOrder_None [OF sh, of "cmd_OrderID cmd"] and av = available_refines [OF sh, of cmd]
  show ?thesis
  proof (cases "findOrder a (cmd_OrderID cmd)")
    case None
    then show ?thesis using placeNew_refines [OF sh None sq] n av rep
      by (simp add: handleNew_def abs_new_def emit_addEvents)
  next
    case (Some x)
    then show ?thesis using n rep by (simp add: handleNew_def abs_new_def emit_addEvents)
  qed
qed

lemma handleCancel_refines:
  assumes rep: "represents b a"
  shows "\<exists>b'. handleCancel b cmd res = Some (b', addEvents res (snd (abs_cancel a cmd)))
    \<and> represents b' (fst (abs_cancel a cmd))"
proof -
  obtain L where sh: "shows_as b L a" using rep by (auto simp: represents_def)
  show ?thesis
  proof (cases "bk_orders b (cmd_OrderID cmd)")
    case None
    then have "findOrder a (cmd_OrderID cmd) = None" using findOrder_None [OF sh] by blast
    with None rep show ?thesis
      by (simp add: handleCancel_def abs_cancel_def emit_addEvents)
  next
    case (Some r)
    note f = findOrder_Some [OF sh Some]
    obtain od where od: "st_orders (bk_store b) r = Some od" "oval (bk_store b) r = orderSnapshot od"
      using shows_as_object [OF sh f(2)] by blast
    obtain b' L' where "removeActive b r = Some b'" "shows_as b' L' (dropOrder a (cmd_OrderID cmd))"
      using removeActive_refines [OF sh f(2) f(3) [symmetric]] by blast
    then show ?thesis using Some f(1) od
      by (auto simp: handleCancel_def abs_cancel_def emit_addEvents represents_def)
  qed
qed

lemma moveOrder_refines:
  assumes sh: "shows_as b L a" and r: "bk_orders b (cmd_OrderID cmd) = Some r"
    and sq: "res_CommandSeq res = cmd_Seq cmd" and x: "x = oval (bk_store b) r"
  shows "\<exists>b'. moveOrder b cmd r np (cmd_NewLeavesQty cmd) res = Some (b', addEvents res (snd (abs_move a cmd x np)))
    \<and> represents b' (fst (abs_move a cmd x np))"
proof -
  note f = findOrder_Some [OF sh r]
  let ?d = "dropOrder a (cmd_OrderID cmd)"
  let ?x = "\<lparr>os_ID = cmd_OrderID cmd, os_Side = os_Side x, os_Price = np,
      os_LeavesQty = cmd_NewLeavesQty cmd, os_Seq = cmd_Seq cmd\<rparr>"
  obtain od where od: "st_orders (bk_store b) r = Some od" "x = orderSnapshot od"
    using shows_as_object [OF sh f(2)] x by blast
  obtain b1 L1 where b1: "removeActive b r = Some b1" "shows_as b1 L1 ?d"
    using removeActive_refines [OF sh f(2) f(3) [symmetric]] by blast
  obtain a' y es where m: "abs_match ?d ?x (res_CommandSeq res) = (a', y, es)" by (metis prod_cases3)
  obtain r' st b' L' io b2 where b': "allocOrder (bk_store b1) (freshOrder (cmd_OrderID cmd) (os_Side x)
        np (cmd_NewLeavesQty cmd) (cmd_Seq cmd)) = (r', st)"
    "match (b1\<lparr>bk_store := st\<rparr>) r' res = Some (b', addEvents res es)" "shows_as b' L' a'"
    "st_orders (bk_store b') r' = Some io" "orderSnapshot io = y" "rest b' r' = Some b2" "represents b2 (abs_rest a' y)"
    using match_fresh [OF b1(2) dropOrder_fresh m] .
  have io: "ord_ID io = os_ID y" "ord_LeavesQty io = os_LeavesQty y" "ord_Price io = os_Price y" "ord_Side od = os_Side x"
    using b'(5) od(2) by auto
  have "abs_move a cmd x np = (let (a, es) = (if 0 <s os_LeavesQty y
            then (abs_rest a' y, es @ [restedEvent (os_ID y) (os_Price y) (os_LeavesQty y)])
            else (a', es))
      in (a, es @ [replacedEvent (cmd_OrderID cmd) np (os_LeavesQty y) False]))"
    using m sq by (simp add: abs_move_def)
  then show ?thesis
    unfolding moveOrder_def emit_addEvents using b' io b1 od(1)
    by (auto simp: Let_def represents_def)
qed

lemma handleReplace_refines:
  assumes rep: "represents b a" and sq: "res_CommandSeq res = cmd_Seq cmd"
  shows "\<exists>b'. handleReplace b cmd res = Some (b', addEvents res (snd (abs_replace a cmd)))
    \<and> represents b' (fst (abs_replace a cmd))"
proof -
  obtain L where sh: "shows_as b L a" using rep by (auto simp: represents_def)
  show ?thesis
  proof (cases "bk_orders b (cmd_OrderID cmd)")
    case None
    then have "findOrder a (cmd_OrderID cmd) = None" using findOrder_None [OF sh] by blast
    with None rep show ?thesis
      by (simp add: handleReplace_def abs_replace_def emit_addEvents)
  next
    case (Some r)
    note f = findOrder_Some [OF sh Some]
    let ?x = "oval (bk_store b) r" and ?res = "addEvents res [acceptEvent (cmd_OrderID cmd)]"
    obtain od where od: "st_orders (bk_store b) r = Some od" "?x = orderSnapshot od"
      using shows_as_object [OF sh f(2)] by blast
    have sq': "res_CommandSeq ?res = cmd_Seq cmd" using sq by simp
    define np where "np = replacePrice cmd ?x"
    have "handleReplace b cmd res = (if np \<le>s 0 \<or> cmd_NewLeavesQty cmd \<le>s 0
        then Some (b, addEvents res [rejectEvent RejectInvalidReplace (cmd_OrderID cmd)])
        else if np = os_Price ?x \<and> cmd_NewLeavesQty cmd \<le>s os_LeavesQty ?x
        then reduceInPlace b r (cmd_NewLeavesQty cmd) ?res
        else moveOrder b cmd r np (cmd_NewLeavesQty cmd) ?res)"
      using Some od by (simp add: handleReplace_def np_def replacePrice_def emit_addEvents Let_def)
    moreover have "abs_replace a cmd = (if np \<le>s 0 \<or> cmd_NewLeavesQty cmd \<le>s 0
        then (a, [rejectEvent RejectInvalidReplace (cmd_OrderID cmd)])
        else apsnd ((#) (acceptEvent (cmd_OrderID cmd)))
          (if np = os_Price ?x \<and> cmd_NewLeavesQty cmd \<le>s os_LeavesQty ?x
           then abs_reduce a ?x (cmd_NewLeavesQty cmd) else abs_move a cmd ?x np))"
      using f(1) by (simp add: abs_replace_def np_def apsnd_def map_prod_def split_def Let_def)
    moreover note reduceInPlace_refines [OF sh f(2) refl, of "cmd_NewLeavesQty cmd" ?res, folded addEvents_def]
      and moveOrder_refines [OF sh Some sq' refl, of np]
    ultimately show ?thesis using rep by simp
  qed
qed

lemma Apply_refines:
  assumes rep: "represents b a"
  shows "\<exists>b'. Apply b cmd = Some (b', \<lparr>res_CommandSeq = cmd_Seq cmd, res_Events = snd (abs_apply a cmd)\<rparr>)
    \<and> represents b' (fst (abs_apply a cmd))"
proof -
  let ?res = "\<lparr>res_CommandSeq = cmd_Seq cmd, res_Events = []\<rparr>"
  have e: "addEvents ?res es = \<lparr>res_CommandSeq = cmd_Seq cmd, res_Events = es\<rparr>" for es
    by (simp add: addEvents_def)
  have "bk_Symbol b = ab_Symbol a" using rep by (auto simp: represents_def shows_as_def)
  then show ?thesis
    using handleNew_refines [OF rep, of ?res cmd] handleCancel_refines [OF rep, of cmd ?res]
      handleReplace_refines [OF rep, of ?res cmd] rep
    by (simp add: Apply_def abs_apply_def Let_def emit_addEvents e)
qed

subsection \<open>Runs\<close>

text \<open>A run applies a list of commands in order, as the shard loop and the replay of a log do.\<close>

fun applyAll :: "Book \<Rightarrow> Command list \<Rightarrow> (Book \<times> Result list) option" where
  "applyAll b [] = Some (b, [])"
| "applyAll b (cmd # cmds) = do {
     (b, r) \<leftarrow> Apply b cmd;
     (b, rs) \<leftarrow> applyAll b cmds;
     Some (b, r # rs)
   }"

fun abs_run :: "abook \<Rightarrow> Command list \<Rightarrow> abook \<times> Result list" where
  "abs_run a [] = (a, [])"
| "abs_run a (cmd # cmds) =
     (let (a', es) = abs_apply a cmd; (a'', rs) = abs_run a' cmds
      in (a'', \<lparr>res_CommandSeq = cmd_Seq cmd, res_Events = es\<rparr> # rs))"

lemma applyAll_append:
  "applyAll b (xs @ ys) = Option.bind (applyAll b xs) (\<lambda>(b, rs).
     Option.bind (applyAll b ys) (\<lambda>(b, rs'). Some (b, rs @ rs')))"
  by (induction xs arbitrary: b) (auto split: bind_splits)

lemma New_shows: "shows_as (New symbol) (\<lambda>_. []) (emptyBook symbol)"
proof -
  have "sideAt (New symbol) s = newSideBook (isBids s)" for s
    by (cases s) (simp_all add: New_def isBids_def)
  then have "book_ok (New symbol) (\<lambda>_. [])"
    by (simp add: book_ok_def cells_ok_def side_index_def newSideBook_def index_ok_def live_def
        alloc_ok_def New_def emptyStore_def)
  then show ?thesis by (simp add: shows_as_def emptyBook_def New_def absq_def)
qed

lemma New_represents: "represents (New symbol) (emptyBook symbol)"
  using New_shows unfolding represents_def by blast

lemma applyAll_refines:
  assumes "represents b a"
  shows "\<exists>b'. applyAll b cmds = Some (b', snd (abs_run a cmds)) \<and> represents b' (fst (abs_run a cmds))"
  using assms
proof (induction cmds arbitrary: b a)
  case (Cons cmd cmds)
  obtain b1 where b1: "Apply b cmd = Some (b1, \<lparr>res_CommandSeq = cmd_Seq cmd, res_Events = snd (abs_apply a cmd)\<rparr>)"
    "represents b1 (fst (abs_apply a cmd))"
    using Apply_refines [OF Cons.prems] by blast
  from Cons.IH [OF b1(2)] b1(1) show ?case by (auto simp: Let_def split: prod.splits)
qed auto

text \<open>
  The books a shard can hold: an empty book, a book after a command, and a book rebuilt from
  the snapshot of one.
\<close>

inductive reachable :: "Book \<Rightarrow> bool" where
  reachable_New: "reachable (New symbol)"
| reachable_Apply: "reachable b \<Longrightarrow> Apply b cmd = Some (b', r) \<Longrightarrow> reachable b'"
| reachable_restore: "reachable b \<Longrightarrow> Snapshot b = Some s \<Longrightarrow> NewFromSnapshot s = Some b' \<Longrightarrow> reachable b'"

end
