(* ===== verification/Book_Values.thy ===== *)
theory Book_Values
  imports Book_Commands "HOL-Library.Multiset"
begin

text \<open>
  What the values in a book satisfy: each side is sorted by price, every order rests on its own
  side with a positive price and a positive quantity, ids are unique, and the best bid is below
  the best ask.  The commands of the list book keep this, and the laws of \<open>fill\<close> say
  which orders trade, at which prices and for how much.
\<close>

fun sideOf :: "side_ptr \<Rightarrow> Side" where
  "sideOf Bids = SideBuy"
| "sideOf Asks = SideSell"

definition order_ok :: "side_ptr \<Rightarrow> OrderSnapshot \<Rightarrow> bool" where
  "order_ok s x \<longleftrightarrow> os_Side x = sideOf s \<and> 0 < sint (os_Price x) \<and> 0 < sint (os_LeavesQty x)"

definition ranked :: "side_ptr \<Rightarrow> OrderSnapshot list \<Rightarrow> bool" where
  "ranked s xs = sorted_wrt (\<lambda>x y. \<not> before (isBids s) (os_Price y) (os_Price x)) xs"

definition uncrossed :: "abook \<Rightarrow> bool" where
  "uncrossed a \<longleftrightarrow> (\<forall>x\<in>set (ab_queue a Bids). \<forall>y\<in>set (ab_queue a Asks). os_Price x <s os_Price y)"

definition abook_ok :: "abook \<Rightarrow> bool" where
  "abook_ok a \<longleftrightarrow> (\<forall>s. ranked s (ab_queue a s) \<and> (\<forall>x\<in>set (ab_queue a s). order_ok s x))
     \<and> distinct (map os_ID (allOrders a)) \<and> uncrossed a"

lemma emptyBook_ok: "abook_ok (emptyBook symbol)"
  by (simp add: abook_ok_def emptyBook_def ranked_def allOrders_def uncrossed_def)

subsection \<open>The laws of filling\<close>

lemma min64_cases:
  assumes "0 < sint q" and "0 < sint v"
  shows "0 < sint (min64 q v)" "sint (min64 q v) \<le> sint q" "sint (min64 q v) \<le> sint v"
    "min64 q v = q \<or> min64 q v = v"
  using assms by (auto simp: min64_def signed_sint)

lemma sint_sub_min64:
  assumes "0 < sint q" and "0 < sint v"
  shows "sint (q - min64 q v) = sint q - sint (min64 q v)" "sint (v - min64 q v) = sint v - sint (min64 q v)"
  using assms min64_cases [OF assms] by (simp_all add: sint_sub64)

definition trades :: "Event list \<Rightarrow> Event list" where
  "trades es = filter (\<lambda>e. ev_Type e = EventTrade) es"

lemma trades_simps [simp]:
  "trades [] = []" "trades (es @ fs) = trades es @ trades fs"
  "trades (tradeEvent i t x k # es) = tradeEvent i t x k # trades es"
  "trades (reducedEvent i k # es) = trades es" "trades (acceptEvent i # es) = trades es"
  "trades (rejectEvent w i # es) = trades es" "trades (cancelEvent i k v # es) = trades es"
  "trades (restedEvent i p k # es) = trades es" "trades (replacedEvent i p k f # es) = trades es"
  by (simp_all add: trades_def tradeEvent_def reducedEvent_def acceptEvent_def rejectEvent_def
      cancelEvent_def restedEvent_def replacedEvent_def zeroEvent_def go_consts)

lemma tradeEvent_sel [simp]:
  "ev_Type (tradeEvent i t x k) = EventTrade" "ev_TradeID (tradeEvent i t x k) = i"
  "ev_MakerOrderID (tradeEvent i t x k) = os_ID x" "ev_TakerOrderID (tradeEvent i t x k) = t"
  "ev_Price (tradeEvent i t x k) = os_Price x" "ev_Quantity (tradeEvent i t x k) = k"
  by (simp_all add: tradeEvent_def zeroEvent_def)

definition tradedQty :: "Event list \<Rightarrow> int" where
  "tradedQty es = (\<Sum>e\<leftarrow>trades es. sint (ev_Quantity e))"

lemma tradedQty_simps [simp]:
  "tradedQty [] = 0" "tradedQty (es @ fs) = tradedQty es + tradedQty fs"
  "tradedQty (tradeEvent i t x k # es) = sint k + tradedQty es"
  "tradedQty (reducedEvent i k # es) = tradedQty es" "tradedQty (acceptEvent i # es) = tradedQty es"
  "tradedQty (cancelEvent i k v # es) = tradedQty es" "tradedQty (rejectEvent w i # es) = tradedQty es"
  "tradedQty (restedEvent i p k # es) = tradedQty es" "tradedQty (replacedEvent i p k f # es) = tradedQty es"
  by (simp_all add: tradedQty_def)

definition leavesTotal :: "OrderSnapshot list \<Rightarrow> int" where
  "leavesTotal xs = (\<Sum>x\<leftarrow>xs. sint (os_LeavesQty x))"

lemma leavesTotal_simps [simp]:
  "leavesTotal [] = 0" "leavesTotal (x # xs) = sint (os_LeavesQty x) + leavesTotal xs"
  "leavesTotal (xs @ ys) = leavesTotal xs + leavesTotal ys"
  by (simp_all add: leavesTotal_def)

text \<open>The case analysis of one step, for a positive quantity and positive leaves.\<close>

lemma fill_cases:
  assumes f: "fill allowed t sq ts q (x # xs) = (xs', q', ts', es)"
    and x: "0 < sint (os_LeavesQty x)" and q: "0 \<le> sint q"
  obtains (stop) "xs' = x # xs" "q' = q" "ts' = ts" "es = []" "q = 0 \<or> \<not> allowed (os_Price x)"
  | (full) es1 where "0 < sint q" "allowed (os_Price x)" "sint (os_LeavesQty x) \<le> sint q"
      "fill allowed t sq (ts + 1) (q - os_LeavesQty x) xs = (xs', q', ts', es1)"
      "sint (q - os_LeavesQty x) = sint q - sint (os_LeavesQty x)"
      "es = tradeEvent (tradeID sq ts) t x (os_LeavesQty x) # es1"
  | (part) "0 < sint q" "allowed (os_Price x)" "sint q < sint (os_LeavesQty x)" "q' = 0" "ts' = ts + 1"
      "xs' = x\<lparr>os_LeavesQty := os_LeavesQty x - q\<rparr> # xs" "sint (os_LeavesQty x - q) = sint (os_LeavesQty x) - sint q"
      "es = [tradeEvent (tradeID sq ts) t x q, reducedEvent (os_ID x) (os_LeavesQty x - q)]"
proof -
  consider "q \<le>s 0 \<or> \<not> allowed (os_Price x)"
    | "\<not> q \<le>s 0" "allowed (os_Price x)" "sint (os_LeavesQty x) \<le> sint q"
    | "\<not> q \<le>s 0" "allowed (os_Price x)" "sint q < sint (os_LeavesQty x)" by linarith
  then show thesis
  proof cases
    case 1
    moreover have "q = 0" if "q \<le>s 0" using that q by (simp add: signed_sint flip: sint_inj64)
    ultimately show thesis using f by (intro stop) auto
  next
    case 2
    then have k: "min64 q (os_LeavesQty x) = os_LeavesQty x" by (auto simp: min64_def signed_sint)
    obtain xs1 q1 ts1 es1 where f1: "fill allowed t sq (ts + 1) (q - os_LeavesQty x) xs = (xs1, q1, ts1, es1)"
      using prod_cases4 by blast
    then show thesis using f 2 k x by (intro full [of es1]) (auto simp: Let_def signed_sint sint_sub64)
  next
    case 3
    then have k: "min64 q (os_LeavesQty x) = q" "q \<noteq> os_LeavesQty x" by (auto simp: min64_def signed_sint)
    then show thesis using f 3 q by (intro part) (auto simp: Let_def signed_sint sint_sub64)
  qed
qed

lemma fill_induct [consumes 3, case_names Nil stop full part]:
  assumes "fill allowed t sq ts q xs = (xs', q', ts', es)"
    and "\<forall>x\<in>set xs. 0 < sint (os_LeavesQty x)" and "0 \<le> sint q"
    and Nil: "\<And>ts q. 0 \<le> sint q \<Longrightarrow> P ts q [] [] q ts []"
    and stop: "\<And>ts q x xs. 0 \<le> sint q \<Longrightarrow> q = 0 \<or> \<not> allowed (os_Price x) \<Longrightarrow> P ts q (x # xs) (x # xs) q ts []"
    and full: "\<And>ts q x xs xs' q' ts' es. 0 < sint (os_LeavesQty x) \<Longrightarrow> allowed (os_Price x) \<Longrightarrow>
      sint (os_LeavesQty x) \<le> sint q \<Longrightarrow> sint (q - os_LeavesQty x) = sint q - sint (os_LeavesQty x) \<Longrightarrow>
      P (ts + 1) (q - os_LeavesQty x) xs xs' q' ts' es \<Longrightarrow>
      P ts q (x # xs) xs' q' ts' (tradeEvent (tradeID sq ts) t x (os_LeavesQty x) # es)"
    and part: "\<And>ts q x xs. 0 < sint q \<Longrightarrow> allowed (os_Price x) \<Longrightarrow> sint q < sint (os_LeavesQty x) \<Longrightarrow>
      sint (os_LeavesQty x - q) = sint (os_LeavesQty x) - sint q \<Longrightarrow>
      P ts q (x # xs) (x\<lparr>os_LeavesQty := os_LeavesQty x - q\<rparr> # xs) 0 (ts + 1)
        [tradeEvent (tradeID sq ts) t x q, reducedEvent (os_ID x) (os_LeavesQty x - q)]"
  shows "P ts q xs xs' q' ts' es"
  using assms(1-3)
proof (induction xs arbitrary: ts q xs' q' ts' es)
  case (Cons x xs)
  from Cons.prems have x: "0 < sint (os_LeavesQty x)" by simp
  from Cons.prems(1) x Cons.prems(3) show ?case
  proof (cases rule: fill_cases)
    case (full es1)
    with Cons.IH [of "ts + 1" "q - os_LeavesQty x" xs' q' ts' es1] Cons.prems(2)
    show ?thesis using assms(6) x by simp
  qed (use stop part Cons.prems(3) in simp_all)
qed (use Nil in simp)

text \<open>Every unit that leaves the incoming order leaves the book, and is in one trade.\<close>

lemma fill_conserves:
  assumes "fill allowed t sq ts q xs = (xs', q', ts', es)"
    and "\<forall>x\<in>set xs. 0 < sint (os_LeavesQty x)" and "0 \<le> sint q"
  shows "0 \<le> sint q' \<and> sint q' + tradedQty es = sint q \<and> leavesTotal xs' + tradedQty es = leavesTotal xs"
  using assms by (induction rule: fill_induct) simp_all

text \<open>Matching stops only when nothing is left on either side, or at a price that is not allowed.\<close>

lemma fill_stops:
  assumes "fill allowed t sq ts q xs = (xs', q', ts', es)"
    and "\<forall>x\<in>set xs. 0 < sint (os_LeavesQty x)" and "0 \<le> sint q"
  shows "q' = 0 \<or> xs' = [] \<or> \<not> allowed (os_Price (hd xs'))"
  using assms by (induction rule: fill_induct) auto

text \<open>
  The orders that trade are a prefix of the queue, in its order, each at its own price.
\<close>

lemma fill_makers:
  assumes "fill allowed t sq ts q xs = (xs', q', ts', es)"
    and "\<forall>x\<in>set xs. 0 < sint (os_LeavesQty x)" and "0 \<le> sint q"
  shows "map (\<lambda>e. (ev_MakerOrderID e, ev_Price e)) (trades es)
         = map (\<lambda>x. (os_ID x, os_Price x)) (take (length (trades es)) xs) \<and> length (trades es) \<le> length xs"
  using assms by (induction rule: fill_induct) simp_all

lemma fill_trades:
  assumes "fill allowed t sq ts q xs = (xs', q', ts', es)"
    and "\<forall>x\<in>set xs. 0 < sint (os_LeavesQty x)" and "0 \<le> sint q"
  shows "\<forall>e\<in>set (trades es). allowed (ev_Price e) \<and> 0 < sint (ev_Quantity e) \<and> ev_TakerOrderID e = t"
  using assms by (induction rule: fill_induct) simp_all

lemma fill_trade_ids:
  assumes "fill allowed t sq ts q xs = (xs', q', ts', es)"
    and "\<forall>x\<in>set xs. 0 < sint (os_LeavesQty x)" and "0 \<le> sint q"
  shows "map ev_TradeID (trades es) = map (\<lambda>i. tradeID sq (ts + of_nat i)) [0..<length (trades es)]
    \<and> ts' = ts + of_nat (length (trades es))"
  using assms
proof (induction rule: fill_induct)
  case (full ts q x xs xs' q' ts' es)
  have "[0..<Suc (length (trades es))] = 0 # map Suc [0..<length (trades es)]"
    by (simp add: map_Suc_upt upt_conv_Cons del: upt_Suc)
  then show ?case using full.IH by (simp add: o_def ac_simps del: upt_Suc)
qed simp_all

text \<open>
  What is left of the queue: the orders after the prefix that traded, or these preceded by the
  last one that traded, reduced.
\<close>

lemma fill_rest:
  assumes "fill allowed t sq ts q xs = (xs', q', ts', es)"
    and "\<forall>x\<in>set xs. 0 < sint (os_LeavesQty x)" and "0 \<le> sint q"
  shows "xs' = drop (length (trades es)) xs
    \<or> (\<exists>ys z zs v. xs = ys @ z # zs \<and> length (trades es) = Suc (length ys) \<and> q' = 0
         \<and> 0 < sint v \<and> sint v < sint (os_LeavesQty z) \<and> xs' = z\<lparr>os_LeavesQty := v\<rparr> # zs)"
  using assms
proof (induction rule: fill_induct)
  case (full ts q x xs xs' q' ts' es)
  from full.IH show ?case
  proof
    assume "\<exists>ys z zs v. xs = ys @ z # zs \<and> length (trades es) = Suc (length ys) \<and> q' = 0
         \<and> 0 < sint v \<and> sint v < sint (os_LeavesQty z) \<and> xs' = z\<lparr>os_LeavesQty := v\<rparr> # zs"
    then obtain ys z zs v where "xs = ys @ z # zs" "length (trades es) = Suc (length ys)" "q' = 0"
      "0 < sint v" "sint v < sint (os_LeavesQty z)" "xs' = z\<lparr>os_LeavesQty := v\<rparr> # zs" by blast
    then show ?thesis by (intro disjI2 exI [of _ "x # ys"] exI [of _ z] exI [of _ zs] exI [of _ v]) simp
  qed simp
next
  case (part ts q x xs)
  then show ?case
    by (intro disjI2 exI [of _ "[]"] exI [of _ x] exI [of _ xs] exI [of _ "os_LeavesQty x - q"]) simp
qed simp_all

subsection \<open>The commands keep the invariant\<close>

lemma ranked_simps [simp]:
  "ranked s []"
  "ranked s (x # xs) \<longleftrightarrow> (\<forall>y\<in>set xs. \<not> before (isBids s) (os_Price y) (os_Price x)) \<and> ranked s xs"
  "ranked s (xs @ ys) \<longleftrightarrow> ranked s xs \<and> ranked s ys
     \<and> (\<forall>x\<in>set xs. \<forall>y\<in>set ys. \<not> before (isBids s) (os_Price y) (os_Price x))"
  by (simp_all add: ranked_def sorted_wrt_append)

lemma before_total_trans:
  "\<not> before b p q \<Longrightarrow> \<not> before b q r \<Longrightarrow> \<not> before b p r"
  "\<not> before b p q \<Longrightarrow> before b r q \<Longrightarrow> before b r p"
  "before b p q \<Longrightarrow> \<not> before b q p"
  by (auto simp: before_def signed_sint split: if_splits)

lemma insertOrder_parts:
  obtains A B where "xs = A @ B" and "insertOrder isBid x xs = A @ x # B"
    and "\<forall>y\<in>set A. \<not> before isBid (os_Price x) (os_Price y)"
    and "B = [] \<or> before isBid (os_Price x) (os_Price (hd B))"
proof
  let ?P = "\<lambda>y. \<not> before isBid (os_Price x) (os_Price y)"
  show "xs = takeWhile ?P xs @ dropWhile ?P xs" by simp
  show "\<forall>y\<in>set (takeWhile ?P xs). ?P y" using set_takeWhileD by fast
  show "dropWhile ?P xs = [] \<or> before isBid (os_Price x) (os_Price (hd (dropWhile ?P xs)))"
    using hd_dropWhile [of ?P xs] by blast
qed (simp add: insertOrder_def)

lemma ranked_insertOrder:
  assumes "ranked s xs"
  shows "ranked s (insertOrder (isBids s) x xs)"
proof -
  obtain A B where xs: "xs = A @ B" and i: "insertOrder (isBids s) x xs = A @ x # B"
    and A: "\<forall>y\<in>set A. \<not> before (isBids s) (os_Price x) (os_Price y)"
    and h: "B = [] \<or> before (isBids s) (os_Price x) (os_Price (hd B))"
    by (rule insertOrder_parts)
  have "\<not> before (isBids s) (os_Price y) (os_Price x)" if y: "y \<in> set B" for y
  proof (cases B)
    case (Cons z zs)
    then have "y = z \<or> \<not> before (isBids s) (os_Price y) (os_Price z)" using assms xs y by auto
    moreover have "\<not> before (isBids s) (os_Price z) (os_Price x)"
      using h Cons before_total_trans(3) by force
    ultimately show ?thesis using before_total_trans(1) by blast
  qed (use y in simp)
  then show ?thesis using assms xs i A by simp
qed

lemma mset_insertOrder: "mset (insertOrder isBid x xs) = add_mset x (mset xs)"
  by (rule insertOrder_parts [of xs isBid x]) simp

lemma set_insertOrder: "set (insertOrder isBid x xs) = insert x (set xs)"
  using mset_insertOrder [of isBid x xs] by (metis set_mset_add_mset_insert set_mset_mset)

lemma distinct_ids_insertOrder:
  "distinct (map os_ID (insertOrder isBid x xs)) \<longleftrightarrow> os_ID x \<notin> os_ID ` set xs \<and> distinct (map os_ID xs)"
  by (rule insertOrder_parts [of xs isBid x]) auto

lemma fill_keeps:
  assumes f: "fill allowed t sq ts q xs = (xs', q', ts', es)"
    and xs: "\<forall>x\<in>set xs. order_ok s x" "ranked s xs" and q: "0 \<le> sint q"
  shows "ranked s xs'" and "\<forall>x\<in>set xs'. order_ok s x" and "subseq (map os_ID xs') (map os_ID xs)"
    and "os_Price ` set xs' \<subseteq> os_Price ` set xs"
proof -
  have l: "\<forall>x\<in>set xs. 0 < sint (os_LeavesQty x)" using xs by (simp add: order_ok_def)
  from fill_rest [OF f l q] obtain ys zs where d: "xs = ys @ zs"
    and c: "xs' = zs \<or> (\<exists>z zs' v. zs = z # zs' \<and> 0 < sint v \<and> xs' = z\<lparr>os_LeavesQty := v\<rparr> # zs')"
    by (metis append_take_drop_id)
  show "ranked s xs'" and "\<forall>x\<in>set xs'. order_ok s x" and "os_Price ` set xs' \<subseteq> os_Price ` set xs"
    using c xs d by (auto simp: order_ok_def)
  have "map os_ID xs' = map os_ID zs" using c by auto
  then show "subseq (map os_ID xs') (map os_ID xs)" using d by (simp add: list_emb_append2)
qed

text \<open>If something is left of the incoming order, no price left on the other side is allowed.\<close>

lemma fill_exhausts:
  assumes f: "fill (crosses side limit) t sq ts q xs = (xs', q', ts', es)"
    and xs: "\<forall>x\<in>set xs. order_ok s x" "ranked s xs" and q: "0 \<le> sint q" "q' \<noteq> 0"
    and side: "side = sideOf (opposite s)" and x: "x \<in> set xs'"
  shows "\<not> crosses side limit (os_Price x)"
proof -
  have l: "\<forall>x\<in>set xs. 0 < sint (os_LeavesQty x)" using xs by (simp add: order_ok_def)
  obtain z zs where xs': "xs' = z # zs" using x by (cases xs') auto
  have "\<not> crosses side limit (os_Price z)" using fill_stops [OF f l q(1)] q(2) xs' by auto
  moreover have "x = z \<or> \<not> before (isBids s) (os_Price x) (os_Price z)"
    using fill_keeps(1) [OF f xs q(1)] xs' x by auto
  ultimately show ?thesis using side
    by (cases s) (auto simp: crosses_def before_def isBids_def signed_sint go_consts split: if_splits)
qed

lemma abook_okD:
  assumes "abook_ok a"
  shows "ranked s (ab_queue a s)" and "\<forall>x\<in>set (ab_queue a s). order_ok s x"
    and "\<forall>x\<in>set (ab_queue a s). 0 < sint (os_LeavesQty x)" and "uncrossed a"
    and "distinct (map os_ID (ab_queue a s))"
    and "s \<noteq> u \<Longrightarrow> os_ID ` set (ab_queue a s) \<inter> os_ID ` set (ab_queue a u) = {}"
  using assms by (cases s; cases u; auto simp: abook_ok_def order_ok_def allOrders_def)+

lemma abook_okI:
  assumes "\<And>s. ranked s (ab_queue a s)" and "\<And>s x. x \<in> set (ab_queue a s) \<Longrightarrow> order_ok s x"
    and "\<And>s. distinct (map os_ID (ab_queue a s))"
    and "os_ID ` set (ab_queue a Bids) \<inter> os_ID ` set (ab_queue a Asks) = {}" and "uncrossed a"
  shows "abook_ok a"
  using assms by (simp add: abook_ok_def allOrders_def)

lemma uncrossed_prices:
  "uncrossed a \<longleftrightarrow> (\<forall>p\<in>os_Price ` set (ab_queue a Bids). \<forall>q\<in>os_Price ` set (ab_queue a Asks). p <s q)"
  by (simp add: uncrossed_def)

lemma subseq_subset: "subseq xs ys \<Longrightarrow> set xs \<subseteq> set ys"
  by (induction rule: list_emb.induct) auto

lemma subseq_distinct_mono: "subseq xs ys \<Longrightarrow> distinct ys \<Longrightarrow> distinct xs"
  by (induction rule: list_emb.induct) (use subseq_subset in auto)

text \<open>A change of the queues that keeps a subset of the ids and of the prices.\<close>

lemma abook_ok_shrink:
  assumes ok: "abook_ok a" and r: "\<And>s. ranked s (ab_queue a' s)"
    and o: "\<And>s x. x \<in> set (ab_queue a' s) \<Longrightarrow> order_ok s x"
    and i: "\<And>s. subseq (map os_ID (ab_queue a' s)) (map os_ID (ab_queue a s))"
    and p: "\<And>s. os_Price ` set (ab_queue a' s) \<subseteq> os_Price ` set (ab_queue a s)"
  shows "abook_ok a'"
proof (rule abook_okI [OF r o])
  show "distinct (map os_ID (ab_queue a' s))" for s
    using i [of s] abook_okD(5) [OF ok] by (rule subseq_distinct_mono)
  have sub: "os_ID ` set (ab_queue a' s) \<subseteq> os_ID ` set (ab_queue a s)" for s
    using subseq_subset [OF i [of s]] by simp
  show "os_ID ` set (ab_queue a' Bids) \<inter> os_ID ` set (ab_queue a' Asks) = {}"
    using sub [of Bids] sub [of Asks] abook_okD(6) [OF ok, of Bids Asks] by blast
  show "uncrossed a'"
    using abook_okD(4) [OF ok] p [of Bids] p [of Asks] unfolding uncrossed_prices by blast
qed

lemma abs_match_ok:
  assumes ok: "abook_ok a" and m: "abs_match a x sq = (a', y, es)"
    and x: "os_Side x = sideOf s" "0 < sint (os_LeavesQty x)"
  shows "abook_ok a'" and "0 \<le> sint (os_LeavesQty y)"
    and "os_LeavesQty y \<noteq> 0 \<Longrightarrow> \<forall>z\<in>set (ab_queue a' (opposite s)). \<not> crosses (os_Side x) (os_Price x) (os_Price z)"
proof -
  let ?t = "opposite s"
  obtain xs q ts es' where f: "fill (crosses (os_Side x) (os_Price x)) (os_ID x) sq
      (ab_nextTradeSeq a) (os_LeavesQty x) (ab_queue a ?t) = (xs, q, ts, es')"
    using prod_cases4 by blast
  have t: "(if os_Side x = SideBuy then Asks else Bids) = ?t"
    using x(1) by (cases s) (simp_all add: go_consts)
  have e: "a' = a\<lparr>ab_queue := (ab_queue a)(?t := xs), ab_nextTradeSeq := ts\<rparr>" "y = x\<lparr>os_LeavesQty := q\<rparr>"
    using m f t by (auto simp: abs_match_def Let_def)
  have q: "0 \<le> sint (os_LeavesQty x)" using x(2) by simp
  note k = fill_keeps [OF f abook_okD(2,1) [OF ok] q]
  show "abook_ok a'" using k e abook_okD(1,2) [OF ok]
    by (intro abook_ok_shrink [OF ok]) (auto split: if_splits)
  show "0 \<le> sint (os_LeavesQty y)" using fill_conserves [OF f abook_okD(3) [OF ok] q] e by simp
  have "os_Side x = sideOf (opposite ?t)" using x(1) by (cases s) simp_all
  then show "\<forall>z\<in>set (ab_queue a' ?t). \<not> crosses (os_Side x) (os_Price x) (os_Price z)" if "os_LeavesQty y \<noteq> 0"
    using fill_exhausts [OF f abook_okD(2,1) [OF ok] q] that e by simp
qed

lemma abs_rest_ok:
  assumes ok: "abook_ok a" and new: "findOrder a (os_ID x) = None" and x: "order_ok s x"
    and cr: "\<forall>z\<in>set (ab_queue a (opposite s)). \<not> crosses (os_Side x) (os_Price x) (os_Price z)"
  shows "abook_ok (abs_rest a x)"
proof -
  have sd: "bookSide (os_Side x) = s" and px: "os_Price x \<noteq> 0"
    using x by (cases s; auto simp: order_ok_def bookSide_def go_consts)+
  have q: "ab_queue (abs_rest a x) t = (if t = s then insertOrder (isBids s) x (ab_queue a s) else ab_queue a t)" for t
    using sd by (simp add: abs_rest_def Let_def isBids_def)
  have id: "os_ID x \<notin> os_ID ` set (ab_queue a t)" for t using new by (simp add: findOrder_None_iff)
  show ?thesis
  proof (rule abook_okI)
    show "ranked t (ab_queue (abs_rest a x) t)" for t
      using abook_okD(1) [OF ok] ranked_insertOrder by (simp add: q)
    show "order_ok t y" if "y \<in> set (ab_queue (abs_rest a x) t)" for t y
      using that abook_okD(2) [OF ok, of t] x by (auto simp: q set_insertOrder split: if_splits)
    show "distinct (map os_ID (ab_queue (abs_rest a x) t))" for t
      using abook_okD(5) [OF ok] id by (simp add: q distinct_ids_insertOrder)
    show "os_ID ` set (ab_queue (abs_rest a x) Bids) \<inter> os_ID ` set (ab_queue (abs_rest a x) Asks) = {}"
      using abook_okD(6) [OF ok, of Bids Asks] id by (auto simp: q set_insertOrder)
    show "uncrossed (abs_rest a x)"
      using abook_okD(4) [OF ok] cr x px
      by (cases s) (auto simp: uncrossed_def q set_insertOrder crosses_def order_ok_def signed_sint go_consts)
  qed
qed

lemma dropOrder_ok:
  assumes "abook_ok a"
  shows "abook_ok (dropOrder a oid)"
proof (rule abook_ok_shrink [OF assms])
  show "ranked s (ab_queue (dropOrder a oid) s)" for s
    using abook_okD(1) [OF assms, of s] by (simp add: dropOrder_def ranked_def sorted_wrt_filter)
  show "subseq (map os_ID (ab_queue (dropOrder a oid) s)) (map os_ID (ab_queue a s))" for s
    by (simp add: dropOrder_def subseq_map subseq_filter_left)
  show "os_Price ` set (ab_queue (dropOrder a oid) s) \<subseteq> os_Price ` set (ab_queue a s)" for s
    by (auto simp: dropOrder_def)
  show "order_ok s x" if "x \<in> set (ab_queue (dropOrder a oid) s)" for s x
    using that abook_okD(2) [OF assms, of s] by (auto simp: dropOrder_def)
qed

lemma setLeaves_ok:
  assumes "abook_ok a" and "0 < sint v"
  shows "abook_ok (setLeaves a oid v)"
proof (rule abook_ok_shrink [OF assms(1)])
  show "ranked s (ab_queue (setLeaves a oid v) s)" for s
    using abook_okD(1) [OF assms(1), of s]
    by (simp add: setLeaves_def ranked_def sorted_wrt_map if_distrib [of os_Price] cong: if_cong)
  show "subseq (map os_ID (ab_queue (setLeaves a oid v) s)) (map os_ID (ab_queue a s))" for s
    by (simp add: setLeaves_def o_def if_distrib [of os_ID] cong: if_cong)
  show "os_Price ` set (ab_queue (setLeaves a oid v) s) \<subseteq> os_Price ` set (ab_queue a s)" for s
    by (auto simp: setLeaves_def)
  show "order_ok s x" if "x \<in> set (ab_queue (setLeaves a oid v) s)" for s x
    using that abook_okD(2) [OF assms(1), of s] assms(2) by (auto simp: setLeaves_def order_ok_def)
qed

text \<open>Matching an order with an unused id, and resting what is left if the price is positive.\<close>

lemma abs_match_rest_ok:
  assumes ok: "abook_ok a" and m: "abs_match a x sq = (a', y, es)" and new: "findOrder a (os_ID x) = None"
    and x: "os_Side x = sideOf s" "0 < sint (os_LeavesQty x)" "0 < sint (os_Price x)" and q: "os_LeavesQty y \<noteq> 0"
  shows "abook_ok (abs_rest a' y)"
proof -
  note r = abs_match_ok [OF ok m x(1,2)] and y = abs_match_order [OF m]
  have "0 < sint (os_LeavesQty y)" using r(2) q sint_inj64 [of "os_LeavesQty y" 0] by fastforce
  then have "order_ok s y" using x y by (simp add: order_ok_def)
  moreover have "findOrder a' (os_ID y) = None" using abs_match_ids [OF m new] y by simp
  ultimately show ?thesis using abs_rest_ok [OF r(1), of y s] r(3) [OF q] y by simp
qed

lemma abs_new_ok:
  assumes ok: "abook_ok a" and v: "Validate cmd = None" "cmd_Type cmd = CommandNew"
  shows "abook_ok (fst (abs_new a cmd))"
proof (cases "findOrder a (cmd_OrderID cmd) \<noteq> None \<or> cmd_TimeInForce cmd = TIFFOK \<and> abs_available a cmd <s cmd_Quantity cmd")
  case True
  then show ?thesis using ok by (auto simp: abs_new_def)
next
  case False
  let ?x = "\<lparr>os_ID = cmd_OrderID cmd, os_Side = cmd_Side cmd, os_Price = cmd_Price cmd,
      os_LeavesQty = cmd_Quantity cmd, os_Seq = cmd_Seq cmd\<rparr>"
  obtain a' y es where m: "abs_match a ?x (cmd_Seq cmd) = (a', y, es)" by (metis prod_cases3)
  note V = Validate_NewD [OF v]
  obtain s where s: "os_Side ?x = sideOf s" using V(2) sideOf.simps by (metis OrderSnapshot.select_convs(2))
  have new: "findOrder a (os_ID ?x) = None" using False by simp
  have "abook_ok a'" using abs_match_ok(1) [OF ok m s] V(4) by simp
  moreover have "abook_ok (abs_rest a' y)" if "os_LeavesQty y \<noteq> 0" "cmd_OrderType cmd \<noteq> OrderTypeMarket"
    using abs_match_rest_ok [OF ok m new s _ _ that(1)] V(3-5) that(2) by auto
  ultimately show ?thesis using False m ok by (simp add: abs_new_def abs_place_def Let_def)
qed

lemma findOrder_SomeD:
  assumes "abook_ok a" and "findOrder a oid = Some x"
  shows "os_ID x = oid" and "\<exists>s. x \<in> set (ab_queue a s) \<and> order_ok s x"
proof -
  have x: "os_ID x = oid" "x \<in> set (allOrders a)"
    using assms(2) unfolding findOrder_def by (auto simp: find_Some_iff)
  then show "os_ID x = oid" and "\<exists>s. x \<in> set (ab_queue a s) \<and> order_ok s x"
    using abook_okD(2) [OF assms(1)] by (auto simp: allOrders_def)
qed

lemma findOrder_unique:
  assumes "abook_ok a" and "x \<in> set (ab_queue a s)"
  shows "findOrder a (os_ID x) = Some x"
proof -
  have x: "x \<in> set (allOrders a)" using assms(2) by (cases s) (auto simp: allOrders_def)
  obtain y where y: "findOrder a (os_ID x) = Some y"
    using assms(2) findOrder_None_iff [of a "os_ID x"] by fastforce
  then have "os_ID y = os_ID x" "y \<in> set (allOrders a)" unfolding findOrder_def by (auto simp: find_Some_iff)
  moreover have "distinct (map os_ID (allOrders a))" using assms(1) by (simp add: abook_ok_def)
  ultimately have "y = x" using x by (auto simp: distinct_map dest: inj_onD)
  with y show ?thesis by simp
qed

lemma map_other: "oid \<notin> os_ID ` set xs \<Longrightarrow> map (\<lambda>x. if os_ID x = oid then f x else x) xs = xs"
  by (induction xs) auto

lemma filter_other: "oid \<notin> os_ID ` set xs \<Longrightarrow> filter (\<lambda>x. os_ID x \<noteq> oid) xs = xs"
  by (induction xs) auto

lemma filter_id_remove1:
  "distinct (map os_ID xs) \<Longrightarrow> x \<in> set xs \<Longrightarrow> filter (\<lambda>y. os_ID y \<noteq> os_ID x) xs = remove1 x xs"
proof (induction xs)
  case (Cons y xs)
  show ?case
  proof (cases "y = x")
    case True
    then have "filter (\<lambda>y. os_ID y \<noteq> os_ID x) xs = xs" using Cons.prems(1) True by (simp add: filter_other)
    then show ?thesis using True by simp
  next
    case False
    then have "os_ID y \<noteq> os_ID x" using Cons.prems by force
    then show ?thesis using False Cons by auto
  qed
qed simp

lemma setLeaves_queue:
  assumes "abook_ok a" and "ab_queue a s = ys @ x # zs"
  shows "ab_queue (setLeaves a (os_ID x) v) s = ys @ x\<lparr>os_LeavesQty := v\<rparr> # zs"
    and "t \<noteq> s \<Longrightarrow> ab_queue (setLeaves a (os_ID x) v) t = ab_queue a t"
proof -
  have "os_ID x \<notin> os_ID ` set (ys @ zs)" using abook_okD(5) [OF assms(1), of s] assms(2) by auto
  then show "ab_queue (setLeaves a (os_ID x) v) s = ys @ x\<lparr>os_LeavesQty := v\<rparr> # zs"
    using assms(2) by (simp add: setLeaves_def map_other image_Un)
  show "ab_queue (setLeaves a (os_ID x) v) t = ab_queue a t" if "t \<noteq> s"
    using abook_okD(6) [OF assms(1) that] assms(2) by (simp add: setLeaves_def map_other)
qed

lemma abs_move_ok:
  assumes ok: "abook_ok a" and x: "order_ok s x" and v: "0 < sint (cmd_NewLeavesQty cmd)" "0 < sint np"
  shows "abook_ok (fst (abs_move a cmd x np))"
proof -
  let ?x = "\<lparr>os_ID = cmd_OrderID cmd, os_Side = os_Side x, os_Price = np,
      os_LeavesQty = cmd_NewLeavesQty cmd, os_Seq = cmd_Seq cmd\<rparr>"
  note ok' = dropOrder_ok [OF ok, of "cmd_OrderID cmd"]
  obtain a' y es where m: "abs_match (dropOrder a (cmd_OrderID cmd)) ?x (cmd_Seq cmd) = (a', y, es)"
    by (metis prod_cases3)
  have s: "os_Side ?x = sideOf s" using x by (simp add: order_ok_def)
  have new: "findOrder (dropOrder a (cmd_OrderID cmd)) (os_ID ?x) = None" using dropOrder_fresh by simp
  have "abook_ok a'" using abs_match_ok(1) [OF ok' m s] v by simp
  moreover have "abook_ok (abs_rest a' y)" if "0 <s os_LeavesQty y"
  proof -
    have "os_LeavesQty y \<noteq> 0" using that by (auto simp: signed_sint)
    then show ?thesis using abs_match_rest_ok [OF ok' m new s] v by simp
  qed
  ultimately show ?thesis using m by (simp add: abs_move_def)
qed

lemma abs_replace_ok:
  assumes ok: "abook_ok a"
  shows "abook_ok (fst (abs_replace a cmd))"
proof (cases "findOrder a (cmd_OrderID cmd)")
  case (Some x)
  obtain s where "order_ok s x" using findOrder_SomeD(2) [OF ok Some] by blast
  then show ?thesis using Some ok abs_move_ok [OF ok, of s x cmd "replacePrice cmd x"] setLeaves_ok [OF ok]
    by (simp add: abs_replace_def abs_reduce_def signed_sint split_def Let_def)
qed (simp add: abs_replace_def ok)

lemma abs_apply_ok:
  assumes ok: "abook_ok a"
  shows "abook_ok (fst (abs_apply a cmd))"
  using ok abs_new_ok [OF ok, of cmd] abs_replace_ok [OF ok, of cmd] dropOrder_ok [OF ok, of "cmd_OrderID cmd"]
  by (auto simp: abs_apply_def abs_cancel_def split: option.split)

lemma abs_run_ok: "abook_ok a \<Longrightarrow> abook_ok (fst (abs_run a cmds))"
  by (induction cmds arbitrary: a) (simp_all add: split_def Let_def abs_apply_ok)

end
