(* ===== verification/Book_Snapshot.thy ===== *)
theory Book_Snapshot
  imports Book_Values
begin

text \<open>
  Snapshots and the self-check.  \<open>Snapshot\<close> lists the levels of each side, best price first, with
  the orders of each level in queue order; \<open>NewFromSnapshot\<close> rests the orders one by one in that
  order.  A book rebuilt from the snapshot of a reachable book represents the same list book, so
  it has the same snapshot and answers every further command alike.  \<open>CheckInvariants\<close> accepts
  every reachable book.
\<close>

definition groupLevels :: "OrderSnapshot list \<Rightarrow> PriceLevelSnapshot list" where
  "groupLevels xs = map (\<lambda>p. \<lparr>ps_Price = p, ps_Orders = filter (\<lambda>x. os_Price x = p) xs\<rparr>)
     (remdups_adj (map os_Price xs))"

definition abs_snapshot :: "abook \<Rightarrow> BookSnapshot" where
  "abs_snapshot a = \<lparr>bs_Symbol = ab_Symbol a, bs_NextTradeSeq = ab_nextTradeSeq a,
     bs_Bids = groupLevels (ab_queue a Bids), bs_Asks = groupLevels (ab_queue a Asks)\<rparr>"

text \<open>All orders of a list of levels, in order.\<close>

definition levelOrders :: "PriceLevelSnapshot list \<Rightarrow> OrderSnapshot list" where
  "levelOrders ls = concat (map ps_Orders ls)"

fun sideOrders :: "BookSnapshot \<Rightarrow> side_ptr \<Rightarrow> OrderSnapshot list" where
  "sideOrders s Bids = levelOrders (bs_Bids s)"
| "sideOrders s Asks = levelOrders (bs_Asks s)"

subsection \<open>Taking a snapshot\<close>

definition cellLevels :: "store \<Rightarrow> cell list \<Rightarrow> PriceLevelSnapshot list" where
  "cellLevels st cs = map (\<lambda>(p, l, rs). \<lparr>ps_Price = p, ps_Orders = map (oval st) rs\<rparr>) cs"

lemma snapshotPrices_cells:
  assumes "\<forall>(p, l, rs)\<in>set cs. levels p = Some l \<and> queue_ok st l rs"
  shows "snapshotPrices levels st (map fst cs) = Some (cellLevels st cs)"
  using assms
proof (induction cs)
  case (Cons c cs)
  obtain p l rs where c: "c = (p, l, rs)" by (cases c)
  then obtain lv where lv: "levels p = Some l" "st_levels st l = Some lv" "lvl_Head lv = firstRef rs None"
    "links st l None rs None"
    using Cons.prems by (auto simp: queue_ok_def)
  with snapshotQueue_links [OF lv(4), of "[]"] Cons c show ?case by (simp add: cellLevels_def)
qed (simp add: cellLevels_def)

lemma groupLevels_group:
  assumes "xs \<noteq> []" and "\<forall>x\<in>set xs. os_Price x = p" and "\<forall>y\<in>set ys. os_Price y \<noteq> p"
  shows "groupLevels (xs @ ys) = \<lparr>ps_Price = p, ps_Orders = xs\<rparr> # groupLevels ys"
proof -
  have "remdups_adj (map os_Price (xs @ ys)) = p # remdups_adj (map os_Price ys)"
    using assms remdups_adj_group [of "map os_Price xs" p "map os_Price ys"] by auto
  moreover have "filter (\<lambda>x. os_Price x = p) xs = xs" "filter (\<lambda>x. os_Price x = p) ys = []"
    using assms by (auto simp: filter_id_conv filter_empty_conv)
  moreover have "filter (\<lambda>x. os_Price x = q) xs = []" if "q \<in> set (map os_Price ys)" for q
    using that assms by (auto simp: filter_empty_conv)
  ultimately show ?thesis by (auto simp: groupLevels_def)
qed

lemma groupLevels_cells:
  assumes "\<forall>(p, l, rs)\<in>set cs. rs \<noteq> [] \<and> (\<forall>r\<in>set rs. os_Price (oval st r) = p)" and "distinct (map fst cs)"
  shows "groupLevels (absq st cs) = cellLevels st cs"
  using assms
proof (induction cs)
  case (Cons c cs)
  obtain p l rs where c: "c = (p, l, rs)" by (cases c)
  have "os_Price (oval st r) \<noteq> p" if m: "r \<in> set (queued cs)" for r
  proof -
    obtain q k qs where "(q, k, qs) \<in> set cs" "r \<in> set qs" using m unfolding in_queued by blast
    then have "q \<noteq> p" "os_Price (oval st r) = q"
      using Cons.prems(2) c bspec [OF Cons.prems(1), of "(q, k, qs)"] by (auto simp: rev_image_eqI)
    then show ?thesis by simp
  qed
  then have "groupLevels (absq st (c # cs)) = \<lparr>ps_Price = p, ps_Orders = map (oval st) rs\<rparr> # groupLevels (absq st cs)"
    using Cons.prems c groupLevels_group [of "map (oval st) rs" p "absq st cs"]
    by (auto simp: absq_def)
  then show ?case using Cons c by (simp add: cellLevels_def)
qed (simp add: absq_def groupLevels_def cellLevels_def)

lemma levelOrders_cells: "levelOrders (cellLevels st cs) = absq st cs"
  by (induction cs) (auto simp: levelOrders_def cellLevels_def absq_def)

lemma book_ok_levels:
  assumes "book_ok b L"
  shows "\<forall>(p, l, rs)\<in>set (L s). sb_levels (sideAt b s) p = Some l \<and> queue_ok (bk_store b) l rs"
    and "\<forall>(p, l, rs)\<in>set (L s). rs \<noteq> [] \<and> (\<forall>r\<in>set rs. os_Price (oval (bk_store b) r) = p)"
    and "distinct (map fst (L s))" and "sb_prices (sideAt b s) = map fst (L s)"
proof -
  note c = book_ok_cells [OF assms] and i = book_ok_side [OF assms, of s]
  show "\<forall>(p, l, rs)\<in>set (L s). sb_levels (sideAt b s) p = Some l \<and> queue_ok (bk_store b) l rs"
    using side_index_levels [OF i] cells_okD(1) [OF c] by fastforce
  show "\<forall>(p, l, rs)\<in>set (L s). rs \<noteq> [] \<and> (\<forall>r\<in>set rs. os_Price (oval (bk_store b) r) = p)"
    using assms cells_okD(3) [OF c] by (fastforce simp: book_ok_def)
  show "distinct (map fst (L s))" and "sb_prices (sideAt b s) = map fst (L s)"
    using i prio.sorted_distinct by (auto simp: side_index_def)
qed

lemma snapshotSide_refines:
  assumes "shows_as b L a"
  shows "snapshotSide (sideAt b s) (bk_store b) = Some (groupLevels (ab_queue a s))"
    and "levelOrders (groupLevels (ab_queue a s)) = ab_queue a s"
proof -
  have ok: "book_ok b L" using assms by (simp add: shows_as_def)
  note q = shows_as_queue [OF assms, of s] and l = book_ok_levels [OF ok, of s]
  have g: "groupLevels (ab_queue a s) = cellLevels (bk_store b) (L s)"
    using groupLevels_cells [OF l(2,3)] q by simp
  then show "snapshotSide (sideAt b s) (bk_store b) = Some (groupLevels (ab_queue a s))"
    using snapshotPrices_cells [OF l(1)] l(4) by (simp add: snapshotSide_def)
  show "levelOrders (groupLevels (ab_queue a s)) = ab_queue a s" using g q levelOrders_cells by simp
qed

lemma Snapshot_refines:
  assumes "represents b a"
  shows "Snapshot b = Some (abs_snapshot a)" and "sideOrders (abs_snapshot a) s = ab_queue a s"
proof -
  obtain L where sh: "shows_as b L a" using assms by (auto simp: represents_def)
  show "Snapshot b = Some (abs_snapshot a)"
    using snapshotSide_refines(1) [OF sh, of Bids] snapshotSide_refines(1) [OF sh, of Asks] sh
    by (simp add: Snapshot_def abs_snapshot_def shows_as_def)
  show "sideOrders (abs_snapshot a) s = ab_queue a s"
    using snapshotSide_refines(2) [OF sh] by (cases s) (simp_all add: abs_snapshot_def)
qed

subsection \<open>Restoring a snapshot\<close>

lemma restoreOrders_append:
  "restoreOrders b (xs @ ys) = Option.bind (restoreOrders b xs) (\<lambda>b. restoreOrders b ys)"
  by (induction xs arbitrary: b) (auto simp: split_def Let_def split: bind_splits)

lemma restoreSide_orders: "restoreSide b ls = restoreOrders b (levelOrders ls)"
  by (induction ls arbitrary: b) (simp_all add: levelOrders_def restoreOrders_append)

lemma orderSnapshot_fresh [simp]:
  "orderSnapshot (freshOrder (os_ID x) (os_Side x) (os_Price x) (os_LeavesQty x) (os_Seq x)) = x"
  by (simp add: orderSnapshot_def freshOrder_def)

lemma findOrder_abs_rest:
  "findOrder (abs_rest a x) oid = None \<longleftrightarrow> os_ID x \<noteq> oid \<and> findOrder a oid = None"
  by (auto simp: findOrder_None_iff abs_rest_def Let_def set_insertOrder)

lemma restoreOrders_refines:
  assumes "represents b a" and "distinct (map os_ID xs)" and "\<forall>x\<in>set xs. findOrder a (os_ID x) = None"
  shows "\<exists>b'. restoreOrders b xs = Some b' \<and> represents b' (foldl abs_rest a xs)"
  using assms
proof (induction xs arbitrary: b a)
  case (Cons x xs)
  let ?o = "freshOrder (os_ID x) (os_Side x) (os_Price x) (os_LeavesQty x) (os_Seq x)"
  obtain L where sh: "shows_as b L a" using Cons.prems by (auto simp: represents_def)
  obtain r st where al: "allocOrder (bk_store b) ?o = (r, st)" by (metis surj_pair)
  note sh1 = allocOrder_refines [OF sh al]
  have new: "findOrder a (ord_ID ?o) = None" using Cons.prems by (simp add: freshOrder_def)
  obtain b1 where b1: "rest (b\<lparr>bk_store := st\<rparr>) r = Some b1" "represents b1 (abs_rest a x)"
    using rest_refines [OF sh1(1) _ sh1(2) new] sh1(3) by auto
  have "\<forall>y\<in>set xs. findOrder (abs_rest a x) (os_ID y) = None"
    using Cons.prems by (auto simp: findOrder_abs_rest)
  with Cons.IH [OF b1(2)] Cons.prems(2) al b1(1) show ?case by simp
qed simp

text \<open>Resting the orders of a sorted side one by one rebuilds the side.\<close>

lemma insertOrder_last:
  assumes "ranked s (ys @ [x])"
  shows "insertOrder (isBids s) x ys = ys @ [x]"
proof -
  have "takeWhile (\<lambda>y. \<not> before (isBids s) (os_Price x) (os_Price y)) ys = ys"
    using assms by (simp add: takeWhile_eq_all_conv)
  moreover have "dropWhile (\<lambda>y. \<not> before (isBids s) (os_Price x) (os_Price y)) ys = []"
    using assms by (simp add: dropWhile_eq_Nil_conv)
  ultimately show ?thesis by (simp add: insertOrder_def)
qed

lemma foldl_abs_rest:
  assumes "ranked s (ab_queue a s @ xs)" and "\<forall>x\<in>set xs. order_ok s x"
  shows "foldl abs_rest a xs = a\<lparr>ab_queue := (ab_queue a)(s := ab_queue a s @ xs)\<rparr>"
  using assms
proof (induction xs arbitrary: a)
  case (Cons x xs)
  have "bookSide (os_Side x) = s" using Cons.prems(2) by (cases s) (auto simp: order_ok_def bookSide_def go_consts)
  moreover have "insertOrder (isBids s) x (ab_queue a s) = ab_queue a s @ [x]"
    using Cons.prems(1) by (intro insertOrder_last) auto
  ultimately have r: "abs_rest a x = a\<lparr>ab_queue := (ab_queue a)(s := ab_queue a s @ [x])\<rparr>" (is "_ = ?a1")
    by (simp add: abs_rest_def Let_def isBids_def)
  have "foldl abs_rest ?a1 xs = ?a1\<lparr>ab_queue := (ab_queue ?a1)(s := ab_queue ?a1 s @ xs)\<rparr>"
    using Cons.prems by (intro Cons.IH) auto
  then show ?case using r by (simp add: fun_upd_def cong: if_cong)
qed simp

lemma NewFromSnapshot_refines:
  assumes rep: "represents b a" and ok: "abook_ok a"
  shows "\<exists>b'. NewFromSnapshot (abs_snapshot a) = Some b' \<and> represents b' a"
proof -
  let ?b0 = "(New (ab_Symbol a))\<lparr>bk_nextTradeSeq := ab_nextTradeSeq a\<rparr>"
  let ?a0 = "(emptyBook (ab_Symbol a))\<lparr>ab_nextTradeSeq := ab_nextTradeSeq a\<rparr>"
  let ?a1 = "?a0\<lparr>ab_queue := (ab_queue ?a0)(Bids := ab_queue a Bids)\<rparr>"
  let ?a2 = "?a1\<lparr>ab_queue := (ab_queue ?a1)(Asks := ab_queue a Asks)\<rparr>"
  have q0: "ab_queue ?a0 s = []" for s by (simp add: emptyBook_def)
  have "shows_as ?b0 (\<lambda>_. []) ?a0"
    using New_shows [of "ab_Symbol a"] by (simp add: shows_as_def book_ok_def index_ok_def)
  then have r0: "represents ?b0 ?a0" unfolding represents_def by blast
  note o = Snapshot_refines(2) [OF rep]
  have f1: "foldl abs_rest ?a0 (ab_queue a Bids) = ?a1"
    using foldl_abs_rest [of Bids ?a0 "ab_queue a Bids"] abook_okD(1,2) [OF ok, of Bids] q0 [of Bids] by simp
  have n0: "findOrder ?a0 oid = None" for oid using q0 by (simp add: findOrder_None_iff)
  obtain b1 where b1: "restoreOrders ?b0 (ab_queue a Bids) = Some b1" "represents b1 ?a1"
    using restoreOrders_refines [OF r0, of "ab_queue a Bids"] abook_okD(5) [OF ok] n0 f1 by auto
  have f2: "foldl abs_rest ?a1 (ab_queue a Asks) = ?a2"
    using foldl_abs_rest [of Asks ?a1 "ab_queue a Asks"] abook_okD(1,2) [OF ok, of Asks] q0 [of Asks] by simp
  have "findOrder ?a1 (os_ID x) = None" if "x \<in> set (ab_queue a Asks)" for x
    using that abook_okD(6) [OF ok, of Bids Asks] q0 by (auto simp: findOrder_None_iff)
  then obtain b2 where b2: "restoreOrders b1 (ab_queue a Asks) = Some b2" "represents b2 ?a2"
    using restoreOrders_refines [OF b1(2), of "ab_queue a Asks"] abook_okD(5) [OF ok] f2 by auto
  have "?a2 = a"
  proof (rule abook.equality)
    show "ab_queue ?a2 = ab_queue a"
    proof
      show "ab_queue ?a2 s = ab_queue a s" for s by (cases s) simp_all
    qed
  qed (simp_all add: emptyBook_def)
  moreover have "NewFromSnapshot (abs_snapshot a) = restoreOrders b1 (ab_queue a Asks)"
    using b1(1) o [of Bids] o [of Asks]
    by (simp add: NewFromSnapshot_def Let_def restoreSide_orders abs_snapshot_def)
  ultimately show ?thesis using b2 by auto
qed

lemma reachable_represents:
  assumes "reachable b"
  obtains a where "represents b a" and "abook_ok a"
  using assms
proof (induction arbitrary: thesis rule: reachable.induct)
  case (reachable_New symbol)
  then show ?case using New_represents emptyBook_ok by blast
next
  case (reachable_Apply b cmd b' r)
  obtain a where "represents b a" "abook_ok a" using reachable_Apply.IH by blast
  then show ?case using Apply_refines [of b a cmd] abs_apply_ok [of a cmd] reachable_Apply by auto
next
  case (reachable_restore b s b')
  obtain a where a: "represents b a" "abook_ok a" using reachable_restore.IH by blast
  then show ?case using NewFromSnapshot_refines [OF a] Snapshot_refines(1) [OF a(1)] reachable_restore by auto
qed

subsection \<open>The self-check\<close>

lemma checkSorted_ok: "sorted_wrt (before isBid) ps \<Longrightarrow> checkSorted isBid ps = None"
  by (induction isBid ps rule: checkSorted.induct) (auto simp: before_def signed_sint split: if_splits)

lemma checkLevels_cells:
  assumes "\<forall>(p, l, rs)\<in>set cs. levels p = Some l \<and> queue_ok st l rs" and "\<forall>(p, l, rs)\<in>set cs. rs \<noteq> []"
    and "\<forall>r\<in>set (queued cs). 0 < sint (os_LeavesQty (oval st r))"
  shows "checkLevels levels st (map fst cs) = Some None"
  using assms
proof (induction cs)
  case (Cons c cs)
  obtain p l rs where c: "c = (p, l, rs)" by (cases c)
  then obtain lv where lv: "levels p = Some l" "st_levels st l = Some lv" "lvl_Head lv = firstRef rs None"
    "lvl_Tail lv = lastRef rs None" "lvl_TotalQty lv = leavesSum st rs" "links st l None rs None"
    using Cons.prems(1) by (auto simp: queue_ok_def)
  moreover have "checkQueue st l (firstRef rs None) 0 = Some (Inr (leavesSum st rs))"
    using checkQueue_links [OF lv(6), of 0] Cons.prems(3) c by simp
  moreover have "rs \<noteq> []" using Cons.prems(2) c by simp
  ultimately show ?case using Cons c by simp
qed simp

lemma checkSide_ok:
  assumes sh: "shows_as b L a" and ok: "abook_ok a"
  shows "checkSide (sideAt b s) (bk_store b) = Some None"
proof -
  have bok: "book_ok b L" using sh by (simp add: shows_as_def)
  note l = book_ok_levels [OF bok, of s]
  have "\<forall>r\<in>set (queued (L s)). 0 < sint (os_LeavesQty (oval (bk_store b) r))"
    using abook_okD(3) [OF ok, of s, folded shows_as_queue [OF sh]] by (simp add: absq_def)
  then have "checkLevels (sb_levels (sideAt b s)) (bk_store b) (map fst (L s)) = Some None"
    using l(1,2) by (intro checkLevels_cells) auto
  then show ?thesis
    using l(4) book_ok_side [OF bok, of s] checkSorted_ok by (simp add: checkSide_def side_index_def)
qed

lemma CheckInvariants_ok:
  assumes rep: "represents b a" and ok: "abook_ok a"
  shows "CheckInvariants b = Some None"
proof -
  obtain L where sh: "shows_as b L a" using rep by (auto simp: represents_def)
  have bok: "book_ok b L" using sh by (simp add: shows_as_def)
  note c = checkSide_ok [OF sh ok, of Bids] checkSide_ok [OF sh ok, of Asks]
  have bp: "\<exists>lv. best (sideAt b s) = Some l \<and> st_levels (bk_store b) l = Some lv
      \<and> (\<exists>x\<in>set (ab_queue a s). lvl_Price lv = os_Price x)"
    if bs: "best (sideAt b s) = Some l" for s l
  proof -
    obtain p k r rs cs where L: "L s = (p, k, r # rs) # cs"
      by (rule book_ok_queue_cases [OF bok, of s]) (use best_first(1) [OF bok] bs in auto)
    have "oval (bk_store b) r \<in> set (ab_queue a s)"
      using L by (simp add: absq_def flip: shows_as_queue [OF sh, of s])
    moreover have "os_Price (oval (bk_store b) r) = p" using book_ok_levels(2) [OF bok, of s] L by simp
    ultimately show ?thesis using best_first(2) [OF bok L] bs by auto
  qed
  have "\<not> os_Price y \<le>s os_Price x" if "x \<in> set (ab_queue a Bids)" "y \<in> set (ab_queue a Asks)" for x y
    using abook_okD(4) [OF ok] that by (simp add: uncrossed_def not_sless_iff [symmetric])
  then show ?thesis
    using c [simplified] bp [of Bids] bp [of Asks]
    by (fastforce simp: CheckInvariants_def split: option.split)
qed

end
