(* ===== verification/Book_Laws.thy ===== *)
theory Book_Laws
  imports Book_Snapshot
begin

text \<open>
  Laws of the list book that the properties of the book rest on: how much a scan of the level
  totals finds, when a fill is complete, what a command does to the two sides, and the
  arithmetic of trade ids.
\<close>

subsection \<open>Availability is sound for fill-or-kill orders\<close>

text \<open>What the resting orders at allowed prices add up to, without overflow.\<close>

definition takeable :: "(int64 \<Rightarrow> bool) \<Rightarrow> OrderSnapshot list \<Rightarrow> int" where
  "takeable ok xs = leavesTotal (takeWhile (\<lambda>x. ok (os_Price x)) xs)"

lemma leavesTotal_nonneg: "\<forall>x\<in>set xs. 0 < sint (os_LeavesQty x) \<Longrightarrow> 0 \<le> leavesTotal xs"
  by (induction xs) auto

lemma takeable_nonneg: "\<forall>x\<in>set xs. 0 < sint (os_LeavesQty x) \<Longrightarrow> 0 \<le> takeable ok xs"
  unfolding takeable_def by (rule leavesTotal_nonneg) (auto dest: set_takeWhileD)

lemma wordSum_leaves: "(\<Sum>x\<leftarrow>xs. os_LeavesQty x) = word_of_int (leavesTotal xs)"
  by (induction xs) (simp_all add: leavesTotal_def)

lemma sint_wordSum:
  assumes "\<forall>x\<in>set xs. 0 < sint (os_LeavesQty x)" and "leavesTotal xs < 2 ^ 63"
  shows "sint (\<Sum>x\<leftarrow>xs. os_LeavesQty x) = leavesTotal xs"
  using assms leavesTotal_nonneg [of xs]
  by (simp add: wordSum_leaves sint_sbintrunc' signed_take_bit_int_eq_self)

text \<open>A side falls into its first price level and the rest.\<close>

lemma ranked_first_level:
  assumes "ranked s (x # xs)"
  obtains A B where "x # xs = A @ B" and "A \<noteq> []" and "\<forall>y\<in>set A. os_Price y = os_Price x"
    and "\<forall>y\<in>set B. os_Price y \<noteq> os_Price x" and "ranked s B" and "length B < length (x # xs)"
proof -
  let ?P = "\<lambda>y. os_Price y = os_Price x"
  define A where "A = takeWhile ?P (x # xs)"
  define B where "B = dropWhile ?P (x # xs)"
  have d: "x # xs = A @ B" by (simp only: A_def B_def takeWhile_dropWhile_id)
  have A: "A \<noteq> []" "\<forall>y\<in>set A. ?P y" by (auto simp: A_def dest: set_takeWhileD)
  have r: "ranked s B" using assms unfolding d by simp
  have "os_Price y \<noteq> os_Price x" if y: "y \<in> set B" for y
  proof (cases B)
    case (Cons z zs)
    then have z: "os_Price z \<noteq> os_Price x" using hd_dropWhile [of ?P "x # xs", folded B_def] by simp
    have "x \<in> set A" using d A(1) by (cases A) auto
    then have "\<not> before (isBids s) (os_Price z) (os_Price x)" using assms Cons unfolding d by auto
    then have "before (isBids s) (os_Price x) (os_Price z)" using z prio.bef_total by metis
    moreover have "y = z \<or> \<not> before (isBids s) (os_Price y) (os_Price z)" using r Cons y by auto
    ultimately show ?thesis using prio.bef_irrefl by metis
  qed (use y in simp)
  then show thesis using that [OF d A] r d A(1) by (metis length_append length_greater_0_conv less_add_same_cancel2)
qed

lemma takeable_first_level:
  assumes "\<forall>y\<in>set A. os_Price y = p" and "A \<noteq> []"
  shows "takeable ok (A @ B) = (if ok p then leavesTotal A + takeable ok B else 0)"
proof (cases "ok p")
  case True
  then show ?thesis using assms by (simp add: takeable_def takeWhile_append)
next
  case False
  obtain y A' where "A = y # A'" using assms by (cases A) auto
  then show ?thesis using False assms by (simp add: takeable_def)
qed

text \<open>If the takeable quantity is not enough, the scan is exact and reports it.\<close>

lemma scanTotals_short:
  assumes "ranked s xs" and "\<forall>x\<in>set xs. 0 < sint (os_LeavesQty x)"
    and "0 \<le> sint acc" and "sint acc + takeable ok xs < sint req"
  shows "sint (scanTotals ok req (levelTotals xs) acc) = sint acc + takeable ok xs"
  using assms
proof (induction "length xs" arbitrary: xs acc rule: less_induct)
  case less
  show ?case
  proof (cases xs)
    case Nil
    then show ?thesis by (simp add: levelTotals_def takeable_def)
  next
    case (Cons x ys)
    obtain A B where AB: "xs = A @ B" "A \<noteq> []" "\<forall>y\<in>set A. os_Price y = os_Price x"
      "\<forall>y\<in>set B. os_Price y \<noteq> os_Price x" "ranked s B" "length B < length xs"
      using ranked_first_level less.prems(1) unfolding Cons by metis
    let ?t = "\<Sum>x\<leftarrow>A. os_LeavesQty x"
    have pos: "0 \<le> leavesTotal A" "0 \<le> takeable ok B" "\<forall>x\<in>set A. 0 < sint (os_LeavesQty x)"
        "\<forall>x\<in>set B. 0 < sint (os_LeavesQty x)"
      using less.prems(2) AB(1) by (auto intro: leavesTotal_nonneg takeable_nonneg)
    have l: "levelTotals xs = (os_Price x, ?t) # levelTotals B" using levelTotals_group AB by metis
    have T: "takeable ok xs = (if ok (os_Price x) then leavesTotal A + takeable ok B else 0)"
      using takeable_first_level [OF AB(3,2)] AB(1) by simp
    show ?thesis
    proof (cases "ok (os_Price x)")
      case True
      have t: "sint ?t = leavesTotal A"
        using sint_wordSum [OF pos(3)] less.prems T True pos sint_lt64 [of req] by simp
      have add: "sint (acc + ?t) = sint acc + leavesTotal A"
        using t less.prems T True pos sint_lt64 [of req] by (subst sint_add64) auto
      have "sint (req - acc) = sint req - sint acc"
        using less.prems T True pos by (intro sint_sub64) auto
      then have "\<not> req - acc \<le>s ?t" using t less.prems T True pos by (simp add: signed_sint)
      then show ?thesis
        using less.hyps [OF AB(6,5) pos(4), of "acc + ?t"] less.prems l T True add pos by simp
    qed (use l T in simp)
  qed
qed

text \<open>Enough takeable quantity, with no level total above the largest 64-bit integer, is found.\<close>

lemma scanTotals_enough:
  assumes "ranked s xs" and "\<forall>x\<in>set xs. 0 < sint (os_LeavesQty x)"
    and "\<forall>p. leavesTotal (filter (\<lambda>x. os_Price x = p) xs) < 2 ^ 63"
    and "0 \<le> sint acc" and "sint acc < sint req" and "sint req \<le> sint acc + takeable ok xs"
  shows "scanTotals ok req (levelTotals xs) acc = req"
  using assms
proof (induction "length xs" arbitrary: xs acc rule: less_induct)
  case less
  show ?case
  proof (cases xs)
    case Nil
    then show ?thesis using less.prems by (simp add: takeable_def)
  next
    case (Cons x ys)
    obtain A B where AB: "xs = A @ B" "A \<noteq> []" "\<forall>y\<in>set A. os_Price y = os_Price x"
      "\<forall>y\<in>set B. os_Price y \<noteq> os_Price x" "ranked s B" "length B < length xs"
      using ranked_first_level less.prems(1) unfolding Cons by metis
    let ?t = "\<Sum>x\<leftarrow>A. os_LeavesQty x"
    have pos: "0 \<le> leavesTotal A" "\<forall>x\<in>set A. 0 < sint (os_LeavesQty x)" "\<forall>x\<in>set B. 0 < sint (os_LeavesQty x)"
      using less.prems(2) AB(1) by (auto intro: leavesTotal_nonneg)
    have l: "levelTotals xs = (os_Price x, ?t) # levelTotals B" using levelTotals_group AB by metis
    have ok: "ok (os_Price x)" and T: "takeable ok xs = leavesTotal A + takeable ok B"
      using takeable_first_level [OF AB(3,2), of ok B] AB(1) less.prems by (auto split: if_splits)
    have "filter (\<lambda>y. os_Price y = os_Price x) xs = A"
      using AB by (simp add: filter_id_conv filter_empty_conv)
    then have t: "sint ?t = leavesTotal A" using sint_wordSum [OF pos(2)] less.prems(3) by metis
    have sub: "sint (req - acc) = sint req - sint acc" using less.prems by (intro sint_sub64) auto
    have fB: "leavesTotal (filter (\<lambda>x. os_Price x = p) B) < 2 ^ 63" for p
    proof -
      have "0 \<le> leavesTotal (filter (\<lambda>x. os_Price x = p) A)" using pos(2) by (intro leavesTotal_nonneg) simp
      then show ?thesis using less.prems(3) [rule_format, of p] AB(1) by simp
    qed
    show ?thesis
    proof (cases "req - acc \<le>s ?t")
      case False
      then have lt: "sint acc + leavesTotal A < sint req" using sub t by (simp add: signed_sint)
      then have add: "sint (acc + ?t) = sint acc + leavesTotal A"
        using t less.prems pos sint_lt64 [of req] by (subst sint_add64) auto
      then show ?thesis
        using less.hyps [OF AB(6,5) pos(3), of "acc + ?t"] fB less.prems l T ok lt pos False by simp
    qed (use l ok in simp)
  qed
qed

text \<open>A fill is complete exactly when the takeable quantity covers it.\<close>

lemma fill_complete:
  assumes "fill allowed t sq ts q xs = (xs', q', ts', es)"
    and "\<forall>x\<in>set xs. 0 < sint (os_LeavesQty x)" and "0 \<le> sint q"
  shows "sint q' = max 0 (sint q - takeable allowed xs)"
  using assms
proof (induction xs arbitrary: ts q xs' q' ts' es)
  case (Cons x xs)
  have x: "0 < sint (os_LeavesQty x)" and pos: "0 \<le> takeable allowed xs"
    using Cons.prems(2) takeable_nonneg by simp_all
  from Cons.prems(1) x Cons.prems(3) show ?case
  proof (cases rule: fill_cases)
    case stop
    then show ?thesis using Cons.prems(3) x pos by (auto simp: takeable_def)
  next
    case (full es1)
    then show ?thesis using Cons.IH [OF full(4)] Cons.prems x by (simp add: takeable_def)
  next
    case part
    then show ?thesis using pos by (simp add: takeable_def)
  qed
qed (simp add: takeable_def)

lemma fill_whole:
  assumes "fill allowed t sq ts q xs = (xs', q', ts', es)"
    and "\<forall>x\<in>set xs. 0 < sint (os_LeavesQty x)" and "0 \<le> sint q"
  shows "length (trades es) \<le> length xs
    \<and> map ev_Quantity (butlast (trades es)) = map os_LeavesQty (butlast (take (length (trades es)) xs))"
  using assms
proof (induction rule: fill_induct)
  case (full ts q x xs xs' q' ts' es)
  then show ?case by (cases "trades es"; cases xs) auto
qed simp_all

subsection \<open>New orders\<close>

text \<open>The two sides of the book as a new order sees them.\<close>

definition oppositeSide :: "Command \<Rightarrow> side_ptr" where
  "oppositeSide cmd = (if cmd_Side cmd = SideBuy then Asks else Bids)"

definition ownSide :: "Command \<Rightarrow> side_ptr" where
  "ownSide cmd = bookSide (cmd_Side cmd)"

text \<open>An order whose remainder is cancelled instead of rested.\<close>

definition immediate :: "Command \<Rightarrow> bool" where
  "immediate cmd \<longleftrightarrow> cmd_OrderType cmd = OrderTypeMarket \<or> cmd_TimeInForce cmd = TIFIOC"

definition remainderEvents :: "Command \<Rightarrow> int64 \<Rightarrow> Event list" where
  "remainderEvents cmd q =
     (if q = 0 then [] else if immediate cmd then [cancelEvent (cmd_OrderID cmd) q CancelUnfilledRemainder]
      else [restedEvent (cmd_OrderID cmd) (cmd_Price cmd) q])"

definition restedOrder :: "Command \<Rightarrow> int64 \<Rightarrow> OrderSnapshot" where
  "restedOrder cmd q = \<lparr>os_ID = cmd_OrderID cmd, os_Side = cmd_Side cmd, os_Price = cmd_Price cmd,
     os_LeavesQty = q, os_Seq = cmd_Seq cmd\<rparr>"

lemma sides_differ:
  assumes "cmd_Side cmd = SideBuy \<or> cmd_Side cmd = SideSell"
  shows "cmd_Side cmd = sideOf (ownSide cmd)" "opposite (ownSide cmd) = oppositeSide cmd" "ownSide cmd \<noteq> oppositeSide cmd"
  using assms by (auto simp: ownSide_def oppositeSide_def bookSide_def go_consts)

lemma abs_place_fill:
  assumes sd: "cmd_Side cmd = SideBuy \<or> cmd_Side cmd = SideSell"
    and f: "fill (crosses (cmd_Side cmd) (cmd_Price cmd)) (cmd_OrderID cmd) (cmd_Seq cmd) (ab_nextTradeSeq a)
        (cmd_Quantity cmd) (ab_queue a (oppositeSide cmd)) = (xs, q, ts, es)"
  shows "snd (abs_place a cmd) = acceptEvent (cmd_OrderID cmd) # es @ remainderEvents cmd q"
    and "ab_queue (fst (abs_place a cmd)) (oppositeSide cmd) = xs"
    and "ab_queue (fst (abs_place a cmd)) (ownSide cmd) =
      (if q = 0 \<or> immediate cmd then ab_queue a (ownSide cmd)
       else insertOrder (isBids (ownSide cmd)) (restedOrder cmd q) (ab_queue a (ownSide cmd)))"
proof -
  let ?x = "restedOrder cmd (cmd_Quantity cmd)"
  have "abs_match a ?x (cmd_Seq cmd) =
      (a\<lparr>ab_queue := (ab_queue a)(oppositeSide cmd := xs), ab_nextTradeSeq := ts\<rparr>, restedOrder cmd q, es)"
    using f by (simp add: abs_match_def restedOrder_def oppositeSide_def)
  then have p: "abs_place a cmd =
      (let a = a\<lparr>ab_queue := (ab_queue a)(oppositeSide cmd := xs), ab_nextTradeSeq := ts\<rparr>;
           es = acceptEvent (cmd_OrderID cmd) # es
       in if q = 0 then (a, es) else if immediate cmd
          then (a, es @ [cancelEvent (cmd_OrderID cmd) q CancelUnfilledRemainder])
          else (abs_rest a (restedOrder cmd q), es @ [restedEvent (cmd_OrderID cmd) (cmd_Price cmd) q]))"
    by (simp add: abs_place_def restedOrder_def immediate_def Let_def)
  have "bookSide (cmd_Side cmd) = ownSide cmd" by (simp add: ownSide_def)
  then show "snd (abs_place a cmd) = acceptEvent (cmd_OrderID cmd) # es @ remainderEvents cmd q"
    and "ab_queue (fst (abs_place a cmd)) (oppositeSide cmd) = xs"
    and "ab_queue (fst (abs_place a cmd)) (ownSide cmd) =
      (if q = 0 \<or> immediate cmd then ab_queue a (ownSide cmd)
       else insertOrder (isBids (ownSide cmd)) (restedOrder cmd q) (ab_queue a (ownSide cmd)))"
    using sides_differ(3) [OF sd]
    by (auto simp: p Let_def remainderEvents_def abs_rest_def restedOrder_def isBids_def)
qed

text \<open>
  The outcomes of a new order on a well-formed book: a single reject event and no change, or a
  fill against the opposite side whose remainder is rested or cancelled.
\<close>

lemma new_cases:
  assumes ok: "abook_ok a" and ty: "cmd_Type cmd = CommandNew"
  obtains (rejected) w where "abs_apply a cmd = (a, [rejectEvent w (cmd_OrderID cmd)])"
      "w = RejectWouldNotFullyFill \<longrightarrow> Validate cmd = None \<and> abs_available a cmd <s cmd_Quantity cmd"
  | (placed) xs q ts es where
      "fill (crosses (cmd_Side cmd) (cmd_Price cmd)) (cmd_OrderID cmd) (cmd_Seq cmd) (ab_nextTradeSeq a)
        (cmd_Quantity cmd) (ab_queue a (oppositeSide cmd)) = (xs, q, ts, es)"
      "Validate cmd = None" "findOrder a (cmd_OrderID cmd) = None"
      "cmd_TimeInForce cmd = TIFFOK \<longrightarrow> \<not> abs_available a cmd <s cmd_Quantity cmd"
      "snd (abs_apply a cmd) = acceptEvent (cmd_OrderID cmd) # es @ remainderEvents cmd q"
      "ab_queue (fst (abs_apply a cmd)) (oppositeSide cmd) = xs"
      "ab_queue (fst (abs_apply a cmd)) (ownSide cmd) =
        (if q = 0 \<or> immediate cmd then ab_queue a (ownSide cmd)
         else insertOrder (isBids (ownSide cmd)) (restedOrder cmd q) (ab_queue a (ownSide cmd)))"
proof (cases "cmd_Symbol cmd \<noteq> ab_Symbol a \<or> Validate cmd \<noteq> None \<or> findOrder a (cmd_OrderID cmd) \<noteq> None
    \<or> cmd_TimeInForce cmd = TIFFOK \<and> abs_available a cmd <s cmd_Quantity cmd")
  case True
  have "ValidationRejectReason cmd \<noteq> RejectWouldNotFullyFill"
    by (auto simp: ValidationRejectReason_def go_consts)
  with True ty show thesis
    by (intro rejected [of "if cmd_Symbol cmd \<noteq> ab_Symbol a then RejectInvalidSymbol
          else if Validate cmd \<noteq> None then ValidationRejectReason cmd
          else if findOrder a (cmd_OrderID cmd) \<noteq> None then RejectDuplicateOrderID else RejectWouldNotFullyFill"])
      (auto simp: abs_apply_def abs_new_def go_consts)
next
  case False
  then have v: "Validate cmd = None" by simp
  obtain xs q ts es where f: "fill (crosses (cmd_Side cmd) (cmd_Price cmd)) (cmd_OrderID cmd) (cmd_Seq cmd)
      (ab_nextTradeSeq a) (cmd_Quantity cmd) (ab_queue a (oppositeSide cmd)) = (xs, q, ts, es)"
    using prod_cases4 by blast
  have "abs_apply a cmd = abs_place a cmd" using False ty by (auto simp: abs_apply_def abs_new_def)
  then show thesis
    using abs_place_fill [OF Validate_NewD(2) [OF v ty] f] False by (intro placed [OF f]) auto
qed

lemma remainder_trades [simp]: "trades (remainderEvents cmd q) = []" "tradedQty (remainderEvents cmd q) = 0"
  by (simp_all add: remainderEvents_def)

lemma leavesTotal_insertOrder: "leavesTotal (insertOrder isBid x xs) = sint (os_LeavesQty x) + leavesTotal xs"
  by (rule insertOrder_parts [of xs isBid x]) simp

definition restedQty :: "Event list \<Rightarrow> int" where
  "restedQty es = (\<Sum>e\<leftarrow>filter (\<lambda>e. ev_Type e = EventOrderRested) es. sint (ev_LeavesQty e))"

definition canceledQty :: "Event list \<Rightarrow> int" where
  "canceledQty es = (\<Sum>e\<leftarrow>filter (\<lambda>e. ev_Type e = EventCanceled) es. sint (ev_CanceledQty e))"

lemma fill_no_rest:
  assumes "fill allowed t sq ts q xs = (xs', q', ts', es)"
    and "\<forall>x\<in>set xs. 0 < sint (os_LeavesQty x)" and "0 \<le> sint q"
  shows "\<forall>e\<in>set es. ev_Type e = EventTrade \<or> ev_Type e = EventOrderReduced"
  using assms by (induction rule: fill_induct) (auto simp: reducedEvent_def zeroEvent_def)

lemma remainder_sums:
  assumes "\<forall>e\<in>set es. ev_Type e = EventTrade \<or> ev_Type e = EventOrderReduced"
  shows "restedQty (acceptEvent i # es @ remainderEvents cmd q) = (if immediate cmd then 0 else sint q)"
    and "canceledQty (acceptEvent i # es @ remainderEvents cmd q) = (if immediate cmd then sint q else 0)"
proof -
  have n: "filter (\<lambda>e. ev_Type e = EventOrderRested) es = []" "filter (\<lambda>e. ev_Type e = EventCanceled) es = []"
    using assms by (auto simp: filter_empty_conv go_consts)
  show "restedQty (acceptEvent i # es @ remainderEvents cmd q) = (if immediate cmd then 0 else sint q)"
    and "canceledQty (acceptEvent i # es @ remainderEvents cmd q) = (if immediate cmd then sint q else 0)"
    by (simp_all add: restedQty_def canceledQty_def n [unfolded go_consts] remainderEvents_def acceptEvent_def cancelEvent_def
        restedEvent_def zeroEvent_def go_consts)
qed

end
