(* ===== verification/Book_Trades.thy ===== *)
theory Book_Trades
  imports Book_Laws
begin

text \<open>
  Trade ids and the two forms of a replace.  A trade id packs the sequence number of the
  command above the low 20 bits of the trade counter of the book.  A replace that moves an order is a
  cancel followed by a new limit order with the same id and side.
\<close>

subsection \<open>Availability of a command\<close>

text \<open>The prices the availability scan counts for a command.\<close>

definition canTake :: "Command \<Rightarrow> int64 \<Rightarrow> bool" where
  "canTake cmd p = (if cmd_OrderType cmd = OrderTypeMarket then True
     else if cmd_Side cmd = SideBuy then p \<le>s cmd_Price cmd else cmd_Price cmd \<le>s p)"

lemma abs_available_scan:
  "abs_available a cmd = scanTotals (canTake cmd) (cmd_Quantity cmd) (levelTotals (ab_queue a (oppositeSide cmd))) 0"
  by (simp add: abs_available_def oppositeSide_def canTake_def [abs_def])

lemma available_sound:
  assumes ok: "abook_ok a" and v: "Validate cmd = None" "cmd_Type cmd = CommandNew"
    and ty: "cmd_OrderType cmd = OrderTypeLimit \<or> cmd_Price cmd = 0" and av: "\<not> abs_available a cmd <s cmd_Quantity cmd"
  shows "sint (cmd_Quantity cmd) \<le> takeable (crosses (cmd_Side cmd) (cmd_Price cmd)) (ab_queue a (oppositeSide cmd))"
proof (rule ccontr)
  note V = Validate_NewD [OF v]
  have "crosses (cmd_Side cmd) (cmd_Price cmd) p = canTake cmd p" for p
    using ty V(3,5) by (auto simp: crosses_def canTake_def go_consts)
  then have eq: "crosses (cmd_Side cmd) (cmd_Price cmd) = canTake cmd" by blast
  assume "\<not> ?thesis"
  then have "sint (abs_available a cmd) < sint (cmd_Quantity cmd)"
    using scanTotals_short [OF abook_okD(1,3) [OF ok], of 0 "canTake cmd" "oppositeSide cmd" "cmd_Quantity cmd"]
    unfolding eq abs_available_scan by simp
  then show False using av by (simp add: signed_sint)
qed

lemma available_complete:
  assumes ok: "abook_ok a" and q: "0 < sint (cmd_Quantity cmd)"
    and fits: "\<forall>p. leavesTotal (filter (\<lambda>x. os_Price x = p) (ab_queue a (oppositeSide cmd))) < 2 ^ 63"
    and av: "abs_available a cmd <s cmd_Quantity cmd"
  shows "takeable (canTake cmd) (ab_queue a (oppositeSide cmd)) < sint (cmd_Quantity cmd)"
proof (rule ccontr)
  assume "\<not> ?thesis"
  then have "abs_available a cmd = cmd_Quantity cmd"
    using scanTotals_enough [OF abook_okD(1,3) [OF ok] fits, of 0 "cmd_Quantity cmd" "canTake cmd"] q
    unfolding abs_available_scan by simp
  then show False using av by (simp add: signed_sint)
qed

subsection \<open>Trade ids\<close>

lemma tradeID_parts:
  "tradeID sq ts = or (push_bit 20 sq) (take_bit 20 ts)"
  by (simp add: tradeID_def take_bit_eq_mask mask_eq_exp_minus_1 push_bit_of_1)

lemma take_bit_tradeID: "take_bit 20 (tradeID sq ts) = take_bit 20 ts"
  by (rule bit_eqI) (auto simp: tradeID_parts bit_simps)

lemma drop_bit_tradeID:
  assumes "sq < 2 ^ 44"
  shows "drop_bit 20 (tradeID sq ts) = sq"
proof (rule bit_eqI)
  fix n
  have "unat sq < 2 ^ 44" using assms by (simp add: word_less_nat_alt)
  then have "unat (take_bit 44 sq) = unat sq" by (simp only: unsigned_take_bit_eq take_bit_nat_eq_self)
  then have "take_bit 44 sq = sq" by (simp only: word_unat_eq_iff)
  then have "bit sq n \<Longrightarrow> n < 44" by (metis bit_take_bit_iff)
  then show "bit (drop_bit 20 (tradeID sq ts)) n \<longleftrightarrow> bit sq n"
    by (auto simp: tradeID_parts bit_simps)
qed

lemma unat_take20: "unat (take_bit 20 (ts + of_nat i :: uint64)) = (unat ts + i) mod 2 ^ 20"
proof -
  have d: "(2 ^ 20 :: nat) dvd 2 ^ 64" by (simp add: le_imp_power_dvd)
  have "unat (take_bit 20 (ts + of_nat i)) = unat (ts + of_nat i) mod 2 ^ 20"
    by (simp only: unsigned_take_bit_eq) (simp only: take_bit_eq_mod)
  also have "\<dots> = (unat ts + i) mod 2 ^ 20"
    using d by (simp add: unat_word_ariths unat_of_nat mod_mod_cancel mod_simps)
  finally show ?thesis .
qed

lemma tradeIDs_distinct:
  assumes "n \<le> 2 ^ 20"
  shows "distinct (map (\<lambda>i. tradeID sq (ts + of_nat i)) [0..<n])"
proof -
  have "i = j" if "i < n" "j < n" "tradeID sq (ts + of_nat i) = tradeID sq (ts + of_nat j)" for i j
  proof -
    have "(unat ts + i) mod 2 ^ 20 = (unat ts + j) mod 2 ^ 20"
      using that(3) unat_take20 take_bit_tradeID by metis
    moreover have "i < 2 ^ 20" "j < 2 ^ 20" using that assms by simp_all
    ultimately have "2 ^ 20 dvd nat \<bar>int i - int j\<bar>" "nat \<bar>int i - int j\<bar> < 2 ^ 20"
      by (auto simp: mod_eq_iff_dvd_symdiff_nat)
    then have "nat \<bar>int i - int j\<bar> = 0" using dvd_imp_le by (metis linorder_not_le neq0_conv)
    then show ?thesis by simp
  qed
  then show ?thesis by (auto simp: distinct_map inj_on_def)
qed

lemma abs_match_trade_ids:
  assumes ok: "abook_ok a" and m: "abs_match a x sq = (a', y, es)" and x: "0 \<le> sint (os_LeavesQty x)"
  shows "map ev_TradeID (trades es) = map (\<lambda>i. tradeID sq (ab_nextTradeSeq a + of_nat i)) [0..<length (trades es)]"
proof -
  let ?s = "if os_Side x = SideBuy then Asks else Bids"
  obtain xs q ts es' where f: "fill (crosses (os_Side x) (os_Price x)) (os_ID x) sq
      (ab_nextTradeSeq a) (os_LeavesQty x) (ab_queue a ?s) = (xs, q, ts, es')"
    using prod_cases4 by blast
  then have "es = es'" using m by (auto simp: abs_match_def Let_def)
  then show ?thesis using fill_trade_ids [OF f abook_okD(3) [OF ok] x] by simp
qed

subsection \<open>Replacing an order\<close>

text \<open>The cancel and the new order that a moving replace stands for.\<close>

definition replaceCancel :: "Command \<Rightarrow> Command" where
  "replaceCancel cmd = cmd\<lparr>cmd_Type := CommandCancel\<rparr>"

definition replaceNew :: "Command \<Rightarrow> OrderSnapshot \<Rightarrow> Command" where
  "replaceNew cmd x = cmd\<lparr>cmd_Type := CommandNew, cmd_Side := os_Side x, cmd_OrderType := OrderTypeLimit,
     cmd_TimeInForce := TIFGTC, cmd_Price := replacePrice cmd x, cmd_Quantity := cmd_NewLeavesQty cmd\<rparr>"

definition keepsPlace :: "Command \<Rightarrow> OrderSnapshot \<Rightarrow> bool" where
  "keepsPlace cmd x \<longleftrightarrow> replacePrice cmd x = os_Price x \<and> cmd_NewLeavesQty cmd \<le>s os_LeavesQty x"

lemma replacePrice_pos: "order_ok s x \<Longrightarrow> 0 < sint (replacePrice cmd x)"
  by (simp add: replacePrice_def order_ok_def signed_sint)

lemma abs_replace_cases:
  assumes ok: "abook_ok a" and v: "Validate cmd = None" "cmd_Type cmd = CommandReplace" "cmd_Symbol cmd = ab_Symbol a"
    and x: "findOrder a (cmd_OrderID cmd) = Some x"
  shows "abs_apply a cmd = apsnd ((#) (acceptEvent (cmd_OrderID cmd)))
    (if keepsPlace cmd x then abs_reduce a x (cmd_NewLeavesQty cmd) else abs_move a cmd x (replacePrice cmd x))"
proof -
  obtain s where s: "order_ok s x" using findOrder_SomeD(2) [OF ok x] by blast
  have "\<not> replacePrice cmd x \<le>s 0" "\<not> cmd_NewLeavesQty cmd \<le>s 0"
    using replacePrice_pos [OF s, of cmd] Validate_ReplaceD(1) [OF v(1,2)] by (simp_all add: signed_sint)
  then show ?thesis
    using v x by (simp add: abs_apply_def abs_replace_def keepsPlace_def apsnd_def map_prod_def split_def Let_def go_consts)
qed

lemma abs_move_is_place:
  assumes ok: "abook_ok a" and v: "Validate cmd = None" "cmd_Type cmd = CommandReplace"
    and x: "findOrder a (cmd_OrderID cmd) = Some x"
  shows "\<exists>q. abs_move a cmd x (replacePrice cmd x) =
    (fst (abs_place (dropOrder a (cmd_OrderID cmd)) (replaceNew cmd x)),
     tl (snd (abs_place (dropOrder a (cmd_OrderID cmd)) (replaceNew cmd x)))
       @ [replacedEvent (cmd_OrderID cmd) (replacePrice cmd x) q False])"
proof -
  let ?x = "\<lparr>os_ID = cmd_OrderID cmd, os_Side = os_Side x, os_Price = replacePrice cmd x,
      os_LeavesQty = cmd_NewLeavesQty cmd, os_Seq = cmd_Seq cmd\<rparr>"
  let ?d = "dropOrder a (cmd_OrderID cmd)"
  obtain s where s: "order_ok s x" using findOrder_SomeD(2) [OF ok x] by blast
  obtain a' y es where m: "abs_match ?d ?x (cmd_Seq cmd) = (a', y, es)" by (metis prod_cases3)
  have "0 \<le> sint (os_LeavesQty y)"
    using abs_match_ok(2) [OF dropOrder_ok [OF ok] m] s Validate_ReplaceD(1) [OF v] by (simp add: order_ok_def)
  then have "0 <s os_LeavesQty y \<longleftrightarrow> os_LeavesQty y \<noteq> 0"
    using sint_inj64 [of "os_LeavesQty y" 0] by (auto simp: signed_sint)
  then show ?thesis
    using m by (intro exI [of _ "os_LeavesQty y"]) (simp add: abs_move_def abs_place_def replaceNew_def go_consts Let_def)
qed

lemma replaceNew_valid:
  assumes ok: "abook_ok a" and v: "Validate cmd = None" "cmd_Type cmd = CommandReplace"
    and x: "findOrder a (cmd_OrderID cmd) = Some x"
  shows "Validate (replaceNew cmd x) = None" and "Validate (replaceCancel cmd) = None"
proof -
  obtain s where s: "order_ok s x" using findOrder_SomeD(2) [OF ok x] by blast
  have "cmd_Symbol cmd \<noteq> []" "cmd_OrderID cmd \<noteq> 0" "\<not> cmd_NewLeavesQty cmd \<le>s 0"
    using v by (auto simp: Validate_def go_consts split: if_splits)
  moreover have "os_Side x = SideBuy \<or> os_Side x = SideSell" using s by (cases s) (simp_all add: order_ok_def)
  moreover have "\<not> replacePrice cmd x \<le>s 0" using replacePrice_pos [OF s, of cmd] by (simp add: signed_sint)
  ultimately show "Validate (replaceNew cmd x) = None" and "Validate (replaceCancel cmd) = None"
    by (auto simp: Validate_def replaceNew_def replaceCancel_def go_consts)
qed

text \<open>The specification of a moving replace: cancel, then a new order under the same id.\<close>

lemma abs_replace_moves:
  assumes ok: "abook_ok a" and v: "Validate cmd = None" "cmd_Type cmd = CommandReplace" "cmd_Symbol cmd = ab_Symbol a"
    and x: "findOrder a (cmd_OrderID cmd) = Some x" and mv: "\<not> keepsPlace cmd x"
  shows "\<exists>q. abs_apply a cmd =
    (fst (abs_apply (fst (abs_apply a (replaceCancel cmd))) (replaceNew cmd x)),
     snd (abs_apply (fst (abs_apply a (replaceCancel cmd))) (replaceNew cmd x))
       @ [replacedEvent (cmd_OrderID cmd) (replacePrice cmd x) q False])"
proof -
  let ?d = "dropOrder a (cmd_OrderID cmd)"
  have c: "fst (abs_apply a (replaceCancel cmd)) = ?d"
    using replaceNew_valid(2) [OF ok v(1,2) x] v(3) x
    by (simp add: abs_apply_def abs_cancel_def replaceCancel_def go_consts)
  have "ab_Symbol ?d = ab_Symbol a" by (simp add: dropOrder_def)
  moreover have "findOrder ?d (cmd_OrderID cmd) = None" by (rule dropOrder_fresh)
  ultimately have n: "abs_apply ?d (replaceNew cmd x) = abs_place ?d (replaceNew cmd x)"
    using replaceNew_valid(1) [OF ok v(1,2) x] v(3)
    by (simp add: abs_apply_def abs_new_def replaceNew_def go_consts)
  have "snd (abs_place ?d (replaceNew cmd x)) = acceptEvent (cmd_OrderID cmd) # tl (snd (abs_place ?d (replaceNew cmd x)))"
    by (simp add: abs_place_def replaceNew_def Let_def split_def)
  then show ?thesis
    using abs_replace_cases [OF ok v x] abs_move_is_place [OF ok v(1,2) x] mv c n by auto
qed

text \<open>Trades come from a new order, or from a moving replace, and then they are those of the new order it stands for.\<close>

lemma trades_cases:
  assumes ok: "abook_ok a" and "trades (snd (abs_apply a cmd)) \<noteq> []"
  obtains (new) "cmd_Type cmd = CommandNew"
  | (replace) x where "cmd_Type cmd = CommandReplace" and "findOrder a (cmd_OrderID cmd) = Some x"
      and "trades (snd (abs_apply a cmd)) = trades (snd (abs_apply (fst (abs_apply a (replaceCancel cmd))) (replaceNew cmd x)))"
proof (cases "cmd_Type cmd = CommandNew")
  case False
  have v: "cmd_Symbol cmd = ab_Symbol a" "Validate cmd = None" "cmd_Type cmd = CommandReplace"
    using assms(2) False by (auto simp: abs_apply_def abs_cancel_def split: if_splits option.splits)
  obtain x where x: "findOrder a (cmd_OrderID cmd) = Some x"
    using assms(2) v by (cases "findOrder a (cmd_OrderID cmd)") (simp_all add: abs_apply_def abs_replace_def go_consts)
  have "\<not> keepsPlace cmd x" using assms(2) abs_replace_cases [OF ok v(2,3,1) x] by (auto simp: abs_reduce_def)
  from abs_replace_moves [OF ok v(2,3,1) x this]
  have "trades (snd (abs_apply a cmd)) = trades (snd (abs_apply (fst (abs_apply a (replaceCancel cmd))) (replaceNew cmd x)))" by auto
  then show thesis using replace v(3) x by blast
qed (rule new)

lemma abs_apply_trade_ids:
  assumes ok: "abook_ok a"
  shows "\<exists>ts. map ev_TradeID (trades (snd (abs_apply a cmd)))
    = map (\<lambda>i. tradeID (cmd_Seq cmd) (ts + of_nat i)) [0..<length (trades (snd (abs_apply a cmd)))]"
proof (cases "trades (snd (abs_apply a cmd)) = []")
  case False
  have ids: "\<exists>ts. map ev_TradeID (trades (snd (abs_apply a cmd)))
    = map (\<lambda>i. tradeID (cmd_Seq cmd) (ts + of_nat i)) [0..<length (trades (snd (abs_apply a cmd)))]"
    if ok: "abook_ok a" and ty: "cmd_Type cmd = CommandNew" for a cmd
    using ok ty
  proof (cases rule: new_cases)
    case (placed xs q ts es)
    have "0 \<le> sint (cmd_Quantity cmd)" using Validate_NewD(4) [OF placed(2) ty] by simp
    from fill_trade_ids [OF placed(1) abook_okD(3) [OF ok] this] placed(5) show ?thesis by auto
  qed simp
  from ok False show ?thesis
  proof (cases rule: trades_cases)
    case (replace x)
    have "cmd_Type (replaceNew cmd x) = CommandNew" "cmd_Seq (replaceNew cmd x) = cmd_Seq cmd" by (simp_all add: replaceNew_def)
    then show ?thesis using ids [of "fst (abs_apply a (replaceCancel cmd))" "replaceNew cmd x"] abs_apply_ok [OF ok] replace(3) by simp
  qed (rule ids [OF ok])
qed simp

subsection \<open>Limits\<close>

text \<open>A trade is within the limit of a taker.\<close>

definition withinLimit :: "Side \<Rightarrow> int64 \<Rightarrow> Event \<Rightarrow> bool" where
  "withinLimit side limit e \<longleftrightarrow> (if side = SideBuy then sint (ev_Price e) \<le> sint limit else sint limit \<le> sint (ev_Price e))"

lemma abs_new_trades:
  assumes ok: "abook_ok a" and ty: "cmd_Type cmd = CommandNew" and e: "e \<in> set (trades (snd (abs_apply a cmd)))"
  shows "ev_TakerOrderID e = cmd_OrderID cmd \<and> 0 < sint (ev_Quantity e) \<and> 0 < sint (ev_Price e)
    \<and> (cmd_OrderType cmd = OrderTypeLimit \<or> cmd_Price cmd \<noteq> 0 \<longrightarrow> withinLimit (cmd_Side cmd) (cmd_Price cmd) e)"
  using ok ty
proof (cases rule: new_cases)
  case (rejected w)
  then show ?thesis using e by simp
next
  case (placed xs q ts es)
  have q: "0 \<le> sint (cmd_Quantity cmd)" using Validate_NewD(4) [OF placed(2) ty] by simp
  note f = placed(1) abook_okD(3) [OF ok] q
  have e: "e \<in> set (trades es)" using e placed(5) by simp
  have "ev_Price e \<in> os_Price ` set (ab_queue a (oppositeSide cmd))"
  proof -
    have "(ev_MakerOrderID e, ev_Price e) \<in> set (map (\<lambda>x. (os_ID x, os_Price x)) (take (length (trades es)) (ab_queue a (oppositeSide cmd))))"
      using e fill_makers [OF f] by (metis (no_types, lifting) image_eqI set_map)
    then show ?thesis by (auto dest: in_set_takeD)
  qed
  then have "0 < sint (ev_Price e)" using abook_okD(2) [OF ok] by (auto simp: order_ok_def)
  then show ?thesis
    using fill_trades [OF f] e Validate_NewD(5) [OF placed(2) ty]
    by (auto simp: crosses_def withinLimit_def signed_sint split: if_splits)
qed

lemma tradeID_seq_differ:
  assumes "sq < 2 ^ 44" and "sq' < 2 ^ 44" and "sq \<noteq> sq'"
  shows "tradeID sq ts \<noteq> tradeID sq' ts'"
  using assms drop_bit_tradeID by metis

lemma abs_apply_trade_id:
  assumes "abook_ok a" and e: "e \<in> set (trades (snd (abs_apply a cmd)))"
  shows "\<exists>ts. ev_TradeID e = tradeID (cmd_Seq cmd) ts"
proof -
  let ?es = "trades (snd (abs_apply a cmd))"
  obtain ts where ts: "map ev_TradeID ?es = map (\<lambda>i. tradeID (cmd_Seq cmd) (ts + of_nat i)) [0..<length ?es]"
    using abs_apply_trade_ids [OF assms(1)] by blast
  have "ev_TradeID e \<in> set (map ev_TradeID ?es)" using e by simp
  then show ?thesis unfolding ts by auto
qed

lemma abs_run_trade_seqs:
  assumes "abook_ok a" and "e \<in> set (concat (map (\<lambda>r. trades (res_Events r)) (snd (abs_run a cmds))))"
  shows "\<exists>cmd\<in>set cmds. \<exists>ts. ev_TradeID e = tradeID (cmd_Seq cmd) ts"
  using assms
proof (induction cmds arbitrary: a)
  case (Cons cmd cmds)
  have "e \<in> set (trades (snd (abs_apply a cmd)))
      \<or> e \<in> set (concat (map (\<lambda>r. trades (res_Events r)) (snd (abs_run (fst (abs_apply a cmd)) cmds))))"
    using Cons.prems(2) by (simp add: split_def Let_def)
  then show ?case
  proof
    assume "e \<in> set (trades (snd (abs_apply a cmd)))"
    from abs_apply_trade_id [OF Cons.prems(1) this] show ?thesis by auto
  next
    assume "e \<in> set (concat (map (\<lambda>r. trades (res_Events r)) (snd (abs_run (fst (abs_apply a cmd)) cmds))))"
    from Cons.IH [OF abs_apply_ok [OF Cons.prems(1)] this] show ?thesis by auto
  qed
qed simp

lemma abs_run_trade_ids:
  assumes "abook_ok a" and "distinct (map cmd_Seq cmds)" and "\<forall>cmd\<in>set cmds. cmd_Seq cmd < 2 ^ 44"
    and "\<forall>r\<in>set (snd (abs_run a cmds)). length (trades (res_Events r)) \<le> 2 ^ 20"
  shows "distinct (map ev_TradeID (concat (map (\<lambda>r. trades (res_Events r)) (snd (abs_run a cmds)))))"
  using assms
proof (induction cmds arbitrary: a)
  case (Cons cmd cmds)
  let ?a = "fst (abs_apply a cmd)" and ?es = "trades (snd (abs_apply a cmd))"
  let ?rest = "concat (map (\<lambda>r. trades (res_Events r)) (snd (abs_run ?a cmds)))"
  have run: "snd (abs_run a (cmd # cmds)) = \<lparr>res_CommandSeq = cmd_Seq cmd, res_Events = snd (abs_apply a cmd)\<rparr> # snd (abs_run ?a cmds)"
    by (simp add: split_def Let_def)
  note ok' = abs_apply_ok [OF Cons.prems(1), of cmd]
  have rest: "distinct (map ev_TradeID ?rest)" using Cons.IH [OF ok'] Cons.prems(2-4) run by simp
  obtain ts where ts: "map ev_TradeID ?es = map (\<lambda>i. tradeID (cmd_Seq cmd) (ts + of_nat i)) [0..<length ?es]"
    using abs_apply_trade_ids [OF Cons.prems(1)] by blast
  have "length ?es \<le> 2 ^ 20" using Cons.prems(4) run by simp
  then have this_cmd: "distinct (map ev_TradeID ?es)" using tradeIDs_distinct ts by metis
  have "ev_TradeID e \<noteq> ev_TradeID f" if ef: "e \<in> set ?es" "f \<in> set ?rest" for e f
  proof -
    obtain t where e: "ev_TradeID e = tradeID (cmd_Seq cmd) t"
      using abs_apply_trade_id [OF Cons.prems(1) ef(1)] by blast
    obtain c u where f: "c \<in> set cmds" "ev_TradeID f = tradeID (cmd_Seq c) u"
      using abs_run_trade_seqs [OF ok' ef(2)] by blast
    have "cmd_Seq cmd \<noteq> cmd_Seq c" using Cons.prems(2) f(1) by force
    then show ?thesis using tradeID_seq_differ Cons.prems(3) e f by simp
  qed
  then have "ev_TradeID ` set ?es \<inter> ev_TradeID ` set ?rest = {}" by blast
  with run rest this_cmd show ?case by simp
qed simp

subsection \<open>Rejections\<close>

lemma reject_type [simp]:
  "ev_Type (rejectEvent w i) = EventRejected" "ev_Type (acceptEvent i) \<noteq> EventRejected"
  "ev_Type (cancelEvent i k c) \<noteq> EventRejected" "ev_Type (restedEvent i p k) \<noteq> EventRejected"
  "ev_Type (reducedEvent i k) \<noteq> EventRejected" "ev_Type (replacedEvent i p k f) \<noteq> EventRejected"
  by (simp_all add: rejectEvent_def acceptEvent_def cancelEvent_def restedEvent_def reducedEvent_def
      replacedEvent_def zeroEvent_def go_consts)

lemma abs_new_rejected:
  assumes ok: "abook_ok a" and ty: "cmd_Type cmd = CommandNew"
    and e: "e \<in> set (snd (abs_apply a cmd))" "ev_Type e = EventRejected"
  shows "snd (abs_apply a cmd) = [e] \<and> fst (abs_apply a cmd) = a"
  using ok ty
proof (cases rule: new_cases)
  case (placed xs q ts es)
  have q: "0 \<le> sint (cmd_Quantity cmd)" using Validate_NewD(4) [OF placed(2) ty] by simp
  have "\<forall>e\<in>set es. ev_Type e \<noteq> EventRejected"
    using fill_no_rest [OF placed(1) abook_okD(3) [OF ok] q] by (auto simp: go_consts)
  then have False using e unfolding placed(5) by (auto simp: remainderEvents_def split: if_splits)
  then show ?thesis ..
qed (use e in auto)

lemma abs_apply_rejected:
  assumes ok: "abook_ok a" and e: "e \<in> set (snd (abs_apply a cmd))" "ev_Type e = EventRejected"
  shows "snd (abs_apply a cmd) = [e] \<and> fst (abs_apply a cmd) = a"
proof (cases "cmd_Symbol cmd = ab_Symbol a \<and> Validate cmd = None \<and> cmd_Type cmd = CommandReplace
    \<and> findOrder a (cmd_OrderID cmd) \<noteq> None")
  case True
  then obtain x where x: "findOrder a (cmd_OrderID cmd) = Some x" by auto
  show ?thesis
  proof (cases "keepsPlace cmd x")
    case True': True
    then show ?thesis using abs_replace_cases [OF ok _ _ _ x] True e by (auto simp: abs_reduce_def split: if_splits)
  next
    case False
    let ?a = "fst (abs_apply a (replaceCancel cmd))"
    obtain q where ap: "snd (abs_apply a cmd) = snd (abs_apply ?a (replaceNew cmd x))
        @ [replacedEvent (cmd_OrderID cmd) (replacePrice cmd x) q False]"
      using abs_replace_moves [OF ok _ _ _ x False] True by auto
    then have m: "e \<in> set (snd (abs_apply ?a (replaceNew cmd x)))" using e by auto
    have "cmd_Type (replaceNew cmd x) = CommandNew" by (simp add: replaceNew_def)
    from abs_new_rejected [OF abs_apply_ok [OF ok] this m e(2)]
    have "snd (abs_apply ?a (replaceNew cmd x)) = [e]" by simp
    moreover have "hd (snd (abs_apply a cmd)) = acceptEvent (cmd_OrderID cmd)"
      using abs_replace_cases [OF ok _ _ _ x] True by auto
    ultimately have False using ap e(2) reject_type(2) [of "cmd_OrderID cmd"] by auto
    then show ?thesis ..
  qed
next
  case False
  then show ?thesis using abs_new_rejected [OF ok _ e] e
    by (cases "cmd_Type cmd = CommandNew")
      (auto simp: abs_apply_def abs_cancel_def abs_replace_def split: option.splits if_splits)
qed

end
