(* ===== verification/Book_Properties.thy ===== *)
theory Book_Properties
  imports Book_Trades
begin

text \<open>
  The properties of the order book, stated on the operations of \<open>book.go\<close>: \<open>Apply\<close>, \<open>Snapshot\<close>,
  \<open>NewFromSnapshot\<close> and \<open>CheckInvariants\<close>, for every reachable book.  The orders of a side are
  read from a snapshot.
\<close>

definition bookOrders :: "Book \<Rightarrow> side_ptr \<Rightarrow> OrderSnapshot list" where
  "bookOrders b t = (case Snapshot b of None \<Rightarrow> [] | Some s \<Rightarrow> sideOrders s t)"

lemma bookOrders_represents: "represents b a \<Longrightarrow> bookOrders b t = ab_queue a t"
  using Snapshot_refines by (simp add: bookOrders_def)

lemma reachable_step:
  assumes "reachable b" and "Apply b cmd = Some (b', r)"
  obtains a where "represents b a" and "abook_ok a" and "res_Events r = snd (abs_apply a cmd)"
    and "represents b' (fst (abs_apply a cmd))" and "\<And>t. bookOrders b t = ab_queue a t"
    and "\<And>t. bookOrders b' t = ab_queue (fst (abs_apply a cmd)) t"
proof -
  obtain a where a: "represents b a" "abook_ok a" using reachable_represents [OF assms(1)] .
  then have "res_Events r = snd (abs_apply a cmd)" "represents b' (fst (abs_apply a cmd))"
    using Apply_refines [OF a(1), of cmd] assms(2) by auto
  then show thesis using that a bookOrders_represents by blast
qed

lemma reachable_bookOrders:
  assumes "reachable b"
  obtains a where "represents b a" and "abook_ok a" and "\<And>t. bookOrders b t = ab_queue a t" and "ab_Symbol a = bk_Symbol b"
proof -
  obtain a where a: "represents b a" "abook_ok a" using reachable_represents [OF assms] .
  moreover have "ab_Symbol a = bk_Symbol b" using a(1) by (auto simp: represents_def shows_as_def)
  ultimately show thesis using that bookOrders_represents by blast
qed

subsection \<open>Sample books\<close>

text \<open>A book after a list of commands, and sample commands, for the concrete instances.\<close>

definition bookAfter :: "string \<Rightarrow> Command list \<Rightarrow> Book" where
  "bookAfter symbol cmds = fst (the (applyAll (New symbol) cmds))"

lemma applyAll_reachable: "applyAll b cmds = Some (b', rs) \<Longrightarrow> reachable b \<Longrightarrow> reachable b'"
proof (induction cmds arbitrary: b rs)
  case (Cons cmd cmds)
  then obtain b1 r rs1 where "Apply b cmd = Some (b1, r)" "applyAll b1 cmds = Some (b', rs1)"
    by (auto split: bind_splits)
  then show ?case using Cons.IH reachable_Apply [OF Cons.prems(2)] by blast
qed simp

lemma bookAfter_reachable: "reachable (bookAfter symbol cmds)"
proof -
  obtain b rs where "applyAll (New symbol) cmds = Some (b, rs)" using applyAll_refines [OF New_represents] by blast
  then show ?thesis using applyAll_reachable reachable_New by (simp add: bookAfter_def)
qed

lemma Apply_total:
  assumes "reachable b"
  shows "Apply b cmd = Some (fst (the (Apply b cmd)), snd (the (Apply b cmd)))"
proof -
  obtain a where "represents b a" using reachable_represents [OF assms] .
  then show ?thesis using Apply_refines [of b a cmd] by auto
qed

definition newOrder :: "uint64 \<Rightarrow> uint64 \<Rightarrow> Side \<Rightarrow> OrderType \<Rightarrow> TimeInForce \<Rightarrow> int64 \<Rightarrow> int64 \<Rightarrow> Command" where
  "newOrder sq oid side ty tif price qty = \<lparr>cmd_Seq = sq, cmd_Symbol = ''BTC'', cmd_Type = CommandNew,
     cmd_OrderID = oid, cmd_Side = side, cmd_OrderType = ty, cmd_TimeInForce = tif, cmd_Price = price,
     cmd_Quantity = qty, cmd_NewPrice = 0, cmd_NewLeavesQty = 0\<rparr>"

definition cancelOrder :: "uint64 \<Rightarrow> uint64 \<Rightarrow> Command" where
  "cancelOrder sq oid = (newOrder sq oid 0 0 0 0 0)\<lparr>cmd_Type := CommandCancel\<rparr>"

definition replaceOrder :: "uint64 \<Rightarrow> uint64 \<Rightarrow> int64 \<Rightarrow> int64 \<Rightarrow> Command" where
  "replaceOrder sq oid price qty =
     (newOrder sq oid 0 0 0 0 0)\<lparr>cmd_Type := CommandReplace, cmd_NewPrice := price, cmd_NewLeavesQty := qty\<rparr>"

text \<open>Three asks, two of them at the better price, and one bid.\<close>

definition sampleBook :: Book where
  "sampleBook = bookAfter ''BTC''
     [newOrder 1 1 SideSell OrderTypeLimit TIFGTC 101 5, newOrder 2 2 SideSell OrderTypeLimit TIFGTC 100 4,
      newOrder 3 3 SideSell OrderTypeLimit TIFGTC 100 3, newOrder 4 4 SideBuy OrderTypeLimit TIFGTC 99 7]"

lemma sampleBook_reachable: "reachable sampleBook"
  by (simp add: sampleBook_def bookAfter_reachable)

lemmas sample_Apply = Apply_total [OF sampleBook_reachable]

text \<open>Buying 6 at a limit of 100 takes order 2 and part of order 3.\<close>

definition sampleBuy :: Command where
  "sampleBuy = newOrder 5 5 SideBuy OrderTypeLimit TIFGTC 100 6"

subsection \<open>Refinement and totality\<close>

text \<open>
  C1: every list of commands applied to an empty book returns (no nil dereference, no endless
  loop in matching), the results of all commands are those of the list-book
  specification, and the snapshot of the final book is that of the specification's final state.
\<close>

theorem book_refines_specification:
  "\<exists>b. applyAll (New symbol) cmds = Some (b, snd (abs_run (emptyBook symbol) cmds))
     \<and> Snapshot b = Some (abs_snapshot (fst (abs_run (emptyBook symbol) cmds)))"
  using applyAll_refines [OF New_represents, of symbol cmds] Snapshot_refines(1) by blast

text \<open>
  C13: a reachable book passes the self-check of the code: prices sorted, no empty level, back
  references and level totals right, positive quantities, and the best bid below the best ask.
\<close>

theorem reachable_book_passes_check:
  assumes "reachable b"
  shows "CheckInvariants b = Some None"
  using reachable_represents [OF assms] CheckInvariants_ok by metis

theorem reachable_book_passes_check_witness:
  "CheckInvariants sampleBook = Some None \<and> bookOrders sampleBook Asks \<noteq> []"
proof
  show "CheckInvariants sampleBook = Some None" by (rule reachable_book_passes_check [OF sampleBook_reachable])
  show "bookOrders sampleBook Asks \<noteq> []" by code_simp
qed

text \<open>
  C19: every call on a book returns.  The loops over levels and orders, over the price index and over a snapshot end on every book that
  the calls can reach, and no call follows a missing pointer: \<open>Apply\<close> returns for every command, valid or not, and so do
  \<open>Snapshot\<close>, \<open>NewFromSnapshot\<close> on the snapshot, and \<open>CheckInvariants\<close>; the books they return are reachable again.
\<close>

theorem book_calls_return:
  assumes "reachable b"
  shows "(\<exists>b' r. Apply b cmd = Some (b', r) \<and> reachable b') \<and> (\<exists>s b'. Snapshot b = Some s \<and> NewFromSnapshot s = Some b' \<and> reachable b')
    \<and> (\<exists>err. CheckInvariants b = Some err)"
proof -
  obtain a where a: "represents b a" "abook_ok a" using assms by (rule reachable_represents)
  obtain b' where "NewFromSnapshot (abs_snapshot a) = Some b'" using NewFromSnapshot_refines [OF a] by blast
  then show ?thesis
    using Apply_total [OF assms, of cmd] Snapshot_refines(1) [OF a(1)] CheckInvariants_ok [OF a] reachable_Apply [OF assms] reachable_restore [OF assms]
    by blast
qed

theorem book_calls_return_witness:
  "(\<exists>b' r. Apply sampleBook sampleBuy = Some (b', r) \<and> reachable b') \<and> (\<exists>s b'. Snapshot sampleBook = Some s \<and> NewFromSnapshot s = Some b' \<and> reachable b')
    \<and> (\<exists>err. CheckInvariants sampleBook = Some err)"
  by (rule book_calls_return [OF sampleBook_reachable])

text \<open>
  C12: taking a snapshot of a reachable book and rebuilding a book from it always succeeds;
  the rebuilt book has the same snapshot, and every further list of commands gives the same
  results on both books.
\<close>

theorem snapshot_restore_equivalent:
  assumes "reachable b"
  shows "\<exists>s b'. Snapshot b = Some s \<and> NewFromSnapshot s = Some b' \<and> Snapshot b' = Some s
    \<and> (\<forall>cmds. map_option snd (applyAll b' cmds) = map_option snd (applyAll b cmds))"
proof -
  obtain a where a: "represents b a" "abook_ok a" using reachable_represents [OF assms] .
  obtain b' where b': "NewFromSnapshot (abs_snapshot a) = Some b'" "represents b' a"
    using NewFromSnapshot_refines [OF a] by blast
  have "map_option snd (applyAll b' cmds) = map_option snd (applyAll b cmds)" for cmds
    using applyAll_refines [OF a(1), of cmds] applyAll_refines [OF b'(2), of cmds] by auto
  then show ?thesis using b' Snapshot_refines(1) [OF a(1)] Snapshot_refines(1) [OF b'(2)] by blast
qed

theorem snapshot_restore_equivalent_witness:
  "\<exists>s b'. Snapshot sampleBook = Some s \<and> NewFromSnapshot s = Some b' \<and> Snapshot b' = Some s
    \<and> (\<forall>cmds. map_option snd (applyAll b' cmds) = map_option snd (applyAll sampleBook cmds))"
  by (rule snapshot_restore_equivalent [OF sampleBook_reachable])

subsection \<open>New orders\<close>

text \<open>
  C2: price-time priority.  The trades of a new order are with a prefix of the opposite side, in
  queue order (best price first, oldest first), each at the resting order's price; every maker but
  the last is filled completely; afterwards the opposite side is the rest of the queue, with the
  last maker still in front if it was filled only in part.
\<close>

theorem price_time_priority:
  assumes "reachable b" and "Apply b cmd = Some (b', r)" and "cmd_Type cmd = CommandNew"
  shows "let ts = trades (res_Events r); n = length ts; xs = bookOrders b (oppositeSide cmd);
             xs' = bookOrders b' (oppositeSide cmd)
         in map (\<lambda>e. (ev_MakerOrderID e, ev_Price e)) ts = map (\<lambda>x. (os_ID x, os_Price x)) (take n xs)
          \<and> map ev_Quantity (butlast ts) = map os_LeavesQty (butlast (take n xs))
          \<and> (xs' = drop n xs \<or> (\<exists>ys z zs v. xs = ys @ z # zs \<and> n = Suc (length ys)
               \<and> 0 < sint v \<and> sint v < sint (os_LeavesQty z) \<and> xs' = z\<lparr>os_LeavesQty := v\<rparr> # zs))"
proof -
  obtain a where a: "abook_ok a" "res_Events r = snd (abs_apply a cmd)"
    "bookOrders b (oppositeSide cmd) = ab_queue a (oppositeSide cmd)"
    "bookOrders b' (oppositeSide cmd) = ab_queue (fst (abs_apply a cmd)) (oppositeSide cmd)"
    using reachable_step [OF assms(1,2)] by metis
  from a(1) assms(3) show ?thesis
  proof (cases rule: new_cases)
    case (rejected w)
    then show ?thesis using a by (simp add: Let_def)
  next
    case (placed xs q ts es)
    have q: "0 \<le> sint (cmd_Quantity cmd)" using Validate_NewD(4) [OF placed(2) assms(3)] by simp
    note f = placed(1) abook_okD(3) [OF a(1)] q
    have "trades (res_Events r) = trades es" using a(2) placed(5) by simp
    then show ?thesis
      unfolding a(3,4) placed(6) Let_def
      using fill_makers [OF f] fill_whole [OF f] fill_rest [OF f] by (simp only:) blast
  qed
qed

theorem price_time_priority_witness:
  "map ev_MakerOrderID (trades (res_Events (snd (the (Apply sampleBook sampleBuy))))) = [2, 3]
   \<and> map os_ID (take 2 (bookOrders sampleBook Asks)) = [2, 3]"
proof -
  let ?r = "snd (the (Apply sampleBook sampleBuy))"
  have s: "cmd_Type sampleBuy = CommandNew" "oppositeSide sampleBuy = Asks" by code_simp+
  have n: "length (trades (res_Events ?r)) = 2" by code_simp
  have "map (\<lambda>e. (ev_MakerOrderID e, ev_Price e)) (trades (res_Events ?r))
      = map (\<lambda>x. (os_ID x, os_Price x)) (take 2 (bookOrders sampleBook Asks))"
    using price_time_priority [OF sampleBook_reachable sample_Apply s(1)] by (simp add: Let_def n s(2))
  then have "map fst (map (\<lambda>e. (ev_MakerOrderID e, ev_Price e)) (trades (res_Events ?r)))
      = map fst (map (\<lambda>x. (os_ID x, os_Price x)) (take 2 (bookOrders sampleBook Asks)))" by simp
  moreover have "map os_ID (take 2 (bookOrders sampleBook Asks)) = [2, 3]" by code_simp
  ultimately show ?thesis by (simp add: o_def)
qed

text \<open>
  C14: quantity is conserved by a new order, and the events account for every unit.  The opposite
  side loses exactly what was traded, the order's own side gains exactly what the rested event
  says, and the quantity of an accepted order is what was traded plus what rested plus what was
  cancelled.
\<close>

theorem quantity_conserved:
  assumes "reachable b" and "Apply b cmd = Some (b', r)" and "cmd_Type cmd = CommandNew"
  shows "leavesTotal (bookOrders b (oppositeSide cmd)) =
      leavesTotal (bookOrders b' (oppositeSide cmd)) + tradedQty (res_Events r)
    \<and> leavesTotal (bookOrders b' (ownSide cmd)) =
      leavesTotal (bookOrders b (ownSide cmd)) + restedQty (res_Events r)
    \<and> (acceptEvent (cmd_OrderID cmd) \<in> set (res_Events r) \<longrightarrow>
      sint (cmd_Quantity cmd) = tradedQty (res_Events r) + restedQty (res_Events r) + canceledQty (res_Events r))"
proof -
  obtain a where a: "abook_ok a" "res_Events r = snd (abs_apply a cmd)" "\<And>t. bookOrders b t = ab_queue a t"
    "\<And>t. bookOrders b' t = ab_queue (fst (abs_apply a cmd)) t"
    using reachable_step [OF assms(1,2)] by metis
  from a(1) assms(3) show ?thesis
  proof (cases rule: new_cases)
    case (rejected w)
    then show ?thesis using a
      by (simp add: restedQty_def rejectEvent_def acceptEvent_def zeroEvent_def go_consts tradedQty_def trades_def)
  next
    case (placed xs q ts es)
    have q: "0 \<le> sint (cmd_Quantity cmd)" using Validate_NewD(4) [OF placed(2) assms(3)] by simp
    note f = placed(1) abook_okD(3) [OF a(1)] q
    show ?thesis
      using fill_conserves [OF f] remainder_sums [OF fill_no_rest [OF f], of "cmd_OrderID cmd" cmd q]
      unfolding a(2-4) placed(5-7)
      by (auto simp: leavesTotal_insertOrder restedOrder_def)
  qed
qed

theorem quantity_conserved_witness:
  "leavesTotal (bookOrders sampleBook Asks) = 12
   \<and> leavesTotal (bookOrders (fst (the (Apply sampleBook sampleBuy))) Asks) = 6"
proof -
  let ?r = "snd (the (Apply sampleBook sampleBuy))"
  have s: "cmd_Type sampleBuy = CommandNew" "oppositeSide sampleBuy = Asks" by code_simp+
  have "tradedQty (res_Events ?r) = 6" "leavesTotal (bookOrders sampleBook Asks) = 12" by code_simp+
  with quantity_conserved [OF sampleBook_reachable sample_Apply s(1)] show ?thesis by (simp add: s(2))
qed

text \<open>
  C20: trades respect the limit of the order that takes, whatever the command: every trade has a positive quantity and a positive
  price and names the order of the command as the taker; the command is a new order or a replace; no trade of a new order that has a limit, which
  a market order with a price has too, is at a worse price; and no trade of a replace is at a price worse than the new price of the
  order, or its old one if the replace gives none, on the side of the order that is replaced.
\<close>

theorem trades_within_limit:
  assumes "reachable b" and "Apply b cmd = Some (b', r)" and "e \<in> set (trades (res_Events r))"
  shows "ev_TakerOrderID e = cmd_OrderID cmd \<and> 0 < sint (ev_Quantity e) \<and> 0 < sint (ev_Price e)
    \<and> (cmd_Type cmd = CommandNew \<and> (cmd_OrderType cmd = OrderTypeLimit \<or> cmd_Price cmd \<noteq> 0 \<longrightarrow> withinLimit (cmd_Side cmd) (cmd_Price cmd) e)
      \<or> cmd_Type cmd = CommandReplace
        \<and> (\<exists>s. \<exists>x\<in>set (bookOrders b s). os_ID x = cmd_OrderID cmd \<and> withinLimit (os_Side x) (replacePrice cmd x) e))"
proof -
  obtain a where a: "abook_ok a" "res_Events r = snd (abs_apply a cmd)" "\<And>t. bookOrders b t = ab_queue a t"
    using reachable_step [OF assms(1,2)] by metis
  have e: "e \<in> set (trades (snd (abs_apply a cmd)))" using assms(3) a(2) by simp
  then have "trades (snd (abs_apply a cmd)) \<noteq> []" by auto
  with a(1) show ?thesis
  proof (cases rule: trades_cases)
    case new
    then show ?thesis using abs_new_trades [OF a(1) new e] by blast
  next
    case (replace x)
    have n: "cmd_Type (replaceNew cmd x) = CommandNew" "cmd_OrderType (replaceNew cmd x) = OrderTypeLimit" "cmd_OrderID (replaceNew cmd x) = cmd_OrderID cmd"
      "cmd_Side (replaceNew cmd x) = os_Side x" "cmd_Price (replaceNew cmd x) = replacePrice cmd x" by (simp_all add: replaceNew_def)
    obtain s where s: "x \<in> set (bookOrders b s)" "os_ID x = cmd_OrderID cmd" using findOrder_SomeD [OF a(1) replace(2)] a(3) by auto
    show ?thesis using abs_new_trades [OF abs_apply_ok [OF a(1)] n(1)] e replace(1,3) n s by metis
  qed
qed

text \<open>A new order that takes two orders, and a replace that moves the bid of the sample book to the price of the best ask.\<close>

theorem trades_within_limit_witness:
  "(\<exists>e\<in>set (trades (res_Events (snd (the (Apply sampleBook sampleBuy))))). ev_TakerOrderID e = 5 \<and> sint (ev_Price e) \<le> 100)
   \<and> (\<exists>e\<in>set (trades (res_Events (snd (the (Apply sampleBook (replaceOrder 5 4 100 9)))))). ev_TakerOrderID e = 4 \<and> sint (ev_Price e) \<le> 100)"
proof -
  have s: "cmd_Type sampleBuy = CommandNew" "cmd_OrderType sampleBuy = OrderTypeLimit"
    "cmd_Side sampleBuy = SideBuy" "cmd_OrderID sampleBuy = 5" "cmd_Price sampleBuy = 100" by code_simp+
  have "trades (res_Events (snd (the (Apply sampleBook sampleBuy)))) \<noteq> []" by code_simp
  then obtain e where e: "e \<in> set (trades (res_Events (snd (the (Apply sampleBook sampleBuy)))))" by (meson last_in_set)
  have n: "ev_TakerOrderID e = 5 \<and> sint (ev_Price e) \<le> 100"
    using trades_within_limit [OF sampleBook_reachable sample_Apply e] s by (auto simp: withinLimit_def go_consts)
  let ?c = "replaceOrder 5 4 100 9"
  have c: "cmd_Type ?c = CommandReplace" "cmd_OrderID ?c = 4" "replacePrice ?c x = 100" for x :: OrderSnapshot
    by (code_simp, code_simp, simp add: replacePrice_def replaceOrder_def signed_sint)
  have "list_all (\<lambda>x. os_ID x = 4 \<longrightarrow> os_Side x = SideBuy) (bookOrders sampleBook Bids @ bookOrders sampleBook Asks)" by code_simp
  then have side: "x \<in> set (bookOrders sampleBook t) \<Longrightarrow> os_ID x = 4 \<Longrightarrow> os_Side x = SideBuy" for x t by (cases t) (auto simp: list_all_iff)
  have "trades (res_Events (snd (the (Apply sampleBook ?c)))) \<noteq> []" by code_simp
  then obtain f where f: "f \<in> set (trades (res_Events (snd (the (Apply sampleBook ?c)))))" by (meson last_in_set)
  have "ev_TakerOrderID f = 4 \<and> sint (ev_Price f) \<le> 100"
    using trades_within_limit [OF sampleBook_reachable sample_Apply f] c side by (auto simp: withinLimit_def go_consts)
  with n e f show ?thesis by blast
qed

text \<open>
  C21: a market or immediate-or-cancel order never rests: its own side of the book is unchanged,
  and if it was accepted, what it did not trade is cancelled.
\<close>

theorem immediate_orders_never_rest:
  assumes "reachable b" and "Apply b cmd = Some (b', r)" and "cmd_Type cmd = CommandNew" and "immediate cmd"
  shows "bookOrders b' (ownSide cmd) = bookOrders b (ownSide cmd)
    \<and> (acceptEvent (cmd_OrderID cmd) \<in> set (res_Events r) \<longrightarrow>
        canceledQty (res_Events r) = sint (cmd_Quantity cmd) - tradedQty (res_Events r))"
proof -
  obtain a where a: "abook_ok a" "res_Events r = snd (abs_apply a cmd)" "\<And>t. bookOrders b t = ab_queue a t"
    "\<And>t. bookOrders b' t = ab_queue (fst (abs_apply a cmd)) t"
    using reachable_step [OF assms(1,2)] by metis
  from a(1) assms(3) show ?thesis
  proof (cases rule: new_cases)
    case (rejected w)
    then show ?thesis using a by (simp add: rejectEvent_def acceptEvent_def zeroEvent_def go_consts)
  next
    case (placed xs q ts es)
    have q: "0 \<le> sint (cmd_Quantity cmd)" using Validate_NewD(4) [OF placed(2) assms(3)] by simp
    note f = placed(1) abook_okD(3) [OF a(1)] q
    show ?thesis
      using fill_conserves [OF f] remainder_sums [OF fill_no_rest [OF f], of "cmd_OrderID cmd" cmd q] assms(4)
      unfolding a(2-4) placed(5-7) by auto
  qed
qed

text \<open>A market order for more than the book holds.\<close>

definition sampleMarket :: Command where
  "sampleMarket = newOrder 5 5 SideBuy OrderTypeMarket TIFGTC 0 20"

theorem immediate_orders_never_rest_witness:
  "canceledQty (res_Events (snd (the (Apply sampleBook sampleMarket)))) = 8
   \<and> bookOrders (fst (the (Apply sampleBook sampleMarket))) Bids = bookOrders sampleBook Bids"
proof -
  let ?r = "snd (the (Apply sampleBook sampleMarket))"
  have s: "cmd_Type sampleMarket = CommandNew" "immediate sampleMarket" "ownSide sampleMarket = Bids"
    "sint (cmd_Quantity sampleMarket) = 20" by code_simp+
  have "tradedQty (res_Events ?r) = 12" "acceptEvent (cmd_OrderID sampleMarket) \<in> set (res_Events ?r)" by code_simp+
  with immediate_orders_never_rest [OF sampleBook_reachable sample_Apply s(1,2)] show ?thesis
    by (simp add: s(3,4))
qed

text \<open>
  C15: a fill-or-kill limit order, or fill-or-kill market order without a price, is all or
  nothing, even where the 64-bit level totals overflow: either its whole quantity is traded and
  nothing rests or is cancelled, or it has no trade and the orders of the book are unchanged.
  (A fill-or-kill market order that carries a price is excluded: it can fill in part, as
  \<open>fok_market_with_price_fills_in_part\<close> shows.)
\<close>

theorem fok_all_or_nothing:
  assumes "reachable b" and "Apply b cmd = Some (b', r)" and "cmd_Type cmd = CommandNew"
    and "cmd_TimeInForce cmd = TIFFOK" and "cmd_OrderType cmd = OrderTypeLimit \<or> cmd_Price cmd = 0"
  shows "tradedQty (res_Events r) = sint (cmd_Quantity cmd) \<and> restedQty (res_Events r) = 0
      \<and> canceledQty (res_Events r) = 0 \<and> bookOrders b' (ownSide cmd) = bookOrders b (ownSide cmd)
    \<or> trades (res_Events r) = [] \<and> (\<forall>t. bookOrders b' t = bookOrders b t)"
proof -
  obtain a where a: "abook_ok a" "res_Events r = snd (abs_apply a cmd)" "\<And>t. bookOrders b t = ab_queue a t"
    "\<And>t. bookOrders b' t = ab_queue (fst (abs_apply a cmd)) t"
    using reachable_step [OF assms(1,2)] by metis
  from a(1) assms(3) show ?thesis
  proof (cases rule: new_cases)
    case (rejected w)
    then show ?thesis using a by simp
  next
    case (placed xs q ts es)
    have q: "0 \<le> sint (cmd_Quantity cmd)" using Validate_NewD(4) [OF placed(2) assms(3)] by simp
    note f = placed(1) abook_okD(3) [OF a(1)] q
    have "sint (cmd_Quantity cmd) \<le> takeable (crosses (cmd_Side cmd) (cmd_Price cmd)) (ab_queue a (oppositeSide cmd))"
      using available_sound [OF a(1) placed(2) assms(3,5)] placed(4) assms(4) by simp
    then have "q = 0" using fill_complete [OF f] sint_inj64 [of q 0] by simp
    then show ?thesis
      using fill_conserves [OF f] remainder_sums [OF fill_no_rest [OF f], of "cmd_OrderID cmd" cmd q]
      unfolding a(2-4) placed(5-7) by auto
  qed
qed

definition sampleFok :: "int64 \<Rightarrow> Command" where
  "sampleFok qty = newOrder 5 5 SideBuy OrderTypeLimit TIFFOK 101 qty"

theorem fok_all_or_nothing_witness:
  "tradedQty (res_Events (snd (the (Apply sampleBook (sampleFok 12))))) = 12
   \<and> (\<forall>t. bookOrders (fst (the (Apply sampleBook (sampleFok 13)))) t = bookOrders sampleBook t)"
proof -
  let ?r = "\<lambda>q. snd (the (Apply sampleBook (sampleFok q)))"
  have s: "cmd_Type (sampleFok q) = CommandNew" "cmd_TimeInForce (sampleFok q) = TIFFOK"
    "cmd_OrderType (sampleFok q) = OrderTypeLimit \<or> cmd_Price (sampleFok q) = 0" "cmd_Quantity (sampleFok q) = q" for q
    by (simp_all add: sampleFok_def newOrder_def)
  have t: "tradedQty (res_Events (?r 13)) = 0" "trades (res_Events (?r 12)) \<noteq> []" by code_simp+
  have "tradedQty (res_Events (?r 12)) = 12"
    using fok_all_or_nothing [OF sampleBook_reachable sample_Apply s(1-3), of 12] t(2) by (simp add: s(4))
  moreover have "\<forall>t. bookOrders (fst (the (Apply sampleBook (sampleFok 13)))) t = bookOrders sampleBook t"
    using fok_all_or_nothing [OF sampleBook_reachable sample_Apply s(1-3), of 13] t(1) by (simp add: s(4))
  ultimately show ?thesis by simp
qed

text \<open>
  C16: a fill-or-kill order that is rejected because it would not fully fill really could not be
  filled, provided that no price level holds more than the largest 64-bit integer: the
  resting quantity it may take is less than it asks for.
\<close>

theorem fok_reject_is_justified:
  assumes "reachable b" and "Apply b cmd = Some (b', r)" and "cmd_Type cmd = CommandNew"
    and "rejectEvent RejectWouldNotFullyFill (cmd_OrderID cmd) \<in> set (res_Events r)"
    and "\<forall>p. leavesTotal (filter (\<lambda>x. os_Price x = p) (bookOrders b (oppositeSide cmd))) < 2 ^ 63"
  shows "takeable (canTake cmd) (bookOrders b (oppositeSide cmd)) < sint (cmd_Quantity cmd)"
proof -
  obtain a where a: "abook_ok a" "res_Events r = snd (abs_apply a cmd)" "\<And>t. bookOrders b t = ab_queue a t"
    using reachable_step [OF assms(1,2)] by metis
  from a(1) assms(3) show ?thesis
  proof (cases rule: new_cases)
    case (rejected w)
    then have "w = RejectWouldNotFullyFill"
      using a assms(4) by (simp add: rejectEvent_def zeroEvent_def)
    then show ?thesis
      using available_complete [OF a(1), of cmd] Validate_NewD(4) [OF _ assms(3)] rejected(2) a(3) assms(5) by simp
  next
    case (placed xs q ts es)
    have q: "0 \<le> sint (cmd_Quantity cmd)" using Validate_NewD(4) [OF placed(2) assms(3)] by simp
    have "\<forall>e\<in>set (res_Events r). ev_Type e \<noteq> EventRejected"
      unfolding a(2) placed(5) using fill_no_rest [OF placed(1) abook_okD(3) [OF a(1)] q]
      by (auto simp: remainderEvents_def acceptEvent_def cancelEvent_def restedEvent_def zeroEvent_def go_consts)
    then show ?thesis using assms(4) by (force simp: rejectEvent_def zeroEvent_def)
  qed
qed

theorem fok_reject_is_justified_witness:
  "takeable (canTake (sampleFok 13)) (bookOrders sampleBook Asks) < 13"
proof -
  let ?c = "sampleFok 13" and ?xs = "bookOrders sampleBook Asks"
  have s: "cmd_Type ?c = CommandNew" "oppositeSide ?c = Asks" "sint (cmd_Quantity ?c) = 13" by code_simp+
  have e: "rejectEvent RejectWouldNotFullyFill (cmd_OrderID ?c) \<in> set (res_Events (snd (the (Apply sampleBook ?c))))"
    by code_simp
  have "?xs = [\<lparr>os_ID = 2, os_Side = 2, os_Price = 100, os_LeavesQty = 4, os_Seq = 2\<rparr>,
      \<lparr>os_ID = 3, os_Side = 2, os_Price = 100, os_LeavesQty = 3, os_Seq = 3\<rparr>,
      \<lparr>os_ID = 1, os_Side = 2, os_Price = 101, os_LeavesQty = 5, os_Seq = 1\<rparr>]" by code_simp
  then have "\<forall>p. leavesTotal (filter (\<lambda>x. os_Price x = p) ?xs) < 2 ^ 63" by simp
  with fok_reject_is_justified [OF sampleBook_reachable sample_Apply s(1) e] s(2,3) show ?thesis by simp
qed

subsection \<open>Cancel and replace\<close>

text \<open>
  C22: a valid cancel of an order in the book removes exactly that order from its side, leaves
  every other order in place, and reports the quantity that was left.
\<close>

theorem cancel_removes_exactly:
  assumes "reachable b" and "Apply b cmd = Some (b', r)" and "cmd_Type cmd = CommandCancel"
    and "Validate cmd = None" and "cmd_Symbol cmd = bk_Symbol b"
    and "x \<in> set (bookOrders b s)" and "os_ID x = cmd_OrderID cmd"
  shows "(\<forall>t. bookOrders b' t = filter (\<lambda>y. os_ID y \<noteq> cmd_OrderID cmd) (bookOrders b t))
    \<and> bookOrders b' s = remove1 x (bookOrders b s)
    \<and> res_Events r = [acceptEvent (cmd_OrderID cmd), cancelEvent (cmd_OrderID cmd) (os_LeavesQty x) CancelByUser]"
proof -
  obtain a where a: "represents b a" "abook_ok a" "res_Events r = snd (abs_apply a cmd)" "\<And>t. bookOrders b t = ab_queue a t"
    "\<And>t. bookOrders b' t = ab_queue (fst (abs_apply a cmd)) t"
    using reachable_step [OF assms(1,2)] by metis
  have sy: "ab_Symbol a = bk_Symbol b" using a(1) by (auto simp: represents_def shows_as_def)
  have x: "findOrder a (cmd_OrderID cmd) = Some x"
    using findOrder_unique [OF a(2), of x s] assms(6,7) a(4) by simp
  then have ap: "abs_apply a cmd = (dropOrder a (cmd_OrderID cmd),
      [acceptEvent (cmd_OrderID cmd), cancelEvent (cmd_OrderID cmd) (os_LeavesQty x) CancelByUser])"
    using assms(3-5) sy by (simp add: abs_apply_def abs_cancel_def go_consts)
  have "filter (\<lambda>y. os_ID y \<noteq> os_ID x) (ab_queue a s) = remove1 x (ab_queue a s)"
    using filter_id_remove1 [of "ab_queue a s" x] abook_okD(5) [OF a(2)] assms(6) a(4) by simp
  then show ?thesis using ap a(3-5) assms(7) by (simp add: dropOrder_def)
qed

theorem cancel_removes_exactly_witness:
  "map os_ID (bookOrders (fst (the (Apply sampleBook (cancelOrder 5 3)))) Asks) = [2, 1]"
proof -
  let ?c = "cancelOrder 5 3"
  have s: "cmd_Type ?c = CommandCancel" "Validate ?c = None" "cmd_Symbol ?c = bk_Symbol sampleBook" "cmd_OrderID ?c = 3"
    by code_simp+
  have i: "map os_ID (bookOrders sampleBook Asks) = [2, 3, 1]" by code_simp
  then have "3 \<in> set (map os_ID (bookOrders sampleBook Asks))" by simp
  then obtain x where x: "x \<in> set (bookOrders sampleBook Asks)" "os_ID x = cmd_OrderID ?c" using s(4) by auto
  have "bookOrders (fst (the (Apply sampleBook ?c))) Asks = filter (\<lambda>y. os_ID y \<noteq> 3) (bookOrders sampleBook Asks)"
    using cancel_removes_exactly [OF sampleBook_reachable sample_Apply s(1-3) x] s(4) by simp
  then have "map os_ID (bookOrders (fst (the (Apply sampleBook ?c))) Asks)
      = filter (\<lambda>i. i \<noteq> 3) (map os_ID (bookOrders sampleBook Asks))" by (simp add: filter_map o_def)
  then show ?thesis using i by simp
qed

text \<open>
  C23: a valid replace that keeps the price and does not raise the quantity of an order keeps its
  place: the side of the order is unchanged except for the quantity of that order, the
  other side is unchanged, there is no trade, and the replaced event says that the priority is
  retained.
\<close>

theorem replace_keeps_priority:
  assumes "reachable b" and "Apply b cmd = Some (b', r)" and "cmd_Type cmd = CommandReplace"
    and "Validate cmd = None" and "cmd_Symbol cmd = bk_Symbol b"
    and "bookOrders b s = ys @ x # zs" and "os_ID x = cmd_OrderID cmd"
    and "cmd_NewPrice cmd = 0 \<or> cmd_NewPrice cmd = os_Price x" and "sint (cmd_NewLeavesQty cmd) \<le> sint (os_LeavesQty x)"
  shows "bookOrders b' s = ys @ x\<lparr>os_LeavesQty := cmd_NewLeavesQty cmd\<rparr> # zs
    \<and> (\<forall>t. t \<noteq> s \<longrightarrow> bookOrders b' t = bookOrders b t) \<and> trades (res_Events r) = []
    \<and> last (res_Events r) = replacedEvent (cmd_OrderID cmd) (os_Price x) (cmd_NewLeavesQty cmd) True"
proof -
  obtain a where a: "represents b a" "abook_ok a" "res_Events r = snd (abs_apply a cmd)" "\<And>t. bookOrders b t = ab_queue a t"
    "\<And>t. bookOrders b' t = ab_queue (fst (abs_apply a cmd)) t"
    using reachable_step [OF assms(1,2)] by metis
  have sy: "cmd_Symbol cmd = ab_Symbol a" using a(1) assms(5) by (auto simp: represents_def shows_as_def)
  have q: "ab_queue a s = ys @ x # zs" using assms(6) a(4) by simp
  have x: "findOrder a (cmd_OrderID cmd) = Some x"
    using findOrder_unique [OF a(2), of x s] assms(7) q by simp
  have "keepsPlace cmd x" using assms(8,9) by (auto simp: keepsPlace_def replacePrice_def signed_sint)
  then have ap: "abs_apply a cmd = apsnd ((#) (acceptEvent (cmd_OrderID cmd))) (abs_reduce a x (cmd_NewLeavesQty cmd))"
    using abs_replace_cases [OF a(2) assms(4,3) sy x] by simp
  show ?thesis
    using setLeaves_queue [OF a(2) q, where v = "cmd_NewLeavesQty cmd"] assms(7)
    unfolding a(3-5) ap q by (simp add: abs_reduce_def)
qed

theorem replace_keeps_priority_witness:
  "map (\<lambda>x. (os_ID x, os_LeavesQty x)) (bookOrders (fst (the (Apply sampleBook (replaceOrder 5 2 100 1)))) Asks)
    = [(2, 1), (3, 3), (1, 5)]"
proof -
  let ?c = "replaceOrder 5 2 100 1"
  let ?x = "\<lparr>os_ID = 2, os_Side = 2, os_Price = 100, os_LeavesQty = 4, os_Seq = 2\<rparr>"
  let ?zs = "[\<lparr>os_ID = 3, os_Side = 2, os_Price = 100, os_LeavesQty = 3, os_Seq = 3\<rparr>,
      \<lparr>os_ID = 1, os_Side = 2, os_Price = 101, os_LeavesQty = 5, os_Seq = 1\<rparr>]"
  have s: "cmd_Type ?c = CommandReplace" "Validate ?c = None" "cmd_Symbol ?c = bk_Symbol sampleBook"
    "os_ID ?x = cmd_OrderID ?c" "cmd_NewPrice ?c = 0 \<or> cmd_NewPrice ?c = os_Price ?x"
    "sint (cmd_NewLeavesQty ?c) \<le> sint (os_LeavesQty ?x)" "cmd_NewLeavesQty ?c = 1" by code_simp+
  have q: "bookOrders sampleBook Asks = [] @ ?x # ?zs" by code_simp
  from replace_keeps_priority [OF sampleBook_reachable sample_Apply s(1-3) q s(4-6)] s(7) show ?thesis by simp
qed

text \<open>
  C24: a valid replace that changes the price or raises the quantity is a cancel followed by a new
  good-till-cancel limit order with the same id and side: the orders of the book afterwards
  are the same, and the events are those of the new order followed by a replaced event that
  says that the priority is lost.
\<close>

theorem replace_is_cancel_then_new:
  assumes "reachable b" and "Apply b cmd = Some (b', r)" and "cmd_Type cmd = CommandReplace"
    and "Validate cmd = None" and "cmd_Symbol cmd = bk_Symbol b"
    and "x \<in> set (bookOrders b s)" and "os_ID x = cmd_OrderID cmd" and "\<not> keepsPlace cmd x"
  shows "\<exists>b1 r1 b2 r2 q. Apply b (replaceCancel cmd) = Some (b1, r1) \<and> Apply b1 (replaceNew cmd x) = Some (b2, r2)
    \<and> Snapshot b' = Snapshot b2
    \<and> res_Events r = res_Events r2 @ [replacedEvent (cmd_OrderID cmd) (replacePrice cmd x) q False]"
proof -
  obtain a where a: "represents b a" "abook_ok a" "res_Events r = snd (abs_apply a cmd)" "\<And>t. bookOrders b t = ab_queue a t"
    "represents b' (fst (abs_apply a cmd))"
    using reachable_step [OF assms(1,2)] by metis
  have sy: "cmd_Symbol cmd = ab_Symbol a" using a(1) assms(5) by (auto simp: represents_def shows_as_def)
  have x: "findOrder a (cmd_OrderID cmd) = Some x" using findOrder_unique [OF a(2), of x s] assms(6,7) a(4) by simp
  let ?a1 = "fst (abs_apply a (replaceCancel cmd))"
  obtain b1 r1 where b1: "Apply b (replaceCancel cmd) = Some (b1, r1)" "represents b1 ?a1"
    using Apply_refines [OF a(1)] by blast
  obtain b2 r2 where b2: "Apply b1 (replaceNew cmd x) = Some (b2, r2)"
    "res_Events r2 = snd (abs_apply ?a1 (replaceNew cmd x))" "represents b2 (fst (abs_apply ?a1 (replaceNew cmd x)))"
    using Apply_refines [OF b1(2), of "replaceNew cmd x"] by auto
  obtain q where "abs_apply a cmd = (fst (abs_apply ?a1 (replaceNew cmd x)),
      snd (abs_apply ?a1 (replaceNew cmd x)) @ [replacedEvent (cmd_OrderID cmd) (replacePrice cmd x) q False])"
    using abs_replace_moves [OF a(2) assms(4,3) sy x assms(8)] by blast
  then have "res_Events r = res_Events r2 @ [replacedEvent (cmd_OrderID cmd) (replacePrice cmd x) q False]"
    "Snapshot b' = Snapshot b2"
    using a(3,5) b2 Snapshot_refines(1) by auto
  then show ?thesis using b1(1) b2(1) by blast
qed

text \<open>Raising the bid of the sample book to the price of the best ask.\<close>

theorem replace_is_cancel_then_new_witness:
  "\<exists>b1 r1 b2 r2 q. Apply sampleBook (replaceCancel (replaceOrder 5 4 100 9)) = Some (b1, r1)
     \<and> Apply b1 (replaceNew (replaceOrder 5 4 100 9) (hd (bookOrders sampleBook Bids))) = Some (b2, r2)
     \<and> res_Events (snd (the (Apply sampleBook (replaceOrder 5 4 100 9))))
       = res_Events r2 @ [replacedEvent 4 100 q False]"
proof -
  let ?c = "replaceOrder 5 4 100 9" and ?x = "\<lparr>os_ID = 4, os_Side = 1, os_Price = 99, os_LeavesQty = 7, os_Seq = 4\<rparr>"
  have q: "bookOrders sampleBook Bids = [?x]" by code_simp
  then have x: "?x \<in> set (bookOrders sampleBook Bids)" by simp
  have s: "cmd_Type ?c = CommandReplace" "Validate ?c = None" "cmd_Symbol ?c = bk_Symbol sampleBook"
    "os_ID ?x = cmd_OrderID ?c" "\<not> keepsPlace ?c ?x" "replacePrice ?c ?x = 100" by code_simp+
  show ?thesis
    using replace_is_cancel_then_new [OF sampleBook_reachable sample_Apply s(1-3) x s(4,5)] q s(4,6) by auto
qed

subsection \<open>Rejected commands, snapshots and trade ids\<close>

text \<open>
  C25: a command that is answered with a rejection has no other event and no effect: the
  snapshot of the book is the same as before.
\<close>

theorem rejected_command_has_no_effect:
  assumes "reachable b" and "Apply b cmd = Some (b', r)" and "e \<in> set (res_Events r)" and "ev_Type e = EventRejected"
  shows "res_Events r = [e] \<and> Snapshot b' = Snapshot b"
proof -
  obtain a where a: "represents b a" "abook_ok a" "res_Events r = snd (abs_apply a cmd)" "represents b' (fst (abs_apply a cmd))"
    using reachable_step [OF assms(1,2)] by metis
  have "snd (abs_apply a cmd) = [e] \<and> fst (abs_apply a cmd) = a"
    using abs_apply_rejected [OF a(2)] assms(3,4) a(3) by simp
  then show ?thesis using a Snapshot_refines(1) [OF a(1)] Snapshot_refines(1) [OF a(4)] by simp
qed

theorem rejected_command_has_no_effect_witness:
  "Snapshot (fst (the (Apply sampleBook (cancelOrder 5 77)))) = Snapshot sampleBook"
proof -
  let ?r = "snd (the (Apply sampleBook (cancelOrder 5 77)))"
  have "rejectEvent RejectUnknownOrderID 77 \<in> set (res_Events ?r)"
    "ev_Type (rejectEvent RejectUnknownOrderID 77) = EventRejected" by code_simp+
  from rejected_command_has_no_effect [OF sampleBook_reachable sample_Apply this] show ?thesis by simp
qed

text \<open>
  C26: what a snapshot of a reachable book looks like: on each side the orders are sorted by price
  priority, rest on the right side with a positive price and a positive quantity, no two orders of the book
  have the same id, and every bid is below every ask.
\<close>

theorem snapshot_is_well_formed:
  assumes "reachable b"
  shows "\<exists>s. Snapshot b = Some s \<and> (\<forall>t. ranked t (sideOrders s t) \<and> list_all (order_ok t) (sideOrders s t))
    \<and> distinct (map os_ID (sideOrders s Bids @ sideOrders s Asks))
    \<and> list_all (\<lambda>x. list_all (\<lambda>y. sint (os_Price x) < sint (os_Price y)) (sideOrders s Asks)) (sideOrders s Bids)"
proof -
  obtain a where a: "represents b a" "abook_ok a" using reachable_represents [OF assms] .
  have "\<forall>t. ranked t (ab_queue a t) \<and> list_all (order_ok t) (ab_queue a t)"
    using a(2) by (simp add: abook_ok_def list_all_iff)
  moreover have "list_all (\<lambda>x. list_all (\<lambda>y. sint (os_Price x) < sint (os_Price y)) (ab_queue a Asks)) (ab_queue a Bids)"
    using a(2) by (simp add: abook_ok_def uncrossed_def list_all_iff signed_sint)
  moreover have "distinct (map os_ID (ab_queue a Bids @ ab_queue a Asks))"
    using a(2) by (simp add: abook_ok_def allOrders_def)
  ultimately show ?thesis
    using Snapshot_refines [OF a(1)] by (intro exI [of _ "abs_snapshot a"]) (simp del: map_append sideOrders.simps)
qed

theorem snapshot_is_well_formed_witness:
  "\<exists>s. Snapshot sampleBook = Some s \<and> distinct (map os_ID (sideOrders s Bids @ sideOrders s Asks))"
  using snapshot_is_well_formed [OF sampleBook_reachable] by blast

text \<open>
  C35: trade ids are unique over a run from the empty book, as long as the commands have
  distinct sequence numbers below 2^44 and no command makes more than 2^20 trades.
\<close>

theorem trade_ids_unique:
  assumes "applyAll (New symbol) cmds = Some (b, rs)"
    and "distinct (map cmd_Seq cmds)" and "\<forall>cmd\<in>set cmds. cmd_Seq cmd < 2 ^ 44"
    and "\<forall>r\<in>set rs. length (trades (res_Events r)) \<le> 2 ^ 20"
  shows "distinct (map ev_TradeID (concat (map (\<lambda>r. trades (res_Events r)) rs)))"
proof -
  have "rs = snd (abs_run (emptyBook symbol) cmds)"
    using applyAll_refines [OF New_represents, of symbol cmds] assms(1) by auto
  then show ?thesis using abs_run_trade_ids [OF emptyBook_ok assms(2,3)] assms(4) by simp
qed

definition sampleRun :: "Command list" where
  "sampleRun = [newOrder 1 1 SideSell OrderTypeLimit TIFGTC 100 4, newOrder 2 2 SideSell OrderTypeLimit TIFGTC 100 3,
     newOrder 3 3 SideBuy OrderTypeLimit TIFGTC 100 6, newOrder 4 4 SideBuy OrderTypeMarket TIFIOC 0 1]"

theorem trade_ids_unique_witness:
  "distinct (map ev_TradeID (concat (map (\<lambda>r. trades (res_Events r)) (snd (the (applyAll (New ''BTC'') sampleRun))))))"
proof -
  obtain b rs where a: "applyAll (New ''BTC'') sampleRun = Some (b, rs)"
    using applyAll_refines [OF New_represents] by blast
  have "distinct (map cmd_Seq sampleRun)" "\<forall>cmd\<in>set sampleRun. cmd_Seq cmd < 2 ^ 44" by code_simp+
  moreover have "list_all (\<lambda>r. length (trades (res_Events r)) \<le> 3) (snd (the (applyAll (New ''BTC'') sampleRun)))"
    by code_simp
  then have "\<forall>r\<in>set rs. length (trades (res_Events r)) \<le> 2 ^ 20" using a by (auto simp: list_all_iff)
  ultimately show ?thesis using trade_ids_unique [OF a] a by simp
qed

subsection \<open>Two behaviours outside the bounds of the properties above\<close>

text \<open>
  A fill-or-kill market order that carries a price: the availability scan ignores the price
  of a market order, but matching takes any price other than zero for a limit.  The order is accepted
  because 12 units are available, trades only the 7 at the price 100, and the rest is cancelled, so it is
  neither filled nor killed.
\<close>

lemma fok_market_with_price_fills_in_part:
  "let es = res_Events (snd (the (Apply sampleBook (newOrder 5 5 SideBuy OrderTypeMarket TIFFOK 100 10))))
   in tradedQty es = 7 \<and> canceledQty es = 3"
  by code_simp

text \<open>
  Two orders of 2^62 units at one price overflow the total of the level, and a fill-or-kill order
  for one unit is rejected although it could be filled.
\<close>

lemma fok_rejected_on_overflow:
  "let b = bookAfter ''BTC'' [newOrder 1 1 SideSell OrderTypeLimit TIFGTC 100 (2 ^ 62),
         newOrder 2 2 SideSell OrderTypeLimit TIFGTC 100 (2 ^ 62)]
   in res_Events (snd (the (Apply b (newOrder 3 3 SideBuy OrderTypeLimit TIFFOK 100 1))))
      = [rejectEvent RejectWouldNotFullyFill 3]"
  by code_simp

text \<open>Trade ids of commands whose sequence numbers differ by 2^44 collide.\<close>

lemma trade_id_collision: "tradeID (2 ^ 44 + 1) 1 = tradeID 1 1"
  by code_simp

end
