(* ===== verification/File_System.thy ===== *)
theory File_System
  imports Prelude
begin

text \<open>
  What the log writer and the snapshot writer use of the operating system: files of one directory,
  with the distinction between what a program has written and what survives a crash.  The outcome of
  every call is taken from a list in the state, so that a claim about all such lists is a claim about
  all errors the calls can return; where the list ends, the machine has crashed.
\<close>

subsection \<open>Files and directories\<close>

text \<open>
  A file has its bytes and the number of them that a completed \<open>Sync\<close> covers.  A directory maps
  names to files, as the running program sees it and as the last completed sync of the
  directory left it.
\<close>

record inode =
  fl_data :: "byte list"
  fl_synced :: nat

record disk =
  dk_files :: "inode list"
  dk_dir :: "(string \<times> nat) list"
  dk_durable :: "(string \<times> nat) list"

text \<open>
  The outcome of a call: success, or an error, which a write returns after a number of bytes.
\<close>

datatype io_out = IoOk | IoErr string nat

datatype io_err = ErrOS string | ErrExist string | ErrNotExist string

record world =
  w_disk :: disk
  w_outs :: "io_out list"

subsection \<open>Programs with calls\<close>

text \<open>
  A program returns a value or an error, or the machine crashes while it runs.  Its state contains
  the world; components add their own fields to it.
\<close>

datatype ('e, 'a) io_res = Crash | Fail 'e | Ret 'a

type_synonym ('s, 'e, 'a) io = "'s \<Rightarrow> ('e, 'a) io_res \<times> 's"

definition ret :: "'a \<Rightarrow> ('s, 'e, 'a) io" where
  "ret x s = (Ret x, s)"

definition fail :: "'e \<Rightarrow> ('s, 'e, 'a) io" where
  "fail e s = (Fail e, s)"

definition andThen :: "('s, 'e, 'a) io \<Rightarrow> ('a \<Rightarrow> ('s, 'e, 'b) io) \<Rightarrow> ('s, 'e, 'b) io" where
  "andThen m f s = (case m s of (Ret x, s') \<Rightarrow> f x s' | (Fail e, s') \<Rightarrow> (Fail e, s') | (Crash, s') \<Rightarrow> (Crash, s'))"

text \<open>\<open>if err := m; err != nil { h(err) }\<close>: the error is the value of the call.\<close>

definition attempt :: "('s, 'e, 'a) io \<Rightarrow> ('s, 'f, 'e + 'a) io" where
  "attempt m s = (case m s of (Ret x, s') \<Rightarrow> (Ret (Inr x), s') | (Fail e, s') \<Rightarrow> (Ret (Inl e), s') | (Crash, s') \<Rightarrow> (Crash, s'))"

definition mapErr :: "('e \<Rightarrow> 'f) \<Rightarrow> ('s, 'e, 'a) io \<Rightarrow> ('s, 'f, 'a) io" where
  "mapErr g m s = (case m s of (Ret x, s') \<Rightarrow> (Ret x, s') | (Fail e, s') \<Rightarrow> (Fail (g e), s') | (Crash, s') \<Rightarrow> (Crash, s'))"

definition modify :: "('s \<Rightarrow> 's) \<Rightarrow> ('s, 'e, unit) io" where
  "modify f s = (Ret (), f s)"

definition gets :: "('s \<Rightarrow> 'a) \<Rightarrow> ('s, 'e, 'a) io" where
  "gets f s = (Ret (f s), s)"

text \<open>\<open>m\<close>, and on an error \<open>h\<close> before the error is returned.\<close>

definition onError :: "('s, 'e, 'a) io \<Rightarrow> ('s, 'e, unit) io \<Rightarrow> ('s, 'e, 'a) io" where
  "onError m h = andThen (attempt m) (\<lambda>r. case r of Inr x \<Rightarrow> ret x | Inl e \<Rightarrow> andThen h (\<lambda>_. fail e))"

subsection \<open>Calls\<close>

definition nextOutcome :: "('z world_scheme, 'e, io_out) io" where
  "nextOutcome s = (case w_outs s of [] \<Rightarrow> (Crash, s) | out # outs \<Rightarrow> (Ret out, s\<lparr>w_outs := outs\<rparr>))"

definition onDisk :: "(disk \<Rightarrow> disk) \<Rightarrow> 'z world_scheme \<Rightarrow> 'z world_scheme" where
  "onDisk f s = s\<lparr>w_disk := f (w_disk s)\<rparr>"

text \<open>A call that changes the disk only if it succeeds.\<close>

definition osCall :: "(disk \<Rightarrow> disk) \<Rightarrow> ('z world_scheme, io_err, unit) io" where
  "osCall f = andThen nextOutcome (\<lambda>out. case out of IoErr e n \<Rightarrow> fail (ErrOS e) | IoOk \<Rightarrow> modify (onDisk f))"

definition addFile :: "string \<Rightarrow> disk \<Rightarrow> disk" where
  "addFile name d = d\<lparr>dk_files := dk_files d @ [\<lparr>fl_data = [], fl_synced = 0\<rparr>],
     dk_dir := dk_dir d @ [(name, length (dk_files d))]\<rparr>"

text \<open>\<open>os.OpenFile\<close> with \<open>O_CREATE|O_EXCL|O_WRONLY\<close>.\<close>

definition createExcl :: "string \<Rightarrow> ('z world_scheme, io_err, nat) io" where
  "createExcl name = andThen (gets w_disk) (\<lambda>d.
     if name \<in> fst ` set (dk_dir d) then fail (ErrExist name)
     else andThen (osCall (addFile name)) (\<lambda>_. ret (length (dk_files d))))"

text \<open>
  \<open>os.OpenFile\<close> with \<open>O_CREATE|O_TRUNC|O_WRONLY\<close>: an existing file is cut to no bytes.  The cut is
  taken to reach the disk at once; the program uses this call only for temporary files, which no reader opens.
\<close>

definition createTrunc :: "string \<Rightarrow> ('z world_scheme, io_err, nat) io" where
  "createTrunc name = andThen (gets w_disk) (\<lambda>d.
     case map_of (dk_dir d) name of
       None \<Rightarrow> andThen (osCall (addFile name)) (\<lambda>_. ret (length (dk_files d)))
     | Some i \<Rightarrow> andThen (osCall (\<lambda>d. d\<lparr>dk_files := (dk_files d)[i := \<lparr>fl_data = [], fl_synced = 0\<rparr>]\<rparr>))
         (\<lambda>_. ret i))"

definition appendBytes :: "nat \<Rightarrow> byte list \<Rightarrow> disk \<Rightarrow> disk" where
  "appendBytes i bs d = d\<lparr>dk_files := (dk_files d)[i := (dk_files d ! i)\<lparr>fl_data := fl_data (dk_files d ! i) @ bs\<rparr>]\<rparr>"

text \<open>
  \<open>f.Write\<close> at the end of a file.  The value is the number of bytes written; it is that of all
  bytes unless there is an error, which leaves a part of them in the file.
\<close>

definition writeFile :: "nat \<Rightarrow> byte list \<Rightarrow> ('z world_scheme, io_err, nat) io" where
  "writeFile i bs = andThen nextOutcome (\<lambda>out. case out of
       IoOk \<Rightarrow> andThen (modify (onDisk (appendBytes i bs))) (\<lambda>_. ret (length bs))
     | IoErr e n \<Rightarrow> andThen (modify (onDisk (appendBytes i (take n bs)))) (\<lambda>_. fail (ErrOS e)))"

definition markSynced :: "nat \<Rightarrow> disk \<Rightarrow> disk" where
  "markSynced i d = d\<lparr>dk_files := (dk_files d)[i := (dk_files d ! i)\<lparr>fl_synced := length (fl_data (dk_files d ! i))\<rparr>]\<rparr>"

definition syncFile :: "nat \<Rightarrow> ('z world_scheme, io_err, unit) io" where
  "syncFile i = osCall (markSynced i)"

text \<open>\<open>f.Close\<close>: an error of it has no effect on the bytes.\<close>

definition closeFile :: "nat \<Rightarrow> ('z world_scheme, io_err, unit) io" where
  "closeFile i = osCall id"

text \<open>\<open>os.Rename\<close>: the new name refers to the file of the old one, which loses its name.\<close>

definition rename :: "string \<Rightarrow> string \<Rightarrow> disk \<Rightarrow> disk" where
  "rename old new d = (case map_of (dk_dir d) old of
       None \<Rightarrow> d
     | Some i \<Rightarrow> d\<lparr>dk_dir := filter (\<lambda>e. fst e \<noteq> old \<and> fst e \<noteq> new) (dk_dir d) @ [(new, i)]\<rparr>)"

definition renameFile :: "string \<Rightarrow> string \<Rightarrow> ('z world_scheme, io_err, unit) io" where
  "renameFile old new = andThen (gets w_disk) (\<lambda>d.
     if map_of (dk_dir d) old = None then fail (ErrNotExist old) else osCall (rename old new))"

text \<open>\<open>os.Open\<close> of the directory and \<open>Sync\<close> on it.\<close>

definition syncDir :: "disk \<Rightarrow> disk" where
  "syncDir d = d\<lparr>dk_durable := dk_dir d\<rparr>"

definition syncDirectory :: "('z world_scheme, io_err, unit) io" where
  "syncDirectory = andThen (osCall id) (\<lambda>_. osCall syncDir)"

definition makeDir :: "('z world_scheme, io_err, unit) io" where
  "makeDir = osCall id"

subsection \<open>Crashes\<close>

text \<open>
  What a restarted program may find: each name is bound as the program last saw it or as the last sync
  of the directory left it, and of each file a prefix of what was written is there, with at least the bytes covered by a sync.  Bytes
  that were never written, such as blocks of zeros, are not part of this model.
\<close>

definition leftOf :: "inode \<Rightarrow> byte list \<Rightarrow> bool" where
  "leftOf f bs \<longleftrightarrow> (\<exists>k\<ge>fl_synced f. bs = take k (fl_data f))"

definition entry_after :: "disk \<Rightarrow> nat option \<Rightarrow> byte list option option \<Rightarrow> bool" where
  "entry_after d b c \<longleftrightarrow> (case b of None \<Rightarrow> c = None
     | Some i \<Rightarrow> i < length (dk_files d) \<and> (\<exists>bs. c = Some (Some bs) \<and> leftOf (dk_files d ! i) bs))"

definition crash_image :: "disk \<Rightarrow> (string \<times> byte list option) list \<Rightarrow> bool" where
  "crash_image d img \<longleftrightarrow> distinct (map fst img)
     \<and> (\<forall>name. entry_after d (map_of (dk_dir d) name) (map_of img name)
           \<or> entry_after d (map_of (dk_durable d) name) (map_of img name))"

text \<open>A disk as a restarted program finds it: nothing is waiting to be written.\<close>

definition settled :: "disk \<Rightarrow> bool" where
  "settled d \<longleftrightarrow> dk_durable d = dk_dir d \<and> distinct (map fst (dk_dir d)) \<and> distinct (map snd (dk_dir d))
     \<and> (\<forall>e\<in>set (dk_dir d). snd e < length (dk_files d))
     \<and> (\<forall>f\<in>set (dk_files d). length (fl_data f) \<le> fl_synced f)"

definition contents :: "disk \<Rightarrow> (string \<times> byte list option) list" where
  "contents d = map (\<lambda>(name, i). (name, Some (fl_data (dk_files d ! i)))) (dk_dir d)"

lemma w_disk_onDisk [simp]: "w_disk (onDisk f s) = f (w_disk s)"
  by (simp add: onDisk_def)

lemma leftOf_synced: "leftOf f bs \<Longrightarrow> length (fl_data f) \<le> fl_synced f \<Longrightarrow> bs = fl_data f"
  by (auto simp: leftOf_def)

lemma crash_image_same:
  assumes "crash_image d img" and "map_of (dk_durable d) name = map_of (dk_dir d) name"
  shows "entry_after d (map_of (dk_dir d) name) (map_of img name)"
  using assms by (auto simp: crash_image_def)

lemma map_of_contents:
  "map_of (contents d) name = map_option (\<lambda>i. Some (fl_data (dk_files d ! i))) (map_of (dk_dir d) name)"
proof -
  have "contents d = map (\<lambda>(n, i). (n, (\<lambda>i. Some (fl_data (dk_files d ! i))) i)) (dk_dir d)" by (simp add: contents_def)
  then show ?thesis by (simp only: map_of_map) (simp add: o_def)
qed

lemma settledD:
  assumes "settled d" and "map_of (dk_dir d) name = Some i"
  shows "i < length (dk_files d)" and "length (fl_data (dk_files d ! i)) \<le> fl_synced (dk_files d ! i)"
proof -
  have "(name, i) \<in> set (dk_dir d)" using assms(2) by (rule map_of_SomeD)
  then show "i < length (dk_files d)" using assms(1) by (auto simp: settled_def)
  then show "length (fl_data (dk_files d ! i)) \<le> fl_synced (dk_files d ! i)" using assms(1) by (simp add: settled_def)
qed

lemma settled_inj:
  assumes "settled d" and "map_of (dk_dir d) n = Some i" and "map_of (dk_dir d) m = Some i"
  shows "n = m"
proof -
  have "(n, i) \<in> set (dk_dir d)" "(m, i) \<in> set (dk_dir d)" using assms(2,3) by (simp_all add: map_of_SomeD)
  moreover have "inj_on snd (set (dk_dir d))" using assms(1) by (simp add: settled_def distinct_map)
  ultimately show ?thesis by (metis inj_on_contraD prod.inject snd_conv)
qed

text \<open>A settled disk is found as it was left.\<close>

lemma settled_image:
  assumes "settled d" and "crash_image d img"
  shows "map_of img name = map_of (contents d) name"
proof -
  have e: "entry_after d (map_of (dk_dir d) name) (map_of img name)"
    using assms crash_image_same by (simp add: settled_def)
  show ?thesis
  proof (cases "map_of (dk_dir d) name")
    case (Some i)
    then show ?thesis using e settledD [OF assms(1) Some] by (auto simp: entry_after_def map_of_contents dest: leftOf_synced)
  qed (use e in \<open>simp add: entry_after_def map_of_contents\<close>)
qed

subsection \<open>Correctness of programs with calls\<close>

text \<open>
  \<open>triple P m Q X\<close>: started in a state with \<open>P\<close>, the program ends in a state with \<open>Q\<close> for the value it
  returns, and with \<open>X\<close> if it fails or the machine crashes while it runs.
\<close>

definition triple :: "('s \<Rightarrow> bool) \<Rightarrow> ('s, 'e, 'a) io \<Rightarrow> ('a \<Rightarrow> 's \<Rightarrow> bool) \<Rightarrow> ('s \<Rightarrow> bool) \<Rightarrow> bool" where
  "triple P m Q X \<longleftrightarrow> (\<forall>s. P s \<longrightarrow> (case m s of (Ret x, s') \<Rightarrow> Q x s' | (_, s') \<Rightarrow> X s'))"

lemma tripleD:
  assumes "triple P m Q X" and "P s" and "m s = (r, s')"
  shows "case r of Ret x \<Rightarrow> Q x s' | _ \<Rightarrow> X s'"
  using assms by (auto simp: triple_def split: io_res.splits)

lemma triple_ret: "(\<And>s. P s \<Longrightarrow> Q x s) \<Longrightarrow> triple P (ret x) Q X"
  by (simp add: triple_def ret_def)

lemma triple_fail: "(\<And>s. P s \<Longrightarrow> X s) \<Longrightarrow> triple P (fail e) Q X"
  by (simp add: triple_def fail_def)

lemma triple_gets: "(\<And>s. P s \<Longrightarrow> Q (f s) s) \<Longrightarrow> triple P (gets f) Q X"
  by (simp add: triple_def gets_def)

lemma triple_modify: "(\<And>s. P s \<Longrightarrow> Q () (f s)) \<Longrightarrow> triple P (modify f) Q X"
  by (simp add: triple_def modify_def)

lemma triple_andThen:
  assumes "triple P m R X" and "\<And>x. triple (R x) (f x) Q X"
  shows "triple P (andThen m f) Q X"
  using assms unfolding triple_def andThen_def by (fastforce split: io_res.splits prod.splits)

lemma triple_pre: "triple P' m Q X \<Longrightarrow> (\<And>s. P s \<Longrightarrow> P' s) \<Longrightarrow> triple P m Q X"
  by (simp add: triple_def)

lemma triple_weaken:
  assumes "triple P m Q' X'" and "\<And>x s. Q' x s \<Longrightarrow> Q x s" and "\<And>s. X' s \<Longrightarrow> X s"
  shows "triple P m Q X"
  using assms unfolding triple_def by (fastforce split: io_res.splits prod.splits)

lemma triple_mapErr: "triple P m Q X \<Longrightarrow> triple P (mapErr g m) Q X"
  unfolding triple_def mapErr_def by (fastforce split: io_res.splits prod.splits)

lemma triple_attempt:
  assumes "triple P m (\<lambda>x. Q (Inr x)) (\<lambda>s. X s \<and> (\<forall>e. Q (Inl e) s))"
  shows "triple P (attempt m) Q X"
  using assms unfolding triple_def attempt_def by (fastforce split: io_res.splits prod.splits)

lemma triple_onError:
  assumes "triple P m Q X" and "triple X h (\<lambda>_. X) X"
  shows "triple P (onError m h) Q X"
  unfolding onError_def
proof (rule triple_andThen)
  show "triple P (attempt m) (\<lambda>r s. case r of Inr x \<Rightarrow> Q x s | Inl e \<Rightarrow> X s) X"
    by (rule triple_attempt) (use assms(1) in simp)
  show "triple (\<lambda>s. case r of Inr x \<Rightarrow> Q x s | Inl e \<Rightarrow> X s)
      (case r of Inr x \<Rightarrow> ret x | Inl e \<Rightarrow> andThen h (\<lambda>_. fail e)) Q X" for r
    using triple_andThen [OF assms(2) triple_fail] by (cases r) (auto intro: triple_ret)
qed

text \<open>
  A call either leaves the disk as it was or changes it; the outcomes still to come do not matter
  for what is claimed of a state.
\<close>

lemma triple_nextOutcome:
  assumes "\<And>s outs. P s \<Longrightarrow> R (s\<lparr>w_outs := outs\<rparr>)" and "\<And>s. P s \<Longrightarrow> X s"
  shows "triple P nextOutcome (\<lambda>_. R) X"
  using assms by (auto simp: triple_def nextOutcome_def split: list.splits)

lemma triple_osCall:
  assumes "\<And>s outs. P s \<Longrightarrow> X (s\<lparr>w_outs := outs\<rparr>)" and "\<And>s. P s \<Longrightarrow> X s"
    and "\<And>s outs. P s \<Longrightarrow> Q () (onDisk f (s\<lparr>w_outs := outs\<rparr>))"
  shows "triple P (osCall f) Q X"
  using assms by (auto simp: triple_def osCall_def andThen_def nextOutcome_def fail_def modify_def
      split: list.splits io_out.splits)

lemma triple_writeFile:
  assumes "\<And>s. P s \<Longrightarrow> X s"
    and "\<And>s outs. P s \<Longrightarrow> Q (length bs) (onDisk (appendBytes i bs) (s\<lparr>w_outs := outs\<rparr>))"
    and "\<And>s outs n. P s \<Longrightarrow> X (onDisk (appendBytes i (take n bs)) (s\<lparr>w_outs := outs\<rparr>))"
  shows "triple P (writeFile i bs) Q X"
  using assms by (auto simp: triple_def writeFile_def andThen_def nextOutcome_def fail_def modify_def ret_def
      split: list.splits io_out.splits)

end
