(* ===== verification/File_Names.thy ===== *)
theory File_Names
  imports Prelude "HOL-Library.Char_ord" "HOL-Library.List_Lexorder"
begin

text \<open>
  What the program uses of Go's library for the names of its files: \<open>fmt.Sprintf\<close> with zero-padded
  numbers, \<open>filepath.Glob\<close>, \<open>sort.Strings\<close> (the sort of the library on the lexicographic
  order), \<open>strings.Split\<close>, \<open>strings.TrimSuffix\<close> and \<open>strconv.Atoi\<close>.  Padded numbers of the same
  width are ordered as strings as they are as numbers, which is why the last name in a sorted listing is
  the newest file.
\<close>

subsection \<open>Definitions\<close>

text \<open>Decimal digits, and \<open>%0wd\<close> for a number that is not negative.\<close>

fun decimal :: "nat \<Rightarrow> string" where
  "decimal n = (if n < 10 then [char_of (48 + n)] else decimal (n div 10) @ [char_of (48 + n mod 10)])"

declare decimal.simps [simp del]

definition padded :: "nat \<Rightarrow> nat \<Rightarrow> string" where
  "padded w n = (let s = decimal n in replicate (w - length s) (CHR ''0'') @ s)"

text \<open>\<open>filepath.Glob\<close> for the pattern \<open>prefix*suffix\<close>.\<close>

definition globMatch :: "string \<Rightarrow> string \<Rightarrow> string \<Rightarrow> bool" where
  "globMatch pre suf name \<longleftrightarrow>
     prefix pre name \<and> suffix suf name \<and> length pre + length suf \<le> length name"

definition glob :: "string \<Rightarrow> string \<Rightarrow> string list \<Rightarrow> string list" where
  "glob pre suf names = filter (globMatch pre suf) names"

fun splitOn :: "char \<Rightarrow> string \<Rightarrow> string list" where
  "splitOn c [] = [[]]"
| "splitOn c (x # xs) = (if x = c then [] # splitOn c xs
     else (case splitOn c xs of [] \<Rightarrow> [[x]] | p # ps \<Rightarrow> (x # p) # ps))"

definition TrimSuffix :: "string \<Rightarrow> string \<Rightarrow> string" where
  "TrimSuffix s suf = (if suffix suf s then take (length s - length suf) s else s)"

definition isDigit :: "char \<Rightarrow> bool" where
  "isDigit c \<longleftrightarrow> 48 \<le> (of_char c :: nat) \<and> (of_char c :: nat) \<le> 57"

definition digitsVal :: "string \<Rightarrow> nat" where
  "digitsVal s = foldl (\<lambda>v c. 10 * v + (of_char c - 48)) 0 s"

text \<open>\<open>strconv.Atoi\<close>: an optional sign, at least one digit, and a value in the range of a 64-bit \<open>int\<close>.\<close>

definition Atoi :: "string \<Rightarrow> int option" where
  "Atoi s =
     (let neg = (s \<noteq> [] \<and> hd s = CHR ''-'');
          ds = (if s \<noteq> [] \<and> (hd s = CHR ''-'' \<or> hd s = CHR ''+'') then tl s else s);
          v = (if neg then - int (digitsVal ds) else int (digitsVal ds)) in
      if ds = [] \<or> \<not> list_all isDigit ds then None
      else if - (2 ^ 63) \<le> v \<and> v < 2 ^ 63 then Some v else None)"

subsection \<open>Numbers and digits\<close>

lemma of_char_digit: "(d :: nat) < 10 \<Longrightarrow> (of_char (char_of (48 + d) :: char) :: nat) = 48 + d"
  by (simp add: of_char_of)

lemma digit_char: "(d :: nat) < 10 \<Longrightarrow> isDigit (char_of (48 + d))"
  using of_char_digit [of d] by (simp add: isDigit_def)

lemma decimal_digits: "list_all isDigit (decimal n)"
  by (induction n rule: decimal.induct) (subst decimal.simps, auto simp: digit_char)

lemma decimal_nonempty [simp]: "decimal n \<noteq> []"
  by (subst decimal.simps) simp

lemma digitsVal_snoc: "digitsVal (s @ [c]) = 10 * digitsVal s + (of_char c - 48)"
  by (simp add: digitsVal_def)

lemma digitsVal_decimal [simp]: "digitsVal (decimal n) = n"
proof (induction n rule: decimal.induct)
  case (1 n)
  show ?case
  proof (cases "n < 10")
    case True
    then show ?thesis using of_char_digit [of n] by (subst decimal.simps) (simp add: digitsVal_def)
  next
    case False
    then have "decimal n = decimal (n div 10) @ [char_of (48 + n mod 10)]" by (subst decimal.simps) simp
    with 1 False show ?thesis by (simp only: digitsVal_snoc) (simp add: of_char_digit)
  qed
qed

lemma digitsVal_zeros: "digitsVal (replicate k (CHR ''0'') @ s) = digitsVal s"
proof -
  have "foldl (\<lambda>v c. 10 * v + (of_char c - 48)) 0 (replicate k (CHR ''0'')) = (0 :: nat)"
    by (induction k) (simp_all del: foldl_Nil foldl_Cons add: foldl_Cons foldl_Nil)
  then show ?thesis by (simp add: digitsVal_def)
qed

lemma decimal_length: "n < 10 ^ w \<Longrightarrow> 0 < w \<Longrightarrow> length (decimal n) \<le> w"
proof (induction n arbitrary: w rule: decimal.induct)
  case (1 n)
  show ?case
  proof (cases "n < 10")
    case False
    then have w: "1 < w" using "1.prems" by (cases "w = 1") auto
    then have "n div 10 < 10 ^ (w - 1)" using "1.prems"(1)
      by (metis One_nat_def Suc_pred \<open>1 < w\<close> div_less_iff_less_mult less_imp_diff_less mult.commute
          not_less_iff_gr_or_eq power_Suc zero_less_numeral zero_less_one less_trans)
    then show ?thesis using "1.IH" [OF False, of "w - 1"] False w by (subst decimal.simps) simp
  qed (use "1.prems" in \<open>subst decimal.simps, simp\<close>)
qed

lemma digitsVal_padded [simp]: "digitsVal (padded w n) = n"
  by (simp add: padded_def Let_def digitsVal_zeros)

lemma padded_digits: "list_all isDigit (padded w n)"
  using decimal_digits [of n] by (auto simp: padded_def Let_def list_all_iff isDigit_def)

lemma padded_length: "n < 10 ^ w \<Longrightarrow> 0 < w \<Longrightarrow> length (padded w n) = w"
  using decimal_length by (simp add: padded_def Let_def)

lemma padded_nonempty [simp]: "padded w n \<noteq> []"
  by (simp add: padded_def Let_def)

lemma padded_inj: "padded w n = padded w m \<Longrightarrow> n = m"
  by (metis digitsVal_padded)

subsection \<open>The order of padded numbers\<close>

lemma digitsVal_Cons: "digitsVal (c # s) = (of_char c - 48) * 10 ^ length s + digitsVal s"
proof (induction s rule: rev_induct)
  case (snoc x s)
  have "digitsVal (c # s @ [x]) = 10 * digitsVal (c # s) + (of_char x - 48)"
    using digitsVal_snoc [of "c # s" x] by simp
  then show ?case using snoc by (simp add: digitsVal_snoc algebra_simps)
qed (simp add: digitsVal_def)

lemma digitsVal_bound: "list_all isDigit s \<Longrightarrow> digitsVal s < 10 ^ length s"
proof (induction s)
  case (Cons c s)
  have "(of_char c :: nat) \<le> 57" using Cons.prems by (simp add: isDigit_def)
  then have "of_char c - 48 \<le> (9 :: nat)" by linarith
  then have "(of_char c - 48) * 10 ^ length s \<le> 9 * (10 :: nat) ^ length s" by (rule mult_right_mono) simp
  moreover have "digitsVal s < 10 ^ length s" using Cons by simp
  ultimately have "(of_char c - 48) * 10 ^ length s + digitsVal s < 10 * 10 ^ length s" by linarith
  then show ?case by (simp add: digitsVal_Cons)
qed (simp add: digitsVal_def)

lemma digits_less_iff:
  assumes "length s = length t" and "list_all isDigit s" and "list_all isDigit t"
  shows "s < t \<longleftrightarrow> digitsVal s < digitsVal t"
  using assms
proof (induction s t rule: list_induct2)
  case (Cons c s d t)
  have b: "digitsVal s < 10 ^ length s" "digitsVal t < 10 ^ length s"
    using Cons digitsVal_bound [of s] digitsVal_bound [of t] by auto
  have dig: "48 \<le> (of_char c :: nat)" "48 \<le> (of_char d :: nat)" using Cons.prems by (simp_all add: isDigit_def)
  have lt: "x * k + v < y * k + u" if "x < y" "v < k" for x y k u v :: nat
  proof -
    have "x * k + k \<le> y * k" using that(1) by (metis Suc_leI add.commute mult_Suc mult_le_mono1)
    with that(2) show ?thesis by linarith
  qed
  consider "(of_char c :: nat) < of_char d" | "c = d" | "(of_char d :: nat) < of_char c"
    by (metis linorder_neqE_nat of_char_eq_iff)
  then show ?case
  proof cases
    case 1
    then have "(of_char c - 48 :: nat) < of_char d - 48" using dig by linarith
    then have "digitsVal (c # s) < digitsVal (d # t)" using lt b Cons.hyps by (simp add: digitsVal_Cons)
    with 1 show ?thesis by (simp add: less_char_def)
  next
    case 2
    then show ?thesis using Cons by (simp add: digitsVal_Cons)
  next
    case 3
    then have "(of_char d - 48 :: nat) < of_char c - 48" using dig by linarith
    then have "digitsVal (d # t) < digitsVal (c # s)" using lt b Cons.hyps by (simp add: digitsVal_Cons)
    moreover have "\<not> c # s < d # t" using 3 by (auto simp: less_char_def)
    ultimately show ?thesis by simp
  qed
qed simp

lemma padded_less_iff:
  assumes "n < 10 ^ w" and "m < 10 ^ w" and "0 < w"
  shows "padded w n < padded w m \<longleftrightarrow> n < m"
  using digits_less_iff [of "padded w n" "padded w m"] padded_length padded_digits assms by simp

lemma append_less_iff: "length s = length t \<Longrightarrow> (s :: string) @ u < t @ u \<longleftrightarrow> s < t"
  by (induction s t rule: list_induct2) auto

lemma prepend_less_iff: "(p :: string) @ s < p @ t \<longleftrightarrow> s < t"
  by (induction p) auto

subsection \<open>Sorted listings\<close>

lemma sort_unique:
  assumes "sorted xs" and "distinct xs" and "distinct ys" and "set ys = set xs"
  shows "sort ys = xs"
  using assms by (metis sorted_distinct_set_unique sorted_sort distinct_sort set_sort)

lemma last_sort:
  assumes "xs \<noteq> []"
  shows "last (sort xs) = Max (set xs)"
proof -
  have s: "sorted (sort xs)" "sort xs \<noteq> []"
    using assms by (simp, metis length_0_conv length_sort)
  obtain ys y where ys: "sort xs = ys @ [y]" using s(2) by (cases "sort xs" rule: rev_cases) auto
  have "set xs = insert y (set ys)" using arg_cong [OF ys, of set] by simp
  moreover have "\<forall>x\<in>set ys. x \<le> y" using s(1) ys by (simp add: sorted_append)
  ultimately show ?thesis using ys by (intro Max_eqI [symmetric]) auto
qed

subsection \<open>Parsing\<close>

lemma splitOn_nonempty [simp]: "splitOn c s \<noteq> []"
  by (induction s) (auto split: list.splits)

lemma splitOn_last: "c \<notin> set s \<Longrightarrow> splitOn c s = [s]"
  by (induction s) auto

lemma splitOn_append: "c \<notin> set s \<Longrightarrow> splitOn c (s @ c # t) = s # splitOn c t"
  by (induction s) auto

lemma TrimSuffix_append [simp]: "TrimSuffix (s @ suf) suf = s"
  by (simp add: TrimSuffix_def suffix_def)

lemma Atoi_padded:
  assumes "n < 2 ^ 63"
  shows "Atoi (padded w n) = Some (int n)"
proof -
  have "isDigit (hd (padded w n))" using padded_digits [of w n] by (cases "padded w n") simp_all
  then have "hd (padded w n) \<noteq> CHR ''-''" "hd (padded w n) \<noteq> CHR ''+''" by (auto simp: isDigit_def)
  then show ?thesis using assms padded_digits [of w n] by (simp add: Atoi_def Let_def)
qed

end
