(* ===== verification/Byte_Codec.thy ===== *)
theory Byte_Codec
  imports Prelude
begin

text \<open>
  The parts of Go's standard library the log format rests on: the little-endian
  encoding of \<open>encoding/binary\<close>, strings as bytes, and the CRC-32C checksum of \<open>hash/crc32\<close> with the
  Castagnoli polynomial (in its bit-reflected form, computed bit by bit).
\<close>

subsection \<open>Little-endian integers\<close>

primrec leBytes :: "nat \<Rightarrow> 'a::len word \<Rightarrow> byte list" where
  "leBytes 0 w = []"
| "leBytes (Suc n) w = ucast w # leBytes n (drop_bit 8 w)"

primrec leWord :: "byte list \<Rightarrow> 'a::len word" where
  "leWord [] = 0"
| "leWord (b # bs) = or (ucast b) (push_bit 8 (leWord bs))"

abbreviation putUint16 :: "uint16 \<Rightarrow> byte list" where "putUint16 \<equiv> leBytes 2"
abbreviation putUint32 :: "uint32 \<Rightarrow> byte list" where "putUint32 \<equiv> leBytes 4"
abbreviation putUint64 :: "uint64 \<Rightarrow> byte list" where "putUint64 \<equiv> leBytes 8"

lemma length_leBytes [simp]: "length (leBytes n w) = n"
  by (induction n arbitrary: w) auto

lemma leBytes_Nil_iff: "leBytes n w = [] \<longleftrightarrow> n = 0"
  by (cases n) auto

lemma leWord_leBytes: "leWord (leBytes n w) = take_bit (8 * n) w"
proof (induction n arbitrary: w)
  case (Suc n)
  show ?case
  proof (rule bit_word_eqI)
    fix m assume "m < LENGTH('a)"
    then show "bit (leWord (leBytes (Suc n) w) :: 'a word) m \<longleftrightarrow> bit (take_bit (8 * Suc n) w) m"
      using Suc [of "drop_bit 8 w"] by (auto simp: bit_simps)
  qed
qed simp

lemma leWord_leBytes_full [simp]:
  "leWord (leBytes 2 w) = (w :: uint16)" "leWord (leBytes 4 v) = (v :: uint32)" "leWord (leBytes 8 u) = (u :: uint64)"
  by (simp_all add: leWord_leBytes take_bit_word_eq_self)

lemma bit_leWord: "bit (leWord bs :: 'a::len word) m \<Longrightarrow> m < 8 * length bs"
proof (induction bs arbitrary: m)
  case (Cons b bs)
  from Cons.prems consider "bit b m" | "8 \<le> m" "bit (leWord bs :: 'a word) (m - 8)" by (auto simp: bit_simps)
  then show ?case
  proof cases
    case 1
    then show ?thesis using bit_imp_le_length [of b m] by simp
  next
    case 2
    then show ?thesis using Cons.IH [of "m - 8"] by simp
  qed
qed simp

lemma leBytes_leWord:
  "8 * length bs \<le> LENGTH('a) \<Longrightarrow> leBytes (length bs) (leWord bs :: 'a::len word) = bs"
proof (induction bs)
  case (Cons b bs)
  let ?w = "leWord bs :: 'a word"
  have "(ucast (or (ucast b) (push_bit 8 ?w)) :: byte) = b"
  proof (rule bit_word_eqI)
    fix m assume "m < LENGTH(8)"
    then show "bit (ucast (or (ucast b) (push_bit 8 ?w)) :: byte) m \<longleftrightarrow> bit b m"
      using Cons.prems by (auto simp: bit_simps)
  qed
  moreover have "drop_bit 8 (or (ucast b) (push_bit 8 ?w)) = ?w"
  proof (rule bit_word_eqI)
    fix m assume "m < LENGTH('a)"
    then show "bit (drop_bit 8 (or (ucast b) (push_bit 8 ?w))) m \<longleftrightarrow> bit ?w m"
      using bit_leWord [of bs m, where ?'a = 'a] Cons.prems bit_imp_le_length [of b "8 + m"] by (auto simp: bit_simps)
  qed
  ultimately show ?case using Cons by simp
qed simp

subsection \<open>Strings\<close>

definition stringBytes :: "string \<Rightarrow> byte list" where
  "stringBytes s = map (\<lambda>c. word_of_nat (of_char c)) s"

definition bytesString :: "byte list \<Rightarrow> string" where
  "bytesString bs = map (\<lambda>b. char_of (unat b)) bs"

lemma length_stringBytes [simp]: "length (stringBytes s) = length s"
  by (simp add: stringBytes_def)

lemma bytesString_stringBytes [simp]: "bytesString (stringBytes s) = s"
proof -
  have "char_of (unat (word_of_nat (of_char c) :: byte)) = c" for c
    using nat_of_char_less_256 [of c] by (simp add: unat_of_nat)
  then show ?thesis by (simp add: stringBytes_def bytesString_def o_def)
qed

subsection \<open>CRC-32C\<close>

definition castagnoli :: uint32 where
  "castagnoli = 0x82F63B78"

definition crcShift :: "uint32 \<Rightarrow> uint32" where
  "crcShift c = (if bit c 0 then xor (drop_bit 1 c) castagnoli else drop_bit 1 c)"

definition crcByte :: "uint32 \<Rightarrow> byte \<Rightarrow> uint32" where
  "crcByte c b = crcShift (crcShift (crcShift (crcShift (crcShift (crcShift (crcShift (crcShift
     (xor c (ucast b)))))))))"

definition crcChecksum :: "byte list \<Rightarrow> uint32" where
  "crcChecksum bs = not (foldl crcByte (not 0) bs)"

text \<open>
  A step of the checksum loses no information: the polynomial has its top bit set, so the
  bit that was shifted out can be read off.  Hence two messages of the same length that differ in one byte have
  different checksums.
\<close>

lemma xor_right_cancel: "xor x a = xor y a \<longleftrightarrow> x = (y :: 'a::len word)"
proof
  assume eq: "xor x a = xor y a"
  show "x = y"
  proof (rule bit_word_eqI)
    fix n
    have "bit (xor x a) n \<longleftrightarrow> bit (xor y a) n" using eq by simp
    then show "bit x n \<longleftrightarrow> bit y n" by (auto simp: bit_xor_iff)
  qed
qed simp

lemma crcShift_top: "bit (crcShift c) 31 \<longleftrightarrow> bit c 0"
proof -
  have "bit castagnoli 31" by code_simp
  moreover have "\<not> bit (drop_bit 1 c) 31" using bit_imp_le_length [of c 32] by (auto simp: bit_drop_bit_eq)
  ultimately show ?thesis by (simp add: crcShift_def bit_xor_iff del: One_nat_def)
qed

lemma crcShift_inj: "crcShift c = crcShift d \<longleftrightarrow> c = d"
proof
  assume eq: "crcShift c = crcShift d"
  have z: "bit c 0 \<longleftrightarrow> bit d 0" using arg_cong [OF eq, of "\<lambda>x. bit x 31"] by (simp only: crcShift_top)
  then have dr: "drop_bit 1 c = drop_bit 1 d"
    using eq by (simp add: crcShift_def xor_right_cancel split: if_splits)
  have "bit c n \<longleftrightarrow> bit d n" for n
  proof (cases n)
    case (Suc m)
    then show ?thesis using arg_cong [OF dr, of "\<lambda>x. bit x m"] by (simp add: bit_drop_bit_eq)
  qed (use z in simp)
  then show "c = d" by (intro bit_word_eqI) blast
qed simp

lemma ucast32_inj: "(ucast b :: uint32) = ucast (b' :: byte) \<longleftrightarrow> b = b'"
proof
  assume eq: "(ucast b :: uint32) = ucast b'"
  show "b = b'"
  proof (rule bit_word_eqI)
    fix n assume "n < LENGTH(8)"
    then show "bit b n \<longleftrightarrow> bit b' n"
      using arg_cong [OF eq, of "\<lambda>x. bit x n"] by (simp add: bit_ucast_iff)
  qed
qed simp

lemma crcByte_inj: "crcByte c b = crcByte d b \<longleftrightarrow> c = d"
  by (simp only: crcByte_def crcShift_inj xor_right_cancel)

lemma crcByte_inj_byte: "crcByte c b = crcByte c b' \<longleftrightarrow> b = b'"
  by (simp only: crcByte_def crcShift_inj xor.commute [of c] xor_right_cancel ucast32_inj)

lemma crc_tail_inj: "foldl crcByte c bs = foldl crcByte d bs \<longleftrightarrow> c = d"
  by (induction bs arbitrary: c d) (simp_all add: crcByte_inj)

lemma crc_detects_byte:
  "crcChecksum (xs @ b # ys) = crcChecksum (xs @ b' # ys) \<longleftrightarrow> b = b'"
proof -
  have "crcChecksum (xs @ b # ys) = crcChecksum (xs @ b' # ys) \<longleftrightarrow>
      foldl crcByte (crcByte (foldl crcByte (not 0) xs) b) ys = foldl crcByte (crcByte (foldl crcByte (not 0) xs) b') ys"
    by (simp only: crcChecksum_def foldl_append foldl.simps bit.compl_eq_compl_iff)
  then show ?thesis by (simp only: crc_tail_inj crcByte_inj_byte)
qed

text \<open>The check value of the algorithm, the checksum of the ASCII string 123456789.\<close>

lemma crc_check_value: "crcChecksum [49, 50, 51, 52, 53, 54, 55, 56, 57] = 0xE3069283"
  by code_simp

end
