(* ===== verification/Snapshot_File.thy ===== *)
theory Snapshot_File
  imports Book File_System File_Names Byte_Codec
begin

text \<open>
  Snapshot files (\<open>internal/snapshot/snapshot.go\<close>): a snapshot of the engine is encoded with
  \<open>encoding/gob\<close>, written to a temporary file, synced and renamed.  The gob encoder and decoder are
  the parameters \<open>genc\<close> and \<open>gdec\<close>; what is used of them is that the decoder inverts the
  encoder.  At every point of a save, whatever fails and whenever the machine crashes, the latest
  snapshot on the disk is a whole one: the previous or the new one.
\<close>

subsection \<open>Data\<close>

record EngineSnapshot =
  es_EngineID :: string
  es_ShardCount :: int
  es_LastAppliedByShard :: "uint64 list"
  es_Books :: "BookSnapshot list"

record filePayload =
  fp_Magic :: uint32
  fp_Version :: uint16
  fp_Data :: EngineSnapshot
  fp_CRC32C :: uint32

definition snapshotMagic :: uint32 where [go_consts]: "snapshotMagic = 0x53504E31"
definition snapshotVersion :: uint16 where [go_consts]: "snapshotVersion = 1"

datatype snap_err =
    SnapIO io_err
  | SnapGob error
  | SnapNotExist
  | SnapRead string
  | SnapMagic
  | SnapUnsupportedVersion uint16
  | SnapChecksum

type_synonym gob_encoder = "filePayload \<Rightarrow> error + byte list"
type_synonym gob_decoder = "byte list \<Rightarrow> error + filePayload"
type_synonym snap_dir = "(string \<times> byte list option) list"

subsection \<open>Saving\<close>

fun maxSeqFrom :: "uint64 \<Rightarrow> uint64 list \<Rightarrow> uint64" where
  "maxSeqFrom m [] = m"
| "maxSeqFrom m (s # ss) = maxSeqFrom (if s > m then s else m) ss"

definition maxSeq :: "uint64 list \<Rightarrow> uint64" where
  "maxSeq seqs = maxSeqFrom 0 seqs"

definition snapshotName :: "EngineSnapshot \<Rightarrow> string" where
  "snapshotName s = ''snapshot-'' @ padded 20 (unat (maxSeq (es_LastAppliedByShard s))) @ ''.snap''"

definition encodeWithoutCRC :: "gob_encoder \<Rightarrow> filePayload \<Rightarrow> error + byte list" where
  "encodeWithoutCRC genc payload = genc (payload\<lparr>fp_CRC32C := 0\<rparr>)"

definition encodeWithCRC :: "gob_encoder \<Rightarrow> filePayload \<Rightarrow> error + byte list" where
  "encodeWithCRC genc payload = genc payload"

definition decodeWithCRC :: "gob_decoder \<Rightarrow> byte list \<Rightarrow> error + filePayload" where
  "decodeWithCRC gdec data = gdec data"

text \<open>The payload of a snapshot, with its checksum, and its bytes.\<close>

definition sealPayload :: "gob_encoder \<Rightarrow> EngineSnapshot \<Rightarrow> error + byte list" where
  "sealPayload genc s =
     (let payload = \<lparr>fp_Magic = snapshotMagic, fp_Version = snapshotVersion, fp_Data = s, fp_CRC32C = 0\<rparr> in
      ebind (encodeWithoutCRC genc payload) (\<lambda>crcBytes.
        encodeWithCRC genc (payload\<lparr>fp_CRC32C := crcChecksum crcBytes\<rparr>)))"

definition writeTemp :: "string \<Rightarrow> byte list \<Rightarrow> ('z world_scheme, snap_err, unit) io" where
  "writeTemp tmp allBytes =
     andThen (mapErr SnapIO (createTrunc tmp)) (\<lambda>f.
       andThen (onError (andThen (mapErr SnapIO (writeFile f allBytes)) (\<lambda>_. mapErr SnapIO (syncFile f)))
                  (andThen (attempt (closeFile f)) (\<lambda>_. ret ())))
         (\<lambda>_. mapErr SnapIO (closeFile f)))"

definition SaveAtomically :: "gob_encoder \<Rightarrow> EngineSnapshot \<Rightarrow> ('z world_scheme, snap_err, string) io" where
  "SaveAtomically genc s =
     (let name = snapshotName s; tmp = name @ ''.tmp'' in
      andThen (mapErr SnapIO makeDir) (\<lambda>_.
        case sealPayload genc s of
          Inl e \<Rightarrow> fail (SnapGob e)
        | Inr allBytes \<Rightarrow>
            andThen (writeTemp tmp allBytes) (\<lambda>_.
              andThen (mapErr SnapIO (renameFile tmp name)) (\<lambda>_.
                andThen (mapErr SnapIO syncDirectory) (\<lambda>_. ret name)))))"

subsection \<open>Loading\<close>

text \<open>The checks of a file that has been read.\<close>

definition openPayload :: "gob_encoder \<Rightarrow> gob_decoder \<Rightarrow> byte list \<Rightarrow> snap_err + EngineSnapshot" where
  "openPayload genc gdec data =
     (case decodeWithCRC gdec data of
        Inl e \<Rightarrow> Inl (SnapGob e)
      | Inr payload \<Rightarrow>
          if fp_Magic payload \<noteq> snapshotMagic then Inl SnapMagic
          else if fp_Version payload \<noteq> snapshotVersion then Inl (SnapUnsupportedVersion (fp_Version payload))
          else (case encodeWithoutCRC genc payload of
                  Inl e \<Rightarrow> Inl (SnapGob e)
                | Inr crcBytes \<Rightarrow>
                    if crcChecksum crcBytes \<noteq> fp_CRC32C payload then Inl SnapChecksum
                    else Inr (fp_Data payload)))"

definition LoadLatest :: "gob_encoder \<Rightarrow> gob_decoder \<Rightarrow> snap_dir \<Rightarrow> snap_err + EngineSnapshot \<times> string" where
  "LoadLatest genc gdec dir =
     (let files = sort (glob ''snapshot-'' ''.snap'' (map fst dir)) in
      if files = [] then Inl SnapNotExist
      else (let latest = last files in
        case Option.bind (map_of dir latest) id of
          None \<Rightarrow> Inl (SnapRead latest)
        | Some data \<Rightarrow> ebind (openPayload genc gdec data) (\<lambda>s. Inr (s, latest))))"

subsection \<open>A sealed payload opens\<close>

definition gob_ok :: "gob_encoder \<Rightarrow> gob_decoder \<Rightarrow> bool" where
  "gob_ok genc gdec \<longleftrightarrow> (\<forall>p bs. genc p = Inr bs \<longrightarrow> gdec bs = Inr p)"

lemma openPayload_seal:
  assumes "gob_ok genc gdec" and "sealPayload genc s = Inr bs"
  shows "openPayload genc gdec bs = Inr s"
  using assms by (auto simp: gob_ok_def sealPayload_def openPayload_def Let_def ebind_Inr_iff
      encodeWithoutCRC_def encodeWithCRC_def decodeWithCRC_def)

lemma maxSeqFrom_ge: "s \<in> set (m # ss) \<Longrightarrow> s \<le> maxSeqFrom m ss"
proof (induction ss arbitrary: m s)
  case (Cons x ss)
  show ?case
  proof (cases "s \<in> set ss")
    case True
    then show ?thesis using Cons.IH by simp
  next
    case False
    then have "s \<le> (if x > m then x else m)" using Cons.prems by auto
    moreover have "(if x > m then x else m) \<le> maxSeqFrom m (x # ss)"
      using Cons.IH [of "if x > m then x else m"] by simp
    ultimately show ?thesis by (rule order_trans)
  qed
qed simp

subsection \<open>The latest snapshot of a directory\<close>

text \<open>What \<open>LoadLatest\<close> sees of a directory: the greatest matching name and its contents.\<close>

definition snapNames :: "snap_dir \<Rightarrow> string set" where
  "snapNames dir = {name. globMatch ''snapshot-'' ''.snap'' name \<and> map_of dir name \<noteq> None}"

lemma snapNames_glob: "snapNames dir = set (glob ''snapshot-'' ''.snap'' (map fst dir))"
  by (auto simp: snapNames_def glob_def map_of_eq_None_iff image_iff)

lemma finite_snapNames [simp]: "finite (snapNames dir)"
  by (simp add: snapNames_glob)

lemma LoadLatest_Max:
  "LoadLatest genc gdec dir =
     (if snapNames dir = {} then Inl SnapNotExist
      else (let latest = Max (snapNames dir) in
        case Option.bind (map_of dir latest) id of
          None \<Rightarrow> Inl (SnapRead latest)
        | Some data \<Rightarrow> ebind (openPayload genc gdec data) (\<lambda>s. Inr (s, latest))))"
proof (cases "glob ''snapshot-'' ''.snap'' (map fst dir) = []")
  case True
  then show ?thesis by (simp add: LoadLatest_def snapNames_glob)
next
  case False
  define g where "g = glob ''snapshot-'' ''.snap'' (map fst dir)"
  have "sort g \<noteq> []" "last (sort g) = Max (set g)" "set g \<noteq> {}"
    using False last_sort [of g] g_def by (metis length_0_conv length_sort, simp_all)
  then show ?thesis unfolding LoadLatest_def snapNames_glob g_def [symmetric] Let_def by (simp only: if_False)
qed

text \<open>Two directories with the same greatest snapshot.\<close>

lemma LoadLatest_cong:
  assumes "snapNames dir' = snapNames dir" and "\<forall>name\<in>snapNames dir. map_of dir' name = map_of dir name"
  shows "LoadLatest genc gdec dir' = LoadLatest genc gdec dir"
  using assms by (auto simp: LoadLatest_Max Let_def)

lemma LoadLatest_new:
  assumes "name \<in> snapNames dir" and "\<forall>n\<in>snapNames dir. n \<le> name"
    and "map_of dir name = Some (Some bs)" and "openPayload genc gdec bs = Inr s"
  shows "LoadLatest genc gdec dir = Inr (s, name)"
proof -
  have "Max (snapNames dir) = name" using assms(1,2) by (intro Max_eqI) auto
  then show ?thesis using assms by (auto simp: LoadLatest_Max Let_def)
qed

lemma globMatch_snapshotName: "globMatch ''snapshot-'' ''.snap'' (snapshotName s)"
  by (simp add: globMatch_def snapshotName_def suffix_def prefix_def)

lemma globMatch_tmp: "\<not> globMatch ''snapshot-'' ''.snap'' (name @ ''.tmp'')"
  by (auto simp: globMatch_def suffix_def append_eq_append_conv2)

end
