(* ===== verification/Snapshot_Save.thy ===== *)
theory Snapshot_Save
  imports Snapshot_File
begin

text \<open>
  Saving a snapshot is atomic: the states a save goes through, each described by what a program
  that starts after a crash finds in the directory.
\<close>

subsection \<open>The states of a save\<close>

abbreviation snapName :: "string \<Rightarrow> bool" where
  "snapName n \<equiv> globMatch ''snapshot-'' ''.snap'' n"

definition refers :: "disk \<Rightarrow> string \<Rightarrow> nat \<Rightarrow> bool" where
  "refers d n i \<longleftrightarrow> map_of (dk_dir d) n = Some i \<or> map_of (dk_durable d) n = Some i"

text \<open>
  A snapshot directory as saves leave it, also failed ones: entries may be waiting to be written, and temporary files may
  be left, but none of them is the file of a snapshot.
\<close>

definition tidy :: "disk \<Rightarrow> bool" where
  "tidy d \<longleftrightarrow> distinct (map fst (dk_dir d)) \<and> (\<forall>n i. refers d n i \<longrightarrow> i < length (dk_files d))
     \<and> (\<forall>n m i. snapName n \<and> refers d n i \<and> \<not> snapName m \<longrightarrow> map_of (dk_dir d) m \<noteq> Some i)
     \<and> (\<forall>n m i. \<not> snapName n \<and> \<not> snapName m \<and> map_of (dk_dir d) n = Some i \<and> map_of (dk_dir d) m = Some i \<longrightarrow> n = m)"

definition sameSnapshots :: "disk \<Rightarrow> disk \<Rightarrow> bool" where
  "sameSnapshots d0 d \<longleftrightarrow> (\<forall>n i. snapName n \<and> refers d0 n i \<longrightarrow> dk_files d ! i = dk_files d0 ! i)"

text \<open>The snapshots are those of the directory \<open>d0\<close>.\<close>

definition preparing :: "disk \<Rightarrow> disk \<Rightarrow> bool" where
  "preparing d0 d \<longleftrightarrow> tidy d \<and> sameSnapshots d0 d
     \<and> (\<forall>n. snapName n \<longrightarrow> map_of (dk_dir d) n = map_of (dk_dir d0) n \<and> map_of (dk_durable d) n = map_of (dk_durable d0) n)"

text \<open>The temporary file is open as \<open>f\<close> and has the bytes \<open>data\<close>.\<close>

definition writing :: "disk \<Rightarrow> string \<Rightarrow> nat \<Rightarrow> byte list \<Rightarrow> disk \<Rightarrow> bool" where
  "writing d0 tmp f data d \<longleftrightarrow> preparing d0 d \<and> map_of (dk_dir d) tmp = Some f \<and> fl_data (dk_files d ! f) = data"

definition written :: "disk \<Rightarrow> string \<Rightarrow> byte list \<Rightarrow> disk \<Rightarrow> bool" where
  "written d0 tmp bs d \<longleftrightarrow> (\<exists>f. writing d0 tmp f bs d \<and> length bs \<le> fl_synced (dk_files d ! f))"

text \<open>The temporary file has become the snapshot file; its entry may still be lost in a crash.\<close>

definition renamed :: "disk \<Rightarrow> string \<Rightarrow> byte list \<Rightarrow> disk \<Rightarrow> bool" where
  "renamed d0 name bs d \<longleftrightarrow> tidy d \<and> sameSnapshots d0 d
     \<and> (\<forall>n. snapName n \<and> n \<noteq> name \<longrightarrow> map_of (dk_dir d) n = map_of (dk_dir d0) n)
     \<and> (\<forall>n. snapName n \<longrightarrow> map_of (dk_durable d) n = map_of (dk_durable d0) n \<or> map_of (dk_durable d) n = map_of (dk_dir d) n)
     \<and> (\<exists>f. map_of (dk_dir d) name = Some f \<and> fl_data (dk_files d ! f) = bs \<and> length bs \<le> fl_synced (dk_files d ! f))"

definition saved :: "disk \<Rightarrow> string \<Rightarrow> byte list \<Rightarrow> disk \<Rightarrow> bool" where
  "saved d0 name bs d \<longleftrightarrow> renamed d0 name bs d \<and> map_of (dk_durable d) name = map_of (dk_dir d) name"

definition saving :: "disk \<Rightarrow> string \<Rightarrow> byte list \<Rightarrow> disk \<Rightarrow> bool" where
  "saving d0 name bs d \<longleftrightarrow> preparing d0 d \<or> renamed d0 name bs d"

lemma settled_tidy: "settled d \<Longrightarrow> tidy d"
  using settledD(1) [of d] settled_inj [of d] unfolding tidy_def refers_def by (metis settled_def)

lemma tidyD:
  assumes "tidy d"
  shows "distinct (map fst (dk_dir d))" and "refers d n i \<Longrightarrow> i < length (dk_files d)"
    and "snapName n \<Longrightarrow> refers d n i \<Longrightarrow> \<not> snapName m \<Longrightarrow> map_of (dk_dir d) m \<noteq> Some i"
    and "\<not> snapName n \<Longrightarrow> \<not> snapName m \<Longrightarrow> map_of (dk_dir d) n = Some i \<Longrightarrow> map_of (dk_dir d) m = Some i \<Longrightarrow> n = m"
  using assms unfolding tidy_def by blast+

lemma tidy_files:
  assumes "tidy d" and "length fs = length (dk_files d)"
  shows "tidy (d\<lparr>dk_files := fs\<rparr>)"
proof -
  have f: "dk_dir (d\<lparr>dk_files := fs\<rparr>) = dk_dir d" "dk_durable (d\<lparr>dk_files := fs\<rparr>) = dk_durable d"
    "length (dk_files (d\<lparr>dk_files := fs\<rparr>)) = length (dk_files d)" using assms(2) by simp_all
  show ?thesis using assms(1) unfolding tidy_def refers_def f .
qed

lemma tidy_syncDir:
  assumes "tidy d"
  shows "tidy (syncDir d)"
proof -
  have f: "dk_dir (syncDir d) = dk_dir d" "dk_durable (syncDir d) = dk_dir d" "dk_files (syncDir d) = dk_files d" by (simp_all add: syncDir_def)
  show ?thesis using assms unfolding tidy_def refers_def f by blast
qed

subsection \<open>What a crash leaves\<close>

lemma leftOf_all: "leftOf f (fl_data f)"
  unfolding leftOf_def by (rule exI [of _ "fl_synced f + length (fl_data f)"]) simp

definition entryAfter :: "disk \<Rightarrow> string \<Rightarrow> byte list option option \<Rightarrow> bool" where
  "entryAfter d n c \<longleftrightarrow> entry_after d (map_of (dk_dir d) n) c \<or> entry_after d (map_of (dk_durable d) n) c"

text \<open>An image made of the entries of another one where they can be there, and of the files as they are.\<close>

lemma mixed_image:
  assumes "tidy d" and "distinct (map fst img)" and "\<forall>n. K n \<longrightarrow> entryAfter d n (map_of img n)"
  shows "\<exists>img0. crash_image d img0 \<and> (\<forall>n. K n \<longrightarrow> map_of img0 n = map_of img n)"
proof -
  let ?img0 = "filter (\<lambda>e. K (fst e)) img @ filter (\<lambda>e. \<not> K (fst e)) (contents d)"
  have m: "map_of ?img0 n = (if K n then map_of img n else map_of (contents d) n)" for n
  proof -
    have f: "map_of (filter (\<lambda>e. P (fst e)) xs) n = (if P n then map_of xs n else None)" for P and xs :: "(string \<times> byte list option) list"
      by (induction xs) auto
    show ?thesis using f [of K img] f [of "\<lambda>n. \<not> K n" "contents d"] by (auto simp: map_add_def split: option.split)
  qed
  have "entryAfter d n (map_of (contents d) n)" for n
    using tidyD(2) [OF assms(1), of n] unfolding entryAfter_def entry_after_def map_of_contents refers_def
    by (cases "map_of (dk_dir d) n") (auto simp: leftOf_all)
  then have "entryAfter d n (map_of ?img0 n)" for n using assms(3) m by simp
  moreover have "map fst (contents d) = map fst (dk_dir d)" by (auto simp: contents_def)
  then have "distinct (map fst (contents d))" using tidyD(1) [OF assms(1)] by simp
  then have "distinct (map fst ?img0)" using assms(2) by (auto simp: distinct_map intro: inj_on_subset)
  ultimately show ?thesis using m by (intro exI [of _ ?img0]) (auto simp: crash_image_def entryAfter_def)
qed

lemma entry_before:
  assumes "tidy d0" and "sameSnapshots d0 d" and "snapName n" and "b = map_of (dk_dir d0) n \<or> b = map_of (dk_durable d0) n" and "entry_after d b c"
  shows "entryAfter d0 n c"
proof -
  have "entry_after d0 b c"
  proof (cases b)
    case (Some i)
    then have "refers d0 n i" using assms(4) by (auto simp: refers_def)
    then show ?thesis using assms(2,3,5) Some tidyD(2) [OF assms(1)] by (auto simp: sameSnapshots_def entry_after_def)
  qed (use assms(5) in \<open>simp add: entry_after_def\<close>)
  then show ?thesis using assms(4) by (auto simp: entryAfter_def)
qed

lemma saving_image:
  assumes "tidy d0" and "saving d0 name bs d" and "snapName name" and "crash_image d img"
  shows "\<exists>img0. crash_image d0 img0 \<and> (\<forall>n. snapName n \<and> n \<noteq> name \<longrightarrow> map_of img n = map_of img0 n)
    \<and> (map_of img name = map_of img0 name \<or> map_of img name = Some (Some bs))"
    and "saved d0 name bs d \<Longrightarrow> map_of img name = Some (Some bs)"
proof -
  have same: "sameSnapshots d0 d" using assms(2) by (auto simp: saving_def preparing_def renamed_def)
  have i: "entry_after d (map_of (dk_dir d) n) (map_of img n) \<or> entry_after d (map_of (dk_durable d) n) (map_of img n)" for n
    using assms(4) by (simp add: crash_image_def)
  have new: "map_of img name = Some (Some bs)" if "renamed d0 name bs d" "entry_after d (map_of (dk_dir d) name) (map_of img name)"
    using that by (auto simp: renamed_def entry_after_def dest: leftOf_synced)
  then show "map_of img name = Some (Some bs)" if "saved d0 name bs d" using that i [of name] by (auto simp: saved_def)
  have others: "entryAfter d0 n (map_of img n)" if "snapName n" "n \<noteq> name" for n
  proof -
    have "map_of (dk_dir d) n = map_of (dk_dir d0) n" "map_of (dk_durable d) n = map_of (dk_durable d0) n \<or> map_of (dk_durable d) n = map_of (dk_dir d0) n"
      using that assms(2) unfolding saving_def preparing_def renamed_def by metis+
    then show ?thesis using i [of n] entry_before [OF assms(1) same that(1)] by metis
  qed
  have "entryAfter d0 name (map_of img name) \<or> map_of img name = Some (Some bs)"
  proof (cases "renamed d0 name bs d")
    case True
    then have "map_of (dk_durable d) name = map_of (dk_durable d0) name \<or> map_of (dk_durable d) name = map_of (dk_dir d) name"
      using assms(3) by (simp add: renamed_def)
    then show ?thesis using True i [of name] new entry_before [OF assms(1) same assms(3)] by metis
  next
    case False
    then show ?thesis using i [of name] assms(2,3) entry_before [OF assms(1) same assms(3)] by (auto simp: saving_def preparing_def)
  qed
  then obtain K where K: "\<forall>n. K n \<longrightarrow> entryAfter d0 n (map_of img n)" "\<forall>n. snapName n \<and> n \<noteq> name \<longrightarrow> K n"
    "K name \<or> map_of img name = Some (Some bs)"
    using others that [of "\<lambda>n. snapName n \<and> (n \<noteq> name \<or> entryAfter d0 name (map_of img name))"] assms(3) by blast
  have "distinct (map fst img)" using assms(4) by (simp add: crash_image_def)
  from mixed_image [OF assms(1) this K(1)] obtain img0 where "crash_image d0 img0" "\<forall>n. K n \<longrightarrow> map_of img0 n = map_of img n" by blast
  then show "\<exists>img0. crash_image d0 img0 \<and> (\<forall>n. snapName n \<and> n \<noteq> name \<longrightarrow> map_of img n = map_of img0 n)
    \<and> (map_of img name = map_of img0 name \<or> map_of img name = Some (Some bs))"
    using K(2,3) by (intro exI [of _ img0]) auto
qed

subsection \<open>The steps of a save\<close>

lemma preparing_start: "tidy d0 \<Longrightarrow> preparing d0 d0"
  by (simp add: preparing_def sameSnapshots_def)

text \<open>A change of the temporary file.\<close>

lemma preparing_update:
  assumes "preparing d0 d" and "map_of (dk_dir d) tmp = Some f" and "\<not> snapName tmp"
  shows "preparing d0 (d\<lparr>dk_files := (dk_files d)[f := g]\<rparr>)"
proof -
  have ne: "f \<noteq> i" if "snapName n" "refers d0 n i" for n i
    using tidyD(3) [of d n i tmp] assms that by (auto simp: preparing_def refers_def)
  have "dk_files (d\<lparr>dk_files := (dk_files d)[f := g]\<rparr>) ! i = dk_files d ! i" if "f \<noteq> i" for i using that by simp
  then have "sameSnapshots d0 (d\<lparr>dk_files := (dk_files d)[f := g]\<rparr>)" using assms(1) ne unfolding preparing_def sameSnapshots_def by metis
  then show ?thesis using assms(1) tidy_files [of d "(dk_files d)[f := g]"] by (simp add: preparing_def)
qed

lemma preparing_addFile:
  assumes "tidy d0" and "map_of (dk_dir d0) tmp = None" and "\<not> snapName tmp"
  shows "preparing d0 (addFile tmp d0)"
proof -
  let ?d = "addFile tmp d0"
  have m: "map_of (dk_dir ?d) n = (if n = tmp then Some (length (dk_files d0)) else map_of (dk_dir d0) n)" for n
    using assms(2) by (auto simp: addFile_def map_add_def split: option.split)
  have r: "refers ?d n i \<Longrightarrow> n \<noteq> tmp \<Longrightarrow> refers d0 n i" for n i by (simp add: refers_def m) (simp add: addFile_def)
  have old: "refers d0 n i \<Longrightarrow> i < length (dk_files d0)" for n i by (rule tidyD(2) [OF assms(1)])
  have f: "length (dk_files ?d) = Suc (length (dk_files d0))" "dk_durable ?d = dk_durable d0" by (simp_all add: addFile_def)
  have "tidy ?d" unfolding tidy_def
  proof (intro conjI allI impI)
    show "distinct (map fst (dk_dir ?d))" using tidyD(1) [OF assms(1)] assms(2) by (auto simp: addFile_def map_of_eq_None_iff)
    show "i < length (dk_files ?d)" if "refers ?d n i" for n i
      using that old [of n i] m f by (cases "n = tmp") (auto simp: refers_def split: if_splits)
    show "map_of (dk_dir ?d) k \<noteq> Some i" if "snapName n \<and> refers ?d n i \<and> \<not> snapName k" for n k i
      using that assms(3) r [of n i] old [of n i] tidyD(3) [OF assms(1), of n i k] m by auto
    show "n = k" if "\<not> snapName n \<and> \<not> snapName k \<and> map_of (dk_dir ?d) n = Some i \<and> map_of (dk_dir ?d) k = Some i" for n k i
      using that old [of n i] old [of k i] tidyD(4) [OF assms(1), of n k i] m by (auto simp: refers_def split: if_splits)
  qed
  moreover have "sameSnapshots d0 ?d" using old by (auto simp: sameSnapshots_def addFile_def nth_append)
  ultimately show ?thesis using m assms(3) by (auto simp: preparing_def f)
qed

lemma writing_createTrunc:
  assumes "tidy d0" and "\<not> snapName tmp"
  shows "triple (\<lambda>s. w_disk s = d0) (createTrunc tmp) (\<lambda>f s. writing d0 tmp f [] (w_disk s)) (\<lambda>s. preparing d0 (w_disk s))"
proof (cases "map_of (dk_dir d0) tmp")
  case None
  then have "writing d0 tmp (length (dk_files d0)) [] (addFile tmp d0)"
    using preparing_addFile [OF assms(1) None assms(2)] by (auto simp: writing_def addFile_def map_add_def)
  then have "triple (\<lambda>s. w_disk s = d0) (osCall (addFile tmp)) (\<lambda>_ s. writing d0 tmp (length (dk_files d0)) [] (w_disk s))
      (\<lambda>s. preparing d0 (w_disk s))"
    using preparing_start [OF assms(1)] by (intro triple_osCall) simp_all
  then show ?thesis using None
    by (auto simp: triple_def createTrunc_def andThen_def gets_def ret_def split: io_res.splits prod.splits)
next
  case (Some i)
  let ?f = "\<lambda>d. d\<lparr>dk_files := (dk_files d)[i := \<lparr>fl_data = [], fl_synced = 0\<rparr>]\<rparr>"
  have "i < length (dk_files d0)" using tidyD(2) [OF assms(1), of tmp i] Some by (simp add: refers_def)
  then have "writing d0 tmp i [] (?f d0)"
    using preparing_update [OF preparing_start [OF assms(1)] Some assms(2)] Some by (simp add: writing_def)
  then have "triple (\<lambda>s. w_disk s = d0) (osCall ?f) (\<lambda>_ s. writing d0 tmp i [] (w_disk s)) (\<lambda>s. preparing d0 (w_disk s))"
    using preparing_start [OF assms(1)] by (intro triple_osCall) simp_all
  then show ?thesis using Some
    by (auto simp: triple_def createTrunc_def andThen_def gets_def ret_def split: io_res.splits prod.splits)
qed

lemma writing_open: "writing d0 tmp f data d \<Longrightarrow> f < length (dk_files d)"
  using tidyD(2) [of d tmp f] by (simp add: writing_def preparing_def refers_def)

lemma writing_append: "writing d0 tmp f data d \<Longrightarrow> \<not> snapName tmp \<Longrightarrow> writing d0 tmp f (data @ bs) (appendBytes f bs d)"
  using writing_open [of d0 tmp f data d] preparing_update [of d0 d tmp f] by (auto simp: writing_def appendBytes_def)

lemma written_sync: "writing d0 tmp f bs d \<Longrightarrow> \<not> snapName tmp \<Longrightarrow> written d0 tmp bs (markSynced f d)"
  using writing_open [of d0 tmp f bs d] preparing_update [of d0 d tmp f]
  unfolding written_def by (intro exI [of _ f]) (auto simp: writing_def markSynced_def)

lemma writing_preparing: "writing d0 tmp f data d \<Longrightarrow> preparing d0 d"
  by (simp add: writing_def)

lemma writing_partial: "writing d0 tmp f data d \<Longrightarrow> \<not> snapName tmp \<Longrightarrow> preparing d0 (appendBytes f bs d)"
  by (rule writing_preparing [OF writing_append])

lemma written_rename:
  assumes "written d0 tmp bs d" and "\<not> snapName tmp" and "snapName name"
  shows "renamed d0 name bs (rename tmp name d)"
proof -
  obtain f where f: "preparing d0 d" "map_of (dk_dir d) tmp = Some f" "fl_data (dk_files d ! f) = bs" "length bs \<le> fl_synced (dk_files d ! f)"
    using assms(1) by (auto simp: written_def writing_def)
  let ?d = "rename tmp name d"
  have t: "tidy d" using f(1) by (simp add: preparing_def)
  have keys: "map_of (filter (\<lambda>e. fst e \<noteq> tmp \<and> fst e \<noteq> name) es) n = (if n = tmp \<or> n = name then None else map_of es n)"
    for n and es :: "(string \<times> nat) list"
    by (induction es) auto
  have m: "map_of (dk_dir ?d) n = (if n = name then Some f else if n = tmp then None else map_of (dk_dir d) n)" for n
    using assms(2,3) f(2) by (auto simp: rename_def keys map_add_def split: option.split)
  have e: "dk_files ?d = dk_files d" "dk_durable ?d = dk_durable d" using f(2) by (simp_all add: rename_def)
  have r: "refers ?d n i \<Longrightarrow> refers d n i \<or> n = name \<and> i = f" for n i by (auto simp: refers_def m e split: if_splits)
  have "f < length (dk_files d)" using tidyD(2) [OF t, of tmp f] f(2) by (simp add: refers_def)
  have "tidy ?d" unfolding tidy_def
  proof (intro conjI allI impI)
    show "distinct (map fst (dk_dir ?d))" using tidyD(1) [OF t] f(2) by (auto simp: rename_def distinct_map intro: inj_on_subset)
    show "i < length (dk_files ?d)" if "refers ?d n i" for n i using r [OF that] tidyD(2) [OF t, of n i] \<open>f < length (dk_files d)\<close> e by auto
    show "map_of (dk_dir ?d) k \<noteq> Some i" if "snapName n \<and> refers ?d n i \<and> \<not> snapName k" for n k i
    proof -
      have "map_of (dk_dir d) k \<noteq> Some i \<or> k = tmp"
        using that assms(2) f(2) r [of n i] tidyD(3) [OF t, of n i k] tidyD(4) [OF t, of k tmp f] by blast
      then show ?thesis using that assms(3) m by (metis option.distinct(1))
    qed
    show "n = k" if "\<not> snapName n \<and> \<not> snapName k \<and> map_of (dk_dir ?d) n = Some i \<and> map_of (dk_dir ?d) k = Some i" for n k i
      using that assms(3) tidyD(4) [OF t, of n k i] m by (auto split: if_splits)
  qed
  moreover have "sameSnapshots d0 ?d" using f(1) by (simp add: preparing_def sameSnapshots_def e)
  moreover have "\<forall>n. snapName n \<and> n \<noteq> name \<longrightarrow> map_of (dk_dir ?d) n = map_of (dk_dir d0) n" "\<forall>n. snapName n \<longrightarrow> map_of (dk_durable ?d) n = map_of (dk_durable d0) n"
    using f(1) assms(2) m e unfolding preparing_def by metis+
  ultimately show ?thesis using f(3,4) m unfolding renamed_def e by simp
qed

lemma saved_sync: "renamed d0 name bs d \<Longrightarrow> saved d0 name bs (syncDir d)"
  using tidy_syncDir [of d] by (auto simp: saved_def renamed_def sameSnapshots_def) (auto simp: syncDir_def)

subsection \<open>The whole save\<close>

lemma writeTemp_triple:
  assumes "tidy d0" and "\<not> snapName tmp"
  shows "triple (\<lambda>s. w_disk s = d0) (writeTemp tmp bs) (\<lambda>_ s. written d0 tmp bs (w_disk s)) (\<lambda>s. preparing d0 (w_disk s))"
proof -
  let ?X = "\<lambda>s. preparing d0 (w_disk s)"
  have close: "triple ?X (andThen (attempt (closeFile f)) (\<lambda>_. ret ())) (\<lambda>_. ?X) ?X" for f
    unfolding closeFile_def
    by (rule triple_andThen [where R = "\<lambda>_. ?X"], rule triple_attempt, rule triple_osCall) (auto intro: triple_ret)
  have body: "triple (\<lambda>s. writing d0 tmp f [] (w_disk s))
      (andThen (mapErr SnapIO (writeFile f bs)) (\<lambda>_. mapErr SnapIO (syncFile f))) (\<lambda>_ s. written d0 tmp bs (w_disk s)) ?X" for f
    by (rule triple_andThen [where R = "\<lambda>_ s. writing d0 tmp f bs (w_disk s)"])
      (auto intro!: triple_mapErr triple_writeFile triple_osCall simp: assms(2) syncFile_def written_sync writing_preparing writing_partial
        dest: writing_append [where data = "[]"])
  show ?thesis
    unfolding writeTemp_def
    apply (rule triple_andThen [OF triple_mapErr [OF writing_createTrunc [OF assms]]])
    apply (rule triple_andThen [OF triple_onError [OF body close]])
    apply (auto intro!: triple_mapErr triple_osCall simp: closeFile_def written_def writing_preparing)
    done
qed

lemma SaveAtomically_triple:
  assumes "tidy d0" and "name = snapshotName s" and "tmp = name @ ''.tmp''" and "sealPayload genc s = Inr bs"
  shows "triple (\<lambda>w. w_disk w = d0) (SaveAtomically genc s) (\<lambda>r w. r = name \<and> saved d0 name bs (w_disk w))
    (\<lambda>w. saving d0 name bs (w_disk w))"
proof -
  let ?X = "\<lambda>w. saving d0 name bs (w_disk w)"
  have g: "\<not> snapName tmp" "snapName name" using globMatch_tmp globMatch_snapshotName assms(2,3) by simp_all
  have k: "preparing d0 d \<Longrightarrow> saving d0 name bs d" for d by (simp add: saving_def)
  have wk: "written d0 tmp bs d \<Longrightarrow> saving d0 name bs d" for d
    using k by (auto simp: written_def dest: writing_preparing)
  have d0: "saving d0 name bs d0" using preparing_start [OF assms(1)] k by simp
  have tmp: "triple (\<lambda>w. w_disk w = d0) (writeTemp tmp bs) (\<lambda>_ w. written d0 tmp bs (w_disk w)) ?X"
    by (rule triple_weaken [OF writeTemp_triple [OF assms(1) g(1)]]) (auto intro: k)
  have ren: "triple (\<lambda>w. written d0 tmp bs (w_disk w)) (renameFile tmp name) (\<lambda>_ w. renamed d0 name bs (w_disk w)) ?X"
    unfolding renameFile_def
    by (rule triple_andThen [where R = "\<lambda>d w. written d0 tmp bs (w_disk w)"])
      (auto intro!: triple_gets triple_fail triple_osCall intro: wk written_rename [OF _ g])
  have sync: "triple (\<lambda>w. renamed d0 name bs (w_disk w)) syncDirectory (\<lambda>_ w. saved d0 name bs (w_disk w)) ?X"
    unfolding syncDirectory_def
    by (rule triple_andThen [where R = "\<lambda>_ w. renamed d0 name bs (w_disk w)"])
      (auto intro!: triple_osCall simp: saving_def intro: saved_sync)
  have mk: "triple (\<lambda>w. w_disk w = d0) makeDir (\<lambda>_ w. w_disk w = d0) ?X"
    unfolding makeDir_def by (rule triple_osCall) (simp_all add: d0)
  show ?thesis
    unfolding SaveAtomically_def Let_def assms(2) [symmetric] assms(3) [symmetric] assms(4) sum.case
    by (rule triple_andThen [OF triple_mapErr [OF mk]], rule triple_andThen [OF tmp],
        rule triple_andThen [OF triple_mapErr [OF ren]], rule triple_andThen [OF triple_mapErr [OF sync]], rule triple_ret) simp
qed

lemma save_states:
  assumes "tidy d0" and "SaveAtomically genc s \<lparr>w_disk = d0, w_outs = outs\<rparr> = (r, w)"
  shows "(w_disk w = d0 \<and> (\<forall>path. r \<noteq> Ret path))
    \<or> (\<exists>bs. sealPayload genc s = Inr bs \<and> saving d0 (snapshotName s) bs (w_disk w)
         \<and> (\<forall>path. r = Ret path \<longrightarrow> path = snapshotName s \<and> saved d0 (snapshotName s) bs (w_disk w)))"
proof (cases "sealPayload genc s")
  case (Inl e)
  then have "w_disk w = d0" "\<forall>path. r \<noteq> Ret path"
    using assms(2) by (auto simp: SaveAtomically_def andThen_def mapErr_def makeDir_def osCall_def nextOutcome_def
        fail_def modify_def onDisk_def split: list.splits io_out.splits)
  then show ?thesis by blast
next
  case (Inr bs)
  have "w_disk \<lparr>w_disk = d0, w_outs = outs\<rparr> = d0" by simp
  note t = tripleD [OF SaveAtomically_triple [OF assms(1) refl refl Inr] this assms(2)]
  have "saved d0 (snapshotName s) bs d \<Longrightarrow> saving d0 (snapshotName s) bs d" for d by (simp add: saved_def saving_def)
  then show ?thesis using t Inr by (cases r) auto
qed

lemma save_tidy:
  assumes "tidy d0" and "SaveAtomically genc s \<lparr>w_disk = d0, w_outs = outs\<rparr> = (r, w)"
  shows "tidy (w_disk w)"
  using save_states [OF assms] assms(1) by (auto simp: saving_def preparing_def renamed_def)

text \<open>What is loaded after a crash.\<close>

lemma load_unchanged:
  assumes "\<And>n. snapName n \<Longrightarrow> map_of img n = map_of dir n"
  shows "LoadLatest genc gdec img = LoadLatest genc gdec dir" and "snapNames img = snapNames dir"
proof -
  show "snapNames img = snapNames dir" using assms by (auto simp: snapNames_def)
  then show "LoadLatest genc gdec img = LoadLatest genc gdec dir" using assms by (intro LoadLatest_cong) (auto simp: snapNames_def)
qed

lemma save_loads:
  assumes "tidy d0" and "gob_ok genc gdec" and "\<forall>img0. crash_image d0 img0 \<longrightarrow> (\<forall>n\<in>snapNames img0. n \<le> snapshotName s)"
    and "SaveAtomically genc s \<lparr>w_disk = d0, w_outs = outs\<rparr> = (r, w)" and "crash_image (w_disk w) img"
  shows "((\<exists>img0. crash_image d0 img0 \<and> LoadLatest genc gdec img = LoadLatest genc gdec img0) \<or> LoadLatest genc gdec img = Inr (s, snapshotName s))
    \<and> (\<forall>path. r = Ret path \<longrightarrow> path = snapshotName s \<and> LoadLatest genc gdec img = Inr (s, path))"
proof -
  let ?name = "snapshotName s"
  consider "w_disk w = d0" "\<forall>path. r \<noteq> Ret path"
    | bs where "sealPayload genc s = Inr bs" "saving d0 ?name bs (w_disk w)" "\<forall>path. r = Ret path \<longrightarrow> path = ?name \<and> saved d0 ?name bs (w_disk w)"
    using save_states [OF assms(1,4)] by blast
  then show ?thesis
  proof cases
    case 2
    note im = saving_image [OF assms(1) 2(2) globMatch_snapshotName assms(5)]
    then obtain img0 where i: "crash_image d0 img0" "\<forall>n. snapName n \<and> n \<noteq> ?name \<longrightarrow> map_of img n = map_of img0 n"
      "map_of img ?name = map_of img0 ?name \<or> map_of img ?name = Some (Some bs)" by blast
    have new: "LoadLatest genc gdec img = Inr (s, ?name)" if m: "map_of img ?name = Some (Some bs)"
    proof (rule LoadLatest_new [OF _ _ m openPayload_seal [OF assms(2) 2(1)]])
      show "?name \<in> snapNames img" using m globMatch_snapshotName by (simp add: snapNames_def)
      show "\<forall>n\<in>snapNames img. n \<le> ?name" using i(1,2) assms(3) by (fastforce simp: snapNames_def)
    qed
    have "LoadLatest genc gdec img = LoadLatest genc gdec img0" if "map_of img ?name = map_of img0 ?name"
      using i(2) that by (intro load_unchanged) auto
    then show ?thesis using new i(1,3) im(2) 2(3) by blast
  qed (use assms(5) in auto)
qed

subsection \<open>Properties\<close>

text \<open>
  C11: saving a snapshot is atomic.  The new snapshot covers at least what the ones in the directory
  cover.  Whatever calls fail and wherever the machine crashes, a program that starts afterwards loads
  the snapshot it would have loaded before the save, or the whole new one; if the save has
  returned, it loads the new one.
\<close>

theorem snapshot_save_is_atomic:
  assumes "settled d0" and "gob_ok genc gdec"
    and "\<forall>n\<in>snapNames (contents d0). n \<le> snapshotName s"
    and "SaveAtomically genc s \<lparr>w_disk = d0, w_outs = outs\<rparr> = (r, w)" and "crash_image (w_disk w) img"
  shows "(LoadLatest genc gdec img = LoadLatest genc gdec (contents d0) \<or> LoadLatest genc gdec img = Inr (s, snapshotName s))
    \<and> (\<forall>path. r = Ret path \<longrightarrow> path = snapshotName s \<and> LoadLatest genc gdec img = Inr (s, path))"
proof -
  have same: "LoadLatest genc gdec img0 = LoadLatest genc gdec (contents d0)" "snapNames img0 = snapNames (contents d0)"
    if "crash_image d0 img0" for img0 using load_unchanged [OF settled_image [OF assms(1) that]] by simp_all
  have "\<forall>img0. crash_image d0 img0 \<longrightarrow> (\<forall>n\<in>snapNames img0. n \<le> snapshotName s)" using assms(3) same(2) by simp
  from save_loads [OF settled_tidy [OF assms(1)] assms(2) this assms(4,5)] show ?thesis using same(1) by auto
qed

text \<open>
  A small codec that can encode one snapshot: enough to run a save.
\<close>

definition sampleSnapshot :: EngineSnapshot where
  "sampleSnapshot = \<lparr>es_EngineID = ''engine-1'', es_ShardCount = 1, es_LastAppliedByShard = [7], es_Books = []\<rparr>"

definition samplePayload :: "EngineSnapshot \<Rightarrow> uint32 \<Rightarrow> filePayload" where
  "samplePayload s crc = \<lparr>fp_Magic = snapshotMagic, fp_Version = snapshotVersion, fp_Data = s, fp_CRC32C = crc\<rparr>"

definition sampleGobEncode :: "EngineSnapshot \<Rightarrow> gob_encoder" where
  "sampleGobEncode s p = (if p = samplePayload s 0 then Inr [1]
     else if p = samplePayload s (crcChecksum [1]) then Inr [2] else Inl ''gob'')"

definition sampleGobDecode :: "EngineSnapshot \<Rightarrow> gob_decoder" where
  "sampleGobDecode s bs = (if bs = [1] then Inr (samplePayload s 0)
     else if bs = [2] then Inr (samplePayload s (crcChecksum [1])) else Inl ''gob'')"

lemma crc_sample: "crcChecksum [1] \<noteq> 0"
  by code_simp

lemma sample_gob_ok: "gob_ok (sampleGobEncode s) (sampleGobDecode s)"
  by (auto simp: gob_ok_def sampleGobEncode_def sampleGobDecode_def split: if_splits)

lemma sample_seal: "sealPayload (sampleGobEncode s) s = Inr [2]"
  using crc_sample by (simp add: sealPayload_def encodeWithoutCRC_def encodeWithCRC_def sampleGobEncode_def samplePayload_def)

text \<open>The outcomes of the calls of a save: a new directory, no error.\<close>

definition emptyDisk :: disk where
  "emptyDisk = \<lparr>dk_files = [], dk_dir = [], dk_durable = []\<rparr>"

lemma sample_save:
  "SaveAtomically (sampleGobEncode s) s \<lparr>w_disk = emptyDisk, w_outs = replicate 8 IoOk\<rparr> =
     (Ret (snapshotName s), \<lparr>w_disk = \<lparr>dk_files = [\<lparr>fl_data = [2], fl_synced = 1\<rparr>],
        dk_dir = [(snapshotName s, 0)], dk_durable = [(snapshotName s, 0)]\<rparr>, w_outs = []\<rparr>)"
  by (simp add: SaveAtomically_def sample_seal emptyDisk_def Let_def andThen_def mapErr_def makeDir_def osCall_def
      nextOutcome_def modify_def gets_def onDisk_def writeTemp_def createTrunc_def addFile_def ret_def onError_def attempt_def
      writeFile_def appendBytes_def syncFile_def markSynced_def closeFile_def renameFile_def rename_def syncDirectory_def
      syncDir_def numeral_eq_Suc)

lemma sample_image:
  "crash_image \<lparr>dk_files = [\<lparr>fl_data = [2], fl_synced = 1\<rparr>], dk_dir = [(snapshotName s, 0)], dk_durable = [(snapshotName s, 0)]\<rparr>
     [(snapshotName s, Some [2])]"
  by (auto simp: crash_image_def entry_after_def leftOf_def)

theorem snapshot_save_is_atomic_witness:
  "LoadLatest (sampleGobEncode sampleSnapshot) (sampleGobDecode sampleSnapshot) [(snapshotName sampleSnapshot, Some [2])]
     = Inr (sampleSnapshot, snapshotName sampleSnapshot)"
proof -
  have "settled emptyDisk" "\<forall>n\<in>snapNames (contents emptyDisk). n \<le> snapshotName sampleSnapshot"
    by (simp_all add: settled_def emptyDisk_def snapNames_def contents_def)
  then show ?thesis
    using snapshot_save_is_atomic [OF _ sample_gob_ok _ sample_save] sample_image by auto
qed

end
