(* ===== verification/Metrics.thy ===== *)
theory Metrics
  imports Prelude
begin

text \<open>
  Metrics (\<open>internal/metrics/metrics.go\<close>).  A call on the interface \<open>Sink\<close> is a value, so that a component
  that reports metrics has a list of calls in its state; the collector is what it makes of such a list.
\<close>

subsection \<open>Calls on a sink\<close>

datatype metricCall =
    ObserveSubmitLatency int64
  | IncAccepted
  | IncRejected
  | IncBackpressure
  | ObserveShardQueueDepth int
  | ObserveIngressQueueDepth int
  | ObserveWALBatch int int
  | ObserveWALSyncLatency int64
  | ObserveSnapshotPause int64

subsection \<open>Reservoirs\<close>

record reservoir =
  rv_count :: uint64
  rv_next :: uint64
  rv_slots :: "int64 list"

definition reservoirSize :: nat where
  "reservoirSize = 2048"

definition emptyReservoir :: reservoir where
  "emptyReservoir = \<lparr>rv_count = 0, rv_next = 0, rv_slots = replicate reservoirSize 0\<rparr>"

definition reservoir_add :: "reservoir \<Rightarrow> int64 \<Rightarrow> reservoir" where
  "reservoir_add r v = r\<lparr>rv_slots := (rv_slots r)[unat (rv_next r mod of_nat reservoirSize) := v],
     rv_next := rv_next r + 1, rv_count := rv_count r + 1\<rparr>"

definition reservoir_snapshot :: "reservoir \<Rightarrow> uint64 \<times> int64 list" where
  "reservoir_snapshot r =
     (let limit = (if rv_count r < of_nat reservoirSize then unat (rv_count r) else reservoirSize);
          start = rv_next r - of_nat limit in
      (rv_count r, map (\<lambda>i. rv_slots r ! unat ((start + of_nat i) mod of_nat reservoirSize)) [0..<limit]))"

subsection \<open>The collector\<close>

record Collector =
  co_accepted :: uint64
  co_rejected :: uint64
  co_backpressure :: uint64
  co_ingressHWM :: uint64
  co_shardHWM :: uint64
  co_walBatches :: uint64
  co_walBatchCommandsSum :: uint64
  co_walBatchBytesSum :: uint64
  co_submits :: reservoir
  co_walSync :: reservoir
  co_snapshots :: reservoir

definition NewCollector :: Collector where
  "NewCollector = \<lparr>co_accepted = 0, co_rejected = 0, co_backpressure = 0, co_ingressHWM = 0, co_shardHWM = 0,
     co_walBatches = 0, co_walBatchCommandsSum = 0, co_walBatchBytesSum = 0,
     co_submits = emptyReservoir, co_walSync = emptyReservoir, co_snapshots = emptyReservoir\<rparr>"

text \<open>\<open>Duration.Microseconds\<close> divides nanoseconds by 1000; the argument is positive here.\<close>

definition durationToMicros :: "int64 \<Rightarrow> int64" where
  "durationToMicros d = (if d \<le>s 0 then 0 else word_of_int (sint d div 1000))"

text \<open>The loop of \<open>updateHWM\<close>, whose compare-and-swap succeeds when the call is not disturbed.\<close>

definition updateHWM :: "uint64 \<Rightarrow> uint64 \<Rightarrow> uint64" where
  "updateHWM current v = (if v \<le> current then current else v)"

definition depthWord :: "int \<Rightarrow> uint64" where
  "depthWord depth = word_of_int (if depth < 0 then 0 else depth)"

fun observe :: "metricCall \<Rightarrow> Collector \<Rightarrow> Collector" where
  "observe (ObserveSubmitLatency d) c = c\<lparr>co_submits := reservoir_add (co_submits c) (durationToMicros d)\<rparr>"
| "observe IncAccepted c = c\<lparr>co_accepted := co_accepted c + 1\<rparr>"
| "observe IncRejected c = c\<lparr>co_rejected := co_rejected c + 1\<rparr>"
| "observe IncBackpressure c = c\<lparr>co_backpressure := co_backpressure c + 1\<rparr>"
| "observe (ObserveShardQueueDepth depth) c = c\<lparr>co_shardHWM := updateHWM (co_shardHWM c) (depthWord depth)\<rparr>"
| "observe (ObserveIngressQueueDepth depth) c = c\<lparr>co_ingressHWM := updateHWM (co_ingressHWM c) (depthWord depth)\<rparr>"
| "observe (ObserveWALBatch commands bytes) c = c\<lparr>co_walBatches := co_walBatches c + 1,
     co_walBatchCommandsSum := co_walBatchCommandsSum c + depthWord commands,
     co_walBatchBytesSum := co_walBatchBytesSum c + depthWord bytes\<rparr>"
| "observe (ObserveWALSyncLatency d) c = c\<lparr>co_walSync := reservoir_add (co_walSync c) (durationToMicros d)\<rparr>"
| "observe (ObserveSnapshotPause d) c = c\<lparr>co_snapshots := reservoir_add (co_snapshots c) (durationToMicros d)\<rparr>"

definition collected :: "metricCall list \<Rightarrow> Collector" where
  "collected calls = fold observe calls NewCollector"

subsection \<open>A reservoir has the latest values\<close>

definition holds :: "reservoir \<Rightarrow> int64 list \<Rightarrow> bool" where
  "holds r vs \<longleftrightarrow> rv_count r = of_nat (length vs) \<and> rv_next r = of_nat (length vs) \<and> length (rv_slots r) = reservoirSize
     \<and> (\<forall>i<length vs. length vs \<le> i + reservoirSize \<longrightarrow> rv_slots r ! (i mod reservoirSize) = vs ! i)"

lemma reservoirSize_pos [simp]: "0 < reservoirSize" by (simp add: reservoirSize_def)

lemma unat_small: "n < 2 ^ 64 \<Longrightarrow> unat (of_nat n :: uint64) = n"
  by (simp add: unat_of_nat take_bit_nat_eq_self)

lemma unat_slot: "n < 2 ^ 64 \<Longrightarrow> unat ((of_nat n :: uint64) mod of_nat reservoirSize) = n mod reservoirSize"
  by (simp add: unat_mod_distrib unat_small reservoirSize_def)

lemma holds_add:
  assumes "holds r vs" and "length vs < 2 ^ 64"
  shows "holds (reservoir_add r v) (vs @ [v])"
proof -
  let ?n = "length vs" and ?R = reservoirSize
  have "(rv_slots r)[?n mod ?R := v] ! (i mod ?R) = (vs @ [v]) ! i" if i: "i < Suc ?n" "Suc ?n \<le> i + ?R" for i
  proof (cases "i = ?n")
    case False
    then have "i < ?n" "?n < i + ?R" using i by simp_all
    then have "i mod ?R \<noteq> ?n mod ?R" by (metis le_add_diff_inverse less_imp_le_nat mod_eq_dvd_iff_nat nat_dvd_not_less zero_less_diff add_less_cancel_left)
    then show ?thesis using assms(1) \<open>i < ?n\<close> \<open>?n < i + ?R\<close> by (simp add: holds_def nth_append)
  qed (use assms(1) in \<open>simp add: holds_def\<close>)
  then show ?thesis using assms by (simp add: holds_def reservoir_add_def unat_slot)
qed

lemma holds_fold:
  assumes "holds r us" and "length (us @ vs) \<le> 2 ^ 64"
  shows "holds (foldl reservoir_add r vs) (us @ vs)"
  using assms
proof (induction vs arbitrary: r us)
  case (Cons v vs)
  then show ?case using holds_add [of r us v] Cons.IH [of "reservoir_add r v" "us @ [v]"] by simp
qed simp

lemma holds_empty: "holds emptyReservoir []"
  by (simp add: holds_def emptyReservoir_def)

lemma holds_snapshot:
  assumes "holds r vs" and "length vs < 2 ^ 64"
  shows "reservoir_snapshot r = (of_nat (length vs), drop (length vs - reservoirSize) vs)"
proof -
  let ?n = "length vs" and ?R = reservoirSize
  have "((of_nat ?n :: uint64) < of_nat ?R) = (?n < ?R)"
    using assms(2) by (simp add: word_less_nat_alt unat_small reservoirSize_def)
  then have lim: "(if rv_count r < of_nat ?R then unat (rv_count r) else ?R) = min ?n ?R"
    using assms by (simp add: holds_def unat_small min_def)
  have slot: "rv_slots r ! unat ((rv_next r - of_nat (min ?n ?R) + of_nat i) mod of_nat ?R) = vs ! (?n - min ?n ?R + i)"
    if "i < min ?n ?R" for i
  proof -
    define j where "j = ?n - min ?n ?R + i"
    have "rv_next r - of_nat (min ?n ?R) + of_nat i = (of_nat j :: uint64)"
      using assms(1) by (simp add: holds_def of_nat_diff j_def)
    moreover have "j < ?n" "?n \<le> j + ?R" using that by (auto simp: j_def min_def split: if_splits)
    ultimately show ?thesis using assms unat_slot [of j] by (simp add: holds_def flip: j_def)
  qed
  have "map (\<lambda>i. rv_slots r ! unat ((rv_next r - of_nat (min ?n ?R) + of_nat i) mod of_nat ?R)) [0..<min ?n ?R] = drop (?n - ?R) vs"
    using slot by (intro nth_equalityI) (auto simp: min_def)
  then show ?thesis using assms(1) by (simp add: reservoir_snapshot_def lim Let_def) (simp add: holds_def)
qed

subsection \<open>The collector counts\<close>

definition submitLatencies :: "metricCall list \<Rightarrow> int64 list" where
  "submitLatencies calls = concat (map (\<lambda>m. case m of ObserveSubmitLatency d \<Rightarrow> [durationToMicros d] | _ \<Rightarrow> []) calls)"

definition syncLatencies :: "metricCall list \<Rightarrow> int64 list" where
  "syncLatencies calls = concat (map (\<lambda>m. case m of ObserveWALSyncLatency d \<Rightarrow> [durationToMicros d] | _ \<Rightarrow> []) calls)"

definition snapshotPauses :: "metricCall list \<Rightarrow> int64 list" where
  "snapshotPauses calls = concat (map (\<lambda>m. case m of ObserveSnapshotPause d \<Rightarrow> [durationToMicros d] | _ \<Rightarrow> []) calls)"

definition ingressDepths :: "metricCall list \<Rightarrow> uint64 list" where
  "ingressDepths calls = concat (map (\<lambda>m. case m of ObserveIngressQueueDepth n \<Rightarrow> [depthWord n] | _ \<Rightarrow> []) calls)"

definition shardDepths :: "metricCall list \<Rightarrow> uint64 list" where
  "shardDepths calls = concat (map (\<lambda>m. case m of ObserveShardQueueDepth n \<Rightarrow> [depthWord n] | _ \<Rightarrow> []) calls)"

lemma updateHWM_max: "updateHWM a b = max a b"
  by (auto simp: updateHWM_def max_def)

lemma fold_observe:
  "co_accepted (fold observe calls c) = co_accepted c + of_nat (length (filter (\<lambda>m. m = IncAccepted) calls))"
  "co_rejected (fold observe calls c) = co_rejected c + of_nat (length (filter (\<lambda>m. m = IncRejected) calls))"
  "co_backpressure (fold observe calls c) = co_backpressure c + of_nat (length (filter (\<lambda>m. m = IncBackpressure) calls))"
  "co_ingressHWM (fold observe calls c) = foldl max (co_ingressHWM c) (ingressDepths calls)"
  "co_shardHWM (fold observe calls c) = foldl max (co_shardHWM c) (shardDepths calls)"
  "co_submits (fold observe calls c) = foldl reservoir_add (co_submits c) (submitLatencies calls)"
  "co_walSync (fold observe calls c) = foldl reservoir_add (co_walSync c) (syncLatencies calls)"
  "co_snapshots (fold observe calls c) = foldl reservoir_add (co_snapshots c) (snapshotPauses calls)"
proof (induction calls arbitrary: c)
  case (Cons m calls)
  { case 1 then show ?case by (cases m) (simp_all add: Cons.IH) next
    case 2 then show ?case by (cases m) (simp_all add: Cons.IH) next
    case 3 then show ?case by (cases m) (simp_all add: Cons.IH) next
    case 4 then show ?case by (cases m) (simp_all add: Cons.IH ingressDepths_def updateHWM_max) next
    case 5 then show ?case by (cases m) (simp_all add: Cons.IH shardDepths_def updateHWM_max) next
    case 6 then show ?case by (cases m) (simp_all add: Cons.IH submitLatencies_def) next
    case 7 then show ?case by (cases m) (simp_all add: Cons.IH syncLatencies_def) next
    case 8 then show ?case by (cases m) (simp_all add: Cons.IH snapshotPauses_def) }
qed (simp_all add: ingressDepths_def shardDepths_def submitLatencies_def syncLatencies_def snapshotPauses_def)

lemma foldl_max: "foldl max (m :: uint64) xs = Max (set (m # xs))"
proof (induction xs arbitrary: m)
  case (Cons x xs)
  then show ?case by (cases "xs = []") (auto simp: max.assoc)
qed simp

lemma latest_values:
  "length vs < 2 ^ 64 \<Longrightarrow> reservoir_snapshot (foldl reservoir_add emptyReservoir vs) = (of_nat (length vs), drop (length vs - reservoirSize) vs)"
  using holds_snapshot [OF holds_fold [OF holds_empty]] by simp

lemma few_values: "length (submitLatencies calls) \<le> length calls" "length (syncLatencies calls) \<le> length calls"
  "length (snapshotPauses calls) \<le> length calls"
proof (induction calls)
  case (Cons m calls)
  { case 1 then show ?case using Cons.IH by (cases m) (simp_all add: submitLatencies_def) next
    case 2 then show ?case using Cons.IH by (cases m) (simp_all add: syncLatencies_def) next
    case 3 then show ?case using Cons.IH by (cases m) (simp_all add: snapshotPauses_def) }
qed (simp_all add: submitLatencies_def syncLatencies_def snapshotPauses_def)

text \<open>The sizes of the batches that were reported.\<close>

definition batchSizes :: "metricCall list \<Rightarrow> (uint64 \<times> uint64) list" where
  "batchSizes calls = concat (map (\<lambda>m. case m of ObserveWALBatch n b \<Rightarrow> [(depthWord n, depthWord b)] | _ \<Rightarrow> []) calls)"

lemma fold_batches:
  "co_walBatches (fold observe calls c) = co_walBatches c + of_nat (length (batchSizes calls))
   \<and> co_walBatchCommandsSum (fold observe calls c) = co_walBatchCommandsSum c + sum_list (map fst (batchSizes calls))
   \<and> co_walBatchBytesSum (fold observe calls c) = co_walBatchBytesSum c + sum_list (map snd (batchSizes calls))"
proof (induction calls arbitrary: c)
  case (Cons m calls)
  then show ?case by (cases m) (simp_all add: batchSizes_def)
qed (simp add: batchSizes_def)

lemma collected_batches:
  "co_walBatches (collected calls) = of_nat (length (batchSizes calls))
   \<and> co_walBatchCommandsSum (collected calls) = sum_list (map fst (batchSizes calls))
   \<and> co_walBatchBytesSum (collected calls) = sum_list (map snd (batchSizes calls))"
  using fold_batches [of calls NewCollector] by (simp add: collected_def NewCollector_def)

text \<open>The collector after a list of calls.\<close>

lemma collected_calls:
  assumes "length calls < 2 ^ 64"
  shows "unat (co_accepted (collected calls)) = length (filter (\<lambda>m. m = IncAccepted) calls)
    \<and> unat (co_rejected (collected calls)) = length (filter (\<lambda>m. m = IncRejected) calls)
    \<and> unat (co_backpressure (collected calls)) = length (filter (\<lambda>m. m = IncBackpressure) calls)
    \<and> co_ingressHWM (collected calls) = Max (set (0 # ingressDepths calls))
    \<and> co_shardHWM (collected calls) = Max (set (0 # shardDepths calls))
    \<and> reservoir_snapshot (co_submits (collected calls))
        = (of_nat (length (submitLatencies calls)), drop (length (submitLatencies calls) - 2048) (submitLatencies calls))
    \<and> reservoir_snapshot (co_walSync (collected calls))
        = (of_nat (length (syncLatencies calls)), drop (length (syncLatencies calls) - 2048) (syncLatencies calls))
    \<and> reservoir_snapshot (co_snapshots (collected calls))
        = (of_nat (length (snapshotPauses calls)), drop (length (snapshotPauses calls) - 2048) (snapshotPauses calls))"
proof -
  have n: "length (filter P calls) < 2 ^ 64" for P using assms length_filter_le [of P calls] by linarith
  have few: "length (submitLatencies calls) < 2 ^ 64" "length (syncLatencies calls) < 2 ^ 64" "length (snapshotPauses calls) < 2 ^ 64"
    using few_values [of calls] assms by linarith+
  show ?thesis
    using unat_small [OF n] latest_values [OF few(1)] latest_values [OF few(2)] latest_values [OF few(3)]
    by (simp add: collected_def fold_observe foldl_max NewCollector_def reservoirSize_def del: list.set)
qed

end
