(* ===== verification/Sequencer.thy ===== *)
theory Sequencer
  imports Model_Types Metrics
begin

text \<open>
  The sequencer (\<open>internal/ingress/sequencer.go\<close>).  Callers put requests into one channel; a goroutine takes
  them in order, gives each command its sequence number and hands it to the inbox of its shard, and passes
  barriers and drains to all shards in turn.  Each call and each part of the goroutine between two
  points at which it may wait is one step.
\<close>

subsection \<open>Messages and requests\<close>

text \<open>
  Reply, result, answer and release channels are known by numbers.  The kinds of messages and requests are
  constructors, so the panic on an unknown kind has no counterpart.
\<close>

datatype Routed =
    RoutedCommand Command nat
  | RoutedBarrier nat
  | RoutedDrain nat nat

datatype request =
    RequestCommand Command nat
  | RequestBarrier nat
  | RequestDrain nat nat
  | RequestShutdown nat

datatype seq_err = ErrBackpressure | ErrSequencerClosed | ErrSequenceExhausted | ErrContext

text \<open>
  Where the goroutine is: at the channel, before a send of a command to an inbox, in the loop over
  the inboxes with the first error so far, waiting for the answer of a shard, waiting for the release of a
  drain, or at its end.
\<close>

datatype 'e seqPoint =
    AtQueue
  | Sending nat Routed
  | Broadcasting request nat "'e option"
  | AwaitAnswer request nat "'e option" nat
  | AwaitRelease nat
  | SeqEnded
  | SeqPanic

text \<open>
  The fields of \<open>Sequencer\<close>, the contents of the channels, and what has happened on them: replies, results,
  answers of the shards, and, for the statements, all requests accepted and all messages sent to inboxes.
\<close>

record 'e Sequencer =
  sq_shardFor :: "string \<Rightarrow> int option"
  sq_queueSize :: nat
  sq_inboxSize :: nat
  sq_nextSeq :: uint64
  sq_closed :: bool
  sq_done :: bool
  sq_closers :: "nat list"
  sq_ingressQ :: "request list"
  sq_inboxes :: "Routed list list"
  sq_inboxesClosed :: bool
  sq_point :: "'e seqPoint"
  sq_nextChan :: nat
  sq_metrics :: "metricCall list"
  sq_replies :: "(nat \<times> (seq_err + Result)) list"
  sq_results :: "(nat \<times> 'e option) list"
  sq_closedDones :: "nat list"
  sq_answers :: "(nat \<times> 'e option) list"
  sq_released :: "nat list"
  sq_submitted :: "request list"
  sq_sent :: "(nat \<times> Routed) list"

definition NewSequencer :: "nat \<Rightarrow> uint64 \<Rightarrow> nat \<Rightarrow> nat \<Rightarrow> (string \<Rightarrow> int option) \<Rightarrow> 'e Sequencer" where
  "NewSequencer queueSize initialSequence shards inboxSize shardFor =
     \<lparr>sq_shardFor = shardFor, sq_queueSize = queueSize, sq_inboxSize = inboxSize,
      sq_nextSeq = (if initialSequence = 0 then 1 else initialSequence),
      sq_closed = False, sq_done = False, sq_closers = [], sq_ingressQ = [], sq_inboxes = replicate shards [], sq_inboxesClosed = False,
      sq_point = AtQueue, sq_nextChan = 0, sq_metrics = [], sq_replies = [], sq_results = [], sq_closedDones = [],
      sq_answers = [], sq_released = [], sq_submitted = [], sq_sent = []\<rparr>"

subsection \<open>Calls\<close>

definition enqueue :: "request \<Rightarrow> 'e Sequencer \<Rightarrow> 'e Sequencer" where
  "enqueue req s = s\<lparr>sq_ingressQ := sq_ingressQ s @ [req], sq_submitted := sq_submitted s @ [req]\<rparr>"

definition queueRoom :: "'e Sequencer \<Rightarrow> bool" where
  "queueRoom s \<longleftrightarrow> length (sq_ingressQ s) < sq_queueSize s"

definition observeSeq :: "metricCall \<Rightarrow> 'e Sequencer \<Rightarrow> 'e Sequencer" where
  "observeSeq m s = s\<lparr>sq_metrics := sq_metrics s @ [m]\<rparr>"

text \<open>
  A call that has to wait has no value here: it goes on when there is room, or returns \<open>ErrContext\<close> when its context
  ends.  The read lock is held from the check to the send, so a call and \<open>markClosed\<close> do not interleave.
\<close>

definition SubmitBlocking :: "Command \<Rightarrow> nat \<Rightarrow> 'e Sequencer \<Rightarrow> (seq_err option \<times> 'e Sequencer) option" where
  "SubmitBlocking cmd reply s =
     (if sq_closed s then Some (Some ErrSequencerClosed, s)
      else if queueRoom s
      then (let s' = enqueue (RequestCommand cmd reply) s in
        Some (None, observeSeq (ObserveIngressQueueDepth (int (length (sq_ingressQ s')))) s'))
      else None)"

definition SubmitNonBlocking :: "Command \<Rightarrow> nat \<Rightarrow> 'e Sequencer \<Rightarrow> seq_err option \<times> 'e Sequencer" where
  "SubmitNonBlocking cmd reply s =
     (if sq_closed s then (Some ErrSequencerClosed, s)
      else if queueRoom s
      then (let s' = enqueue (RequestCommand cmd reply) s in
        (None, observeSeq (ObserveIngressQueueDepth (int (length (sq_ingressQ s')))) s'))
      else (Some ErrBackpressure, observeSeq IncBackpressure s))"

text \<open>\<open>Barrier\<close> and \<open>AcquireDrain\<close> up to the wait for the result.\<close>

definition BarrierSend :: "nat \<Rightarrow> 'e Sequencer \<Rightarrow> (seq_err option \<times> 'e Sequencer) option" where
  "BarrierSend result s =
     (if sq_closed s then Some (Some ErrSequencerClosed, s)
      else if queueRoom s then Some (None, enqueue (RequestBarrier result) s) else None)"

definition DrainSend :: "nat \<Rightarrow> nat \<Rightarrow> 'e Sequencer \<Rightarrow> (seq_err option \<times> 'e Sequencer) option" where
  "DrainSend result release s =
     (if sq_closed s then Some (Some ErrSequencerClosed, s)
      else if queueRoom s then Some (None, enqueue (RequestDrain result release) s) else None)"

definition closeRelease :: "nat \<Rightarrow> 'e Sequencer \<Rightarrow> 'e Sequencer" where
  "closeRelease release s = s\<lparr>sq_released := release # sq_released s\<rparr>"

text \<open>
  The ends of \<open>Barrier\<close> and \<open>AcquireDrain\<close>: \<open>None\<close> while there is no result.  A drain that failed is released at once, and so is one whose
  context has ended.
\<close>

definition BarrierReturn :: "nat \<Rightarrow> 'e Sequencer \<Rightarrow> 'e option option" where
  "BarrierReturn result s = map_of (sq_results s) result"

definition DrainReturn :: "nat \<Rightarrow> nat \<Rightarrow> 'e Sequencer \<Rightarrow> ('e option \<times> 'e Sequencer) option" where
  "DrainReturn result release s =
     (case map_of (sq_results s) result of
        None \<Rightarrow> None
      | Some (Some err) \<Rightarrow> Some (Some err, closeRelease release s)
      | Some None \<Rightarrow> Some (None, s))"

definition DrainCancel :: "nat \<Rightarrow> 'e Sequencer \<Rightarrow> seq_err \<times> 'e Sequencer" where
  "DrainCancel release s = (ErrContext, closeRelease release s)"

text \<open>
  \<open>Shutdown\<close>: \<open>markClosed\<close>, and then, not under the lock, the send of the request or the end of the context.  A call
  between the two is in \<open>sq_closers\<close>.  A call that finds the sequencer closed only waits for it to end.
\<close>

definition seqMarkClosed :: "nat \<Rightarrow> 'e Sequencer \<Rightarrow> bool \<times> 'e Sequencer" where
  "seqMarkClosed done s = (if sq_closed s then (False, s) else (True, s\<lparr>sq_closed := True, sq_closers := done # sq_closers s\<rparr>))"

definition ShutdownSend :: "nat \<Rightarrow> 'e Sequencer \<Rightarrow> 'e Sequencer option" where
  "ShutdownSend done s =
     (if queueRoom s then Some (enqueue (RequestShutdown done) (s\<lparr>sq_closers := remove1 done (sq_closers s)\<rparr>)) else None)"

definition ShutdownCancel :: "nat \<Rightarrow> 'e Sequencer \<Rightarrow> seq_err \<times> 'e Sequencer" where
  "ShutdownCancel done s = (ErrContext, s\<lparr>sq_closers := remove1 done (sq_closers s)\<rparr>)"

text \<open>What \<open>Shutdown\<close> returns after its request was taken, and what a later call returns: no error; \<open>None\<close> while they wait.\<close>

definition seqShutdownReturn :: "nat \<Rightarrow> 'e Sequencer \<Rightarrow> seq_err option option" where
  "seqShutdownReturn ch s = (if ch \<in> set (sq_closedDones s) then Some None else None)"

definition seqShutdownAgain :: "'e Sequencer \<Rightarrow> seq_err option option" where
  "seqShutdownAgain s = (if sq_closed s \<and> sq_done s then Some None else None)"

subsection \<open>The goroutine\<close>

definition invalidSymbolResult :: "uint64 \<Rightarrow> uint64 \<Rightarrow> Result" where
  "invalidSymbolResult seq orderID = \<lparr>res_CommandSeq = seq,
     res_Events = [zeroEvent\<lparr>ev_Type := EventRejected, ev_Reason := RejectInvalidSymbol, ev_OrderID := orderID\<rparr>]\<rparr>"

definition replySeq :: "nat \<Rightarrow> seq_err + Result \<Rightarrow> 'e Sequencer \<Rightarrow> 'e Sequencer" where
  "replySeq reply out s = s\<lparr>sq_replies := sq_replies s @ [(reply, out)]\<rparr>"

text \<open>A command: no shard, no sequence number left, or the next number and a send.\<close>

definition takeCommand :: "Command \<Rightarrow> nat \<Rightarrow> 'e Sequencer \<Rightarrow> 'e Sequencer" where
  "takeCommand cmd reply s =
     (case sq_shardFor s (cmd_Symbol cmd) of
        None \<Rightarrow> replySeq reply (Inr (invalidSymbolResult 0 (cmd_OrderID cmd))) (observeSeq IncRejected s)
      | Some shardID \<Rightarrow>
          if sq_nextSeq s = 0 then replySeq reply (Inl ErrSequenceExhausted) s
          else (let s' = s\<lparr>sq_nextSeq := sq_nextSeq s + 1\<rparr>; cmd' = cmd\<lparr>cmd_Seq := sq_nextSeq s\<rparr> in
            if shardID < 0 \<or> int (length (sq_inboxes s)) \<le> shardID then s'\<lparr>sq_point := SeqPanic\<rparr>
            else (observeSeq (ObserveShardQueueDepth (int (length (sq_inboxes s ! nat shardID)))) s')
                   \<lparr>sq_point := Sending (nat shardID) (RoutedCommand cmd' reply)\<rparr>))"

fun takeRequest :: "request \<Rightarrow> 'e Sequencer \<Rightarrow> 'e Sequencer" where
  "takeRequest (RequestCommand cmd reply) s = takeCommand cmd reply s"
| "takeRequest (RequestBarrier result) s = s\<lparr>sq_point := Broadcasting (RequestBarrier result) 0 None\<rparr>"
| "takeRequest (RequestDrain result release) s = s\<lparr>sq_point := Broadcasting (RequestDrain result release) 0 None\<rparr>"
| "takeRequest (RequestShutdown done) s = s\<lparr>sq_inboxesClosed := True, sq_closedDones := sq_closedDones s @ [done],
     sq_done := True, sq_point := SeqEnded\<rparr>"

definition inboxRoom :: "nat \<Rightarrow> 'e Sequencer \<Rightarrow> bool" where
  "inboxRoom k s \<longleftrightarrow> length (sq_inboxes s ! k) < sq_inboxSize s"

definition sendInbox :: "nat \<Rightarrow> Routed \<Rightarrow> 'e Sequencer \<Rightarrow> 'e Sequencer" where
  "sendInbox k m s = s\<lparr>sq_inboxes := (sq_inboxes s)[k := sq_inboxes s ! k @ [m]], sq_sent := sq_sent s @ [(k, m)]\<rparr>"

text \<open>The message of a barrier or a drain to one shard, with a new channel for the answer.\<close>

fun broadcastMessage :: "request \<Rightarrow> nat \<Rightarrow> Routed" where
  "broadcastMessage (RequestDrain result release) ch = RoutedDrain ch release"
| "broadcastMessage req ch = RoutedBarrier ch"

fun endBroadcast :: "request \<Rightarrow> 'e option \<Rightarrow> 'e Sequencer \<Rightarrow> 'e Sequencer" where
  "endBroadcast (RequestDrain result release) firstErr s =
     s\<lparr>sq_results := sq_results s @ [(result, firstErr)], sq_point := AwaitRelease release\<rparr>"
| "endBroadcast (RequestBarrier result) firstErr s = s\<lparr>sq_results := sq_results s @ [(result, firstErr)], sq_point := AtQueue\<rparr>"
| "endBroadcast req firstErr s = s"

text \<open>What the goroutine does next; \<open>None\<close> where it waits or has ended.\<close>

definition seqRun :: "'e Sequencer \<Rightarrow> 'e Sequencer option" where
  "seqRun s = (case sq_point s of
       AtQueue \<Rightarrow> (case sq_ingressQ s of
           [] \<Rightarrow> None
         | req # reqs \<Rightarrow> Some (takeRequest req (s\<lparr>sq_ingressQ := reqs\<rparr>)))
     | Sending k m \<Rightarrow> if inboxRoom k s then Some ((sendInbox k m s)\<lparr>sq_point := AtQueue\<rparr>) else None
     | Broadcasting req k firstErr \<Rightarrow>
         if length (sq_inboxes s) \<le> k then Some (endBroadcast req firstErr s)
         else if inboxRoom k s
         then Some ((sendInbox k (broadcastMessage req (sq_nextChan s)) s)
                \<lparr>sq_nextChan := sq_nextChan s + 1, sq_point := AwaitAnswer req k firstErr (sq_nextChan s)\<rparr>)
         else None
     | AwaitAnswer req k firstErr ch \<Rightarrow> (case map_of (sq_answers s) ch of
           None \<Rightarrow> None
         | Some err \<Rightarrow> Some (s\<lparr>sq_point := Broadcasting req (k + 1) (if err \<noteq> None \<and> firstErr = None then err else firstErr)\<rparr>))
     | AwaitRelease release \<Rightarrow> if release \<in> set (sq_released s) then Some (s\<lparr>sq_point := AtQueue\<rparr>) else None
     | _ \<Rightarrow> None)"

text \<open>What the shards do to the channels: take a message, answer a barrier or a drain.\<close>

definition takeInbox :: "nat \<Rightarrow> 'e Sequencer \<Rightarrow> 'e Sequencer" where
  "takeInbox k s = s\<lparr>sq_inboxes := (sq_inboxes s)[k := tl (sq_inboxes s ! k)]\<rparr>"

definition answerSeq :: "nat \<Rightarrow> 'e option \<Rightarrow> 'e Sequencer \<Rightarrow> 'e Sequencer" where
  "answerSeq ch err s = s\<lparr>sq_answers := sq_answers s @ [(ch, err)]\<rparr>"

inductive seqstep :: "'e Sequencer \<Rightarrow> 'e Sequencer \<Rightarrow> bool" where
  seq_run: "seqRun s = Some s' \<Longrightarrow> seqstep s s'"
| seq_submit: "SubmitBlocking cmd reply s = Some (r, s') \<Longrightarrow> seqstep s s'"
| seq_try: "SubmitNonBlocking cmd reply s = (r, s') \<Longrightarrow> seqstep s s'"
| seq_barrier: "BarrierSend result s = Some (r, s') \<Longrightarrow> seqstep s s'"
| seq_drain: "DrainSend result release s = Some (r, s') \<Longrightarrow> seqstep s s'"
| seq_release: "seqstep s (closeRelease release s)"
| seq_mark: "seqMarkClosed done s = (r, s') \<Longrightarrow> seqstep s s'"
| seq_shutdown: "done \<in> set (sq_closers s) \<Longrightarrow> ShutdownSend done s = Some s' \<Longrightarrow> seqstep s s'"
| seq_shutdown_cancel: "done \<in> set (sq_closers s) \<Longrightarrow> ShutdownCancel done s = (r, s') \<Longrightarrow> seqstep s s'"
| seq_take: "k < length (sq_inboxes s) \<Longrightarrow> sq_inboxes s ! k \<noteq> [] \<Longrightarrow> seqstep s (takeInbox k s)"
| seq_answer: "seqstep s (answerSeq ch err s)"

end
