(* ===== verification/Registry.thy ===== *)
theory Registry
  imports Byte_Codec
begin

text \<open>
  Routing of symbols to shards (\<open>internal/shard/registry.go\<close>) and the configuration
  (\<open>internal/config/config.go\<close>).  A symbol goes to the shard given by the FNV-1a hash of its bytes.
  Go's map from shard to symbols gives the empty slice for a missing key.
\<close>

subsection \<open>FNV-1a\<close>

definition fnvByte :: "uint32 \<Rightarrow> byte \<Rightarrow> uint32" where
  "fnvByte h b = xor h (ucast b) * 16777619"

definition fnv32a :: "byte list \<Rightarrow> uint32" where
  "fnv32a bs = foldl fnvByte 2166136261 bs"

text \<open>The hash of the published test vector ''a''.\<close>

lemma fnv_check_value: "fnv32a [97] = 0xE40C292C"
  by code_simp

subsection \<open>The registry\<close>

record SymbolRegistry =
  reg_shardCount :: int
  reg_bySymbol :: "string \<rightharpoonup> int"
  reg_symbolsByShard :: "int \<Rightarrow> string list"

text \<open>\<open>None\<close> is the panic of the division by a shard count that is zero as a \<open>uint32\<close>.\<close>

definition stableShardID :: "string \<Rightarrow> int \<Rightarrow> int option" where
  "stableShardID symbol shardCount =
     (let n = word_of_int shardCount :: uint32 in
      if n = 0 then None else Some (uint (fnv32a (stringBytes symbol) mod n)))"

fun registerSymbols :: "SymbolRegistry \<Rightarrow> string list \<Rightarrow> (error + SymbolRegistry) option" where
  "registerSymbols registry [] = Some (Inr registry)"
| "registerSymbols registry (symbol # symbols) =
     (if symbol = [] then Some (Inl ''symbol cannot be empty'')
      else if reg_bySymbol registry symbol \<noteq> None then Some (Inl (''duplicate symbol: '' @ symbol))
      else Option.bind (stableShardID symbol (reg_shardCount registry)) (\<lambda>shardID.
        registerSymbols (registry\<lparr>reg_bySymbol := (reg_bySymbol registry)(symbol \<mapsto> shardID),
          reg_symbolsByShard := (reg_symbolsByShard registry)
            (shardID := reg_symbolsByShard registry shardID @ [symbol])\<rparr>) symbols))"

definition NewSymbolRegistry :: "string list \<Rightarrow> int \<Rightarrow> (error + SymbolRegistry) option" where
  "NewSymbolRegistry symbols shardCount =
     (if shardCount \<le> 0 then Some (Inl ''shard count must be positive'')
      else if symbols = [] then Some (Inl ''symbols cannot be empty'')
      else registerSymbols \<lparr>reg_shardCount = shardCount, reg_bySymbol = Map.empty,
             reg_symbolsByShard = (\<lambda>_. [])\<rparr> symbols)"

definition ShardFor :: "SymbolRegistry \<Rightarrow> string \<Rightarrow> int option" where
  "ShardFor r symbol = reg_bySymbol r symbol"

definition ShardCount :: "SymbolRegistry \<Rightarrow> int" where
  "ShardCount r = reg_shardCount r"

definition SymbolsForShard :: "SymbolRegistry \<Rightarrow> int \<Rightarrow> string list" where
  "SymbolsForShard r shardID = reg_symbolsByShard r shardID"

subsection \<open>Lemmas\<close>

lemma stableShardID_range:
  assumes "0 < n" and "n < 2 ^ 32"
  shows "\<exists>k. stableShardID symbol n = Some k \<and> 0 \<le> k \<and> k < n"
proof -
  have u: "uint (word_of_int n :: uint32) = n" using assms by (simp add: unsigned_of_int take_bit_int_eq_self)
  have "uint (fnv32a (stringBytes symbol) mod word_of_int n) < n"
    using assms by (simp add: uint_mod_distrib u)
  moreover have "(word_of_int n :: uint32) \<noteq> 0" using u assms by (metis less_irrefl unsigned_0)
  ultimately show ?thesis by (simp add: stableShardID_def Let_def)
qed

lemma registerSymbols_ok:
  assumes "0 < reg_shardCount r" and "reg_shardCount r < 2 ^ 32"
    and "distinct symbols" and "[] \<notin> set symbols" and "\<forall>s\<in>set symbols. reg_bySymbol r s = None"
  shows "\<exists>r'. registerSymbols r symbols = Some (Inr r') \<and> reg_shardCount r' = reg_shardCount r
    \<and> (\<forall>s. reg_bySymbol r' s = (if s \<in> set symbols then stableShardID s (reg_shardCount r) else reg_bySymbol r s))
    \<and> (\<forall>k. reg_symbolsByShard r' k = reg_symbolsByShard r k
          @ filter (\<lambda>s. stableShardID s (reg_shardCount r) = Some k) symbols)"
  using assms
proof (induction symbols arbitrary: r)
  case (Cons x symbols)
  obtain k where k: "stableShardID x (reg_shardCount r) = Some k"
    using stableShardID_range [OF Cons.prems(1,2)] by blast
  let ?r = "r\<lparr>reg_bySymbol := (reg_bySymbol r)(x \<mapsto> k),
      reg_symbolsByShard := (reg_symbolsByShard r)(k := reg_symbolsByShard r k @ [x])\<rparr>"
  have "\<forall>s\<in>set symbols. reg_bySymbol ?r s = None" using Cons.prems(3,5) by auto
  with Cons.IH [of ?r] Cons.prems k obtain r' where r': "registerSymbols ?r symbols = Some (Inr r')"
    "reg_shardCount r' = reg_shardCount r"
    "\<forall>s. reg_bySymbol r' s = (if s \<in> set symbols then stableShardID s (reg_shardCount r) else reg_bySymbol ?r s)"
    "\<forall>k. reg_symbolsByShard r' k = reg_symbolsByShard ?r k
          @ filter (\<lambda>s. stableShardID s (reg_shardCount r) = Some k) symbols" by auto
  show ?case using r' k Cons.prems(3-5) by (intro exI [of _ r']) auto
qed simp

lemma NewSymbolRegistry_ok:
  assumes "0 < n" and "n < 2 ^ 32" and "symbols \<noteq> []" and "distinct symbols" and "[] \<notin> set symbols"
  shows "\<exists>r. NewSymbolRegistry symbols n = Some (Inr r) \<and> ShardCount r = n
    \<and> (\<forall>s. ShardFor r s = (if s \<in> set symbols then stableShardID s n else None))
    \<and> (\<forall>k. SymbolsForShard r k = filter (\<lambda>s. stableShardID s n = Some k) symbols)"
  using assms registerSymbols_ok [of "\<lparr>reg_shardCount = n, reg_bySymbol = Map.empty, reg_symbolsByShard = (\<lambda>_. [])\<rparr>" symbols]
  by (auto simp: NewSymbolRegistry_def ShardFor_def SymbolsForShard_def ShardCount_def)

text \<open>A registry is built from symbols that are not empty and not repeated, and from no others.\<close>

lemma registerSymbols_accepts:
  assumes "registerSymbols r symbols = Some (Inr r')"
  shows "distinct symbols \<and> [] \<notin> set symbols \<and> (\<forall>s\<in>set symbols. reg_bySymbol r s = None)"
  using assms
proof (induction symbols arbitrary: r)
  case (Cons x symbols)
  then obtain k where "x \<noteq> []" "reg_bySymbol r x = None"
    "registerSymbols (r\<lparr>reg_bySymbol := (reg_bySymbol r)(x \<mapsto> k),
      reg_symbolsByShard := (reg_symbolsByShard r)(k := reg_symbolsByShard r k @ [x])\<rparr>) symbols = Some (Inr r')"
    by (auto split: if_splits bind_splits)
  with Cons.IH show ?case by (fastforce split: if_splits)
qed simp

subsection \<open>Configuration\<close>

record Config =
  cfg_EngineID :: string
  cfg_Symbols :: "string list"
  cfg_ShardCount :: int
  cfg_IngressQueueSize :: int
  cfg_ShardQueueSize :: int
  cfg_WALDir :: string
  cfg_SnapshotDir :: string
  cfg_MaxBatchCommands :: int
  cfg_MaxBatchBytes :: int
  cfg_MaxBatchDelayMicros :: int
  cfg_EnableMetrics :: bool
  cfg_MetricsReportMillis :: int

fun checkSymbols :: "string set \<Rightarrow> string list \<Rightarrow> error option" where
  "checkSymbols seen [] = None"
| "checkSymbols seen (s # ss) =
     (if s = [] then Some ''symbols cannot contain empty values''
      else if s \<in> seen then Some (''duplicate symbol: '' @ s)
      else checkSymbols (insert s seen) ss)"

definition Config_Validate :: "Config \<Rightarrow> error option" where
  "Config_Validate c =
     (if cfg_EngineID c = [] then Some ''engine_id is required''
      else if cfg_Symbols c = [] then Some ''at least one symbol is required''
      else if cfg_ShardCount c \<le> 0 then Some ''shard_count must be positive''
      else if cfg_IngressQueueSize c \<le> 0 \<or> cfg_ShardQueueSize c \<le> 0 then Some ''queue sizes must be positive''
      else if cfg_MaxBatchCommands c \<le> 0 \<or> cfg_MaxBatchBytes c \<le> 0 \<or> cfg_MaxBatchDelayMicros c \<le> 0
      then Some ''batch thresholds must be positive''
      else if cfg_WALDir c = [] \<or> cfg_SnapshotDir c = [] then Some ''wal_dir and snapshot_dir are required''
      else if cfg_MetricsReportMillis c < 0 then Some ''metrics_report_millis cannot be negative''
      else checkSymbols {} (cfg_Symbols c))"

lemma checkSymbols_None:
  "checkSymbols seen ss = None \<longleftrightarrow> distinct ss \<and> [] \<notin> set ss \<and> set ss \<inter> seen = {}"
  by (induction ss arbitrary: seen) auto

lemma Config_ValidateD:
  assumes "Config_Validate c = None"
  shows "distinct (cfg_Symbols c)" and "[] \<notin> set (cfg_Symbols c)" and "cfg_Symbols c \<noteq> []" and "0 < cfg_ShardCount c"
    and "cfg_EngineID c \<noteq> []" and "cfg_WALDir c \<noteq> []" and "0 < cfg_ShardQueueSize c"
    and "0 < cfg_MaxBatchCommands c" and "0 < cfg_MaxBatchBytes c" and "0 < cfg_MaxBatchDelayMicros c"
  using assms by (auto simp: Config_Validate_def checkSymbols_None split: if_splits)

subsection \<open>Properties\<close>

text \<open>
  C37: with a positive shard count below 2^32 and non-empty distinct symbols the registry is
  built; every symbol has one shard within the shard count, which depends only on the symbol and
  the count, no other symbol has a shard, and the symbols of a shard are exactly those
  routed to it, in the configured order.
\<close>

theorem registry_routes_every_symbol:
  assumes "0 < n" and "n < 2 ^ 32" and "symbols \<noteq> []" and "distinct symbols" and "[] \<notin> set symbols"
  shows "\<exists>r. NewSymbolRegistry symbols n = Some (Inr r) \<and> ShardCount r = n
    \<and> (\<forall>s. s \<in> set symbols \<longrightarrow> (\<exists>k. ShardFor r s = Some k \<and> 0 \<le> k \<and> k < n \<and> stableShardID s n = Some k))
    \<and> (\<forall>s. s \<notin> set symbols \<longrightarrow> ShardFor r s = None)
    \<and> (\<forall>k. SymbolsForShard r k = filter (\<lambda>s. ShardFor r s = Some k) symbols)"
proof -
  obtain r where r: "NewSymbolRegistry symbols n = Some (Inr r)" "ShardCount r = n"
    "\<forall>s. ShardFor r s = (if s \<in> set symbols then stableShardID s n else None)"
    "\<forall>k. SymbolsForShard r k = filter (\<lambda>s. stableShardID s n = Some k) symbols"
    using NewSymbolRegistry_ok [OF assms] by blast
  have "filter (\<lambda>s. stableShardID s n = Some k) symbols = filter (\<lambda>s. ShardFor r s = Some k) symbols" for k
    using r(3) by (intro filter_cong) auto
  then show ?thesis using r stableShardID_range [OF assms(1,2)] by (intro exI [of _ r]) fastforce
qed

theorem registry_routes_every_symbol_witness:
  "\<exists>r. NewSymbolRegistry [''BTC'', ''ETH''] 4 = Some (Inr r)
    \<and> (\<exists>k. ShardFor r ''ETH'' = Some k \<and> 0 \<le> k \<and> k < 4)"
  using registry_routes_every_symbol [of 4 "[''BTC'', ''ETH'']"] by auto

text \<open>
  A configuration that passes validation, with a shard count below 2^32, always gives a symbol
  registry, so the engine never stops at that step of its start.
\<close>

theorem valid_config_builds_registry:
  assumes "Config_Validate c = None" and "cfg_ShardCount c < 2 ^ 32"
  shows "\<exists>r. NewSymbolRegistry (cfg_Symbols c) (cfg_ShardCount c) = Some (Inr r)"
  using NewSymbolRegistry_ok [OF Config_ValidateD(4) [OF assms(1)] assms(2) Config_ValidateD(3,1,2) [OF assms(1)]] by blast

definition sampleConfig :: Config where
  "sampleConfig = \<lparr>cfg_EngineID = ''engine-1'', cfg_Symbols = [''BTC'', ''ETH''], cfg_ShardCount = 2,
     cfg_IngressQueueSize = 8, cfg_ShardQueueSize = 8, cfg_WALDir = ''wal'', cfg_SnapshotDir = ''snap'',
     cfg_MaxBatchCommands = 4, cfg_MaxBatchBytes = 4096, cfg_MaxBatchDelayMicros = 100,
     cfg_EnableMetrics = False, cfg_MetricsReportMillis = 0\<rparr>"

theorem valid_config_builds_registry_witness:
  "\<exists>r. NewSymbolRegistry [''BTC'', ''ETH''] 2 = Some (Inr r)"
proof -
  have c: "Config_Validate sampleConfig = None" "cfg_Symbols sampleConfig = [''BTC'', ''ETH'']" "cfg_ShardCount sampleConfig = 2"
    by (simp_all add: sampleConfig_def Config_Validate_def)
  then show ?thesis using valid_config_builds_registry [OF c(1)] by simp
qed

end
