(* ===== verification/Sequencer_Order.thy ===== *)
theory Sequencer_Order
  imports Sequencer Registry
begin

text \<open>
  The order the sequencer gives to commands.  The specification is a function of the list of
  requests: the numbered commands with their shards, and the commands that are refused.  The goroutine with its
  callers and the shards implements it, in every interleaving.
\<close>

subsection \<open>Specification\<close>

text \<open>The next number after a list of requests; zero means that the numbers are used up.\<close>

fun nextAfter :: "(string \<Rightarrow> int option) \<Rightarrow> uint64 \<Rightarrow> request list \<Rightarrow> uint64" where
  "nextAfter f n [] = n"
| "nextAfter f n (RequestCommand cmd reply # rs) = nextAfter f (if f (cmd_Symbol cmd) = None \<or> n = 0 then n else n + 1) rs"
| "nextAfter f n (r # rs) = nextAfter f n rs"

fun assign :: "(string \<Rightarrow> int option) \<Rightarrow> uint64 \<Rightarrow> request list \<Rightarrow> (nat \<times> Routed) list" where
  "assign f n [] = []"
| "assign f n (RequestCommand cmd reply # rs) = (case f (cmd_Symbol cmd) of
       None \<Rightarrow> assign f n rs
     | Some k \<Rightarrow> if n = 0 then assign f n rs
         else (nat k, RoutedCommand (cmd\<lparr>cmd_Seq := n\<rparr>) reply) # assign f (n + 1) rs)"
| "assign f n (r # rs) = assign f n rs"

fun refused :: "(string \<Rightarrow> int option) \<Rightarrow> uint64 \<Rightarrow> request list \<Rightarrow> (nat \<times> (seq_err + Result)) list" where
  "refused f n [] = []"
| "refused f n (RequestCommand cmd reply # rs) = (case f (cmd_Symbol cmd) of
       None \<Rightarrow> (reply, Inr (invalidSymbolResult 0 (cmd_OrderID cmd))) # refused f n rs
     | Some k \<Rightarrow> if n = 0 then (reply, Inl ErrSequenceExhausted) # refused f n rs else refused f (n + 1) rs)"
| "refused f n (r # rs) = refused f n rs"

lemma nextAfter_append: "nextAfter f n (rs @ qs) = nextAfter f (nextAfter f n rs) qs"
  by (induction f n rs rule: nextAfter.induct) simp_all

lemma assign_append: "assign f n (rs @ qs) = assign f n rs @ assign f (nextAfter f n rs) qs"
  by (induction f n rs rule: assign.induct) (auto split: option.split)

lemma refused_append: "refused f n (rs @ qs) = refused f n rs @ refused f (nextAfter f n rs) qs"
  by (induction f n rs rule: refused.induct) (auto split: option.split)

fun isCommand :: "Routed \<Rightarrow> bool" where
  "isCommand (RoutedCommand cmd reply) = True"
| "isCommand _ = False"

fun routedSeq :: "Routed \<Rightarrow> uint64" where
  "routedSeq (RoutedCommand cmd reply) = cmd_Seq cmd"
| "routedSeq _ = 0"

fun routedSymbol :: "Routed \<Rightarrow> string" where
  "routedSymbol (RoutedCommand cmd reply) = cmd_Symbol cmd"
| "routedSymbol _ = []"

text \<open>The numbers are above the first one and increase: they never wrap around.\<close>

lemma assign_zero: "assign f 0 rs = []"
  by (induction f "0 :: uint64" rs rule: assign.induct) (simp_all split: option.split)

lemma suc_above: "n \<le> m \<Longrightarrow> m + 1 \<noteq> 0 \<Longrightarrow> n < m + (1 :: uint64)"
  using unatSuc [of m] by (simp add: word_less_nat_alt word_le_nat_alt add.commute)

lemma assign_seqs: "n \<noteq> 0 \<Longrightarrow> sorted_wrt (<) (map (\<lambda>m. routedSeq (snd m)) (assign f n rs))
    \<and> (\<forall>m\<in>set (assign f n rs). n \<le> routedSeq (snd m) \<and> isCommand (snd m)
          \<and> (\<exists>k. f (routedSymbol (snd m)) = Some k \<and> fst m = nat k))"
proof (induction f n rs rule: assign.induct)
  case (2 f n cmd reply rs)
  show ?case
  proof (cases "f (cmd_Symbol cmd)")
    case None
    then show ?thesis using 2 by simp
  next
    case (Some k)
    show ?thesis
    proof (cases "n + 1 = 0")
      case True
      then show ?thesis using Some 2 assign_zero by simp
    next
      case False
      then have IH: "sorted_wrt (<) (map (\<lambda>m. routedSeq (snd m)) (assign f (n + 1) rs))"
        "\<forall>m\<in>set (assign f (n + 1) rs). n + 1 \<le> routedSeq (snd m) \<and> isCommand (snd m)
          \<and> (\<exists>k. f (routedSymbol (snd m)) = Some k \<and> fst m = nat k)" using 2 Some by simp_all
      have "n < routedSeq (snd m)" if "m \<in> set (assign f (n + 1) rs)" for m
        using IH(2) that suc_above [of n n] False by (blast intro: less_le_trans)
      then show ?thesis using Some IH 2(4) by (auto intro: less_imp_le)
    qed
  qed
qed simp_all

subsection \<open>The sequencer over a router\<close>

fun inHand :: "'e seqPoint \<Rightarrow> (nat \<times> Routed) list" where
  "inHand (Sending k m) = [(k, m)]"
| "inHand _ = []"

text \<open>The interface \<open>Router\<close>: the shard of a symbol is one of the shards.\<close>

locale router =
  fixes shardFor :: "string \<Rightarrow> int option" and shardCount :: int
  assumes shard_in_range: "shardFor s = Some k \<Longrightarrow> 0 \<le> k \<and> k < shardCount"
begin

definition numbered :: "uint64 \<Rightarrow> request list \<Rightarrow> 'e Sequencer \<Rightarrow> bool" where
  "numbered i handled s \<longleftrightarrow> sq_shardFor s = shardFor \<and> int (length (sq_inboxes s)) = shardCount \<and> sq_point s \<noteq> SeqPanic
     \<and> sq_submitted s = handled @ sq_ingressQ s \<and> (\<forall>m\<in>set (inHand (sq_point s)). isCommand (snd m))
     \<and> filter (\<lambda>m. isCommand (snd m)) (sq_sent s) @ inHand (sq_point s) = assign shardFor i handled
     \<and> sq_replies s = refused shardFor i handled \<and> sq_nextSeq s = nextAfter shardFor i handled"

lemma numbered_take:
  assumes "numbered i handled s" and "sq_point s = AtQueue" and "sq_ingressQ s = req # reqs"
  shows "numbered i (handled @ [req]) (takeRequest req (s\<lparr>sq_ingressQ := reqs\<rparr>))"
proof (cases req)
  case (RequestCommand cmd reply)
  show ?thesis
  proof (cases "shardFor (cmd_Symbol cmd)")
    case None
    then show ?thesis using assms RequestCommand
      by (simp add: numbered_def takeCommand_def replySeq_def observeSeq_def assign_append refused_append nextAfter_append)
  next
    case (Some k)
    then show ?thesis using assms RequestCommand shard_in_range [OF Some]
      by (simp add: numbered_def takeCommand_def replySeq_def observeSeq_def Let_def assign_append refused_append nextAfter_append)
  qed
qed (use assms in \<open>simp_all add: numbered_def assign_append refused_append nextAfter_append\<close>)

lemma numbered_endBroadcast:
  assumes "numbered i handled s" and "sq_point s = Broadcasting req k err"
  shows "numbered i handled (endBroadcast req err s)"
  using assms by (cases req) (simp_all add: numbered_def)

lemma isCommand_broadcast [simp]: "\<not> isCommand (broadcastMessage req ch)"
  by (cases req) simp_all

lemma numbered_run:
  assumes "numbered i handled s" and "seqRun s = Some s'"
  shows "\<exists>handled'. numbered i handled' s'"
proof (cases "sq_point s")
  case AtQueue
  then show ?thesis using assms numbered_take [OF assms(1) AtQueue]
    by (auto simp: seqRun_def split: list.splits)
next
  case (Sending k m)
  then have "isCommand m" using assms(1) by (simp add: numbered_def)
  then show ?thesis using Sending assms
    by (auto simp: seqRun_def numbered_def sendInbox_def split: if_splits)
next
  case (Broadcasting req k err)
  then show ?thesis using assms numbered_endBroadcast [OF assms(1) Broadcasting]
    by (auto simp: seqRun_def numbered_def sendInbox_def split: if_splits)
qed (use assms in \<open>auto simp: seqRun_def numbered_def split: if_splits option.splits\<close>)

lemma numbered_enqueue: "numbered i handled s \<Longrightarrow> numbered i handled (enqueue req s)"
  by (simp add: numbered_def enqueue_def)

lemma numbered_observe: "numbered i handled (observeSeq m s) = numbered i handled s"
  by (simp add: numbered_def observeSeq_def)

lemma numbered_step:
  assumes "seqstep s s'" and "numbered i handled s"
  shows "\<exists>handled'. numbered i handled' s'"
  using assms
proof (induction rule: seqstep.induct)
  case (seq_run s s')
  then show ?case by (blast intro: numbered_run)
next
  case (seq_submit cmd reply s r s')
  then have "numbered i handled s'"
    by (auto simp: SubmitBlocking_def numbered_enqueue numbered_observe Let_def split: if_splits)
  then show ?case by blast
next
  case (seq_try cmd reply s r s')
  then have "numbered i handled s'"
    by (auto simp: SubmitNonBlocking_def numbered_enqueue numbered_observe Let_def split: if_splits)
  then show ?case by blast
next
  case (seq_barrier result s r s')
  then have "numbered i handled s'" by (auto simp: BarrierSend_def numbered_enqueue split: if_splits)
  then show ?case by blast
next
  case (seq_drain result release s r s')
  then have "numbered i handled s'" by (auto simp: DrainSend_def numbered_enqueue split: if_splits)
  then show ?case by blast
next
  case (seq_shutdown d s s')
  have "numbered i handled (s\<lparr>sq_closers := ds\<rparr>)" for ds using seq_shutdown(3) by (simp add: numbered_def)
  then have "numbered i handled s'" using seq_shutdown(2) by (auto simp: ShutdownSend_def numbered_enqueue split: if_splits)
  then show ?case by blast
qed (auto simp: numbered_def closeRelease_def seqMarkClosed_def ShutdownCancel_def takeInbox_def answerSeq_def split: if_splits)

lemma numbered_steps:
  assumes "seqstep\<^sup>*\<^sup>* s s'" and "numbered i handled s"
  shows "\<exists>handled'. numbered i handled' s'"
  using assms by (induction rule: rtranclp_induct) (blast dest: numbered_step)+

lemma numbered_new:
  assumes "0 < shardCount" and "i \<noteq> 0"
  shows "numbered i [] (NewSequencer q i (nat shardCount) b shardFor)"
  using assms by (simp add: numbered_def NewSequencer_def)

end

subsection \<open>The registry as a router\<close>

definition registryRoute :: "string list \<Rightarrow> int \<Rightarrow> string \<Rightarrow> int option" where
  "registryRoute symbols n s = (case NewSymbolRegistry symbols n of Some (Inr r) \<Rightarrow> ShardFor r s | _ \<Rightarrow> None)"

lemma stableShardID_bound:
  assumes "0 < n" and "stableShardID s n = Some k"
  shows "0 \<le> k \<and> k < n"
proof -
  have u: "uint (word_of_int n :: uint32) \<le> n" using assms(1) by (simp add: unsigned_of_int take_bit_int_less_eq_self_iff)
  have z: "(word_of_int n :: uint32) \<noteq> 0" and k: "k = uint (fnv32a (stringBytes s) mod word_of_int n)"
    using assms(2) by (auto simp: stableShardID_def Let_def split: if_splits)
  have "uint (fnv32a (stringBytes s) mod (word_of_int n :: uint32)) < uint (word_of_int n :: uint32)"
    unfolding uint_mod_distrib using z by (intro pos_mod_bound) (simp add: order_less_le unsigned_eq_0_iff)
  then show ?thesis using u k by simp
qed

lemma registerSymbols_bound:
  assumes "registerSymbols r symbols = Some (Inr r')" and "0 < reg_shardCount r"
    and "\<forall>s k. reg_bySymbol r s = Some k \<longrightarrow> 0 \<le> k \<and> k < reg_shardCount r"
  shows "\<forall>s k. reg_bySymbol r' s = Some k \<longrightarrow> 0 \<le> k \<and> k < reg_shardCount r"
  using assms
proof (induction r symbols rule: registerSymbols.induct)
  case (2 registry symbol symbols)
  obtain k where k: "stableShardID symbol (reg_shardCount registry) = Some k" "symbol \<noteq> []" "reg_bySymbol registry symbol = None"
    using 2(2) by (auto split: if_splits simp: Option.bind_eq_Some_conv)
  let ?r = "registry\<lparr>reg_bySymbol := (reg_bySymbol registry)(symbol \<mapsto> k),
      reg_symbolsByShard := (reg_symbolsByShard registry)(k := reg_symbolsByShard registry k @ [symbol])\<rparr>"
  have "registerSymbols ?r symbols = Some (Inr r')" using 2(2) k by simp
  moreover have "\<forall>s j. reg_bySymbol ?r s = Some j \<longrightarrow> 0 \<le> j \<and> j < reg_shardCount ?r"
    using 2(4) stableShardID_bound [OF 2(3) k(1)] by simp
  ultimately have "\<forall>s j. reg_bySymbol r' s = Some j \<longrightarrow> 0 \<le> j \<and> j < reg_shardCount ?r"
    by (intro 2(1)) (use k 2(3) in simp_all)
  then show ?case by simp
qed auto

interpretation reg: router "registryRoute symbols n" n
proof
  fix s k
  assume "registryRoute symbols n s = Some k"
  then show "0 \<le> k \<and> k < n"
    using registerSymbols_bound [of "\<lparr>reg_shardCount = n, reg_bySymbol = Map.empty, reg_symbolsByShard = (\<lambda>_. [])\<rparr>" symbols]
    by (auto simp: registryRoute_def NewSymbolRegistry_def ShardFor_def split: option.splits sum.splits if_splits)
qed

subsection \<open>Shutdown\<close>

text \<open>A closed sequencer for which no shutdown request is under way never ends.\<close>

definition stranded :: "'e Sequencer \<Rightarrow> bool" where
  "stranded s \<longleftrightarrow> sq_closed s \<and> sq_closers s = [] \<and> \<not> sq_done s \<and> (\<forall>d. RequestShutdown d \<notin> set (sq_ingressQ s))"

lemma stranded_take: "stranded s \<Longrightarrow> sq_ingressQ s = req # reqs \<Longrightarrow> stranded (takeRequest req (s\<lparr>sq_ingressQ := reqs\<rparr>))"
  by (cases req) (auto simp: stranded_def takeCommand_def replySeq_def observeSeq_def Let_def split: option.splits)

lemma stranded_endBroadcast: "stranded s \<Longrightarrow> stranded (endBroadcast req err s)"
  by (cases req) (auto simp: stranded_def)

lemma stranded_point: "stranded s \<Longrightarrow> stranded (s\<lparr>sq_point := pt\<rparr>)"
  by (simp add: stranded_def)

lemma stranded_run: "stranded s \<Longrightarrow> seqRun s = Some s' \<Longrightarrow> stranded s'"
  by (auto simp: seqRun_def sendInbox_def stranded_take stranded_endBroadcast stranded_point split: seqPoint.splits list.splits if_splits option.splits)
    (simp_all add: stranded_def)

lemma stranded_step: "seqstep s s' \<Longrightarrow> stranded s \<Longrightarrow> stranded s'"
proof (induction rule: seqstep.induct)
  case (seq_run s s')
  then show ?case by (blast intro: stranded_run)
qed (auto simp: SubmitBlocking_def SubmitNonBlocking_def BarrierSend_def DrainSend_def closeRelease_def
      seqMarkClosed_def ShutdownSend_def takeInbox_def answerSeq_def observeSeq_def ShutdownCancel_def stranded_def Let_def split: if_splits)

lemma shutdown_can_be_lost:
  assumes "stranded s" and "seqstep\<^sup>*\<^sup>* s s'"
  shows "\<not> sq_done s'"
proof -
  have "stranded s'" using assms(2,1) by (induction rule: rtranclp_induct) (auto intro: stranded_step)
  then show ?thesis by (simp add: stranded_def)
qed

text \<open>A call of \<open>Shutdown\<close> whose context ends before its request is sent leaves such a sequencer.\<close>

lemma cancelled_shutdown_strands:
  assumes "\<not> sq_closed s" and "sq_closers s = []" and "\<not> sq_done s" and "\<forall>d. RequestShutdown d \<notin> set (sq_ingressQ s)"
  shows "stranded (snd (ShutdownCancel d (snd (seqMarkClosed d s))))"
  using assms by (simp add: stranded_def ShutdownCancel_def seqMarkClosed_def)

subsection \<open>Properties\<close>

text \<open>
  C28: the sequencer numbers commands in the order of the requests.  It routes with the registry, and callers, goroutine
  and shards act in any order.  Then the requests it has taken are the first of those
  submitted, in order; the commands it has sent, with the one it is about to send, are the numbered commands
  of these requests, each for the shard of its symbol; the callers of the others have been
  answered with a rejection, or with the error that the numbers are used up; and the numbers are not below the first
  one and strictly increasing, so that they never wrap around.
\<close>

theorem sequencer_numbers_commands_in_order:
  assumes "0 < n" and "i \<noteq> 0" and "seqstep\<^sup>*\<^sup>* (NewSequencer q i (nat n) b (registryRoute symbols n)) s"
  shows "\<exists>handled. sq_submitted s = handled @ sq_ingressQ s
    \<and> filter (\<lambda>m. isCommand (snd m)) (sq_sent s) @ inHand (sq_point s) = assign (registryRoute symbols n) i handled
    \<and> sq_replies s = refused (registryRoute symbols n) i handled
    \<and> sorted_wrt (<) (map (\<lambda>m. routedSeq (snd m)) (assign (registryRoute symbols n) i handled))
    \<and> (\<forall>m\<in>set (assign (registryRoute symbols n) i handled). i \<le> routedSeq (snd m)
          \<and> (\<exists>k. registryRoute symbols n (routedSymbol (snd m)) = Some k \<and> fst m = nat k))"
proof -
  obtain handled where "reg.numbered symbols n i handled s"
    using reg.numbered_steps [OF assms(3) reg.numbered_new [OF assms(1,2)]] by blast
  then show ?thesis using assign_seqs [OF assms(2), of "registryRoute symbols n" handled]
    by (intro exI [of _ handled]) (auto simp: reg.numbered_def)
qed

definition seqCommand :: Command where
  "seqCommand = \<lparr>cmd_Seq = 0, cmd_Symbol = ''BTC'', cmd_Type = CommandNew, cmd_OrderID = 1, cmd_Side = SideBuy,
     cmd_OrderType = OrderTypeLimit, cmd_TimeInForce = TIFGTC, cmd_Price = 100, cmd_Quantity = 5, cmd_NewPrice = 0, cmd_NewLeavesQty = 0\<rparr>"

definition seqStart :: "unit Sequencer" where
  "seqStart = NewSequencer 4 5 1 8 (registryRoute [''BTC''] 1)"

definition seqSubmitted :: "unit Sequencer" where
  "seqSubmitted = observeSeq (ObserveIngressQueueDepth 1) (enqueue (RequestCommand seqCommand 0) seqStart)"

theorem sequencer_numbers_commands_in_order_witness:
  "\<exists>s'. seqRun seqSubmitted = Some s' \<and> inHand (sq_point s') = [(0, RoutedCommand (seqCommand\<lparr>cmd_Seq := 5\<rparr>) 0)]"
proof -
  have r: "registryRoute [''BTC''] 1 ''BTC'' = Some 0" by code_simp
  have "SubmitBlocking seqCommand 0 seqStart = Some (None, seqSubmitted)"
    by (simp add: SubmitBlocking_def seqSubmitted_def seqStart_def NewSequencer_def queueRoom_def enqueue_def Let_def)
  then have step: "seqstep seqStart seqSubmitted" by (rule seq_submit)
  obtain s' where s': "seqRun seqSubmitted = Some s'" "sq_ingressQ s' = []" "sq_sent s' = []" "sq_submitted s' = [RequestCommand seqCommand 0]"
    by (simp add: seqRun_def seqSubmitted_def observeSeq_def enqueue_def seqStart_def NewSequencer_def takeCommand_def seqCommand_def r)
  from step seq_run [OF s'(1)] have "seqstep\<^sup>*\<^sup>* (NewSequencer 4 5 (nat 1) 8 (registryRoute [''BTC''] 1)) s'"
    unfolding seqStart_def [symmetric] by (simp add: seqStart_def)
  from sequencer_numbers_commands_in_order [OF _ _ this] s' show ?thesis by (auto simp: r seqCommand_def)
qed

end
