(* ===== verification/Journal_Codec.thy ===== *)
theory Journal_Codec
  imports Model_Types Byte_Codec
begin

text \<open>
  The log format of \<open>internal/journal/codec.go\<close>: segment headers and records as byte lists.  A
  record is a frame of a 24-byte header, a payload with the command and the result, and a CRC-32C of
  everything before it.  Decoding inverts encoding, a truncated frame is reported as an
  unexpected end of file, and a frame with a damaged byte is refused.
\<close>

subsection \<open>Data\<close>

text \<open>The errors of the codec and of the reader, with the values their messages show.\<close>

datatype journal_err =
    ErrUnexpectedEOF
  | EOF
  | ErrEngineIDTooLong
  | ErrSymbolTooLong
  | ErrPayloadTooLarge
  | ErrInvalidSegmentMagic
  | ErrInvalidRecordMagic
  | ErrUnsupportedVersion uint16
  | ErrUnsupportedRecordType uint8
  | ErrChecksumMismatch
  | ErrPayloadTail nat
  | ErrReadFile string
  | ErrDecodeHeader string journal_err
  | ErrSegmentShard uint16 uint16
  | ErrSegmentEngineID string string
  | ErrSegmentShardCount uint16 uint16
  | ErrDecodeRecord string nat journal_err
  | ErrRecordShard string nat

definition segmentMagic :: uint32 where [go_consts]: "segmentMagic = 0x53474C57"
definition recordMagic :: uint32 where [go_consts]: "recordMagic = 0x52434C57"
definition schemaVersion :: uint16 where [go_consts]: "schemaVersion = 1"
definition recordTypeExec :: uint8 where [go_consts]: "recordTypeExec = 1"

record Record =
  rec_ShardID :: uint16
  rec_CommandSeq :: uint64
  rec_Command :: Command
  rec_Result :: Result

record SegmentHeader =
  sh_EngineID :: string
  sh_ShardID :: uint16
  sh_ShardCount :: uint16

subsection \<open>Segment headers\<close>

definition EncodeSegmentHeader :: "SegmentHeader \<Rightarrow> journal_err + byte list" where
  "EncodeSegmentHeader h =
     (if length (sh_EngineID h) > 0xffff then Inl ErrEngineIDTooLong
      else Inr (putUint32 segmentMagic @ putUint16 schemaVersion @ putUint16 (sh_ShardCount h)
        @ putUint16 (sh_ShardID h) @ putUint16 (word_of_nat (length (sh_EngineID h)))
        @ stringBytes (sh_EngineID h)))"

text \<open>
  \<open>io.ReadFull\<close> on a reader with the bytes \<open>r\<close> left, as \<open>binary.Read\<close> uses it: the end of file
  before the first byte is \<open>EOF\<close>, after it \<open>ErrUnexpectedEOF\<close>.
\<close>

definition readFull :: "nat \<Rightarrow> byte list \<Rightarrow> journal_err + (byte list \<times> byte list)" where
  "readFull n r =
     (if n \<le> length r then Inr (take n r, drop n r)
      else if r = [] then Inl EOF else Inl ErrUnexpectedEOF)"

definition DecodeSegmentHeader :: "byte list \<Rightarrow> journal_err + (SegmentHeader \<times> nat)" where
  "DecodeSegmentHeader data =
     ebind (readFull 4 data) (\<lambda>(magic, r).
       if leWord magic \<noteq> segmentMagic then Inl ErrInvalidSegmentMagic
       else ebind (readFull 2 r) (\<lambda>(version, r).
         if leWord version \<noteq> schemaVersion then Inl (ErrUnsupportedVersion (leWord version))
         else ebind (readFull 2 r) (\<lambda>(shardCount, r).
           ebind (readFull 2 r) (\<lambda>(shardID, r).
             ebind (readFull 2 r) (\<lambda>(engineIDLen, r).
               ebind (readFull (unat (leWord engineIDLen :: uint16)) r) (\<lambda>(engineID, r).
                 Inr (\<lparr>sh_EngineID = bytesString engineID, sh_ShardID = leWord shardID,
                        sh_ShardCount = leWord shardCount\<rparr>, length data - length r)))))))"

subsection \<open>Encoding a record\<close>

definition payloadFixedSize :: nat where "payloadFixedSize = 58"
definition eventEncodedSize :: nat where "eventEncodedSize = 69"

text \<open>
  \<open>payloadSize\<close>.  The 64-bit product cannot wrap: a slice of events in memory has fewer than
  2^57 elements.
\<close>

definition payloadSize :: "Record \<Rightarrow> journal_err + nat" where
  "payloadSize rec =
     (if length (cmd_Symbol (rec_Command rec)) > 0xffff then Inl ErrSymbolTooLong
      else (let payloadLen = payloadFixedSize + length (cmd_Symbol (rec_Command rec))
                   + length (res_Events (rec_Result rec)) * eventEncodedSize in
        if payloadLen > 0xffffffff then Inl ErrPayloadTooLarge else Inr payloadLen))"

definition encodeEvent :: "Event \<Rightarrow> byte list" where
  "encodeEvent event =
     [ev_Type event] @ putUint16 (ev_Reason event) @ putUint64 (ev_OrderID event)
     @ putUint64 (ev_MakerOrderID event) @ putUint64 (ev_TakerOrderID event) @ putUint64 (ev_TradeID event)
     @ putUint64 (ev_Price event) @ putUint64 (ev_Quantity event) @ putUint64 (ev_LeavesQty event)
     @ putUint64 (ev_CanceledQty event) @ [ev_CancelReason event]
     @ [if ev_PriorityRetained event then 1 else 0]"

text \<open>\<open>encodePayload\<close>: the bytes it writes to its buffer, from offset zero to the end.\<close>

definition encodePayload :: "Record \<Rightarrow> byte list" where
  "encodePayload rec =
     (let c = rec_Command rec; r = rec_Result rec in
      putUint16 (word_of_nat (length (cmd_Symbol c))) @ stringBytes (cmd_Symbol c)
      @ [cmd_Type c] @ putUint64 (cmd_OrderID c) @ [cmd_Side c] @ [cmd_OrderType c] @ [cmd_TimeInForce c]
      @ putUint64 (cmd_Price c) @ putUint64 (cmd_Quantity c) @ putUint64 (cmd_NewPrice c)
      @ putUint64 (cmd_NewLeavesQty c) @ putUint64 (res_CommandSeq r)
      @ putUint32 (word_of_nat (length (res_Events r))) @ concat (map encodeEvent (res_Events r)))"

text \<open>The frame without its checksum: the 24-byte header and the payload.\<close>

definition frameBody :: "Record \<Rightarrow> nat \<Rightarrow> byte list" where
  "frameBody rec payloadLen =
     putUint32 recordMagic @ putUint16 schemaVersion @ [recordTypeExec] @ [0]
     @ putUint32 (word_of_nat payloadLen) @ putUint16 (rec_ShardID rec) @ putUint16 0
     @ putUint64 (rec_CommandSeq rec) @ encodePayload rec"

definition appendEncodedRecord :: "byte list \<Rightarrow> Record \<Rightarrow> journal_err + byte list" where
  "appendEncodedRecord dst rec =
     ebind (payloadSize rec) (\<lambda>payloadLen.
       Inr (dst @ frameBody rec payloadLen @ putUint32 (crcChecksum (frameBody rec payloadLen))))"

definition EncodeRecord :: "Record \<Rightarrow> journal_err + byte list" where
  "EncodeRecord rec = appendEncodedRecord [] rec"

subsection \<open>Decoding a record\<close>

text \<open>The cursor reads of \<open>decodePayload\<close>: the value and the bytes after it.\<close>

definition readUint8 :: "byte list \<Rightarrow> uint8 \<times> byte list" where
  "readUint8 bs = (leWord (take 1 bs), drop 1 bs)"

definition readUint16 :: "byte list \<Rightarrow> uint16 \<times> byte list" where
  "readUint16 bs = (leWord (take 2 bs), drop 2 bs)"

definition readUint32 :: "byte list \<Rightarrow> uint32 \<times> byte list" where
  "readUint32 bs = (leWord (take 4 bs), drop 4 bs)"

definition readUint64 :: "byte list \<Rightarrow> uint64 \<times> byte list" where
  "readUint64 bs = (leWord (take 8 bs), drop 8 bs)"

definition decodeEvent :: "byte list \<Rightarrow> Event \<times> byte list" where
  "decodeEvent bs =
     (let (ty, bs) = readUint8 bs; (reason, bs) = readUint16 bs; (oid, bs) = readUint64 bs;
          (maker, bs) = readUint64 bs; (taker, bs) = readUint64 bs; (tid, bs) = readUint64 bs;
          (price, bs) = readUint64 bs; (qty, bs) = readUint64 bs; (leaves, bs) = readUint64 bs;
          (canceled, bs) = readUint64 bs; (cr, bs) = readUint8 bs; (kept, bs) = readUint8 bs
      in (\<lparr>ev_Type = ty, ev_Reason = reason, ev_OrderID = oid, ev_MakerOrderID = maker,
           ev_TakerOrderID = taker, ev_TradeID = tid, ev_Price = price, ev_Quantity = qty,
           ev_LeavesQty = leaves, ev_CanceledQty = canceled, ev_CancelReason = cr,
           ev_PriorityRetained = (kept = 1)\<rparr>, bs))"

fun decodeEvents :: "nat \<Rightarrow> byte list \<Rightarrow> Event list" where
  "decodeEvents 0 bs = []"
| "decodeEvents (Suc n) bs = (let (e, bs) = decodeEvent bs in e # decodeEvents n bs)"

text \<open>
  \<open>decodePayload\<close>, with the shard id and sequence number of the frame header.  The check of the
  fixed size makes all reads before the events stay inside the payload, the check of the events' size
  the reads of the events.
\<close>

definition decodePayload :: "byte list \<Rightarrow> uint16 \<Rightarrow> uint64 \<Rightarrow> journal_err + Record" where
  "decodePayload payload shard sq =
     (if length payload < 2 then Inl ErrUnexpectedEOF
      else (let (symbolLen, bs) = readUint16 payload; symbolLen = unat symbolLen in
        if length payload < payloadFixedSize + symbolLen then Inl ErrUnexpectedEOF
        else (let symbol = bytesString (take symbolLen bs); bs = drop symbolLen bs;
                  (ty, bs) = readUint8 bs; (oid, bs) = readUint64 bs; (side, bs) = readUint8 bs;
                  (otype, bs) = readUint8 bs; (tif, bs) = readUint8 bs; (price, bs) = readUint64 bs;
                  (qty, bs) = readUint64 bs; (newPrice, bs) = readUint64 bs; (newLeaves, bs) = readUint64 bs;
                  (resSeq, bs) = readUint64 bs; (eventCount, bs) = readUint32 bs;
                  eventsSize = unat eventCount * eventEncodedSize; remaining = length bs in
          if eventsSize > remaining then Inl ErrUnexpectedEOF
          else if eventsSize < remaining then Inl (ErrPayloadTail (remaining - eventsSize))
          else Inr \<lparr>rec_ShardID = shard, rec_CommandSeq = sq,
            rec_Command = \<lparr>cmd_Seq = sq, cmd_Symbol = symbol, cmd_Type = ty, cmd_OrderID = oid,
              cmd_Side = side, cmd_OrderType = otype, cmd_TimeInForce = tif, cmd_Price = price,
              cmd_Quantity = qty, cmd_NewPrice = newPrice, cmd_NewLeavesQty = newLeaves\<rparr>,
            rec_Result = \<lparr>res_CommandSeq = resSeq, res_Events = decodeEvents (unat eventCount) bs\<rparr>\<rparr>)))"

text \<open>\<open>data[i:j]\<close>.\<close>

definition subslice :: "nat \<Rightarrow> nat \<Rightarrow> 'a list \<Rightarrow> 'a list" where
  "subslice i j xs = take (j - i) (drop i xs)"

definition DecodeRecord :: "byte list \<Rightarrow> journal_err + (Record \<times> nat)" where
  "DecodeRecord data =
     (if length data < 24 then Inl ErrUnexpectedEOF
      else if leWord (subslice 0 4 data) \<noteq> recordMagic then Inl ErrInvalidRecordMagic
      else if leWord (subslice 4 6 data) \<noteq> schemaVersion
        then Inl (ErrUnsupportedVersion (leWord (subslice 4 6 data)))
      else if data ! 6 \<noteq> recordTypeExec then Inl (ErrUnsupportedRecordType (data ! 6))
      else (let required = 24 + unat (leWord (subslice 8 12 data) :: uint32) + 4 in
        if required > length data then Inl ErrUnexpectedEOF
        else (let frame = take required data; want = leWord (drop (required - 4) frame) in
          if crcChecksum (take (required - 4) frame) \<noteq> want then Inl ErrChecksumMismatch
          else ebind (decodePayload (subslice 24 (required - 4) frame) (leWord (subslice 12 14 data))
                        (leWord (subslice 16 24 data)))
                 (\<lambda>rec. Inr (rec, required)))))"

subsection \<open>Decoding inverts encoding\<close>

lemma read_put [simp]:
  "readUint8 (b # bs) = (b, bs)" "readUint16 (putUint16 w @ bs) = (w, bs)"
  "readUint32 (putUint32 v @ bs) = (v, bs)" "readUint64 (putUint64 u @ bs) = (u, bs)"
  by (simp_all add: readUint8_def readUint16_def readUint32_def readUint64_def)

lemma encodeEvent_length [simp]: "length (encodeEvent e) = eventEncodedSize"
  by (simp add: encodeEvent_def eventEncodedSize_def)

lemma encodeEvents_length [simp]: "length (concat (map encodeEvent es)) = length es * eventEncodedSize"
  by (induction es) simp_all

lemma decodeEvent_encodeEvent [simp]: "decodeEvent (encodeEvent e @ bs) = (e, bs)"
  by (simp add: decodeEvent_def encodeEvent_def)

lemma decodeEvents_encode: "decodeEvents (length es) (concat (map encodeEvent es) @ bs) = es"
  by (induction es) simp_all

lemma encodePayload_length:
  "length (encodePayload rec) = payloadFixedSize + length (cmd_Symbol (rec_Command rec))
     + length (res_Events (rec_Result rec)) * eventEncodedSize"
  by (simp add: encodePayload_def payloadFixedSize_def Let_def)

text \<open>The record a frame stands for: the sequence number of the command is that of the record.\<close>

definition stored :: "Record \<Rightarrow> Record" where
  "stored rec = rec\<lparr>rec_Command := (rec_Command rec)\<lparr>cmd_Seq := rec_CommandSeq rec\<rparr>\<rparr>"

lemma decodePayload_encodePayload:
  assumes "payloadSize rec = Inr n"
  shows "decodePayload (encodePayload rec) (rec_ShardID rec) (rec_CommandSeq rec) = Inr (stored rec)"
    and "length (encodePayload rec) = n" and "n < 2 ^ 32"
proof -
  let ?c = "rec_Command rec" and ?es = "res_Events (rec_Result rec)"
  have sz: "length (cmd_Symbol ?c) < 2 ^ 16" "n < 2 ^ 32"
    "n = payloadFixedSize + length (cmd_Symbol ?c) + length ?es * eventEncodedSize"
    using assms by (auto simp: payloadSize_def Let_def split: if_splits)
  have es: "length ?es < 2 ^ 32" using sz by (simp add: eventEncodedSize_def)
  show "length (encodePayload rec) = n" and "n < 2 ^ 32" using sz encodePayload_length by simp_all
  have u: "unat (word_of_nat (length (cmd_Symbol ?c)) :: uint16) = length (cmd_Symbol ?c)"
    "unat (word_of_nat (length ?es) :: uint32) = length ?es"
    using sz(1) es by (simp_all add: unat_of_nat)
  have l: "\<not> length (encodePayload rec) < 2" "\<not> length (encodePayload rec) < payloadFixedSize + length (cmd_Symbol ?c)"
    by (simp_all add: encodePayload_length payloadFixedSize_def)
  have "decodeEvents (length ?es) (concat (map encodeEvent ?es)) = ?es"
    using decodeEvents_encode [of ?es "[]"] by simp
  then show "decodePayload (encodePayload rec) (rec_ShardID rec) (rec_CommandSeq rec) = Inr (stored rec)"
    unfolding decodePayload_def using l u
    by (simp add: encodePayload_def Let_def stored_def del: read_put(1)) simp
qed

lemma frame_fields:
  "subslice 0 4 (frameBody rec n @ xs) = putUint32 recordMagic" "subslice 4 6 (frameBody rec n @ xs) = putUint16 schemaVersion"
  "(frameBody rec n @ xs) ! 6 = recordTypeExec" "subslice 8 12 (frameBody rec n @ xs) = putUint32 (word_of_nat n)"
  "subslice 12 14 (frameBody rec n @ xs) = putUint16 (rec_ShardID rec)"
  "subslice 16 24 (frameBody rec n @ xs) = putUint64 (rec_CommandSeq rec)"
  "drop 24 (frameBody rec n @ xs) = encodePayload rec @ xs"
  by (simp_all add: subslice_def frameBody_def nth_append)

lemma frameBody_length: "length (frameBody rec n) = 24 + length (encodePayload rec)"
  by (simp add: frameBody_def)

lemma EncodeRecord_frame:
  assumes "EncodeRecord rec = Inr bs"
  obtains n where "payloadSize rec = Inr n" and "bs = frameBody rec n @ putUint32 (crcChecksum (frameBody rec n))"
    and "length (frameBody rec n) = 24 + n" and "length bs = 28 + n" and "n < 2 ^ 32"
proof -
  obtain n where n: "payloadSize rec = Inr n" "bs = frameBody rec n @ putUint32 (crcChecksum (frameBody rec n))"
    using assms by (auto simp: EncodeRecord_def appendEncodedRecord_def ebind_Inr_iff)
  then show thesis
    using that decodePayload_encodePayload(2,3) [OF n(1)] frameBody_length [of rec n] by simp
qed

lemma DecodeRecord_EncodeRecord:
  assumes "EncodeRecord rec = Inr bs"
  shows "DecodeRecord (bs @ rest) = Inr (stored rec, length bs)"
proof -
  obtain n where n: "payloadSize rec = Inr n" and bs: "bs = frameBody rec n @ putUint32 (crcChecksum (frameBody rec n))"
    and l: "length (frameBody rec n) = 24 + n" "length bs = 28 + n" "n < 2 ^ 32"
    using EncodeRecord_frame [OF assms] .
  note p = decodePayload_encodePayload [OF n]
  let ?data = "frameBody rec n @ putUint32 (crcChecksum (frameBody rec n)) @ rest"
  have u: "unat (word_of_nat n :: uint32) = n" using l(3) by (simp add: unat_of_nat)
  have fr: "take (28 + n) ?data = bs" "take (24 + n) bs = frameBody rec n"
    "drop (24 + n) bs = putUint32 (crcChecksum (frameBody rec n))" using bs l by simp_all
  have pl: "subslice 24 (24 + n) bs = encodePayload rec"
    using frame_fields(7) [of rec n "putUint32 (crcChecksum (frameBody rec n))"] p(2) bs by (simp add: subslice_def)
  have "DecodeRecord ?data = Inr (stored rec, length bs)"
    unfolding DecodeRecord_def using fr pl p(1) l bs
    by (simp add: frame_fields u Let_def add.commute)
  then show ?thesis using bs by simp
qed

text \<open>A frame of which only a part has been written.\<close>

lemma DecodeRecord_truncated:
  assumes "EncodeRecord rec = Inr bs" and "k < length bs"
  shows "DecodeRecord (take k bs) = Inl ErrUnexpectedEOF"
proof (cases "k < 24")
  case True
  then have "length (take k bs) < 24" by simp
  then show ?thesis by (simp only: DecodeRecord_def if_True)
next
  case False
  obtain n where bs: "bs = frameBody rec n @ putUint32 (crcChecksum (frameBody rec n))"
    and l: "length (frameBody rec n) = 24 + n" "length bs = 28 + n" "n < 2 ^ 32"
    using EncodeRecord_frame [OF assms(1)] .
  have u: "unat (word_of_nat n :: uint32) = n" using l(3) by (simp add: unat_of_nat)
  have t: "subslice i j (take k bs) = subslice i j bs" if "j \<le> 24" for i j
    using False that by (simp add: subslice_def drop_take min_def)
  have "take k bs ! 6 = bs ! 6" using False by simp
  then show ?thesis
    unfolding DecodeRecord_def using False assms(2) l t bs
    by (simp add: frame_fields u Let_def del: take_append)
qed

text \<open>
  A frame with one damaged byte outside the length field.  Either a check of the header fails, or
  the checksum of the body no longer agrees with the stored one, because exactly one of the two has
  changed.
\<close>

lemma DecodeRecord_damaged:
  assumes "EncodeRecord rec = Inr bs" and "i < length bs" and "b \<noteq> bs ! i" and "i < 8 \<or> 12 \<le> i"
  shows "\<exists>e. DecodeRecord (bs[i := b] @ rest) = Inl e"
proof -
  obtain n where bs: "bs = frameBody rec n @ putUint32 (crcChecksum (frameBody rec n))"
    and l: "length (frameBody rec n) = 24 + n" "length bs = 28 + n" "n < 2 ^ 32"
    using EncodeRecord_frame [OF assms(1)] .
  let ?d = "bs[i := b]"
  have u: "unat (word_of_nat n :: uint32) = n" using l(3) by (simp add: unat_of_nat)
  have "subslice 8 12 ?d = subslice 8 12 bs" using assms(4) by (auto simp: subslice_def drop_update_swap)
  then have len: "subslice 8 12 (?d @ rest) = putUint32 (word_of_nat n)"
    using l frame_fields(4) [of rec n "putUint32 (crcChecksum (frameBody rec n))"] bs by (simp add: subslice_def)
  have crc: "crcChecksum (take (24 + n) ?d) \<noteq> leWord (drop (24 + n) ?d)"
  proof (cases "i < 24 + n")
    case True
    then have "take (24 + n) ?d = (frameBody rec n)[i := b]" "drop (24 + n) ?d = putUint32 (crcChecksum (frameBody rec n))"
      "frameBody rec n ! i \<noteq> b"
      using bs l assms(3) by (auto simp: list_update_append nth_append)
    then show ?thesis
      using crc_detects_byte [of "take i (frameBody rec n)" b "drop (Suc i) (frameBody rec n)" "frameBody rec n ! i"] True l
      by (simp add: upd_conv_take_nth_drop id_take_nth_drop [symmetric])
  next
    case False
    let ?w = "putUint32 (crcChecksum (frameBody rec n))"
    have d: "take (24 + n) ?d = frameBody rec n" "drop (24 + n) ?d = ?w[i - (24 + n) := b]"
      "?w ! (i - (24 + n)) \<noteq> b" "i - (24 + n) < 4"
      using False bs l assms(2,3) by (auto simp: list_update_append nth_append)
    then have "?w[i - (24 + n) := b] \<noteq> ?w" by (metis length_leBytes nth_list_update_eq)
    moreover have "putUint32 (leWord (?w[i - (24 + n) := b])) = ?w[i - (24 + n) := b]"
      using leBytes_leWord [of "?w[i - (24 + n) := b]", where ?'a = 32] by simp
    ultimately have "leWord (?w[i - (24 + n) := b]) \<noteq> crcChecksum (frameBody rec n)" by metis
    then show ?thesis using d by simp
  qed
  define d where "d = ?d"
  have "length d = 28 + n" "crcChecksum (take (24 + n) d) \<noteq> leWord (drop (24 + n) d)"
    "24 + unat (leWord (subslice 8 12 (d @ rest)) :: uint32) + 4 = 28 + n"
    using crc l len u by (simp_all add: d_def)
  then have "\<exists>e. DecodeRecord (d @ rest) = Inl e"
    unfolding DecodeRecord_def by (simp add: Let_def)
  then show ?thesis by (simp add: d_def)
qed

subsection \<open>Segment headers\<close>

lemma readFull_append [simp]: "readFull (length xs) (xs @ ys) = Inr (xs, ys)"
  by (simp add: readFull_def)

lemma readFull_leBytes [simp]: "readFull n (leBytes n w @ ys) = Inr (leBytes n w, ys)"
  using readFull_append [of "leBytes n w"] by simp

lemma DecodeSegmentHeader_Encode:
  assumes "EncodeSegmentHeader h = Inr bs"
  shows "DecodeSegmentHeader (bs @ rest) = Inr (h, length bs)"
proof -
  have l: "length (sh_EngineID h) < 2 ^ 16" and bs: "bs = putUint32 segmentMagic @ putUint16 schemaVersion
      @ putUint16 (sh_ShardCount h) @ putUint16 (sh_ShardID h)
      @ putUint16 (word_of_nat (length (sh_EngineID h))) @ stringBytes (sh_EngineID h)"
    using assms by (auto simp: EncodeSegmentHeader_def split: if_splits)
  have u: "unat (word_of_nat (length (sh_EngineID h)) :: uint16) = length (stringBytes (sh_EngineID h))"
    using l by (simp add: unat_of_nat)
  show ?thesis unfolding DecodeSegmentHeader_def bs by (simp add: u del: length_stringBytes)
qed

text \<open>
  Reading past the end of a truncated header: all reads before the cut see the bytes that were
  written, so the only possible error is the end of the file.
\<close>

lemma DecodeSegmentHeader_truncated:
  assumes "EncodeSegmentHeader h = Inr bs" and "k < length bs"
  shows "DecodeSegmentHeader (take k bs) = Inl EOF \<or> DecodeSegmentHeader (take k bs) = Inl ErrUnexpectedEOF"
proof -
  let ?id = "stringBytes (sh_EngineID h)"
  have l: "length (sh_EngineID h) < 2 ^ 16" and bs: "bs = putUint32 segmentMagic @ putUint16 schemaVersion
      @ putUint16 (sh_ShardCount h) @ putUint16 (sh_ShardID h)
      @ putUint16 (word_of_nat (length (sh_EngineID h))) @ ?id"
    using assms(1) by (auto simp: EncodeSegmentHeader_def split: if_splits)
  have u: "unat (word_of_nat (length (sh_EngineID h)) :: uint16) = length ?id"
    using l by (simp add: unat_of_nat)
  have s: "readFull n (take j (leBytes n w @ ys)) = (if n \<le> j then Inr (leBytes n w, take (j - n) ys)
      else if j = 0 then Inl EOF else Inl ErrUnexpectedEOF)" for n j ys and w :: "'w::len word"
    by (auto simp: readFull_def leBytes_Nil_iff)
  have t: "readFull (length ?id) (take j ?id) = (if length ?id \<le> j then Inr (?id, [])
      else if j = 0 then Inl EOF else Inl ErrUnexpectedEOF)" for j
    by (auto simp: readFull_def stringBytes_def)
  show ?thesis
    using assms(2) unfolding DecodeSegmentHeader_def bs by (auto simp: s t u simp del: length_stringBytes take_append)
qed

subsection \<open>Frames as a codec\<close>

text \<open>
  What the reader of the log relies on: a frame can be decoded in front of anything, a proper prefix of a
  frame is an end of file, and frames are not empty.  A byte stream of frames cut anywhere is then a
  sequence of whole frames and at most one cut frame.
\<close>

locale frame_codec =
  fixes enc :: "'r \<Rightarrow> 'b list" and dec :: "'b list \<Rightarrow> 'e + 'd \<times> nat" and val :: "'r \<Rightarrow> 'd"
    and ok :: "'r \<Rightarrow> bool" and eof :: 'e
  assumes dec_enc: "ok r \<Longrightarrow> dec (enc r @ rest) = Inr (val r, length (enc r))"
    and dec_cut: "ok r \<Longrightarrow> k < length (enc r) \<Longrightarrow> dec (take k (enc r)) = Inl eof"
    and enc_nonempty: "ok r \<Longrightarrow> enc r \<noteq> []"
begin

definition stream :: "'r list \<Rightarrow> 'b list" where
  "stream rs = concat (map enc rs)"

lemma stream_simps [simp]: "stream [] = []" "stream (r # rs) = enc r @ stream rs" "stream (rs @ qs) = stream rs @ stream qs"
  by (simp_all add: stream_def)

lemma cut_stream:
  obtains n tail where "n \<le> length rs" and "take k (stream rs) = stream (take n rs) @ tail"
    and "tail = [] \<or> (n < length rs \<and> (\<exists>j. 0 < j \<and> j < length (enc (rs ! n)) \<and> tail = take j (enc (rs ! n))))"
    and "\<forall>m\<le>length rs. length (stream (take m rs)) \<le> k \<longrightarrow> m \<le> n"
proof -
  have "\<exists>n tail. n \<le> length rs \<and> take k (stream rs) = stream (take n rs) @ tail
      \<and> (tail = [] \<or> (n < length rs \<and> (\<exists>j. 0 < j \<and> j < length (enc (rs ! n)) \<and> tail = take j (enc (rs ! n)))))
      \<and> (\<forall>m\<le>length rs. length (stream (take m rs)) \<le> k \<longrightarrow> m \<le> n)"
  proof (induction rs arbitrary: k)
    case (Cons r rs)
    show ?case
    proof (cases "length (enc r) \<le> k")
      case True
      from Cons [of "k - length (enc r)"] obtain n tail where
        "n \<le> length rs" "take (k - length (enc r)) (stream rs) = stream (take n rs) @ tail"
        "tail = [] \<or> (n < length rs \<and> (\<exists>j. 0 < j \<and> j < length (enc (rs ! n)) \<and> tail = take j (enc (rs ! n))))"
        and m: "\<forall>m\<le>length rs. length (stream (take m rs)) \<le> k - length (enc r) \<longrightarrow> m \<le> n" by blast
      moreover have "\<forall>m\<le>length (r # rs). length (stream (take m (r # rs))) \<le> k \<longrightarrow> m \<le> Suc n"
        using m True by (auto simp: take_Cons split: nat.splits)
      ultimately show ?thesis using True by (intro exI [of _ "Suc n"] exI [of _ tail]) simp
    next
      case False
      then show ?thesis
        by (cases "k = 0") (intro exI [of _ 0] exI [of _ "take k (enc r)"]; auto simp: take_Cons split: nat.splits)+
    qed
  qed simp
  then show thesis using that by blast
qed

end

definition frameOf :: "Record \<Rightarrow> byte list" where
  "frameOf rec = (case EncodeRecord rec of Inl e \<Rightarrow> [] | Inr bs \<Rightarrow> bs)"

definition encodable :: "Record \<Rightarrow> bool" where
  "encodable rec \<longleftrightarrow> (case payloadSize rec of Inl e \<Rightarrow> False | Inr n \<Rightarrow> True)"

lemma encodable_frame: "encodable rec \<longleftrightarrow> EncodeRecord rec = Inr (frameOf rec)"
  by (auto simp: encodable_def frameOf_def EncodeRecord_def appendEncodedRecord_def split: sum.split)

interpretation rc: frame_codec frameOf DecodeRecord stored encodable ErrUnexpectedEOF
proof unfold_locales
  fix rec rest k
  assume "encodable rec"
  then have e: "EncodeRecord rec = Inr (frameOf rec)" by (simp add: encodable_frame)
  show "DecodeRecord (frameOf rec @ rest) = Inr (stored rec, length (frameOf rec))"
    by (rule DecodeRecord_EncodeRecord [OF e])
  show "DecodeRecord (take k (frameOf rec)) = Inl ErrUnexpectedEOF" if "k < length (frameOf rec)"
    by (rule DecodeRecord_truncated [OF e that])
  show "frameOf rec \<noteq> []" by (rule EncodeRecord_frame [OF e]) auto
qed

end
