(* ===== verification/Journal_Reader.thy ===== *)
theory Journal_Reader
  imports Journal_Codec File_Names
begin

text \<open>
  Reading a log directory (\<open>internal/journal/reader.go\<close>).  A directory is the list of its files by
  base name; a file that cannot be read has no contents.  The segments of a shard are the
  files whose names match \<open>shard-NN-*.wal\<close>, in the order of their names.
\<close>

type_synonym wal_dir = "(string \<times> byte list option) list"

subsection \<open>File names\<close>

definition segmentPrefix :: "nat \<Rightarrow> string" where
  "segmentPrefix shardID = ''shard-'' @ padded 2 shardID @ ''-''"

subsection \<open>Segments\<close>

text \<open>A decoded frame has at least its header and its checksum.\<close>

lemma DecodeRecord_consumed:
  "DecodeRecord data = Inr (r, c) \<Longrightarrow> 28 \<le> c \<and> c \<le> length data"
  by (auto simp: DecodeRecord_def Let_def ebind_Inr_iff split: if_splits)

text \<open>The loop of \<open>readSegment\<close>, on the bytes from the current offset on.\<close>

function readLoop ::
  "string \<Rightarrow> uint16 \<Rightarrow> bool \<Rightarrow> nat \<Rightarrow> byte list \<Rightarrow> journal_err + Record list" where
  "readLoop path shard allowTail offset data =
     (if data = [] then Inr []
      else (case DecodeRecord data of
              Inl e \<Rightarrow> if allowTail \<and> (e = ErrUnexpectedEOF \<or> e = EOF) then Inr []
                       else Inl (ErrDecodeRecord path offset e)
            | Inr (rec, consumed) \<Rightarrow>
                if rec_ShardID rec \<noteq> shard then Inl (ErrRecordShard path offset)
                else ebind (readLoop path shard allowTail (offset + consumed) (drop consumed data))
                       (\<lambda>records. Inr (rec # records))))"
  by pat_completeness auto
termination
  by (relation "measure (\<lambda>(path, shard, allowTail, offset, data). length data)")
    (auto dest!: DecodeRecord_consumed)

declare readLoop.simps [simp del]

definition readSegment ::
  "string \<times> byte list option \<Rightarrow> string \<Rightarrow> uint16 \<Rightarrow> uint16 \<Rightarrow> bool \<Rightarrow> bool \<Rightarrow> journal_err + Record list" where
  "readSegment file engineID shard shardCount validateMetadata allowTail =
     (case snd file of
        None \<Rightarrow> Inl (ErrReadFile (fst file))
      | Some data \<Rightarrow>
          (case DecodeSegmentHeader data of
             Inl e \<Rightarrow> if allowTail \<and> (e = ErrUnexpectedEOF \<or> e = EOF) then Inr []
                      else Inl (ErrDecodeHeader (fst file) e)
           | Inr (header, offset) \<Rightarrow>
               if sh_ShardID header \<noteq> shard then Inl (ErrSegmentShard (sh_ShardID header) shard)
               else if validateMetadata \<and> sh_EngineID header \<noteq> engineID
               then Inl (ErrSegmentEngineID (sh_EngineID header) engineID)
               else if validateMetadata \<and> sh_ShardCount header \<noteq> shardCount
               then Inl (ErrSegmentShardCount (sh_ShardCount header) shardCount)
               else readLoop (fst file) shard allowTail offset (drop offset data)))"

text \<open>The loop of \<open>readShardRecords\<close>; only the last file may have a truncated tail.\<close>

fun readFiles ::
  "wal_dir \<Rightarrow> string \<Rightarrow> nat \<Rightarrow> nat \<Rightarrow> bool \<Rightarrow> string list \<Rightarrow> journal_err + Record list" where
  "readFiles dir engineID shardID shardCount validateMetadata [] = Inr []"
| "readFiles dir engineID shardID shardCount validateMetadata (name # names) =
     ebind (readSegment (name, Option.bind (map_of dir name) id) engineID (word_of_nat shardID)
              (word_of_nat shardCount) validateMetadata (names = []))
       (\<lambda>records. ebind (readFiles dir engineID shardID shardCount validateMetadata names)
         (\<lambda>out. Inr (records @ out)))"

definition readShardRecords ::
  "wal_dir \<Rightarrow> string \<Rightarrow> nat \<Rightarrow> nat \<Rightarrow> bool \<Rightarrow> journal_err + Record list" where
  "readShardRecords dir engineID shardID shardCount validateMetadata =
     readFiles dir engineID shardID shardCount validateMetadata
       (sort (glob (segmentPrefix shardID) ''.wal'' (map fst dir)))"

definition ReadShardRecords :: "wal_dir \<Rightarrow> nat \<Rightarrow> journal_err + Record list" where
  "ReadShardRecords dir shardID = readShardRecords dir [] shardID 0 False"

definition ReadShardRecordsForEngine ::
  "wal_dir \<Rightarrow> string \<Rightarrow> nat \<Rightarrow> nat \<Rightarrow> journal_err + Record list" where
  "ReadShardRecordsForEngine dir engineID shardID shardCount =
     readShardRecords dir engineID shardID shardCount True"

subsection \<open>Reading what was written\<close>

text \<open>A segment file as the writer leaves it: the header and the frames of the records.\<close>

definition segmentBytes :: "SegmentHeader \<Rightarrow> Record list \<Rightarrow> byte list" where
  "segmentBytes h recs =
     (case EncodeSegmentHeader h of Inl e \<Rightarrow> [] | Inr bs \<Rightarrow> bs) @ rc.stream recs"

text \<open>The records a shard may log: they can be encoded and carry the shard's id.\<close>

definition loggable :: "uint16 \<Rightarrow> Record \<Rightarrow> bool" where
  "loggable shard rec \<longleftrightarrow> encodable rec \<and> rec_ShardID rec = shard"

lemma readLoop_frames:
  assumes "\<forall>r\<in>set recs. loggable shard r"
  shows "readLoop path shard allowTail offset (rc.stream recs @ tail) =
    ebind (readLoop path shard allowTail (offset + length (rc.stream recs)) tail) (\<lambda>rs. Inr (map stored recs @ rs))"
  using assms
proof (induction recs arbitrary: offset)
  case Nil
  then show ?case by (cases "readLoop path shard allowTail offset tail") simp_all
next
  case (Cons r recs)
  have r: "encodable r" "rec_ShardID (stored r) = shard" using Cons.prems by (auto simp: loggable_def stored_def)
  have ne: "frameOf r \<noteq> []" using rc.enc_nonempty [OF r(1)] .
  have "readLoop path shard allowTail offset (rc.stream (r # recs) @ tail) =
      ebind (readLoop path shard allowTail (offset + length (frameOf r)) (rc.stream recs @ tail)) (\<lambda>rs. Inr (stored r # rs))"
    using ne r rc.dec_enc [OF r(1)] by (subst readLoop.simps) simp
  also have "\<dots> = ebind (readLoop path shard allowTail (offset + length (rc.stream (r # recs))) tail)
      (\<lambda>rs. Inr (map stored (r # recs) @ rs))"
    using Cons.IH [of "offset + length (frameOf r)"] Cons.prems
    by (cases "readLoop path shard allowTail (offset + length (rc.stream (r # recs))) tail") (simp_all add: add.assoc)
  finally show ?case .
qed

lemma readLoop_empty [simp]: "readLoop path shard allowTail offset [] = Inr []"
  by (simp add: readLoop.simps)

lemma readLoop_cut:
  assumes "encodable r" and "0 < j" and "j < length (frameOf r)"
  shows "readLoop path shard True offset (take j (frameOf r)) = Inr []"
  using assms rc.dec_cut [OF assms(1,3)] by (subst readLoop.simps) auto

text \<open>A segment with a valid header, whole or cut after the header.\<close>

lemma readSegment_body:
  assumes "EncodeSegmentHeader h = Inr hb"
    and "sh_EngineID h = engineID" and "sh_ShardID h = shard" and "sh_ShardCount h = shardCount"
  shows "readSegment (path, Some (hb @ body)) engineID shard shardCount validateMetadata allowTail
    = readLoop path shard allowTail (length hb) body"
  using assms DecodeSegmentHeader_Encode [OF assms(1)] by (simp add: readSegment_def)

lemma readSegment_whole:
  assumes "EncodeSegmentHeader h = Inr hb" and "\<forall>r\<in>set recs. loggable (sh_ShardID h) r"
  shows "readSegment (path, Some (segmentBytes h recs)) (sh_EngineID h) (sh_ShardID h) (sh_ShardCount h) v allowTail
    = Inr (map stored recs)"
  using readSegment_body [OF assms(1)] readLoop_frames [OF assms(2), where tail = "[]"] assms(1)
  by (simp add: segmentBytes_def)

lemma segmentBytes_length:
  "EncodeSegmentHeader h = Inr hb \<Longrightarrow> length (segmentBytes h recs) = length hb + length (rc.stream recs)"
  by (simp add: segmentBytes_def)

lemma readSegment_torn:
  assumes h: "EncodeSegmentHeader h = Inr hb" and recs: "\<forall>r\<in>set recs. loggable (sh_ShardID h) r"
  shows "\<exists>n\<le>length recs. (\<forall>m\<le>length recs. length (segmentBytes h (take m recs)) \<le> k \<longrightarrow> m \<le> n)
    \<and> readSegment (path, Some (take k (segmentBytes h recs))) (sh_EngineID h) (sh_ShardID h) (sh_ShardCount h) v True
      = Inr (map stored (take n recs))"
proof (cases "k < length hb")
  case True
  then have "take k (segmentBytes h recs) = take k hb" using h by (simp add: segmentBytes_def)
  moreover have "\<not> length (segmentBytes h rs) \<le> k" for rs using True h by (simp add: segmentBytes_def)
  ultimately show ?thesis
    using DecodeSegmentHeader_truncated [OF h True] by (intro exI [of _ 0]) (auto simp: readSegment_def)
next
  case False
  let ?k = "k - length hb"
  obtain n tail where n: "n \<le> length recs" "take ?k (rc.stream recs) = rc.stream (take n recs) @ tail"
    "tail = [] \<or> (n < length recs \<and> (\<exists>j. 0 < j \<and> j < length (frameOf (recs ! n)) \<and> tail = take j (frameOf (recs ! n))))"
    "\<forall>m\<le>length recs. length (rc.stream (take m recs)) \<le> ?k \<longrightarrow> m \<le> n"
    by (rule rc.cut_stream [of recs ?k])
  have tail: "readLoop path (sh_ShardID h) True ofs tail = Inr []" for ofs
    using n(3) recs readLoop_cut by (auto simp: loggable_def)
  have rs: "\<forall>r\<in>set (take n recs). loggable (sh_ShardID h) r" using recs by (auto dest: in_set_takeD)
  have "take k (segmentBytes h recs) = hb @ rc.stream (take n recs) @ tail"
    using h n(2) False by (simp add: segmentBytes_def)
  then have "readSegment (path, Some (take k (segmentBytes h recs))) (sh_EngineID h) (sh_ShardID h) (sh_ShardCount h) v True
      = Inr (map stored (take n recs))"
    using readSegment_body [OF h refl refl refl] readLoop_frames [OF rs] tail by simp
  moreover have "\<forall>m\<le>length recs. length (segmentBytes h (take m recs)) \<le> k \<longrightarrow> m \<le> n"
    using n(4) segmentBytes_length [OF h] by (auto simp: le_diff_conv2)
  ultimately show ?thesis using n(1) by blast
qed

text \<open>The segments of a shard: whole ones, and behind them one that may be cut.\<close>

lemma readFiles_whole:
  assumes "EncodeSegmentHeader h = Inr hb" and "sh_ShardID h = word_of_nat shardID" and "sh_ShardCount h = word_of_nat shardCount"
    and "\<forall>(name, recs)\<in>set segs. map_of dir name = Some (Some (segmentBytes h recs)) \<and> (\<forall>r\<in>set recs. loggable (sh_ShardID h) r)"
  shows "readFiles dir (sh_EngineID h) shardID shardCount True (map fst segs @ names) =
    ebind (readFiles dir (sh_EngineID h) shardID shardCount True names) (\<lambda>out. Inr (map stored (concat (map snd segs)) @ out))"
  using assms(4)
proof (induction segs)
  case Nil
  then show ?case by (cases "readFiles dir (sh_EngineID h) shardID shardCount True names") simp_all
next
  case (Cons s segs)
  obtain name recs where s: "s = (name, recs)" by (cases s)
  then have "readSegment (name, Option.bind (map_of dir name) id) (sh_EngineID h) (word_of_nat shardID)
      (word_of_nat shardCount) True b = Inr (map stored recs)" for b
    using Cons.prems readSegment_whole [OF assms(1), of recs name True b] assms(2,3) by simp
  then show ?case using Cons s
    by (cases "readFiles dir (sh_EngineID h) shardID shardCount True names") simp_all
qed

lemma ReadShardRecords_torn:
  assumes "EncodeSegmentHeader h = Inr hb" and "sh_ShardID h = word_of_nat shardID" and "sh_ShardCount h = word_of_nat shardCount"
    and "\<forall>(name, recs)\<in>set segs. map_of dir name = Some (Some (segmentBytes h recs)) \<and> (\<forall>r\<in>set recs. loggable (sh_ShardID h) r)"
    and "map_of dir lastName = Some (Some (take k (segmentBytes h lastRecs)))" and "\<forall>r\<in>set lastRecs. loggable (sh_ShardID h) r"
    and "sort (glob (segmentPrefix shardID) ''.wal'' (map fst dir)) = map fst segs @ [lastName]"
  shows "\<exists>n\<le>length lastRecs. (\<forall>m\<le>length lastRecs. length (segmentBytes h (take m lastRecs)) \<le> k \<longrightarrow> m \<le> n)
    \<and> ReadShardRecordsForEngine dir (sh_EngineID h) shardID shardCount
      = Inr (map stored (concat (map snd segs) @ take n lastRecs))"
proof -
  obtain n where n: "n \<le> length lastRecs" "\<forall>m\<le>length lastRecs. length (segmentBytes h (take m lastRecs)) \<le> k \<longrightarrow> m \<le> n"
    "readSegment (lastName, Some (take k (segmentBytes h lastRecs))) (sh_EngineID h) (sh_ShardID h) (sh_ShardCount h) True True
      = Inr (map stored (take n lastRecs))"
    using readSegment_torn [OF assms(1,6), of k lastName True] by blast
  have "readFiles dir (sh_EngineID h) shardID shardCount True (map fst segs @ [lastName])
      = Inr (map stored (concat (map snd segs) @ take n lastRecs))"
    unfolding readFiles_whole [OF assms(1-4)] using n(3) assms(2,3,5) by simp
  then show ?thesis using n(1,2) assms(7)
    by (auto simp: ReadShardRecordsForEngine_def readShardRecords_def)
qed

subsection \<open>Properties\<close>

definition sampleCommand :: Command where
  "sampleCommand = \<lparr>cmd_Seq = 7, cmd_Symbol = ''BTC'', cmd_Type = CommandNew, cmd_OrderID = 5,
     cmd_Side = SideBuy, cmd_OrderType = OrderTypeLimit, cmd_TimeInForce = TIFGTC, cmd_Price = 100,
     cmd_Quantity = 6, cmd_NewPrice = 0, cmd_NewLeavesQty = 0\<rparr>"

definition sampleRecord :: "uint64 \<Rightarrow> Record" where
  "sampleRecord sq = \<lparr>rec_ShardID = 3, rec_CommandSeq = sq, rec_Command = sampleCommand,
     rec_Result = \<lparr>res_CommandSeq = sq, res_Events = [zeroEvent\<lparr>ev_Type := EventAccepted, ev_OrderID := 5\<rparr>,
       zeroEvent\<lparr>ev_Type := EventOrderRested, ev_OrderID := 5, ev_Price := 100, ev_LeavesQty := 6\<rparr>]\<rparr>\<rparr>"

definition sampleHeader :: SegmentHeader where
  "sampleHeader = \<lparr>sh_EngineID = ''engine-1'', sh_ShardID = 3, sh_ShardCount = 4\<rparr>"

lemma sampleRecord_loggable: "loggable 3 (sampleRecord sq)"
  by (simp add: loggable_def encodable_def payloadSize_def sampleRecord_def sampleCommand_def
      payloadFixedSize_def eventEncodedSize_def)

lemma sampleRecord_encodes: "EncodeRecord (sampleRecord sq) = Inr (frameOf (sampleRecord sq))"
  using sampleRecord_loggable by (simp add: loggable_def encodable_frame)

lemma sampleHeader_encodes: "\<exists>hb. EncodeSegmentHeader sampleHeader = Inr hb"
  by (simp add: EncodeSegmentHeader_def sampleHeader_def)

text \<open>
  C5: decoding inverts encoding: an encoded record, followed by any other bytes, decodes to the
  record (with the sequence number of the record in its command) and to the length of
  its encoding.
\<close>

theorem record_round_trip:
  assumes "EncodeRecord rec = Inr bs"
  shows "DecodeRecord (bs @ rest) =
    Inr (rec\<lparr>rec_Command := (rec_Command rec)\<lparr>cmd_Seq := rec_CommandSeq rec\<rparr>\<rparr>, length bs)"
  using DecodeRecord_EncodeRecord [OF assms] by (simp add: stored_def)

theorem record_round_trip_witness:
  "DecodeRecord (frameOf (sampleRecord 7) @ [1, 2, 3]) = Inr (sampleRecord 7, length (frameOf (sampleRecord 7)))"
  using record_round_trip [OF sampleRecord_encodes, of 7 "[1, 2, 3]"]
  by (simp add: sampleRecord_def sampleCommand_def)

text \<open>
  Encoding a record fails only for a symbol longer than 65535 bytes or a payload longer
  than 2^32 - 1 bytes, and otherwise gives 28 bytes more than the payload.
\<close>

theorem record_encoding_total:
  "let n = 58 + length (cmd_Symbol (rec_Command rec)) + 69 * length (res_Events (rec_Result rec)) in
   if length (cmd_Symbol (rec_Command rec)) \<ge> 2 ^ 16 then EncodeRecord rec = Inl ErrSymbolTooLong
   else if n \<ge> 2 ^ 32 then EncodeRecord rec = Inl ErrPayloadTooLarge
   else (\<exists>bs. EncodeRecord rec = Inr bs \<and> length bs = n + 28)"
proof (cases "payloadSize rec")
  case (Inr n)
  then have e: "EncodeRecord rec = Inr (frameOf rec)" using encodable_frame [of rec] by (simp add: encodable_def)
  then have "length (frameOf rec) = 28 + n" using Inr by (auto elim: EncodeRecord_frame)
  then show ?thesis using Inr e
    by (auto simp: payloadSize_def Let_def payloadFixedSize_def eventEncodedSize_def split: if_splits)
qed (auto simp: payloadSize_def Let_def payloadFixedSize_def eventEncodedSize_def EncodeRecord_def
      appendEncodedRecord_def split: if_splits)

text \<open>
  C6: one damaged byte is always detected: a frame in which any single byte outside the length field
  has been changed does not decode, whatever follows it.
\<close>

theorem damaged_frame_is_refused:
  assumes "EncodeRecord rec = Inr bs" and "i < length bs" and "b \<noteq> bs ! i" and "i < 8 \<or> 12 \<le> i"
  shows "\<exists>e. DecodeRecord (bs[i := b] @ rest) = Inl e"
  by (rule DecodeRecord_damaged [OF assms])

theorem damaged_frame_is_refused_witness:
  "\<exists>e. DecodeRecord ((frameOf (sampleRecord 7))[30 := frameOf (sampleRecord 7) ! 30 + 1]) = Inl e"
proof -
  have "30 < length (frameOf (sampleRecord 7))"
    by (rule EncodeRecord_frame [OF sampleRecord_encodes [of 7]])
      (auto simp: payloadSize_def sampleRecord_def sampleCommand_def payloadFixedSize_def eventEncodedSize_def Let_def)
  from damaged_frame_is_refused [OF sampleRecord_encodes this, of _ "[]"] show ?thesis by simp
qed

text \<open>
  A crash while the last segment of a shard is being written loses no complete record: however
  many bytes of the segment reached the disk, reading it as the last segment succeeds and gives a
  prefix of the records written that has every record whose bytes are all there.
\<close>

theorem torn_segment_gives_prefix:
  assumes "EncodeSegmentHeader h = Inr hb" and "\<forall>r\<in>set recs. loggable (sh_ShardID h) r"
  shows "\<exists>n\<le>length recs. (\<forall>m\<le>length recs. length (segmentBytes h (take m recs)) \<le> k \<longrightarrow> m \<le> n)
    \<and> readSegment (path, Some (take k (segmentBytes h recs))) (sh_EngineID h) (sh_ShardID h) (sh_ShardCount h) True True
      = Inr (map stored (take n recs))"
  by (rule readSegment_torn [OF assms])

theorem torn_segment_gives_prefix_witness:
  "\<exists>n\<le>2. readSegment (''shard-03-000000.wal'', Some (take 150 (segmentBytes sampleHeader [sampleRecord 1, sampleRecord 2])))
     ''engine-1'' 3 4 True True = Inr (map stored (take n [sampleRecord 1, sampleRecord 2]))"
proof -
  have h: "sh_EngineID sampleHeader = ''engine-1''" "sh_ShardID sampleHeader = 3" "sh_ShardCount sampleHeader = 4"
    by (simp_all add: sampleHeader_def)
  obtain hb where hb: "EncodeSegmentHeader sampleHeader = Inr hb" using sampleHeader_encodes by blast
  have "\<forall>r\<in>set [sampleRecord 1, sampleRecord 2]. loggable (sh_ShardID sampleHeader) r"
    using sampleRecord_loggable h by simp
  from torn_segment_gives_prefix [OF hb this, of 150 "''shard-03-000000.wal''"]
  obtain n where "n \<le> length [sampleRecord 1, sampleRecord 2]"
    "readSegment (''shard-03-000000.wal'', Some (take 150 (segmentBytes sampleHeader [sampleRecord 1, sampleRecord 2])))
      ''engine-1'' 3 4 True True = Inr (map stored (take n [sampleRecord 1, sampleRecord 2]))" unfolding h by blast
  then show ?thesis by (intro exI [of _ n]) simp
qed

text \<open>
  C36: the segments of a shard, read in order, give all their records: if every segment but the
  last is complete and the last is cut anywhere, reading succeeds and gives the records of the complete
  segments followed by a prefix of those of the last.
\<close>

theorem log_gives_records_in_order:
  assumes "EncodeSegmentHeader h = Inr hb" and "sh_ShardID h = word_of_nat shardID" and "sh_ShardCount h = word_of_nat shardCount"
    and "\<forall>(name, recs)\<in>set segs. map_of dir name = Some (Some (segmentBytes h recs)) \<and> (\<forall>r\<in>set recs. loggable (sh_ShardID h) r)"
    and "map_of dir lastName = Some (Some (take k (segmentBytes h lastRecs)))" and "\<forall>r\<in>set lastRecs. loggable (sh_ShardID h) r"
    and "sort (glob (segmentPrefix shardID) ''.wal'' (map fst dir)) = map fst segs @ [lastName]"
  shows "\<exists>n\<le>length lastRecs. (\<forall>m\<le>length lastRecs. length (segmentBytes h (take m lastRecs)) \<le> k \<longrightarrow> m \<le> n)
    \<and> ReadShardRecordsForEngine dir (sh_EngineID h) shardID shardCount
      = Inr (map stored (concat (map snd segs) @ take n lastRecs))"
  by (rule ReadShardRecords_torn [OF assms])

definition sampleDir :: wal_dir where
  "sampleDir = [(''shard-03-000001.wal'', Some (take 150 (segmentBytes sampleHeader [sampleRecord 3]))),
     (''notes.txt'', None), (''shard-03-000000.wal'', Some (segmentBytes sampleHeader [sampleRecord 1, sampleRecord 2]))]"

theorem log_gives_records_in_order_witness:
  "\<exists>n\<le>1. ReadShardRecordsForEngine sampleDir ''engine-1'' 3 4
     = Inr (map stored ([sampleRecord 1, sampleRecord 2] @ take n [sampleRecord 3]))"
proof -
  let ?segs = "[(''shard-03-000000.wal'', [sampleRecord 1, sampleRecord 2])]"
  have h: "sh_EngineID sampleHeader = ''engine-1''" "sh_ShardID sampleHeader = word_of_nat 3"
    "sh_ShardCount sampleHeader = word_of_nat 4" "word_of_nat 3 = (3 :: uint16)"
    by (simp_all add: sampleHeader_def)
  obtain hb where hb: "EncodeSegmentHeader sampleHeader = Inr hb" using sampleHeader_encodes by blast
  have d: "\<forall>(name, recs)\<in>set ?segs. map_of sampleDir name = Some (Some (segmentBytes sampleHeader recs))
      \<and> (\<forall>r\<in>set recs. loggable (sh_ShardID sampleHeader) r)"
    "map_of sampleDir ''shard-03-000001.wal'' = Some (Some (take 150 (segmentBytes sampleHeader [sampleRecord 3])))"
    "\<forall>r\<in>set [sampleRecord 3]. loggable (sh_ShardID sampleHeader) r"
    using sampleRecord_loggable by (simp_all add: sampleDir_def h(2,4))
  have "sort (glob (segmentPrefix 3) ''.wal'' [''shard-03-000001.wal'', ''notes.txt'', ''shard-03-000000.wal''])
      = [''shard-03-000000.wal'', ''shard-03-000001.wal'']" by code_simp
  then have s: "sort (glob (segmentPrefix 3) ''.wal'' (map fst sampleDir)) = map fst ?segs @ [''shard-03-000001.wal'']"
    by (simp add: sampleDir_def)
  from log_gives_records_in_order [OF hb h(2,3) d s] show ?thesis unfolding h(1) by auto
qed

text \<open>
  A segment that was torn in the middle of a frame is accepted only as the last one.  After the
  restart the writer opens a new segment behind it, and from then on the torn segment
  makes the whole log of the shard unreadable.
\<close>

lemma torn_segment_blocks_next_restart:
  assumes "EncodeSegmentHeader h = Inr hb" and "\<forall>r\<in>set recs. loggable (sh_ShardID h) r" and "loggable (sh_ShardID h) r"
    and "0 < j" and "j < length (frameOf r)"
  shows "readSegment (path, Some (segmentBytes h recs @ take j (frameOf r))) (sh_EngineID h) (sh_ShardID h) (sh_ShardCount h) v False
    = Inl (ErrDecodeRecord path (length (segmentBytes h recs)) ErrUnexpectedEOF)"
proof -
  have e: "encodable r" using assms(3) by (simp add: loggable_def)
  have "readLoop path (sh_ShardID h) False ofs (take j (frameOf r)) = Inl (ErrDecodeRecord path ofs ErrUnexpectedEOF)" for ofs
    using assms(4,5) rc.dec_cut [OF e assms(5)] by (subst readLoop.simps) auto
  then show ?thesis
    using readSegment_body [OF assms(1) refl refl refl] readLoop_frames [OF assms(2)] assms(1)
    by (simp add: segmentBytes_def)
qed

end
