(* ===== verification/Recovery.thy ===== *)
theory Recovery
  imports Book_Trades Journal_Reader Registry Snapshot_File
begin

text \<open>
  Recovery: \<open>recoverBooks\<close>, \<open>VerifyReplay\<close> and \<open>nextSequence\<close> of \<open>internal/shard/engine.go\<close> and
  \<open>internal/recovery/recovery.go\<close>.  The books are rebuilt from the latest snapshot, the records of the
  log that it does not cover are applied again, and the result of each is compared with the
  result in the log.
\<close>

subsection \<open>Comparing results\<close>

definition eventDiffers :: "Event \<Rightarrow> Event \<Rightarrow> bool" where
  "eventDiffers ae be \<longleftrightarrow> ev_Type ae \<noteq> ev_Type be \<or> ev_Reason ae \<noteq> ev_Reason be \<or> ev_OrderID ae \<noteq> ev_OrderID be
     \<or> ev_MakerOrderID ae \<noteq> ev_MakerOrderID be \<or> ev_TakerOrderID ae \<noteq> ev_TakerOrderID be
     \<or> ev_TradeID ae \<noteq> ev_TradeID be \<or> ev_Price ae \<noteq> ev_Price be \<or> ev_Quantity ae \<noteq> ev_Quantity be
     \<or> ev_LeavesQty ae \<noteq> ev_LeavesQty be \<or> ev_CanceledQty ae \<noteq> ev_CanceledQty be
     \<or> ev_CancelReason ae \<noteq> ev_CancelReason be \<or> ev_PriorityRetained ae \<noteq> ev_PriorityRetained be"

fun equalEvents :: "Event list \<Rightarrow> Event list \<Rightarrow> bool" where
  "equalEvents (ae # as) (be # bs) = (if eventDiffers ae be then False else equalEvents as bs)"
| "equalEvents _ _ = True"

definition EqualResults :: "Result \<Rightarrow> Result \<Rightarrow> bool" where
  "EqualResults a b =
     (if res_CommandSeq a \<noteq> res_CommandSeq b then False
      else if length (res_Events a) \<noteq> length (res_Events b) then False
      else equalEvents (res_Events a) (res_Events b))"

lemma eventDiffers_iff: "eventDiffers ae be \<longleftrightarrow> ae \<noteq> be"
  by (cases ae; cases be) (auto simp: eventDiffers_def)

lemma equalEvents_iff: "length as = length bs \<Longrightarrow> equalEvents as bs \<longleftrightarrow> as = bs"
  by (induction as bs rule: list_induct2) (auto simp: eventDiffers_iff)

lemma EqualResults_iff: "EqualResults a b \<longleftrightarrow> a = b"
  by (auto simp: EqualResults_def equalEvents_iff split: if_splits)

subsection \<open>Recovery of the engine\<close>

datatype recover_err =
    RecRegistry error
  | RecSnapshot snap_err
  | RecEngineID
  | RecShardCount
  | RecWatermarks
  | RecSnapshotSymbol string
  | RecJournal journal_err
  | RecNonMonotonic nat uint64 uint64
  | RecUnknownSymbol string
  | RecMismatch nat uint64
  | RecMismatchSeq uint64

type_synonym books = "string \<rightharpoonup> Book"

text \<open>The loop over the books of a snapshot.\<close>

fun collectBooks :: "SymbolRegistry \<Rightarrow> (string \<rightharpoonup> BookSnapshot) \<Rightarrow> BookSnapshot list
    \<Rightarrow> recover_err + (string \<rightharpoonup> BookSnapshot)" where
  "collectBooks registry restored [] = Inr restored"
| "collectBooks registry restored (bs # bss) =
     (if ShardFor registry (bs_Symbol bs) = None then Inl (RecSnapshotSymbol (bs_Symbol bs))
      else collectBooks registry (restored(bs_Symbol bs \<mapsto> bs)) bss)"

text \<open>The first part of \<open>recoverBooks\<close>: the watermarks and the books of the latest snapshot.\<close>

definition loadSnapshot :: "Config \<Rightarrow> SymbolRegistry \<Rightarrow> snap_err + EngineSnapshot \<times> string
    \<Rightarrow> recover_err + uint64 list \<times> (string \<rightharpoonup> BookSnapshot)" where
  "loadSnapshot cfg registry loaded =
     (case loaded of
        Inl e \<Rightarrow> if e = SnapNotExist then Inr (replicate (nat (cfg_ShardCount cfg)) 0, Map.empty) else Inl (RecSnapshot e)
      | Inr (snap, _) \<Rightarrow>
          if es_EngineID snap \<noteq> cfg_EngineID cfg then Inl RecEngineID
          else if es_ShardCount snap \<noteq> cfg_ShardCount cfg then Inl RecShardCount
          else if int (length (es_LastAppliedByShard snap)) \<noteq> cfg_ShardCount cfg then Inl RecWatermarks
          else ebind (collectBooks registry Map.empty (es_Books snap)) (\<lambda>restored.
            Inr (es_LastAppliedByShard snap, restored)))"

text \<open>Books for a list of symbols: rebuilt from a snapshot, or empty.  \<open>newLoop\<close> has the same loop.\<close>

fun openBooks :: "(string \<rightharpoonup> BookSnapshot) \<Rightarrow> books \<Rightarrow> string list \<Rightarrow> books option" where
  "openBooks restored books [] = Some books"
| "openBooks restored books (symbol # symbols) =
     Option.bind (case restored symbol of Some bs \<Rightarrow> NewFromSnapshot bs | None \<Rightarrow> Some (New symbol)) (\<lambda>b.
       openBooks restored (books(symbol \<mapsto> b)) symbols)"

text \<open>
  The loop over the records of a shard, with the watermark of the shard and \<open>prevSeq\<close>.  The outer
  option is a panic of the book.
\<close>

fun replayRecords :: "nat \<Rightarrow> books \<Rightarrow> uint64 \<Rightarrow> uint64 \<Rightarrow> Record list \<Rightarrow> (recover_err + books \<times> uint64) option" where
  "replayRecords shardID books lastApplied prevSeq [] = Some (Inr (books, lastApplied))"
| "replayRecords shardID books lastApplied prevSeq (rec # recs) =
     (if rec_CommandSeq rec \<le> lastApplied then replayRecords shardID books lastApplied prevSeq recs
      else if rec_CommandSeq rec \<le> prevSeq then Some (Inl (RecNonMonotonic shardID prevSeq (rec_CommandSeq rec)))
      else (case books (cmd_Symbol (rec_Command rec)) of
          None \<Rightarrow> Some (Inl (RecUnknownSymbol (cmd_Symbol (rec_Command rec))))
        | Some b \<Rightarrow> Option.bind (Apply b (rec_Command rec)) (\<lambda>(b', computed).
            if \<not> EqualResults computed (rec_Result rec) then Some (Inl (RecMismatch shardID (rec_CommandSeq rec)))
            else replayRecords shardID (books(cmd_Symbol (rec_Command rec) \<mapsto> b'))
                   (rec_CommandSeq rec) (rec_CommandSeq rec) recs)))"

text \<open>The loop over the shards.\<close>

fun replayShards :: "Config \<Rightarrow> wal_dir \<Rightarrow> nat list \<Rightarrow> books \<Rightarrow> uint64 list
    \<Rightarrow> (recover_err + books \<times> uint64 list) option" where
  "replayShards cfg walDir [] books lastApplied = Some (Inr (books, lastApplied))"
| "replayShards cfg walDir (shardID # shards) books lastApplied =
     (case ReadShardRecordsForEngine walDir (cfg_EngineID cfg) shardID (nat (cfg_ShardCount cfg)) of
        Inl e \<Rightarrow> Some (Inl (RecJournal e))
      | Inr records \<Rightarrow>
          Option.bind (replayRecords shardID books (lastApplied ! shardID) (lastApplied ! shardID) records) (\<lambda>r.
            case r of
              Inl e \<Rightarrow> Some (Inl e)
            | Inr (books', s) \<Rightarrow> replayShards cfg walDir shards books' (lastApplied[shardID := s])))"

text \<open>The last loop: the snapshots of all books, whose symbols are those of the configuration.\<close>

fun snapshotBooks :: "books \<Rightarrow> (string \<rightharpoonup> BookSnapshot) \<Rightarrow> string list \<Rightarrow> (string \<rightharpoonup> BookSnapshot) option" where
  "snapshotBooks books out [] = Some out"
| "snapshotBooks books out (symbol # symbols) =
     (case books symbol of
        None \<Rightarrow> snapshotBooks books out symbols
      | Some b \<Rightarrow> Option.bind (Snapshot b) (\<lambda>s. snapshotBooks books (out(symbol \<mapsto> s)) symbols))"

definition recoverBooks :: "gob_encoder \<Rightarrow> gob_decoder \<Rightarrow> snap_dir \<Rightarrow> wal_dir \<Rightarrow> Config \<Rightarrow> SymbolRegistry
    \<Rightarrow> (recover_err + (string \<rightharpoonup> BookSnapshot) \<times> uint64 list) option" where
  "recoverBooks genc gdec snapDir walDir cfg registry =
     (case loadSnapshot cfg registry (LoadLatest genc gdec snapDir) of
        Inl e \<Rightarrow> Some (Inl e)
      | Inr (lastApplied, restored) \<Rightarrow>
          Option.bind (openBooks restored Map.empty (cfg_Symbols cfg)) (\<lambda>books.
            Option.bind (replayShards cfg walDir [0..<nat (cfg_ShardCount cfg)] books lastApplied) (\<lambda>r.
              case r of
                Inl e \<Rightarrow> Some (Inl e)
              | Inr (books', lastApplied') \<Rightarrow>
                  Option.bind (snapshotBooks books' Map.empty (cfg_Symbols cfg)) (\<lambda>out. Some (Inr (out, lastApplied'))))))"

definition VerifyReplay :: "gob_encoder \<Rightarrow> gob_decoder \<Rightarrow> snap_dir \<Rightarrow> wal_dir \<Rightarrow> Config \<Rightarrow> recover_err option option" where
  "VerifyReplay genc gdec snapDir walDir cfg =
     Option.bind (NewSymbolRegistry (cfg_Symbols cfg) (cfg_ShardCount cfg)) (\<lambda>reg.
       case reg of
         Inl e \<Rightarrow> Some (Some (RecRegistry e))
       | Inr registry \<Rightarrow> Option.bind (recoverBooks genc gdec snapDir walDir cfg registry) (\<lambda>r.
           case r of Inl e \<Rightarrow> Some (Some e) | Inr _ \<Rightarrow> Some None))"

fun maxSequenceFrom :: "uint64 \<Rightarrow> uint64 list \<Rightarrow> uint64" where
  "maxSequenceFrom m [] = m"
| "maxSequenceFrom m (s # ss) = maxSequenceFrom (if s > m then s else m) ss"

definition nextSequence :: "uint64 list \<Rightarrow> uint64" where
  "nextSequence lastApplied = maxSequenceFrom 0 lastApplied + 1"

subsection \<open>Recovery with a book factory\<close>

text \<open>
  \<open>RecoverFromSnapshotAndWAL\<close>, which works on any kind of book: \<open>factory\<close> and \<open>apply\<close> are the
  book factory and the \<open>Apply\<close> method its caller passes.  A watermark slice that is too short
  is an index out of range.
\<close>

record RecoverResult =
  rr_SnapshotPath :: string
  rr_LastSeqByShard :: "uint64 list"

fun makeBooks :: "(BookSnapshot \<Rightarrow> 'b) \<Rightarrow> (string \<rightharpoonup> 'b) \<Rightarrow> BookSnapshot list \<Rightarrow> (string \<rightharpoonup> 'b)" where
  "makeBooks factory books [] = books"
| "makeBooks factory books (b # bs) = makeBooks factory (books(bs_Symbol b \<mapsto> factory b)) bs"

definition blankSnapshot :: "string \<Rightarrow> BookSnapshot" where
  "blankSnapshot symbol = \<lparr>bs_Symbol = symbol, bs_NextTradeSeq = 0, bs_Bids = [], bs_Asks = []\<rparr>"

fun replayWith :: "(BookSnapshot \<Rightarrow> 'b) \<Rightarrow> ('b \<Rightarrow> Command \<Rightarrow> 'b \<times> Result) \<Rightarrow> (string \<rightharpoonup> 'b) \<Rightarrow> uint64
    \<Rightarrow> Record list \<Rightarrow> recover_err + (string \<rightharpoonup> 'b) \<times> uint64" where
  "replayWith factory apply books lastSeq [] = Inr (books, lastSeq)"
| "replayWith factory apply books lastSeq (rec # recs) =
     (if rec_CommandSeq rec \<le> lastSeq then replayWith factory apply books lastSeq recs
      else (let symbol = cmd_Symbol (rec_Command rec);
                b = (case books symbol of Some b \<Rightarrow> b | None \<Rightarrow> factory (blankSnapshot symbol));
                (b', computed) = apply b (rec_Command rec) in
        if \<not> EqualResults computed (rec_Result rec) then Inl (RecMismatchSeq (rec_CommandSeq rec))
        else replayWith factory apply (books(symbol \<mapsto> b'))
               (if rec_CommandSeq rec > lastSeq then rec_CommandSeq rec else lastSeq) recs))"

fun replayShardsWith :: "(BookSnapshot \<Rightarrow> 'b) \<Rightarrow> ('b \<Rightarrow> Command \<Rightarrow> 'b \<times> Result) \<Rightarrow> wal_dir \<Rightarrow> string \<Rightarrow> nat
    \<Rightarrow> nat list \<Rightarrow> (string \<rightharpoonup> 'b) \<Rightarrow> uint64 list \<Rightarrow> (recover_err + uint64 list) option" where
  "replayShardsWith factory apply walDir engineID shardCount [] books lastApplied = Some (Inr lastApplied)"
| "replayShardsWith factory apply walDir engineID shardCount (shardID # shards) books lastApplied =
     (case ReadShardRecordsForEngine walDir engineID shardID shardCount of
        Inl e \<Rightarrow> Some (Inl (RecJournal e))
      | Inr records \<Rightarrow>
          if length lastApplied \<le> shardID then None
          else (case replayWith factory apply books (lastApplied ! shardID) records of
              Inl e \<Rightarrow> Some (Inl e)
            | Inr (books', s) \<Rightarrow>
                replayShardsWith factory apply walDir engineID shardCount shards books' (lastApplied[shardID := s])))"

definition RecoverFromSnapshotAndWAL :: "gob_encoder \<Rightarrow> gob_decoder \<Rightarrow> snap_dir \<Rightarrow> wal_dir \<Rightarrow> string \<Rightarrow> int
    \<Rightarrow> (BookSnapshot \<Rightarrow> 'b) \<Rightarrow> ('b \<Rightarrow> Command \<Rightarrow> 'b \<times> Result) \<Rightarrow> (recover_err + RecoverResult) option" where
  "RecoverFromSnapshotAndWAL genc gdec snapDir walDir engineID shardCount factory apply =
     (case LoadLatest genc gdec snapDir of
        Inl e \<Rightarrow> Some (Inl (RecSnapshot e))
      | Inr (snap, path) \<Rightarrow>
          if es_EngineID snap \<noteq> engineID then Some (Inl RecEngineID)
          else if es_ShardCount snap \<noteq> shardCount then Some (Inl RecShardCount)
          else Option.bind (replayShardsWith factory apply walDir engineID (nat shardCount) [0..<nat shardCount]
                 (makeBooks factory Map.empty (es_Books snap)) (es_LastAppliedByShard snap)) (\<lambda>r.
            case r of Inl e \<Rightarrow> Some (Inl e)
            | Inr lastApplied \<Rightarrow> Some (Inr \<lparr>rr_SnapshotPath = path, rr_LastSeqByShard = lastApplied\<rparr>)))"

end
