(* ===== verification/Replay.thy ===== *)
theory Replay
  imports Recovery
begin

text \<open>
  Recovery reproduces the run: the books rebuilt from a snapshot and the log are, order by order,
  the books the shards had after the last command of the log.  The argument goes through the
  specification of the book, one specification state for each symbol.
\<close>

subsection \<open>A run of a shard\<close>

text \<open>The record of a command, as \<open>enqueueCommand\<close> builds it.\<close>

definition logRecord :: "uint16 \<Rightarrow> Command \<Rightarrow> Result \<Rightarrow> Record" where
  "logRecord shard c r = \<lparr>rec_ShardID = shard, rec_CommandSeq = cmd_Seq c, rec_Command = c, rec_Result = r\<rparr>"

text \<open>What a shard does to its books with a list of commands, and the records it logs.\<close>

fun serve :: "uint16 \<Rightarrow> books \<Rightarrow> Command list \<Rightarrow> (books \<times> Record list) option" where
  "serve shard books [] = Some (books, [])"
| "serve shard books (c # cs) =
     (case books (cmd_Symbol c) of
        None \<Rightarrow> serve shard books cs
      | Some b \<Rightarrow> Option.bind (Apply b c) (\<lambda>(b', r).
          Option.bind (serve shard (books(cmd_Symbol c \<mapsto> b')) cs) (\<lambda>(books', recs).
            Some (books', logRecord shard c r # recs))))"

text \<open>The sequence number of the last command, or a given number if there is none.\<close>

definition lastSeq :: "uint64 \<Rightarrow> Command list \<Rightarrow> uint64" where
  "lastSeq d cs = (if cs = [] then d else cmd_Seq (last cs))"

lemma lastSeq_simps [simp]:
  "lastSeq d [] = d" "lastSeq d (c # cs) = lastSeq (cmd_Seq c) cs" "lastSeq d (cs @ ds) = lastSeq (lastSeq d cs) ds"
  by (auto simp: lastSeq_def)

lemma stored_logRecord [simp]: "stored (logRecord shard c r) = logRecord shard c r"
  by (simp add: stored_def logRecord_def)

subsection \<open>The specification of a run\<close>

type_synonym abooks = "string \<Rightarrow> abook"

definition books_rep :: "books \<Rightarrow> abooks \<Rightarrow> bool" where
  "books_rep books A \<longleftrightarrow> (\<forall>s b. books s = Some b \<longrightarrow> represents b (A s) \<and> abook_ok (A s))"

definition abs_step :: "abooks \<Rightarrow> Command \<Rightarrow> abooks" where
  "abs_step A c = A(cmd_Symbol c := fst (abs_apply (A (cmd_Symbol c)) c))"

definition abs_record :: "uint16 \<Rightarrow> abooks \<Rightarrow> Command \<Rightarrow> Record" where
  "abs_record shard A c = logRecord shard c
     \<lparr>res_CommandSeq = cmd_Seq c, res_Events = snd (abs_apply (A (cmd_Symbol c)) c)\<rparr>"

definition abs_serve :: "abooks \<Rightarrow> Command list \<Rightarrow> abooks" where
  "abs_serve A cs = foldl abs_step A cs"

fun abs_log :: "uint16 \<Rightarrow> abooks \<Rightarrow> Command list \<Rightarrow> Record list" where
  "abs_log shard A [] = []"
| "abs_log shard A (c # cs) = abs_record shard A c # abs_log shard (abs_step A c) cs"

lemma abs_serve_simps [simp]:
  "abs_serve A [] = A" "abs_serve A (c # cs) = abs_serve (abs_step A c) cs" "abs_serve A (cs @ ds) = abs_serve (abs_serve A cs) ds"
  by (simp_all add: abs_serve_def)

lemma abs_log_append: "abs_log shard A (cs @ ds) = abs_log shard A cs @ abs_log shard (abs_serve A cs) ds"
  by (induction cs arbitrary: A) simp_all

lemma abs_log_seqs: "map rec_CommandSeq (abs_log shard A cs) = map cmd_Seq cs"
  by (induction cs arbitrary: A) (simp_all add: abs_record_def logRecord_def)

text \<open>The symbols of a set are independent of all others.\<close>

lemma abs_step_local:
  assumes "\<forall>s\<in>S. A s = B s" and "cmd_Symbol c \<in> S"
  shows "\<forall>s\<in>S. abs_step A c s = abs_step B c s" and "abs_record shard A c = abs_record shard B c"
  using assms by (simp_all add: abs_step_def abs_record_def)

lemma abs_log_local:
  assumes "\<forall>s\<in>S. A s = B s" and "\<forall>c\<in>set cs. cmd_Symbol c \<in> S"
  shows "abs_log shard A cs = abs_log shard B cs" and "\<forall>s\<in>S. abs_serve A cs s = abs_serve B cs s"
proof -
  have "abs_log shard A cs = abs_log shard B cs \<and> (\<forall>s\<in>S. abs_serve A cs s = abs_serve B cs s)"
    using assms
  proof (induction cs arbitrary: A B)
    case (Cons c cs)
    then show ?case using abs_step_local(1) [OF Cons.prems(1), of c] abs_step_local(2) [OF Cons.prems(1), of c shard] by simp
  qed simp
  then show "abs_log shard A cs = abs_log shard B cs" and "\<forall>s\<in>S. abs_serve A cs s = abs_serve B cs s" by simp_all
qed

lemma abs_serve_other: "\<forall>c\<in>set cs. cmd_Symbol c \<noteq> s \<Longrightarrow> abs_serve A cs s = A s"
  by (induction cs arbitrary: A) (auto simp: abs_step_def)

lemma books_rep_step:
  assumes "books_rep books A" and "books (cmd_Symbol c) = Some b"
  shows "\<exists>b'. Apply b c = Some (b', rec_Result (abs_record shard A c))
    \<and> books_rep (books(cmd_Symbol c \<mapsto> b')) (abs_step A c)"
proof -
  have b: "represents b (A (cmd_Symbol c))" "abook_ok (A (cmd_Symbol c))" using assms by (auto simp: books_rep_def)
  from Apply_refines [OF b(1), of c] abs_apply_ok [OF b(2), of c] assms show ?thesis
    by (fastforce simp: books_rep_def abs_step_def abs_record_def logRecord_def)
qed

lemma serve_refines:
  assumes "books_rep books A" and "\<forall>c\<in>set cs. cmd_Symbol c \<in> dom books"
  shows "\<exists>books'. serve shard books cs = Some (books', abs_log shard A cs) \<and> books_rep books' (abs_serve A cs)
    \<and> dom books' = dom books"
  using assms
proof (induction cs arbitrary: books A)
  case (Cons c cs)
  obtain b where b: "books (cmd_Symbol c) = Some b" using Cons.prems(2) by auto
  obtain b' where b': "Apply b c = Some (b', rec_Result (abs_record shard A c))"
    "books_rep (books(cmd_Symbol c \<mapsto> b')) (abs_step A c)"
    using books_rep_step [OF Cons.prems(1) b] by blast
  define books1 where "books1 = books(cmd_Symbol c \<mapsto> b')"
  have d: "dom books1 = dom books" using b by (auto simp: books1_def)
  have rep1: "books_rep books1 (abs_step A c)" using b'(2) by (simp only: books1_def)
  obtain books' where "serve shard books1 cs = Some (books', abs_log shard (abs_step A c) cs)"
    "books_rep books' (abs_serve (abs_step A c) cs)" "dom books' = dom books"
    using Cons.IH [OF rep1] Cons.prems(2) d by auto
  then show ?case using b b'(1) by (simp add: abs_record_def logRecord_def books1_def)
qed simp

subsection \<open>Replaying a log\<close>

lemma replayRecords_skip:
  assumes "\<forall>r\<in>set recs. rec_CommandSeq r \<le> lastApplied"
  shows "replayRecords k books lastApplied prev (recs @ rs) = replayRecords k books lastApplied prev rs"
  using assms by (induction recs) auto

lemma replayRecords_refines:
  assumes "books_rep books A" and "\<forall>c\<in>set cs. cmd_Symbol c \<in> dom books" and "sorted_wrt (<) (d # map cmd_Seq cs)"
  shows "\<exists>books'. replayRecords k books d d (abs_log shard A cs) = Some (Inr (books', lastSeq d cs))
    \<and> books_rep books' (abs_serve A cs) \<and> dom books' = dom books"
  using assms
proof (induction cs arbitrary: books A d)
  case (Cons c cs)
  obtain b where b: "books (cmd_Symbol c) = Some b" using Cons.prems(2) by auto
  obtain b' where b': "Apply b c = Some (b', rec_Result (abs_record shard A c))"
    "books_rep (books(cmd_Symbol c \<mapsto> b')) (abs_step A c)"
    using books_rep_step [OF Cons.prems(1) b] by blast
  define books1 where "books1 = books(cmd_Symbol c \<mapsto> b')"
  have d: "dom books1 = dom books" using b by (auto simp: books1_def)
  have rep1: "books_rep books1 (abs_step A c)" using b'(2) by (simp only: books1_def)
  obtain books' where "replayRecords k books1 (cmd_Seq c) (cmd_Seq c) (abs_log shard (abs_step A c) cs)
       = Some (Inr (books', lastSeq (cmd_Seq c) cs))"
    "books_rep books' (abs_serve (abs_step A c) cs)" "dom books' = dom books"
    using Cons.IH [OF rep1, of "cmd_Seq c"] Cons.prems(2,3) d by auto
  moreover have "\<not> cmd_Seq c \<le> d" using Cons.prems(3) by auto
  ultimately show ?case using b b'(1) by (simp add: abs_record_def logRecord_def EqualResults_iff books1_def)
qed simp

text \<open>A log of which the first commands are covered by the watermark.\<close>

lemma sorted_seqs_covered:
  assumes "sorted_wrt (<) (d # map cmd_Seq (xs @ ys))"
  shows "\<forall>c\<in>set xs. cmd_Seq c \<le> lastSeq d xs" and "sorted_wrt (<) (lastSeq d xs # map cmd_Seq ys)"
proof -
  have "(\<forall>c\<in>set xs. cmd_Seq c \<le> lastSeq d xs) \<and> sorted_wrt (<) (lastSeq d xs # map cmd_Seq ys) \<and> d \<le> lastSeq d xs"
    using assms
  proof (induction xs arbitrary: d)
    case (Cons x xs)
    then have "sorted_wrt (<) (cmd_Seq x # map cmd_Seq (xs @ ys))" and "d < cmd_Seq x" by auto
    from Cons.IH [OF this(1)] this(2) show ?case by auto
  qed simp
  then show "\<forall>c\<in>set xs. cmd_Seq c \<le> lastSeq d xs" and "sorted_wrt (<) (lastSeq d xs # map cmd_Seq ys)" by simp_all
qed

lemma replayRecords_covered:
  assumes "books_rep books A" and "\<forall>s\<in>S. A s = abs_serve B xs s" and "\<forall>c\<in>set ys. cmd_Symbol c \<in> S \<inter> dom books"
    and "sorted_wrt (<) (d # map cmd_Seq (xs @ ys))"
  shows "\<exists>books'. replayRecords k books (lastSeq d xs) (lastSeq d xs) (abs_log shard B (xs @ ys))
      = Some (Inr (books', lastSeq d (xs @ ys)))
    \<and> books_rep books' (abs_serve A ys) \<and> dom books' = dom books"
proof -
  note s = sorted_seqs_covered [OF assms(4)]
  have "rec_CommandSeq r \<le> lastSeq d xs" if "r \<in> set (abs_log shard B xs)" for r
  proof -
    have "rec_CommandSeq r \<in> set (map rec_CommandSeq (abs_log shard B xs))" using that by simp
    then show ?thesis using s(1) unfolding abs_log_seqs by auto
  qed
  moreover have "abs_log shard (abs_serve B xs) ys = abs_log shard A ys"
    using abs_log_local(1) [of S "abs_serve B xs" A ys] assms(2,3) by simp
  ultimately show ?thesis
    using replayRecords_refines [OF assms(1) _ s(2), of k shard] assms(3) by (simp add: abs_log_append replayRecords_skip)
qed

subsection \<open>All shards\<close>

lemma replayShards_refines:
  assumes "books_rep books A" and "distinct shards" and "\<forall>k\<in>set shards. k < length lasts \<and> lasts ! k = lastSeq 0 (pre k)"
    and "\<forall>k\<in>set shards. ReadShardRecordsForEngine walDir (cfg_EngineID cfg) k (nat (cfg_ShardCount cfg))
           = Inr (abs_log (word_of_nat k) B (pre k @ post k))"
    and "\<forall>k\<in>set shards. sorted_wrt (<) (0 # map cmd_Seq (pre k @ post k))"
    and "\<forall>k\<in>set shards. \<forall>c\<in>set (post k). shardOf (cmd_Symbol c) = k \<and> cmd_Symbol c \<in> dom books"
    and "\<forall>s. shardOf s \<in> set shards \<longrightarrow> A s = abs_serve B (pre (shardOf s)) s"
  shows "\<exists>books' A' lasts'. replayShards cfg walDir shards books lasts = Some (Inr (books', lasts'))
    \<and> books_rep books' A' \<and> dom books' = dom books \<and> length lasts' = length lasts
    \<and> (\<forall>k<length lasts. lasts' ! k = (if k \<in> set shards then lastSeq 0 (pre k @ post k) else lasts ! k))
    \<and> (\<forall>s. A' s = (if shardOf s \<in> set shards then abs_serve B (pre (shardOf s) @ post (shardOf s)) s else A s))"
  using assms
proof (induction shards arbitrary: books A lasts)
  case (Cons k shards)
  let ?S = "{s. shardOf s = k}" and ?A = "abs_serve A (post k)" and ?l = "lasts[k := lastSeq 0 (pre k @ post k)]"
  obtain books1 where r: "replayRecords k books (lastSeq 0 (pre k)) (lastSeq 0 (pre k)) (abs_log (word_of_nat k) B (pre k @ post k))
      = Some (Inr (books1, lastSeq 0 (pre k @ post k)))" "books_rep books1 ?A" "dom books1 = dom books"
    using replayRecords_covered [OF Cons.prems(1), of ?S B "pre k" "post k" 0 k "word_of_nat k"] Cons.prems(5,6,7) by auto
  have same: "?A s = A s" if "shardOf s \<noteq> k" for s
    using Cons.prems(6) that by (intro abs_serve_other) auto
  have mine: "?A s = abs_serve B (pre k @ post k) s" if "shardOf s = k" for s
    using abs_log_local(2) [of ?S A "abs_serve B (pre k)" "post k"] Cons.prems(6,7) that by simp
  have "\<exists>books' A' lasts'. replayShards cfg walDir shards books1 ?l = Some (Inr (books', lasts'))
      \<and> books_rep books' A' \<and> dom books' = dom books1 \<and> length lasts' = length ?l
      \<and> (\<forall>j<length ?l. lasts' ! j = (if j \<in> set shards then lastSeq 0 (pre j @ post j) else ?l ! j))
      \<and> (\<forall>s. A' s = (if shardOf s \<in> set shards then abs_serve B (pre (shardOf s) @ post (shardOf s)) s else ?A s))"
  proof (rule Cons.IH [OF r(2)])
    show "\<forall>s. shardOf s \<in> set shards \<longrightarrow> ?A s = abs_serve B (pre (shardOf s)) s"
      using Cons.prems(2,7) same by (metis distinct.simps(2) list.set_intros(2))
    show "\<forall>j\<in>set shards. j < length ?l \<and> ?l ! j = lastSeq 0 (pre j)"
      using Cons.prems(2,3) by (auto simp: nth_list_update)
  qed (use Cons.prems(2,4-6) r(3) in auto)
  then obtain books' A' lasts' where IH: "replayShards cfg walDir shards books1 ?l = Some (Inr (books', lasts'))"
    "books_rep books' A'" "dom books' = dom books1" "length lasts' = length lasts"
    "\<forall>j<length lasts. lasts' ! j = (if j \<in> set shards then lastSeq 0 (pre j @ post j) else ?l ! j)"
    "\<forall>s. A' s = (if shardOf s \<in> set shards then abs_serve B (pre (shardOf s) @ post (shardOf s)) s else ?A s)" by auto
  have "replayShards cfg walDir (k # shards) books lasts = Some (Inr (books', lasts'))"
    using r(1) IH(1) Cons.prems(3,4) by simp
  moreover have "\<forall>j<length lasts. lasts' ! j = (if j \<in> set (k # shards) then lastSeq 0 (pre j @ post j) else lasts ! j)"
    using IH(5) by (auto simp: nth_list_update)
  moreover have "\<forall>s. A' s = (if shardOf s \<in> set (k # shards) then abs_serve B (pre (shardOf s) @ post (shardOf s)) s else A s)"
    using IH(6) same mine by auto
  moreover have "dom books' = dom books" using IH(3) r(3) by simp
  ultimately show ?case using IH(2,4) by blast
qed auto

subsection \<open>Opening and closing the books\<close>

lemma abs_apply_symbol: "ab_Symbol (fst (abs_apply a c)) = ab_Symbol a"
  by (auto simp: abs_apply_def abs_new_def abs_place_def abs_match_def abs_rest_def abs_cancel_def dropOrder_def
      abs_replace_def abs_reduce_def setLeaves_def abs_move_def Let_def split: option.splits prod.splits)

lemma abs_serve_symbol: "(\<And>s. ab_Symbol (A s) = s) \<Longrightarrow> ab_Symbol (abs_serve A cs s) = s"
  by (induction cs arbitrary: A) (simp_all add: abs_step_def abs_apply_symbol)

lemma openBooks_rep:
  assumes "books_rep books A"
    and "\<forall>s\<in>set symbols. (restored s = None \<and> A s = emptyBook s)
       \<or> (restored s = Some (abs_snapshot (A s)) \<and> abook_ok (A s) \<and> (\<exists>b. represents b (A s)))"
  shows "\<exists>books'. openBooks restored books symbols = Some books' \<and> books_rep books' A \<and> dom books' = dom books \<union> set symbols"
  using assms
proof (induction symbols arbitrary: books)
  case (Cons s symbols)
  have "\<exists>b. (case restored s of Some bs \<Rightarrow> NewFromSnapshot bs | None \<Rightarrow> Some (New s)) = Some b
      \<and> represents b (A s) \<and> abook_ok (A s)"
  proof (cases "restored s")
    case None
    then have "A s = emptyBook s" using Cons.prems(2) by auto
    then show ?thesis using None New_represents emptyBook_ok by auto
  next
    case (Some bs)
    then obtain b where "bs = abs_snapshot (A s)" "abook_ok (A s)" "represents b (A s)" using Cons.prems(2) by auto
    then show ?thesis using Some NewFromSnapshot_refines by auto
  qed
  then obtain b where b: "(case restored s of Some bs \<Rightarrow> NewFromSnapshot bs | None \<Rightarrow> Some (New s)) = Some b"
    "represents b (A s)" "abook_ok (A s)" by blast
  define books1 where "books1 = books(s \<mapsto> b)"
  have "books_rep books1 A" "dom books1 = insert s (dom books)"
    using Cons.prems(1) b(2,3) by (auto simp: books_rep_def books1_def)
  with Cons.IH [of books1] Cons.prems(2) have "\<exists>books'. openBooks restored books1 symbols = Some books' \<and> books_rep books' A
      \<and> dom books' = dom books \<union> set (s # symbols)" by auto
  then show ?case using b(1) by (simp add: books1_def)
qed simp

lemma snapshotBooks_rep:
  assumes "books_rep books A" and "set symbols \<subseteq> dom books"
  shows "\<exists>out'. snapshotBooks books out symbols = Some out'
    \<and> (\<forall>s. out' s = (if s \<in> set symbols then Some (abs_snapshot (A s)) else out s))"
  using assms(2)
proof (induction symbols arbitrary: out)
  case (Cons s symbols)
  then obtain b where b: "books s = Some b" by auto
  then have "Snapshot b = Some (abs_snapshot (A s))" using assms(1) Snapshot_refines(1) by (simp add: books_rep_def)
  moreover define out1 where "out1 = out(s \<mapsto> abs_snapshot (A s))"
  moreover obtain out' where "snapshotBooks books out1 symbols = Some out'"
    "\<forall>s. out' s = (if s \<in> set symbols then Some (abs_snapshot (A s)) else out1 s)"
    using Cons.IH [of out1] Cons.prems by auto
  ultimately show ?case using b by (intro exI [of _ out'] conjI allI) (auto simp: out1_def)
qed simp

lemma collectBooks_ok:
  assumes "\<forall>b\<in>set bss. ShardFor registry (bs_Symbol b) \<noteq> None" and "distinct (map bs_Symbol bss)"
  shows "\<exists>r. collectBooks registry restored bss = Inr r \<and> (\<forall>b\<in>set bss. r (bs_Symbol b) = Some b)
    \<and> (\<forall>s. s \<notin> bs_Symbol ` set bss \<longrightarrow> r s = restored s)"
  using assms
proof (induction bss arbitrary: restored)
  case (Cons b bss)
  define restored1 where "restored1 = restored(bs_Symbol b \<mapsto> b)"
  obtain r where "collectBooks registry restored1 bss = Inr r" "\<forall>b\<in>set bss. r (bs_Symbol b) = Some b"
    "\<forall>s. s \<notin> bs_Symbol ` set bss \<longrightarrow> r s = restored1 s" using Cons.IH [of restored1] Cons.prems by auto
  then show ?case using Cons.prems by (intro exI [of _ r]) (auto simp: restored1_def)
qed simp

subsection \<open>The whole recovery\<close>

text \<open>
  A snapshot of the engine taken when each shard had served the commands \<open>pre k\<close> and had the books
  \<open>mid k\<close>: the watermark of each shard and the snapshot of every book, in any order.
\<close>

definition snapshotTaken :: "Config \<Rightarrow> SymbolRegistry \<Rightarrow> (nat \<Rightarrow> Command list) \<Rightarrow> (nat \<Rightarrow> books) \<Rightarrow> EngineSnapshot \<Rightarrow> bool" where
  "snapshotTaken cfg registry pre mid snap \<longleftrightarrow>
     es_EngineID snap = cfg_EngineID cfg \<and> es_ShardCount snap = cfg_ShardCount cfg
   \<and> es_LastAppliedByShard snap = map (\<lambda>k. lastSeq 0 (pre k)) [0..<nat (cfg_ShardCount cfg)]
   \<and> distinct (map bs_Symbol (es_Books snap)) \<and> bs_Symbol ` set (es_Books snap) = set (cfg_Symbols cfg)
   \<and> (\<forall>bs\<in>set (es_Books snap). \<exists>k b. ShardFor registry (bs_Symbol bs) = Some (int k)
        \<and> mid k (bs_Symbol bs) = Some b \<and> Snapshot b = Some bs)"

text \<open>
  What the registry promises the shards: a shard in range for every symbol, and no symbol of
  a shard that is not routed to it.
\<close>

lemma registry_laws:
  assumes "Config_Validate cfg = None" and "NewSymbolRegistry (cfg_Symbols cfg) (cfg_ShardCount cfg) = Some (Inr registry)"
    and "cfg_ShardCount cfg < 2 ^ 32"
  shows "set (SymbolsForShard registry (int k)) = {s \<in> set (cfg_Symbols cfg). ShardFor registry s = Some (int k)}"
    and "s \<in> set (cfg_Symbols cfg) \<Longrightarrow> \<exists>k<nat (cfg_ShardCount cfg). ShardFor registry s = Some (int k)"
    and "s \<notin> set (cfg_Symbols cfg) \<Longrightarrow> ShardFor registry s = None"
proof -
  have v: "0 < cfg_ShardCount cfg" "cfg_Symbols cfg \<noteq> []" "distinct (cfg_Symbols cfg)" "[] \<notin> set (cfg_Symbols cfg)"
    using assms(1) by (auto simp: Config_Validate_def checkSymbols_None split: if_splits)
  have sf: "ShardFor registry s = (if s \<in> set (cfg_Symbols cfg) then stableShardID s (cfg_ShardCount cfg) else None)"
    and sy: "SymbolsForShard registry k = filter (\<lambda>s. stableShardID s (cfg_ShardCount cfg) = Some k) (cfg_Symbols cfg)" for s k
    using NewSymbolRegistry_ok [OF v(1) assms(3) v(2-4)] assms(2) by auto
  show "set (SymbolsForShard registry (int k)) = {s \<in> set (cfg_Symbols cfg). ShardFor registry s = Some (int k)}"
    by (auto simp: sf sy)
  show "ShardFor registry s = None" if "s \<notin> set (cfg_Symbols cfg)" using that by (simp add: sf)
  obtain k where "stableShardID s (cfg_ShardCount cfg) = Some k" "0 \<le> k" "k < cfg_ShardCount cfg"
    using stableShardID_range [OF v(1) assms(3)] by blast
  then show "\<exists>k<nat (cfg_ShardCount cfg). ShardFor registry s = Some (int k)" if "s \<in> set (cfg_Symbols cfg)"
    using that by (intro exI [of _ "nat k"]) (simp add: sf)
qed

text \<open>The books a recovery starts its replay with, in terms of the specification.\<close>

definition shardOf :: "SymbolRegistry \<Rightarrow> string \<Rightarrow> nat" where
  "shardOf registry s = nat (the (ShardFor registry s))"

definition atSnapshot :: "Config \<Rightarrow> SymbolRegistry \<Rightarrow> (nat \<Rightarrow> Command list) \<Rightarrow> abooks" where
  "atSnapshot cfg registry pre s =
     (if s \<in> set (cfg_Symbols cfg) then abs_serve emptyBook (pre (shardOf registry s)) s else emptyBook s)"

lemma abs_serve_represented: "abook_ok (abs_serve emptyBook cs s) \<and> (\<exists>b. represents b (abs_serve emptyBook cs s))"
proof -
  have "books_rep (\<lambda>s. Some (New s)) emptyBook" using New_represents emptyBook_ok by (simp add: books_rep_def)
  from serve_refines [OF this, of cs 0] obtain books' where "books_rep books' (abs_serve emptyBook cs)" "dom books' = UNIV"
    by auto
  then show ?thesis by (metis UNIV_I books_rep_def domD)
qed

lemma opened_books:
  assumes "\<forall>s\<in>set (cfg_Symbols cfg). \<exists>k. ShardFor registry s = Some (int k)"
    and "\<forall>s\<in>set (cfg_Symbols cfg). \<forall>k. ShardFor registry s = Some (int k) \<longrightarrow>
         restored s = Some (abs_snapshot (abs_serve emptyBook (pre k) s)) \<or> (restored s = None \<and> pre k = [])"
  shows "\<exists>books. openBooks restored Map.empty (cfg_Symbols cfg) = Some books \<and> books_rep books (atSnapshot cfg registry pre)
    \<and> dom books = set (cfg_Symbols cfg)"
proof -
  let ?A = "atSnapshot cfg registry pre"
  have "(restored s = None \<and> ?A s = emptyBook s)
      \<or> (restored s = Some (abs_snapshot (?A s)) \<and> abook_ok (?A s) \<and> (\<exists>b. represents b (?A s)))"
    if s: "s \<in> set (cfg_Symbols cfg)" for s
  proof -
    obtain k where "ShardFor registry s = Some (int k)" using assms(1) s by blast
    then show ?thesis using assms(2) s abs_serve_represented by (auto simp: atSnapshot_def shardOf_def)
  qed
  then have "\<exists>books. openBooks restored Map.empty (cfg_Symbols cfg) = Some books \<and> books_rep books ?A
      \<and> dom books = dom (Map.empty :: books) \<union> set (cfg_Symbols cfg)"
    by (intro openBooks_rep) (simp_all add: books_rep_def)
  then show ?thesis by simp
qed

lemma atSnapshot_shard:
  assumes "\<forall>c\<in>set (pre (shardOf registry s)). ShardFor registry (cmd_Symbol c) \<noteq> None"
    and "\<And>s. s \<notin> set (cfg_Symbols cfg) \<Longrightarrow> ShardFor registry s = None"
  shows "atSnapshot cfg registry pre s = abs_serve emptyBook (pre (shardOf registry s)) s"
proof (cases "s \<in> set (cfg_Symbols cfg)")
  case False
  then have "\<forall>c\<in>set (pre (shardOf registry s)). cmd_Symbol c \<noteq> s" using assms by fastforce
  then show ?thesis using abs_serve_other False by (simp add: atSnapshot_def)
qed (simp add: atSnapshot_def)

lemma recoverBooks_refines:
  assumes cfg: "Config_Validate cfg = None" "NewSymbolRegistry (cfg_Symbols cfg) (cfg_ShardCount cfg) = Some (Inr registry)"
      "cfg_ShardCount cfg < 2 ^ 32"
    and routed: "\<forall>k<nat (cfg_ShardCount cfg). \<forall>c\<in>set (pre k @ post k). ShardFor registry (cmd_Symbol c) = Some (int k)"
    and seqs: "\<forall>k<nat (cfg_ShardCount cfg). sorted_wrt (<) (0 # map cmd_Seq (pre k @ post k))"
    and log: "\<forall>k<nat (cfg_ShardCount cfg). ReadShardRecordsForEngine walDir (cfg_EngineID cfg) k (nat (cfg_ShardCount cfg))
           = Inr (abs_log (word_of_nat k) emptyBook (pre k @ post k))"
    and snap: "loadSnapshot cfg registry (LoadLatest genc gdec snapDir)
        = Inr (map (\<lambda>k. lastSeq 0 (pre k)) [0..<nat (cfg_ShardCount cfg)], restored)"
      "\<forall>s\<in>set (cfg_Symbols cfg). \<forall>k. ShardFor registry s = Some (int k) \<longrightarrow>
         restored s = Some (abs_snapshot (abs_serve emptyBook (pre k) s)) \<or> (restored s = None \<and> pre k = [])"
  shows "\<exists>out. recoverBooks genc gdec snapDir walDir cfg registry
      = Some (Inr (out, map (\<lambda>k. lastSeq 0 (pre k @ post k)) [0..<nat (cfg_ShardCount cfg)]))
    \<and> (\<forall>s\<in>set (cfg_Symbols cfg). \<forall>k. ShardFor registry s = Some (int k) \<longrightarrow>
         out s = Some (abs_snapshot (abs_serve emptyBook (pre k @ post k) s)))"
proof -
  let ?n = "nat (cfg_ShardCount cfg)" and ?l = "\<lambda>k. lastSeq 0 (pre k)"
  note reg = registry_laws [OF cfg]
  have sh: "ShardFor registry s = Some (int k) \<Longrightarrow> shardOf registry s = k" for s k by (simp add: shardOf_def)
  obtain books where b: "openBooks restored Map.empty (cfg_Symbols cfg) = Some books"
    "books_rep books (atSnapshot cfg registry pre)" "dom books = set (cfg_Symbols cfg)"
    using opened_books [of cfg registry restored pre] reg(2) snap(2) by blast
  have known: "\<forall>k\<in>set [0..<?n]. \<forall>c\<in>set (post k). shardOf registry (cmd_Symbol c) = k \<and> cmd_Symbol c \<in> dom books"
    using routed sh reg(3) b(3) by fastforce
  have at: "\<forall>s. shardOf registry s \<in> set [0..<?n] \<longrightarrow>
      atSnapshot cfg registry pre s = abs_serve emptyBook (pre (shardOf registry s)) s"
    using routed reg(3) by (auto intro!: atSnapshot_shard)
  obtain books' A' lasts' where r: "replayShards cfg walDir [0..<?n] books (map ?l [0..<?n]) = Some (Inr (books', lasts'))"
    "books_rep books' A'" "dom books' = dom books" "length lasts' = ?n"
    "\<forall>k<?n. lasts' ! k = lastSeq 0 (pre k @ post k)"
    "\<forall>s. A' s = (if shardOf registry s \<in> set [0..<?n]
        then abs_serve emptyBook (pre (shardOf registry s) @ post (shardOf registry s)) s else atSnapshot cfg registry pre s)"
    using replayShards_refines [OF b(2), of "[0..<?n]" "map ?l [0..<?n]" pre walDir cfg emptyBook post "shardOf registry"]
      log seqs known at by auto
  obtain out where out: "snapshotBooks books' Map.empty (cfg_Symbols cfg) = Some out"
    "\<forall>s. out s = (if s \<in> set (cfg_Symbols cfg) then Some (abs_snapshot (A' s)) else None)"
    using snapshotBooks_rep [OF r(2), of "cfg_Symbols cfg" Map.empty] r(3) b(3) by auto
  have "lasts' = map (\<lambda>k. lastSeq 0 (pre k @ post k)) [0..<?n]" using r(4,5) by (intro nth_equalityI) simp_all
  then have "recoverBooks genc gdec snapDir walDir cfg registry
      = Some (Inr (out, map (\<lambda>k. lastSeq 0 (pre k @ post k)) [0..<?n]))"
    using snap(1) b(1) r(1) out(1) by (simp add: recoverBooks_def)
  moreover have "out s = Some (abs_snapshot (abs_serve emptyBook (pre k @ post k) s))"
    if s: "s \<in> set (cfg_Symbols cfg)" "ShardFor registry s = Some (int k)" for s k
  proof -
    have "k < ?n" using reg(2) [OF s(1)] s(2) by auto
    then show ?thesis using out(2) r(6) s sh [OF s(2)] by simp
  qed
  ultimately show ?thesis by blast
qed

text \<open>The run of one shard from empty books, in terms of the specification.\<close>

lemma shard_run_refines:
  assumes "openBooks Map.empty Map.empty symbols = Some start" and "\<forall>c\<in>set (pre @ post). cmd_Symbol c \<in> set symbols"
    and "serve shard start pre = Some (mid, midLog)" and "serve shard mid post = Some (after, tailLog)"
  shows "midLog @ tailLog = abs_log shard emptyBook (pre @ post)"
    and "books_rep mid (abs_serve emptyBook pre)" and "dom mid = set symbols"
    and "books_rep after (abs_serve emptyBook (pre @ post))" and "dom after = set symbols"
proof -
  have "\<exists>books'. openBooks Map.empty Map.empty symbols = Some books' \<and> books_rep books' emptyBook
      \<and> dom books' = dom (Map.empty :: books) \<union> set symbols"
    by (rule openBooks_rep) (simp_all add: books_rep_def)
  then have st: "books_rep start emptyBook" "dom start = set symbols" using assms(1) by auto
  have m: "midLog = abs_log shard emptyBook pre" "books_rep mid (abs_serve emptyBook pre)" "dom mid = set symbols"
    using serve_refines [OF st(1), of pre shard] assms(2,3) st(2) by auto
  have l: "tailLog = abs_log shard (abs_serve emptyBook pre) post" "books_rep after (abs_serve emptyBook (pre @ post))"
    "dom after = set symbols"
    using serve_refines [OF m(2), of post shard] assms(2,4) m(3) by auto
  show "midLog @ tailLog = abs_log shard emptyBook (pre @ post)" using m(1) l(1) by (simp add: abs_log_append)
  show "books_rep mid (abs_serve emptyBook pre)" and "dom mid = set symbols"
    and "books_rep after (abs_serve emptyBook (pre @ post))" and "dom after = set symbols"
    using m l by simp_all
qed

lemma map_stored_abs_log: "map stored (abs_log shard A cs) = abs_log shard A cs"
  by (induction cs arbitrary: A) (simp_all add: abs_record_def)

lemma loadSnapshot_taken:
  assumes "snapshotTaken cfg registry pre mid snap" and "LoadLatest genc gdec snapDir = Inr (snap, path)"
    and "0 < cfg_ShardCount cfg"
    and mid: "\<And>k s b. ShardFor registry s = Some (int k) \<Longrightarrow> mid k s = Some b \<Longrightarrow> Snapshot b = Some (abs_snapshot (A k s))"
  shows "\<exists>restored. loadSnapshot cfg registry (LoadLatest genc gdec snapDir)
      = Inr (map (\<lambda>k. lastSeq 0 (pre k)) [0..<nat (cfg_ShardCount cfg)], restored)
    \<and> (\<forall>s\<in>set (cfg_Symbols cfg). \<forall>k. ShardFor registry s = Some (int k) \<longrightarrow> restored s = Some (abs_snapshot (A k s)))"
proof -
  have t: "es_EngineID snap = cfg_EngineID cfg" "es_ShardCount snap = cfg_ShardCount cfg"
    "es_LastAppliedByShard snap = map (\<lambda>k. lastSeq 0 (pre k)) [0..<nat (cfg_ShardCount cfg)]"
    "distinct (map bs_Symbol (es_Books snap))" "bs_Symbol ` set (es_Books snap) = set (cfg_Symbols cfg)"
    "\<forall>bs\<in>set (es_Books snap). \<exists>k b. ShardFor registry (bs_Symbol bs) = Some (int k)
        \<and> mid k (bs_Symbol bs) = Some b \<and> Snapshot b = Some bs"
    using assms(1) unfolding snapshotTaken_def by simp_all
  have "\<forall>b\<in>set (es_Books snap). ShardFor registry (bs_Symbol b) \<noteq> None" using t(6) by fastforce
  from collectBooks_ok [OF this t(4), of Map.empty] obtain restored where
    r: "collectBooks registry Map.empty (es_Books snap) = Inr restored" "\<forall>b\<in>set (es_Books snap). restored (bs_Symbol b) = Some b"
    by blast
  have "restored s = Some (abs_snapshot (A k s))" if s: "s \<in> set (cfg_Symbols cfg)" "ShardFor registry s = Some (int k)" for s k
  proof -
    obtain bs where bs: "bs \<in> set (es_Books snap)" "s = bs_Symbol bs" using s(1) t(5) by auto
    then obtain b where "mid k s = Some b" "Snapshot b = Some bs" using t(6) s(2) by fastforce
    then show ?thesis using mid [OF s(2)] r(2) bs by auto
  qed
  moreover have "loadSnapshot cfg registry (LoadLatest genc gdec snapDir)
      = Inr (map (\<lambda>k. lastSeq 0 (pre k)) [0..<nat (cfg_ShardCount cfg)], restored)"
    using assms(2,3) t(1-3) r(1) by (simp add: loadSnapshot_def)
  ultimately show ?thesis by blast
qed

lemma snapshot_or_empty:
  assumes "(\<exists>snap path. LoadLatest genc gdec snapDir = Inr (snap, path) \<and> snapshotTaken cfg registry pre mid snap)
       \<or> LoadLatest genc gdec snapDir = Inl SnapNotExist \<and> (\<forall>k<nat (cfg_ShardCount cfg). pre k = [])"
    and n: "0 < cfg_ShardCount cfg"
    and mid: "\<And>k s b. ShardFor registry s = Some (int k) \<Longrightarrow> mid k s = Some b \<Longrightarrow> Snapshot b = Some (abs_snapshot (A k s))"
    and inrange: "\<And>s k. ShardFor registry s = Some (int k) \<Longrightarrow> k < nat (cfg_ShardCount cfg)"
  shows "\<exists>restored. loadSnapshot cfg registry (LoadLatest genc gdec snapDir)
      = Inr (map (\<lambda>k. lastSeq 0 (pre k)) [0..<nat (cfg_ShardCount cfg)], restored)
    \<and> (\<forall>s\<in>set (cfg_Symbols cfg). \<forall>k. ShardFor registry s = Some (int k) \<longrightarrow>
         restored s = Some (abs_snapshot (A k s)) \<or> (restored s = None \<and> pre k = []))"
  using assms(1)
proof
  assume "\<exists>snap path. LoadLatest genc gdec snapDir = Inr (snap, path) \<and> snapshotTaken cfg registry pre mid snap"
  then obtain snap path where l: "LoadLatest genc gdec snapDir = Inr (snap, path)" and t: "snapshotTaken cfg registry pre mid snap"
    by blast
  from loadSnapshot_taken [where A = A, OF t l n mid] show ?thesis by blast
next
  assume "LoadLatest genc gdec snapDir = Inl SnapNotExist \<and> (\<forall>k<nat (cfg_ShardCount cfg). pre k = [])"
  moreover from this have "map (\<lambda>k. lastSeq 0 (pre k)) [0..<nat (cfg_ShardCount cfg)] = replicate (nat (cfg_ShardCount cfg)) 0"
    by (intro nth_equalityI) simp_all
  ultimately show ?thesis using inrange by (simp add: loadSnapshot_def)
qed

subsection \<open>Properties\<close>

text \<open>The runs of all shards, and the snapshot taken between their two parts.\<close>

lemma runs_refine:
  assumes cfg: "Config_Validate cfg = None" "NewSymbolRegistry (cfg_Symbols cfg) (cfg_ShardCount cfg) = Some (Inr registry)"
      "cfg_ShardCount cfg < 2 ^ 32"
    and routed: "\<forall>k<nat (cfg_ShardCount cfg). \<forall>c\<in>set (pre k @ post k). ShardFor registry (cmd_Symbol c) = Some (int k)"
    and run: "\<forall>k<nat (cfg_ShardCount cfg). openBooks Map.empty Map.empty (SymbolsForShard registry (int k)) = Some (start k)
       \<and> serve (word_of_nat k) (start k) (pre k) = Some (mid k, midLog k)
       \<and> serve (word_of_nat k) (mid k) (post k) = Some (after k, tailLog k)" and k: "k < nat (cfg_ShardCount cfg)"
  shows "midLog k @ tailLog k = abs_log (word_of_nat k) emptyBook (pre k @ post k)"
    and "books_rep (mid k) (abs_serve emptyBook (pre k))" and "books_rep (after k) (abs_serve emptyBook (pre k @ post k))"
    and "dom (after k) = set (SymbolsForShard registry (int k))"
proof -
  note reg = registry_laws [OF cfg]
  have known: "\<forall>c\<in>set (pre k @ post k). cmd_Symbol c \<in> set (SymbolsForShard registry (int k))"
    using routed k reg(3) unfolding reg(1) by fastforce
  have s: "openBooks Map.empty Map.empty (SymbolsForShard registry (int k)) = Some (start k)"
    "serve (word_of_nat k) (start k) (pre k) = Some (mid k, midLog k)"
    "serve (word_of_nat k) (mid k) (post k) = Some (after k, tailLog k)" using run k by blast+
  note r = shard_run_refines [OF s(1) known s(2,3)]
  show "midLog k @ tailLog k = abs_log (word_of_nat k) emptyBook (pre k @ post k)"
    "books_rep (mid k) (abs_serve emptyBook (pre k))" "books_rep (after k) (abs_serve emptyBook (pre k @ post k))"
    "dom (after k) = set (SymbolsForShard registry (int k))" using r by simp_all
qed

lemma snapshot_loads:
  assumes cfg: "Config_Validate cfg = None" "NewSymbolRegistry (cfg_Symbols cfg) (cfg_ShardCount cfg) = Some (Inr registry)"
      "cfg_ShardCount cfg < 2 ^ 32"
    and snap: "(\<exists>snap path. LoadLatest genc gdec snapDir = Inr (snap, path) \<and> snapshotTaken cfg registry pre mid snap)
       \<or> LoadLatest genc gdec snapDir = Inl SnapNotExist \<and> (\<forall>k<nat (cfg_ShardCount cfg). pre k = [])"
    and mid: "\<forall>k<nat (cfg_ShardCount cfg). books_rep (mid k) (abs_serve emptyBook (pre k))"
  shows "\<exists>restored. loadSnapshot cfg registry (LoadLatest genc gdec snapDir)
      = Inr (map (\<lambda>k. lastSeq 0 (pre k)) [0..<nat (cfg_ShardCount cfg)], restored)
    \<and> (\<forall>s\<in>set (cfg_Symbols cfg). \<forall>k. ShardFor registry s = Some (int k) \<longrightarrow>
         restored s = Some (abs_snapshot (abs_serve emptyBook (pre k) s)) \<or> (restored s = None \<and> pre k = []))"
proof -
  note reg = registry_laws [OF cfg]
  have n: "0 < cfg_ShardCount cfg" using cfg(1) by (auto simp: Config_Validate_def split: if_splits)
  have inrange: "k < nat (cfg_ShardCount cfg)" if "ShardFor registry s = Some (int k)" for s k
    using reg(2,3) that by (cases "s \<in> set (cfg_Symbols cfg)") fastforce+
  have "Snapshot b = Some (abs_snapshot (abs_serve emptyBook (pre k) s))"
    if "ShardFor registry s = Some (int k)" "mid k s = Some b" for k s b
    using mid inrange [OF that(1)] that(2) Snapshot_refines(1) by (auto simp: books_rep_def)
  then show ?thesis by (intro snapshot_or_empty [OF snap n]) (auto intro: inrange)
qed

lemma recovery_reproduces:
  assumes "Config_Validate cfg = None" and "NewSymbolRegistry (cfg_Symbols cfg) (cfg_ShardCount cfg) = Some (Inr registry)"
    and "cfg_ShardCount cfg < 2 ^ 32"
    and "\<forall>k<nat (cfg_ShardCount cfg). \<forall>c\<in>set (pre k @ post k). ShardFor registry (cmd_Symbol c) = Some (int k)"
    and "\<forall>k<nat (cfg_ShardCount cfg). sorted_wrt (<) (0 # map cmd_Seq (pre k @ post k))"
    and "\<forall>k<nat (cfg_ShardCount cfg). openBooks Map.empty Map.empty (SymbolsForShard registry (int k)) = Some (start k)
       \<and> serve (word_of_nat k) (start k) (pre k) = Some (mid k, midLog k)
       \<and> serve (word_of_nat k) (mid k) (post k) = Some (after k, tailLog k)"
    and "\<forall>k<nat (cfg_ShardCount cfg). ReadShardRecordsForEngine walDir (cfg_EngineID cfg) k (nat (cfg_ShardCount cfg))
       = Inr (map stored (midLog k @ tailLog k))"
    and "(\<exists>snap path. LoadLatest genc gdec snapDir = Inr (snap, path) \<and> snapshotTaken cfg registry pre mid snap)
       \<or> LoadLatest genc gdec snapDir = Inl SnapNotExist \<and> (\<forall>k<nat (cfg_ShardCount cfg). pre k = [])"
  shows "\<exists>out. recoverBooks genc gdec snapDir walDir cfg registry
      = Some (Inr (out, map (\<lambda>k. lastSeq 0 (pre k @ post k)) [0..<nat (cfg_ShardCount cfg)]))
    \<and> (\<forall>s\<in>set (cfg_Symbols cfg). \<exists>k b. ShardFor registry s = Some (int k) \<and> after k s = Some b \<and> out s = Snapshot b)"
proof -
  let ?n = "nat (cfg_ShardCount cfg)"
  note reg = registry_laws [OF assms(1-3)] and run = runs_refine [OF assms(1-4,6)]
  have log: "\<forall>k<?n. ReadShardRecordsForEngine walDir (cfg_EngineID cfg) k ?n = Inr (abs_log (word_of_nat k) emptyBook (pre k @ post k))"
    using assms(7) run(1) map_stored_abs_log by simp
  obtain restored where "loadSnapshot cfg registry (LoadLatest genc gdec snapDir)
      = Inr (map (\<lambda>k. lastSeq 0 (pre k)) [0..<?n], restored)"
    "\<forall>s\<in>set (cfg_Symbols cfg). \<forall>k. ShardFor registry s = Some (int k) \<longrightarrow>
         restored s = Some (abs_snapshot (abs_serve emptyBook (pre k) s)) \<or> (restored s = None \<and> pre k = [])"
    using snapshot_loads [OF assms(1-3,8)] run(2) by blast
  from recoverBooks_refines [OF assms(1-5) log this] obtain out where
    out: "recoverBooks genc gdec snapDir walDir cfg registry = Some (Inr (out, map (\<lambda>k. lastSeq 0 (pre k @ post k)) [0..<?n]))"
    "\<forall>s\<in>set (cfg_Symbols cfg). \<forall>k. ShardFor registry s = Some (int k) \<longrightarrow>
         out s = Some (abs_snapshot (abs_serve emptyBook (pre k @ post k) s))" by blast
  have "\<exists>k b. ShardFor registry s = Some (int k) \<and> after k s = Some b \<and> out s = Snapshot b" if s: "s \<in> set (cfg_Symbols cfg)" for s
  proof -
    obtain k where k: "k < ?n" "ShardFor registry s = Some (int k)" using reg(2) [OF s] by blast
    then have "s \<in> dom (after k)" using run(4) reg(1) s by simp
    then obtain b where b: "after k s = Some b" by blast
    then have "Snapshot b = out s" using run(3) [OF k(1)] out(2) s k(2) Snapshot_refines(1) by (auto simp: books_rep_def)
    with k b show ?thesis by metis
  qed
  with out(1) show ?thesis by blast
qed

text \<open>
  C10: recovery reproduces the run.  Every shard started with empty books and served the commands
  \<open>pre k\<close>, then possibly a snapshot was taken, then it served \<open>post k\<close>; the log of each shard has the
  records of all its commands.  Then recovery succeeds, finds no mismatch, and returns for every symbol the
  snapshot of the book its shard had at the end, and for every shard the sequence number of its
  last command.
\<close>

theorem recovery_reproduces_run:
  assumes "Config_Validate cfg = None" and "NewSymbolRegistry (cfg_Symbols cfg) (cfg_ShardCount cfg) = Some (Inr registry)"
    and "cfg_ShardCount cfg < 2 ^ 32"
    and "\<forall>k<nat (cfg_ShardCount cfg). \<forall>c\<in>set (pre k @ post k). ShardFor registry (cmd_Symbol c) = Some (int k)"
    and "\<forall>k<nat (cfg_ShardCount cfg). sorted_wrt (<) (0 # map cmd_Seq (pre k @ post k))"
    and "\<forall>k<nat (cfg_ShardCount cfg). openBooks Map.empty Map.empty (SymbolsForShard registry (int k)) = Some (start k)
       \<and> serve (word_of_nat k) (start k) (pre k) = Some (mid k, midLog k)
       \<and> serve (word_of_nat k) (mid k) (post k) = Some (after k, tailLog k)"
    and "\<forall>k<nat (cfg_ShardCount cfg). ReadShardRecordsForEngine walDir (cfg_EngineID cfg) k (nat (cfg_ShardCount cfg))
       = Inr (map stored (midLog k @ tailLog k))"
    and "(\<exists>snap path. LoadLatest genc gdec snapDir = Inr (snap, path) \<and> snapshotTaken cfg registry pre mid snap)
       \<or> LoadLatest genc gdec snapDir = Inl SnapNotExist \<and> (\<forall>k<nat (cfg_ShardCount cfg). pre k = [])"
  shows "\<exists>out. recoverBooks genc gdec snapDir walDir cfg registry
      = Some (Inr (out, map (\<lambda>k. lastSeq 0 (pre k @ post k)) [0..<nat (cfg_ShardCount cfg)]))
    \<and> (\<forall>s\<in>set (cfg_Symbols cfg). \<exists>k b. ShardFor registry s = Some (int k) \<and> after k s = Some b \<and> out s = Snapshot b)"
  by (rule recovery_reproduces [OF assms])

text \<open>One shard with one book, one command, and the log of it.\<close>

definition oneShard :: Config where
  "oneShard = sampleConfig\<lparr>cfg_Symbols := [''BTC''], cfg_ShardCount := 1\<rparr>"

definition oneRecord :: Record where
  "oneRecord = logRecord 0 sampleCommand (snd (the (Apply (New ''BTC'') sampleCommand)))"

definition oneHeader :: SegmentHeader where
  "oneHeader = \<lparr>sh_EngineID = ''engine-1'', sh_ShardID = 0, sh_ShardCount = 1\<rparr>"

definition oneWal :: wal_dir where
  "oneWal = [(''shard-00-000000.wal'', Some (segmentBytes oneHeader [oneRecord]))]"

definition oneRegistry :: SymbolRegistry where
  "oneRegistry = (case NewSymbolRegistry [''BTC''] 1 of Some (Inr r) \<Rightarrow> r)"

lemma oneRecord_loggable: "loggable 0 oneRecord"
proof -
  have "length (res_Events (snd (the (Apply (New ''BTC'') sampleCommand)))) = 2" by code_simp
  then show ?thesis
    by (simp add: loggable_def encodable_def payloadSize_def oneRecord_def logRecord_def sampleCommand_def
        payloadFixedSize_def eventEncodedSize_def)
qed

lemma oneWal_records: "ReadShardRecordsForEngine oneWal ''engine-1'' 0 1 = Inr (map stored [oneRecord])"
proof -
  let ?n = "''shard-00-000000.wal''"
  have "sort (glob (segmentPrefix 0) ''.wal'' [?n]) = [?n]" by code_simp
  then have s: "sort (glob (segmentPrefix 0) ''.wal'' (map fst oneWal)) = map fst ([] :: (string \<times> Record list) list) @ [?n]"
    by (simp add: oneWal_def)
  obtain hb where hb: "EncodeSegmentHeader oneHeader = Inr hb" by (auto simp: EncodeSegmentHeader_def oneHeader_def)
  have "\<exists>n\<le>length [oneRecord]. (\<forall>m\<le>length [oneRecord].
      length (segmentBytes oneHeader (take m [oneRecord])) \<le> length (segmentBytes oneHeader [oneRecord]) \<longrightarrow> m \<le> n)
    \<and> ReadShardRecordsForEngine oneWal (sh_EngineID oneHeader) 0 1
      = Inr (map stored (concat (map snd ([] :: (string \<times> Record list) list)) @ take n [oneRecord]))"
    by (rule ReadShardRecords_torn [OF hb _ _ _ _ _ s]) (simp_all add: oneHeader_def oneWal_def oneRecord_loggable)
  then show ?thesis by (auto simp: oneHeader_def)
qed

lemma oneShard_fields: "Config_Validate oneShard = None" "cfg_Symbols oneShard = [''BTC'']" "cfg_ShardCount oneShard = 1"
  "cfg_EngineID oneShard = ''engine-1''" "cfg_ShardCount oneShard < 2 ^ 32"
  by (simp_all add: oneShard_def sampleConfig_def Config_Validate_def)

lemma oneRegistry_new: "NewSymbolRegistry (cfg_Symbols oneShard) (cfg_ShardCount oneShard) = Some (Inr oneRegistry)"
proof -
  have "\<exists>r. NewSymbolRegistry [''BTC''] 1 = Some (Inr r)" using NewSymbolRegistry_ok [of 1 "[''BTC'']"] by auto
  then show ?thesis using oneShard_fields by (auto simp: oneRegistry_def)
qed

lemma oneRegistry_routes: "ShardFor oneRegistry ''BTC'' = Some (int 0)" "SymbolsForShard oneRegistry (int 0) = [''BTC'']"
proof -
  note laws = registry_laws [OF oneShard_fields(1) oneRegistry_new oneShard_fields(5)]
  show sf: "ShardFor oneRegistry ''BTC'' = Some (int 0)" using laws(2) [of "''BTC''"] oneShard_fields by auto
  show "SymbolsForShard oneRegistry (int 0) = [''BTC'']"
    using laws(1) [of 0] oneShard_fields sf NewSymbolRegistry_ok [of 1 "[''BTC'']"] oneRegistry_new by (auto split: if_splits)
qed

lemma sampleCommand_fields: "cmd_Symbol sampleCommand = ''BTC''" "cmd_Seq sampleCommand = 7"
  by (simp_all add: sampleCommand_def)

text \<open>The run of the shard, before and after the snapshot.\<close>

lemma oneShard_run:
  "\<exists>b. \<forall>k<nat (cfg_ShardCount oneShard). openBooks Map.empty Map.empty (SymbolsForShard oneRegistry (int k)) = Some [''BTC'' \<mapsto> New ''BTC'']
     \<and> serve (word_of_nat k) [''BTC'' \<mapsto> New ''BTC''] [] = Some ([''BTC'' \<mapsto> New ''BTC''], [])
     \<and> serve (word_of_nat k) [''BTC'' \<mapsto> New ''BTC''] [sampleCommand] = Some ([''BTC'' \<mapsto> b], [oneRecord])"
proof -
  obtain b r where b: "Apply (New ''BTC'') sampleCommand = Some (b, r)"
    using Apply_refines [OF New_represents [of "''BTC''"], of sampleCommand] by blast
  then have "oneRecord = logRecord 0 sampleCommand r" by (simp add: oneRecord_def)
  then show ?thesis using b sampleCommand_fields oneRegistry_routes oneShard_fields(3) by (intro exI [of _ b]) simp
qed

lemma oneShard_log:
  "\<forall>k<nat (cfg_ShardCount oneShard). ReadShardRecordsForEngine oneWal (cfg_EngineID oneShard) k (nat (cfg_ShardCount oneShard))
     = Inr (map stored ([] @ [oneRecord]))"
  using oneWal_records oneShard_fields(3,4) by simp

theorem recovery_reproduces_run_witness:
  "\<exists>out. recoverBooks (\<lambda>_. Inl ''gob'') (\<lambda>_. Inl ''gob'') [] oneWal oneShard oneRegistry = Some (Inr (out, [7]))
     \<and> (\<exists>b. out ''BTC'' = Snapshot b)"
proof -
  obtain b where run: "\<forall>k<nat (cfg_ShardCount oneShard). openBooks Map.empty Map.empty (SymbolsForShard oneRegistry (int k)) = Some [''BTC'' \<mapsto> New ''BTC'']
     \<and> serve (word_of_nat k) [''BTC'' \<mapsto> New ''BTC''] [] = Some ([''BTC'' \<mapsto> New ''BTC''], [])
     \<and> serve (word_of_nat k) [''BTC'' \<mapsto> New ''BTC''] [sampleCommand] = Some ([''BTC'' \<mapsto> b], [oneRecord])"
    using oneShard_run by blast
  have "\<exists>out. recoverBooks (\<lambda>_. Inl ''gob'') (\<lambda>_. Inl ''gob'') [] oneWal oneShard oneRegistry
      = Some (Inr (out, map (\<lambda>k. lastSeq 0 ([] @ [sampleCommand])) [0..<nat (cfg_ShardCount oneShard)]))
    \<and> (\<forall>s\<in>set (cfg_Symbols oneShard). \<exists>k b'. ShardFor oneRegistry s = Some (int k) \<and> [''BTC'' \<mapsto> b] s = Some b' \<and> out s = Snapshot b')"
    by (rule recovery_reproduces_run [OF oneShard_fields(1) oneRegistry_new oneShard_fields(5) _ _ run oneShard_log])
      (use sampleCommand_fields oneRegistry_routes oneShard_fields(3) in \<open>auto simp: LoadLatest_def glob_def\<close>)
  then show ?thesis using oneShard_fields sampleCommand_fields by auto
qed

text \<open>The records of a log above a watermark.\<close>

definition recordsAbove :: "uint64 \<Rightarrow> Record list \<Rightarrow> Record list" where
  "recordsAbove l recs = filter (\<lambda>r. l < rec_CommandSeq r) recs"

lemma recordsAbove_ordered:
  assumes "sorted_wrt (<) (map rec_CommandSeq (r # recs))" and "l < rec_CommandSeq r"
  shows "recordsAbove l (r # recs) = r # recordsAbove (rec_CommandSeq r) recs"
proof -
  have "\<forall>x\<in>set recs. rec_CommandSeq r < rec_CommandSeq x \<and> l < rec_CommandSeq x" using assms by (auto intro: less_trans)
  then have "recordsAbove l recs = recs" "recordsAbove (rec_CommandSeq r) recs = recs" by (simp_all add: recordsAbove_def)
  then show ?thesis using assms(2) by (simp add: recordsAbove_def)
qed

lemma serve_length: "serve shard books cs = Some (books', log) \<Longrightarrow> length log \<le> length cs"
  by (induction cs arbitrary: books log) (force split: option.splits bind_splits)+

lemma replayRecords_iff:
  assumes "sorted_wrt (<) (map rec_CommandSeq recs)"
  shows "replayRecords k books l l recs = Some (Inr (books', l'))
    \<longleftrightarrow> (\<exists>log. serve shard books (map rec_Command (recordsAbove l recs)) = Some (books', log)
          \<and> map rec_Result log = map rec_Result (recordsAbove l recs))
      \<and> l' = last (l # map rec_CommandSeq (recordsAbove l recs))"
  using assms
proof (induction recs arbitrary: books l)
  case (Cons r recs)
  let ?s = "cmd_Symbol (rec_Command r)" and ?c = "rec_Command r"
  have IH: "replayRecords k books l l recs = Some (Inr (books', l'))
    \<longleftrightarrow> (\<exists>log. serve shard books (map rec_Command (recordsAbove l recs)) = Some (books', log)
          \<and> map rec_Result log = map rec_Result (recordsAbove l recs))
      \<and> l' = last (l # map rec_CommandSeq (recordsAbove l recs))" for books l using Cons by simp
  show ?case
  proof (cases "rec_CommandSeq r \<le> l")
    case True
    then have f: "recordsAbove l (r # recs) = recordsAbove l recs" by (simp add: recordsAbove_def not_less)
    show ?thesis using True IH [of books l] unfolding f by simp
  next
    case False
    then have f: "recordsAbove l (r # recs) = r # recordsAbove (rec_CommandSeq r) recs" using recordsAbove_ordered [OF Cons.prems] by simp
    show ?thesis
    proof (cases "books ?s")
      case None
      have "map rec_Result log \<noteq> rec_Result r # map rec_Result (recordsAbove (rec_CommandSeq r) recs)"
        if "serve shard books (map rec_Command (recordsAbove (rec_CommandSeq r) recs)) = Some (books', log)" for log
      proof -
        have "length log \<le> length (recordsAbove (rec_CommandSeq r) recs)" using serve_length [OF that] by simp
        then have "length (map rec_Result log) \<noteq> length (rec_Result r # map rec_Result (recordsAbove (rec_CommandSeq r) recs))" by simp
        then show ?thesis by metis
      qed
      then show ?thesis using False None unfolding f by auto
    next
      case (Some b)
      show ?thesis
      proof (cases "Apply b ?c")
        case None
        then show ?thesis using False Some unfolding f by simp
      next
        case (Some p)
        obtain b1 res where p: "Apply b ?c = Some (b1, res)" using Some by (cases p) simp
        show ?thesis using False \<open>books ?s = Some b\<close> p IH [of "books(?s \<mapsto> b1)" "rec_CommandSeq r"] unfolding f
          by (auto simp: EqualResults_iff logRecord_def split: bind_splits)
      qed
    qed
  qed
qed (auto simp: recordsAbove_def)

text \<open>
  C32: a replay accepts exactly what it can reproduce.  For a log in increasing order of sequence numbers, the replay of a shard succeeds if and
  only if every record above the watermark has a book and carries the result that the books, serving the commands in
  order, compute for it; then the recovered books are those that have served the commands, and the new watermark is the sequence number of the
  last record above the old one.  (The order is a hypothesis: a replay does not report a log that is out of order, as
  \<open>out_of_order_records_are_skipped\<close> shows.)
\<close>

theorem replay_accepts_only_what_it_reproduces:
  assumes "sorted_wrt (<) (map rec_CommandSeq recs)"
  shows "replayRecords k books l l recs = Some (Inr (books', l'))
    \<longleftrightarrow> (\<exists>log. serve shard books (map rec_Command (recordsAbove l recs)) = Some (books', log)
          \<and> map rec_Result log = map rec_Result (recordsAbove l recs))
      \<and> l' = last (l # map rec_CommandSeq (recordsAbove l recs))"
  by (rule replayRecords_iff [OF assms])

text \<open>Two records in order are replayed; if the result of the first is changed they are refused.\<close>

definition laterCommand :: Command where
  "laterCommand = sampleCommand\<lparr>cmd_Seq := 8\<rparr>"

theorem replay_accepts_only_what_it_reproduces_witness:
  "\<exists>rec rec' books'. replayRecords 0 [''BTC'' \<mapsto> New ''BTC''] 0 0 [rec, rec'] = Some (Inr (books', 8))
     \<and> (\<nexists>books'. replayRecords 0 [''BTC'' \<mapsto> New ''BTC''] 0 0 [rec\<lparr>rec_Result := \<lparr>res_CommandSeq = 99, res_Events = []\<rparr>\<rparr>, rec'] = Some (Inr (books', 8)))"
proof -
  let ?books = "[''BTC'' \<mapsto> New ''BTC'']" and ?bad = "\<lparr>res_CommandSeq = 99, res_Events = []\<rparr> :: Result"
  have c: "cmd_Symbol sampleCommand = ''BTC''" "cmd_Seq sampleCommand = 7" "cmd_Symbol laterCommand = ''BTC''" "cmd_Seq laterCommand = 8"
    by (simp_all add: sampleCommand_def laterCommand_def)
  obtain b r where b: "Apply (New ''BTC'') sampleCommand = Some (b, r)" "represents b (fst (abs_apply (emptyBook ''BTC'') sampleCommand))" "res_CommandSeq r = 7"
    using Apply_refines [OF New_represents [of "''BTC''"], of sampleCommand] c(2) by auto
  obtain b' r' where b': "Apply b laterCommand = Some (b', r')" using Apply_refines [OF b(2), of laterCommand] by blast
  let ?rec = "logRecord 0 sampleCommand r" and ?rec' = "logRecord 0 laterCommand r'"
  have "sorted_wrt (<) (map rec_CommandSeq [?rec\<lparr>rec_Result := x\<rparr>, ?rec'])" "recordsAbove 0 [?rec\<lparr>rec_Result := x\<rparr>, ?rec'] = [?rec\<lparr>rec_Result := x\<rparr>, ?rec']" for x
    using c by (simp_all add: logRecord_def recordsAbove_def)
  note t = replay_accepts_only_what_it_reproduces [OF this(1), of 0 ?books 0 _ _ _ 0, unfolded this(2)]
  have "\<exists>books'. replayRecords 0 ?books 0 0 [?rec, ?rec'] = Some (Inr (books', 8))"
    using t [of r] b b' c by (simp add: logRecord_def)
  moreover have "\<nexists>books'. replayRecords 0 ?books 0 0 [?rec\<lparr>rec_Result := ?bad\<rparr>, ?rec'] = Some (Inr (books', 8))"
    using t [of ?bad] b b' c by (auto simp: logRecord_def)
  ultimately show ?thesis by blast
qed

text \<open>
  The check for a sequence number that is not above the previous one never reports anything,
  whatever the log: a record that is out of order is at or below the watermark, which follows the
  replay, and is skipped as already applied.
\<close>

lemma out_of_order_records_are_skipped:
  "replayRecords k books l l recs \<noteq> Some (Inl (RecNonMonotonic j prev cur))"
proof (induction recs arbitrary: books l)
  case (Cons r recs)
  then show ?case by (auto split: option.splits bind_splits if_splits)
qed simp

lemma maxSequenceFrom_max: "maxSequenceFrom m ss = Max (set (m # ss))"
proof (induction ss arbitrary: m)
  case (Cons s ss)
  have "(if s > m then s else m) = max m s" by (auto simp: max_def)
  then have "maxSequenceFrom m (s # ss) = Max (set (max m s # ss))" using Cons [of "max m s"] by (simp only: maxSequenceFrom.simps)
  then show ?case by (cases "ss = []") (auto simp: max.assoc)
qed simp

lemma nextSequence_above:
  assumes "nextSequence lasts \<noteq> 0" and "s \<in> set lasts"
  shows "s < nextSequence lasts"
proof -
  let ?m = "Max (set (0 # lasts))"
  have "s \<le> ?m" "?m + 1 \<noteq> 0" using assms by (simp_all add: nextSequence_def maxSequenceFrom_max)
  then show ?thesis using unatSuc [of ?m] by (simp add: nextSequence_def maxSequenceFrom_max word_less_nat_alt word_le_nat_alt add.commute)
qed

lemma nextSequence_next:
  assumes "lasts \<noteq> []"
  shows "\<exists>s\<in>set lasts. nextSequence lasts = s + 1"
proof -
  let ?m = "Max (set (0 # lasts))"
  have m: "?m \<in> set (0 # lasts)" by (rule Max_in) simp_all
  have "?m \<in> set lasts"
  proof (cases "?m = 0")
    case True
    obtain s where s: "s \<in> set lasts" using assms by (cases lasts) auto
    then have "s \<le> ?m" by (intro Max_ge) simp_all
    then have "s = ?m" using True by simp
    then show ?thesis using s by simp
  qed (use m in simp)
  then show ?thesis by (auto simp: nextSequence_def maxSequenceFrom_max)
qed

lemma nextSequence_zero: "nextSequence lasts = 0 \<longleftrightarrow> - 1 \<in> set lasts"
proof -
  let ?m = "Max (set (0 # lasts))"
  have m: "?m \<in> set (0 # lasts)" "\<forall>s\<in>set lasts. s \<le> ?m" by (rule Max_in) simp_all
  have z: "?m + 1 = 0 \<longleftrightarrow> ?m = - 1" by (simp add: eq_neg_iff_add_eq_0)
  have "?m = - 1" if "- 1 \<in> set lasts"
  proof (rule order.antisym)
    show "?m \<le> - 1" by (rule word_n1_ge)
    show "- 1 \<le> ?m" using m(2) that by blast
  qed
  moreover have "(0 :: uint64) \<noteq> - 1" by simp
  ultimately have "?m = - 1 \<longleftrightarrow> - 1 \<in> set lasts" using m(1) by (metis set_ConsD)
  then show ?thesis using z by (simp add: nextSequence_def maxSequenceFrom_max)
qed

text \<open>
  Sequence numbers continue after a recovery: the first number of the new run is above the last
  number of every shard, and is zero, which stops the engine, exactly when some shard has used the
  last 64-bit number.
\<close>

lemma recovered_sequence_continues:
  "(nextSequence lasts = 0 \<longleftrightarrow> - 1 \<in> set lasts) \<and> (\<forall>s\<in>set lasts. nextSequence lasts \<noteq> 0 \<longrightarrow> s < nextSequence lasts)"
  using nextSequence_zero nextSequence_above by blast

text \<open>
  The library function for recovery builds a missing book from a blank snapshot, whose trade
  counter is zero; the counter of a new book is one.
\<close>

lemma blank_book_differs:
  "\<exists>b. NewFromSnapshot (blankSnapshot s) = Some b \<and> bk_nextTradeSeq b = 0 \<and> bk_nextTradeSeq (New s) = 1"
  by (simp add: NewFromSnapshot_def blankSnapshot_def New_def Let_def)

end
