(* ===== verification/Recovery_Factory.thy ===== *)
theory Recovery_Factory
  imports Replay
begin

text \<open>
  Recovery over the interface \<open>ReplayedBook\<close> (\<open>internal/recovery/recovery.go\<close>).  The locale states what the package
  needs of the books its caller passes: they behave as those of \<open>internal/book\<close>.  Then it reaches the
  watermarks of the recovery of the engine, whenever the snapshot has a book for every symbol.  (A book that the
  snapshot lacks is made from a blank snapshot, whose trade counter differs: \<open>blank_book_differs\<close>.)
\<close>

subsection \<open>The interface\<close>

locale replayed_book =
  fixes factory :: "BookSnapshot \<Rightarrow> 'b" and apply_book :: "'b \<Rightarrow> Command \<Rightarrow> 'b \<times> Result" and behaves :: "'b \<Rightarrow> Book \<Rightarrow> bool"
  assumes factory_behaves: "NewFromSnapshot s = Some b \<Longrightarrow> behaves (factory s) b"
    and apply_behaves: "behaves x b \<Longrightarrow> Apply b c = Some (b', r) \<Longrightarrow> \<exists>x'. apply_book x c = (x', r) \<and> behaves x' b'"
begin

text \<open>Every book of the engine has one of the caller that behaves as it does.\<close>

definition follows :: "(string \<rightharpoonup> 'b) \<Rightarrow> books \<Rightarrow> bool" where
  "follows xs books \<longleftrightarrow> (\<forall>s b. books s = Some b \<longrightarrow> (\<exists>x. xs s = Some x \<and> behaves x b))"

lemma followsD: "follows xs books \<Longrightarrow> books s = Some b \<Longrightarrow> \<exists>x. xs s = Some x \<and> behaves x b"
  by (simp add: follows_def)

lemma follows_upd: "follows xs books \<Longrightarrow> behaves x b \<Longrightarrow> follows (xs(s \<mapsto> x)) (books(s \<mapsto> b))"
  by (simp add: follows_def)

lemma replayWith_follows:
  assumes "replayRecords k books l p recs = Some (Inr (books', l'))" and "follows xs books"
  shows "\<exists>xs'. replayWith factory apply_book xs l recs = Inr (xs', l') \<and> follows xs' books'"
  using assms
proof (induction recs arbitrary: books l p xs)
  case (Cons r recs)
  show ?case
  proof (cases "rec_CommandSeq r \<le> l")
    case False
    let ?s = "cmd_Symbol (rec_Command r)"
    have p: "\<not> rec_CommandSeq r \<le> p" using Cons.prems False by (auto split: if_splits)
    obtain b b1 res where b: "books ?s = Some b" "Apply b (rec_Command r) = Some (b1, res)"
      using Cons.prems False p by (auto split: option.splits bind_splits)
    from followsD [OF Cons.prems(2) b(1)] obtain x where x: "xs ?s = Some x" "behaves x b" by blast
    from apply_behaves [OF x(2) b(2)] obtain x1 where x1: "apply_book x (rec_Command r) = (x1, res)" "behaves x1 b1" by blast
    have eq: "EqualResults res (rec_Result r)" using Cons.prems False p b by (simp split: if_splits)
    then have "replayRecords k (books(?s \<mapsto> b1)) (rec_CommandSeq r) (rec_CommandSeq r) recs = Some (Inr (books', l'))"
      using Cons.prems False p b by simp
    from Cons.IH [OF this follows_upd [OF Cons.prems(2) x1(2)]] obtain xs' where
      "replayWith factory apply_book (xs(?s \<mapsto> x1)) (rec_CommandSeq r) recs = Inr (xs', l')" "follows xs' books'" by blast
    moreover have "l < rec_CommandSeq r" using False by simp
    ultimately show ?thesis using False x x1 eq by simp
  qed (use Cons in simp)
qed simp

lemma replayShardsWith_follows:
  assumes "replayShards cfg walDir shards books marks = Some (Inr (books', marks'))" and "follows xs books"
    and "\<forall>k\<in>set shards. k < length marks"
  shows "replayShardsWith factory apply_book walDir (cfg_EngineID cfg) (nat (cfg_ShardCount cfg)) shards xs marks = Some (Inr marks')"
  using assms
proof (induction shards arbitrary: books marks xs)
  case (Cons k shards)
  obtain recs where recs: "ReadShardRecordsForEngine walDir (cfg_EngineID cfg) k (nat (cfg_ShardCount cfg)) = Inr recs"
    using Cons.prems by (auto split: sum.splits)
  then obtain books1 s where r: "replayRecords k books (marks ! k) (marks ! k) recs = Some (Inr (books1, s))"
    "replayShards cfg walDir shards books1 (marks[k := s]) = Some (Inr (books', marks'))"
    using Cons.prems(1) by (auto split: bind_splits sum.splits)
  from replayWith_follows [OF r(1) Cons.prems(2)] obtain xs1 where
    xs1: "replayWith factory apply_book xs (marks ! k) recs = Inr (xs1, s)" "follows xs1 books1" by blast
  then show ?case using Cons.IH [OF r(2) xs1(2)] Cons.prems(3) recs by simp
qed simp

text \<open>The books at the start: in both maps the last snapshot of a symbol counts.\<close>

lemma makeBooks_collect:
  assumes "collectBooks registry restored bss = Inr restored'" and "xs = (\<lambda>s. map_option factory (restored s))"
  shows "makeBooks factory xs bss = (\<lambda>s. map_option factory (restored' s))"
  using assms
proof (induction bss arbitrary: restored xs)
  case (Cons bs bss)
  then have "collectBooks registry (restored(bs_Symbol bs \<mapsto> bs)) bss = Inr restored'" by (simp split: if_splits)
  from Cons.IH [OF this refl] show ?case
    using Cons.prems(2) by (simp add: fun_upd_def if_distrib [of "map_option factory"] cong: if_cong)
qed simp

lemma openBooks_follows:
  assumes "openBooks restored books symbols = Some books'" and "follows (\<lambda>s. map_option factory (restored s)) books"
    and "set symbols \<subseteq> dom restored"
  shows "follows (\<lambda>s. map_option factory (restored s)) books'"
  using assms
proof (induction symbols arbitrary: books)
  case (Cons s symbols)
  then obtain bs b where bs: "restored s = Some bs" "NewFromSnapshot bs = Some b"
    "openBooks restored (books(s \<mapsto> b)) symbols = Some books'" by (auto split: option.splits bind_splits)
  have "follows (\<lambda>s. map_option factory (restored s)) (books(s \<mapsto> b))"
    using Cons.prems(2) bs factory_behaves [OF bs(2)] by (simp add: follows_def)
  then show ?case using Cons bs(3) by simp
qed simp

lemma collectBooks_dom: "collectBooks registry restored bss = Inr restored' \<Longrightarrow> dom restored' = dom restored \<union> bs_Symbol ` set bss"
  by (induction bss arbitrary: restored) (auto split: if_splits)

theorem recovery_agrees:
  assumes loaded: "LoadLatest genc gdec snapDir = Inr (snap, path)"
    and covers: "set (cfg_Symbols cfg) \<subseteq> bs_Symbol ` set (es_Books snap)"
    and recovered: "recoverBooks genc gdec snapDir walDir cfg registry = Some (Inr (out, marks))"
  shows "RecoverFromSnapshotAndWAL genc gdec snapDir walDir (cfg_EngineID cfg) (cfg_ShardCount cfg) factory apply_book
    = Some (Inr \<lparr>rr_SnapshotPath = path, rr_LastSeqByShard = marks\<rparr>)"
proof -
  have ids: "es_EngineID snap = cfg_EngineID cfg" "es_ShardCount snap = cfg_ShardCount cfg"
    "int (length (es_LastAppliedByShard snap)) = cfg_ShardCount cfg"
    using recovered loaded by (auto simp: recoverBooks_def loadSnapshot_def split: if_splits)
  then obtain restored where restored: "collectBooks registry Map.empty (es_Books snap) = Inr restored"
    using recovered loaded by (cases "collectBooks registry Map.empty (es_Books snap)") (auto simp: recoverBooks_def loadSnapshot_def)
  then obtain books books' where run: "openBooks restored Map.empty (cfg_Symbols cfg) = Some books"
    "replayShards cfg walDir [0..<nat (cfg_ShardCount cfg)] books (es_LastAppliedByShard snap) = Some (Inr (books', marks))"
    using recovered loaded ids by (auto simp: recoverBooks_def loadSnapshot_def split: bind_splits sum.splits)
  let ?xs = "makeBooks factory Map.empty (es_Books snap)"
  have xs: "?xs = (\<lambda>s. map_option factory (restored s))" by (rule makeBooks_collect [OF restored]) simp
  have "follows ?xs books" unfolding xs
    by (rule openBooks_follows [OF run(1)]) (use covers collectBooks_dom [OF restored] in \<open>auto simp: follows_def\<close>)
  then have "replayShardsWith factory apply_book walDir (cfg_EngineID cfg) (nat (cfg_ShardCount cfg)) [0..<nat (cfg_ShardCount cfg)] ?xs
      (es_LastAppliedByShard snap) = Some (Inr marks)"
    by (rule replayShardsWith_follows [OF run(2)]) (use ids(3) in auto)
  then show ?thesis using loaded ids by (simp add: RecoverFromSnapshotAndWAL_def)
qed

end

subsection \<open>The books of the engine\<close>

text \<open>
  The factory that passes the books of \<open>internal/book\<close>; where one of its calls panics the value is not specified,
  and the locale says nothing of it.
\<close>

definition bookFactory :: "BookSnapshot \<Rightarrow> Book" where
  "bookFactory s = the (NewFromSnapshot s)"

definition bookApply :: "Book \<Rightarrow> Command \<Rightarrow> Book \<times> Result" where
  "bookApply b c = the (Apply b c)"

interpretation engine_book: replayed_book bookFactory bookApply "(=)"
  by unfold_locales (simp_all add: bookFactory_def bookApply_def)

text \<open>
  C33: recovery with a book factory agrees with the recovery of the engine.  If the latest snapshot has a book for
  every configured symbol and the engine recovers from it and the log, then \<open>RecoverFromSnapshotAndWAL\<close> with
  the books of \<open>internal/book\<close> succeeds on the same directories, and returns the path of that snapshot and the same
  watermark for every shard.
\<close>

theorem factory_recovery_agrees:
  assumes "LoadLatest genc gdec snapDir = Inr (snap, path)"
    and "set (cfg_Symbols cfg) \<subseteq> bs_Symbol ` set (es_Books snap)"
    and "recoverBooks genc gdec snapDir walDir cfg registry = Some (Inr (out, marks))"
  shows "RecoverFromSnapshotAndWAL genc gdec snapDir walDir (cfg_EngineID cfg) (cfg_ShardCount cfg) bookFactory bookApply
    = Some (Inr \<lparr>rr_SnapshotPath = path, rr_LastSeqByShard = marks\<rparr>)"
  by (rule engine_book.recovery_agrees [OF assms])

text \<open>A directory with one snapshot, of a book without orders, beside the log of one shard.\<close>

definition oneSnapshot :: EngineSnapshot where
  "oneSnapshot = \<lparr>es_EngineID = ''engine-1'', es_ShardCount = 1, es_LastAppliedByShard = [0],
     es_Books = [\<lparr>bs_Symbol = ''BTC'', bs_NextTradeSeq = 1, bs_Bids = [], bs_Asks = []\<rparr>]\<rparr>"

definition oneEncoder :: gob_encoder where
  "oneEncoder _ = Inr []"

definition oneDecoder :: gob_decoder where
  "oneDecoder _ = Inr \<lparr>fp_Magic = snapshotMagic, fp_Version = snapshotVersion, fp_Data = oneSnapshot, fp_CRC32C = crcChecksum []\<rparr>"

definition oneSnapDir :: snap_dir where
  "oneSnapDir = [(''snapshot-0.snap'', Some [])]"

lemma oneSnapDir_loads: "LoadLatest oneEncoder oneDecoder oneSnapDir = Inr (oneSnapshot, ''snapshot-0.snap'')"
proof -
  have "sort (glob ''snapshot-'' ''.snap'' [''snapshot-0.snap'']) = [''snapshot-0.snap'']" by code_simp
  then show ?thesis
    by (simp add: LoadLatest_def oneSnapDir_def openPayload_def oneEncoder_def oneDecoder_def encodeWithoutCRC_def decodeWithCRC_def)
qed

lemma oneSnapshot_taken: "snapshotTaken oneShard oneRegistry (\<lambda>k. []) (\<lambda>k. [''BTC'' \<mapsto> New ''BTC'']) oneSnapshot"
proof -
  have "Snapshot (New ''BTC'') = Some \<lparr>bs_Symbol = ''BTC'', bs_NextTradeSeq = 1, bs_Bids = [], bs_Asks = []\<rparr>" by code_simp
  then show ?thesis using oneShard_fields oneRegistry_routes by (simp add: snapshotTaken_def oneSnapshot_def)
qed

lemma oneSnapshot_recovers:
  "\<exists>out. recoverBooks oneEncoder oneDecoder oneSnapDir oneWal oneShard oneRegistry = Some (Inr (out, [7]))"
proof -
  obtain b where run: "\<forall>k<nat (cfg_ShardCount oneShard). openBooks Map.empty Map.empty (SymbolsForShard oneRegistry (int k)) = Some [''BTC'' \<mapsto> New ''BTC'']
     \<and> serve (word_of_nat k) [''BTC'' \<mapsto> New ''BTC''] [] = Some ([''BTC'' \<mapsto> New ''BTC''], [])
     \<and> serve (word_of_nat k) [''BTC'' \<mapsto> New ''BTC''] [sampleCommand] = Some ([''BTC'' \<mapsto> b], [oneRecord])"
    using oneShard_run by blast
  have "\<exists>out. recoverBooks oneEncoder oneDecoder oneSnapDir oneWal oneShard oneRegistry
      = Some (Inr (out, map (\<lambda>k. lastSeq 0 ([] @ [sampleCommand])) [0..<nat (cfg_ShardCount oneShard)]))
    \<and> (\<forall>s\<in>set (cfg_Symbols oneShard). \<exists>k b'. ShardFor oneRegistry s = Some (int k) \<and> [''BTC'' \<mapsto> b] s = Some b' \<and> out s = Snapshot b')"
    by (rule recovery_reproduces [OF oneShard_fields(1) oneRegistry_new oneShard_fields(5) _ _ run oneShard_log])
      (use sampleCommand_fields oneRegistry_routes oneShard_fields(3) oneSnapDir_loads oneSnapshot_taken in auto)
  then show ?thesis using oneShard_fields sampleCommand_fields by auto
qed

theorem factory_recovery_agrees_witness:
  "RecoverFromSnapshotAndWAL oneEncoder oneDecoder oneSnapDir oneWal ''engine-1'' 1 bookFactory bookApply
     = Some (Inr \<lparr>rr_SnapshotPath = ''snapshot-0.snap'', rr_LastSeqByShard = [7]\<rparr>)"
proof -
  obtain out where "recoverBooks oneEncoder oneDecoder oneSnapDir oneWal oneShard oneRegistry = Some (Inr (out, [7]))"
    using oneSnapshot_recovers by blast
  from factory_recovery_agrees [OF oneSnapDir_loads _ this] show ?thesis
    using oneShard_fields by (simp add: oneSnapshot_def)
qed

end
