(* ===== verification/Wal_Writer.thy ===== *)
theory Wal_Writer
  imports Journal_Reader File_System
begin

text \<open>
  The log writer (\<open>internal/journal/writer.go\<close>).  One goroutine takes requests from a channel, collects the
  encoded records of a batch, writes and syncs the batch, and then answers the callers; other goroutines call
  \<open>AppendAsync\<close>, \<open>Flush\<close> and \<open>Shutdown\<close>.  The state of the goroutine, of the channels and of the disk is one
  record; each iteration of the loop and each part of a call between two points of
  interaction is one step.
\<close>

subsection \<open>Configuration and errors\<close>

record WriterConfig =
  wc_Dir :: string
  wc_EngineID :: string
  wc_ShardID :: int
  wc_ShardCount :: int
  wc_QueueSize :: int
  wc_MaxBatchCommands :: int
  wc_MaxBatchBytes :: int
  wc_MaxBatchDelay :: int
  wc_SegmentMaxBytes :: int
  wc_Metrics :: bool

datatype wal_err =
    WalIO io_err
  | WalEncode journal_err
  | WalShortHeader
  | WalShortBatch
  | WalSegmentName string
  | WalSegmentIndex string
  | WalConfig string
  | ErrWriterClosed
  | WalContext

definition validateWriterConfig :: "WriterConfig \<Rightarrow> wal_err option" where
  "validateWriterConfig cfg =
     (if wc_Dir cfg = [] then Some (WalConfig ''wal dir is required'')
      else if wc_EngineID cfg = [] then Some (WalConfig ''engine id is required'')
      else if wc_ShardID cfg < 0 \<or> wc_ShardID cfg \<ge> wc_ShardCount cfg then Some (WalConfig ''invalid shard id'')
      else if wc_QueueSize cfg \<le> 0 \<or> wc_MaxBatchCommands cfg \<le> 0 \<or> wc_MaxBatchBytes cfg \<le> 0
      then Some (WalConfig ''invalid queue or batch config'')
      else if wc_MaxBatchDelay cfg \<le> 0 \<or> wc_SegmentMaxBytes cfg \<le> 0
      then Some (WalConfig ''invalid delay or segment size'')
      else None)"

subsection \<open>Segments\<close>

record writerState = world +
  ws_segmentIndex :: int
  ws_currentFile :: "nat option"
  ws_currentSize :: int

definition segmentName :: "nat \<Rightarrow> nat \<Rightarrow> string" where
  "segmentName shardID idx = segmentPrefix shardID @ padded 6 idx @ ''.wal''"

text \<open>\<open>nextSegmentIndex\<close> on the names in the directory; indices stay far below the range of \<open>int\<close>.\<close>

definition nextSegmentIndex :: "string list \<Rightarrow> nat \<Rightarrow> wal_err + int" where
  "nextSegmentIndex names shardID =
     (let files = sort (glob (segmentPrefix shardID) ''.wal'' names) in
      if files = [] then Inr 0
      else (let base = last files; parts = splitOn (CHR ''-'') base in
        if length parts \<noteq> 3 then Inl (WalSegmentName base)
        else (case Atoi (TrimSuffix (parts ! 2) ''.wal'') of
                None \<Rightarrow> Inl (WalSegmentIndex base)
              | Some idx \<Rightarrow> Inr (idx + 1))))"

definition segmentHeader :: "WriterConfig \<Rightarrow> SegmentHeader" where
  "segmentHeader cfg = \<lparr>sh_EngineID = wc_EngineID cfg, sh_ShardID = word_of_int (wc_ShardID cfg),
     sh_ShardCount = word_of_int (wc_ShardCount cfg)\<rparr>"

definition chooseIndex :: "WriterConfig \<Rightarrow> ('z writerState_scheme, wal_err, unit) io" where
  "chooseIndex cfg = andThen (gets ws_segmentIndex) (\<lambda>i.
     if i \<noteq> 0 then ret ()
     else andThen (gets (\<lambda>s. nextSegmentIndex (map fst (dk_dir (w_disk s))) (nat (wc_ShardID cfg)))) (\<lambda>r.
       case r of Inl e \<Rightarrow> fail e | Inr next \<Rightarrow> modify (\<lambda>s. s\<lparr>ws_segmentIndex := next\<rparr>)))"

definition closeSegment :: "('z writerState_scheme, wal_err, unit) io" where
  "closeSegment = andThen (gets ws_currentFile) (\<lambda>f. case f of
       None \<Rightarrow> ret ()
     | Some i \<Rightarrow> andThen (mapErr WalIO (closeFile i)) (\<lambda>_.
         modify (\<lambda>s. s\<lparr>ws_currentFile := None, ws_currentSize := 0\<rparr>)))"

text \<open>The new file gets its header; the file and the directory are synced.\<close>

definition writeHeader :: "SegmentHeader \<Rightarrow> nat \<Rightarrow> ('z writerState_scheme, wal_err, nat) io" where
  "writeHeader h f =
     (case EncodeSegmentHeader h of
        Inl e \<Rightarrow> fail (WalEncode e)
      | Inr header \<Rightarrow> andThen (mapErr WalIO (writeFile f header)) (\<lambda>n.
          if n \<noteq> length header then fail WalShortHeader
          else andThen (mapErr WalIO (syncFile f)) (\<lambda>_.
            andThen (mapErr WalIO syncDirectory) (\<lambda>_. ret (length header)))))"

definition createSegment :: "WriterConfig \<Rightarrow> ('z writerState_scheme, wal_err, unit) io" where
  "createSegment cfg = andThen (gets ws_segmentIndex) (\<lambda>idx.
     andThen (mapErr WalIO (createExcl (segmentName (nat (wc_ShardID cfg)) (nat idx)))) (\<lambda>f.
       andThen (onError (writeHeader (segmentHeader cfg) f) (andThen (attempt (closeFile f)) (\<lambda>_. ret ()))) (\<lambda>size.
         modify (\<lambda>s. s\<lparr>ws_currentFile := Some f, ws_currentSize := int size,
           ws_segmentIndex := ws_segmentIndex s + 1\<rparr>))))"

definition openNextSegment :: "WriterConfig \<Rightarrow> ('z writerState_scheme, wal_err, unit) io" where
  "openNextSegment cfg = andThen (chooseIndex cfg) (\<lambda>_. andThen closeSegment (\<lambda>_. createSegment cfg))"

text \<open>Writing to a nil \<open>*os.File\<close> is an error.\<close>

definition writeCurrent :: "byte list \<Rightarrow> ('z writerState_scheme, wal_err, unit) io" where
  "writeCurrent batch = andThen (gets ws_currentFile) (\<lambda>f. case f of
       None \<Rightarrow> fail (WalIO (ErrOS ''invalid argument''))
     | Some i \<Rightarrow> andThen (mapErr WalIO (writeFile i batch)) (\<lambda>n.
         if n \<noteq> length batch then fail WalShortBatch
         else andThen (mapErr WalIO (syncFile i)) (\<lambda>_.
           modify (\<lambda>s. s\<lparr>ws_currentSize := ws_currentSize s + int n\<rparr>))))"

definition writeBatch :: "WriterConfig \<Rightarrow> byte list \<Rightarrow> ('z writerState_scheme, wal_err, unit) io" where
  "writeBatch cfg batch =
     (if batch = [] then ret ()
      else andThen (gets ws_currentSize) (\<lambda>size.
        andThen (if size + int (length batch) > wc_SegmentMaxBytes cfg then openNextSegment cfg else ret ()) (\<lambda>_.
          writeCurrent batch)))"

definition closeCurrent :: "('z writerState_scheme, wal_err, unit) io" where
  "closeCurrent = andThen (gets ws_currentFile) (\<lambda>f. case f of
       None \<Rightarrow> ret ()
     | Some i \<Rightarrow> andThen (attempt (closeFile i)) (\<lambda>_. ret ()))"

subsection \<open>The goroutine\<close>

text \<open>
  An ack channel is known by the number of the call that made it and by the record of the call; a
  done channel by a number.
\<close>

type_synonym ack_chan = "nat \<times> Record"

datatype writerRequest =
    ReqAppend ack_chan
  | ReqFlush nat
  | ReqShutdown nat

datatype phase = Starting | Running | Stopped | Crashed

text \<open>
  The fields of \<open>Writer\<close>, the local variables of \<open>run\<close>, the calls of \<open>AppendAsync\<close> that have passed their
  checks, and what has happened on the channels: the append requests sent, the answers on the ack channels
  and the done channels closed.
\<close>

record wproc = writerState +
  wp_cfg :: WriterConfig
  wp_requests :: "writerRequest list"
  wp_done :: bool
  wp_closed :: bool
  wp_failedErr :: "wal_err option"
  wp_pendingBytes :: "byte list"
  wp_pendingAcks :: "ack_chan list"
  wp_timerArmed :: bool
  wp_phase :: phase
  wp_callers :: "ack_chan list"
  wp_nextChan :: nat
  wp_appended :: "ack_chan list"
  wp_acks :: "(ack_chan \<times> wal_err option) list"
  wp_closedDones :: "nat list"
  wp_batches :: "(nat \<times> nat) list"

type_synonym 'a wio = "(wproc, wal_err, 'a) io"

definition setTerminalError :: "wal_err \<Rightarrow> wproc \<Rightarrow> wproc" where
  "setTerminalError err p = (if wp_failedErr p = None then p\<lparr>wp_failedErr := Some err\<rparr> else p)"

definition sendAcks :: "wal_err option \<Rightarrow> ack_chan list \<Rightarrow> wproc \<Rightarrow> wproc" where
  "sendAcks err chans p = p\<lparr>wp_acks := wp_acks p @ map (\<lambda>c. (c, err)) chans\<rparr>"

definition closeDone :: "nat \<Rightarrow> wproc \<Rightarrow> wproc" where
  "closeDone d p = p\<lparr>wp_closedDones := wp_closedDones p @ [d]\<rparr>"

text \<open>\<open>rejectRemaining\<close>: what is in the channel is answered; the channel is left empty.\<close>

fun rejectRequest :: "wal_err \<Rightarrow> writerRequest \<Rightarrow> wproc \<Rightarrow> wproc" where
  "rejectRequest err (ReqAppend c) p = sendAcks (Some err) [c] p"
| "rejectRequest err (ReqFlush d) p = closeDone d p"
| "rejectRequest err (ReqShutdown d) p = closeDone d p"

definition rejectRemaining :: "wal_err \<Rightarrow> wproc \<Rightarrow> wproc" where
  "rejectRemaining err p = fold (rejectRequest err) (wp_requests p) (p\<lparr>wp_requests := []\<rparr>)"

text \<open>The closure \<open>flush\<close>: write the batch, answer the callers.\<close>

definition flushFailed :: "wal_err \<Rightarrow> wproc \<Rightarrow> wproc" where
  "flushFailed err p = rejectRemaining err (sendAcks (Some err) (wp_pendingAcks p) (setTerminalError err p))"

definition flushDone :: "wproc \<Rightarrow> wproc" where
  "flushDone p = (sendAcks None (wp_pendingAcks p) p)
     \<lparr>wp_batches := (if wc_Metrics (wp_cfg p)
                     then wp_batches p @ [(length (wp_pendingAcks p), length (wp_pendingBytes p))] else wp_batches p),
      wp_pendingBytes := [], wp_pendingAcks := [], wp_timerArmed := False\<rparr>"

definition flush :: "bool wio" where
  "flush = andThen (gets id) (\<lambda>p.
     if wp_pendingAcks p = [] then ret True
     else andThen (attempt (writeBatch (wp_cfg p) (wp_pendingBytes p))) (\<lambda>r. case r of
         Inl err \<Rightarrow> andThen (modify (flushFailed err)) (\<lambda>_. ret False)
       | Inr _ \<Rightarrow> andThen (modify flushDone) (\<lambda>_. ret True)))"

definition batchFull :: "wproc \<Rightarrow> bool" where
  "batchFull p \<longleftrightarrow> int (length (wp_pendingAcks p)) \<ge> wc_MaxBatchCommands (wp_cfg p)
     \<or> int (length (wp_pendingBytes p)) \<ge> wc_MaxBatchBytes (wp_cfg p)"

text \<open>One request; the value says whether the loop goes on.\<close>

fun handleRequest :: "writerRequest \<Rightarrow> bool wio" where
  "handleRequest (ReqAppend c) = andThen (gets wp_pendingBytes) (\<lambda>bs.
     case appendEncodedRecord bs (snd c) of
       Inl err \<Rightarrow> andThen (modify (sendAcks (Some (WalEncode err)) [c])) (\<lambda>_. ret True)
     | Inr bs' \<Rightarrow> andThen (modify (\<lambda>p. p\<lparr>wp_pendingBytes := bs', wp_pendingAcks := wp_pendingAcks p @ [c],
           wp_timerArmed := True\<rparr>)) (\<lambda>_.
         andThen (gets batchFull) (\<lambda>full. if full then flush else ret True)))"
| "handleRequest (ReqFlush d) = andThen flush (\<lambda>ok. andThen (modify (closeDone d)) (\<lambda>_. ret ok))"
| "handleRequest (ReqShutdown d) = andThen flush (\<lambda>_. andThen (modify (closeDone d)) (\<lambda>_. ret False))"

text \<open>The deferred calls at the end of \<open>run\<close>.\<close>

definition stopLoop :: "unit wio" where
  "stopLoop = andThen closeCurrent (\<lambda>_. modify (\<lambda>p. p\<lparr>wp_done := True, wp_phase := Stopped\<rparr>))"

definition endIteration :: "bool \<Rightarrow> unit wio" where
  "endIteration goOn = (if goOn then ret () else stopLoop)"

definition runStart :: "unit wio" where
  "runStart = andThen (gets wp_cfg) (\<lambda>cfg. andThen (attempt (openNextSegment cfg)) (\<lambda>r. case r of
       Inl err \<Rightarrow> modify (\<lambda>p. (rejectRemaining err (setTerminalError err p))\<lparr>wp_done := True, wp_phase := Stopped\<rparr>)
     | Inr _ \<Rightarrow> modify (\<lambda>p. p\<lparr>wp_phase := Running\<rparr>)))"

definition runRequest :: "unit wio" where
  "runRequest = andThen (gets wp_requests) (\<lambda>reqs. case reqs of
       [] \<Rightarrow> ret ()
     | req # rest \<Rightarrow> andThen (modify (\<lambda>p. p\<lparr>wp_requests := rest\<rparr>)) (\<lambda>_.
         andThen (handleRequest req) endIteration))"

definition runTimer :: "unit wio" where
  "runTimer = andThen flush endIteration"

text \<open>A step of the goroutine; where the outcomes end, the machine has crashed.\<close>

definition exec :: "unit wio \<Rightarrow> wproc \<Rightarrow> wproc" where
  "exec m p = (case m p of (Crash, p') \<Rightarrow> p'\<lparr>wp_phase := Crashed\<rparr> | (_, p') \<Rightarrow> p')"

subsection \<open>The calls\<close>

definition getTerminalError :: "wproc \<Rightarrow> wal_err option" where
  [simp]: "getTerminalError p = wp_failedErr p"

definition isClosed :: "wproc \<Rightarrow> bool" where
  [simp]: "isClosed p = wp_closed p"

text \<open>\<open>AppendAsync\<close> up to its select statement: an error, or the new ack channel.\<close>

definition appendEnter :: "Record \<Rightarrow> wproc \<Rightarrow> (wal_err + ack_chan) \<times> wproc" where
  "appendEnter rec p =
     (case getTerminalError p of
        Some err \<Rightarrow> (Inl err, p)
      | None \<Rightarrow>
          if isClosed p then (Inl ErrWriterClosed, p)
          else (let c = (wp_nextChan p, rec) in
            (Inr c, p\<lparr>wp_nextChan := wp_nextChan p + 1, wp_callers := wp_callers p @ [c]\<rparr>)))"

text \<open>The cases of the select statement: the request is sent, the writer is done, the context has ended.\<close>

definition appendSend :: "ack_chan \<Rightarrow> wproc \<Rightarrow> wproc" where
  "appendSend c p = p\<lparr>wp_callers := remove1 c (wp_callers p), wp_requests := wp_requests p @ [ReqAppend c],
     wp_appended := wp_appended p @ [c]\<rparr>"

definition appendClosed :: "ack_chan \<Rightarrow> wproc \<Rightarrow> wal_err \<times> wproc" where
  "appendClosed c p =
     ((case getTerminalError p of Some err \<Rightarrow> err | None \<Rightarrow> ErrWriterClosed), p\<lparr>wp_callers := remove1 c (wp_callers p)\<rparr>)"

definition appendCancel :: "ack_chan \<Rightarrow> wproc \<Rightarrow> wal_err \<times> wproc" where
  "appendCancel c p = (WalContext, p\<lparr>wp_callers := remove1 c (wp_callers p)\<rparr>)"

text \<open>\<open>Append\<close> waits for the answer on the ack channel of \<open>AppendAsync\<close>; it may give up at any time when its context ends.\<close>

definition appendReturn :: "ack_chan \<Rightarrow> wproc \<Rightarrow> wal_err option option" where
  "appendReturn c p = map_of (wp_acks p) c"

text \<open>
  \<open>Flush\<close>: the check, the request, and the answer the caller waits for on the done channel.  The step relation below
  lets the request be sent at any time, since a failure may come between the check and the request.
\<close>

definition flushEnter :: "wproc \<Rightarrow> wal_err option" where
  "flushEnter p = getTerminalError p"

definition flushSend :: "wproc \<Rightarrow> nat \<times> wproc" where
  "flushSend p = (wp_nextChan p, p\<lparr>wp_nextChan := wp_nextChan p + 1, wp_requests := wp_requests p @ [ReqFlush (wp_nextChan p)]\<rparr>)"

definition flushReturn :: "nat \<Rightarrow> wproc \<Rightarrow> wal_err option option" where
  "flushReturn d p = (if d \<in> set (wp_closedDones p) then Some (getTerminalError p) else None)"

definition markClosed :: "wproc \<Rightarrow> bool \<times> wproc" where
  "markClosed p = (if wp_closed p then (False, p) else (True, p\<lparr>wp_closed := True\<rparr>))"

definition reopen :: "wproc \<Rightarrow> wproc" where
  "reopen p = p\<lparr>wp_closed := False\<rparr>"

text \<open>
  \<open>Shutdown\<close> holds the lifecycle lock from \<open>markClosed\<close> to the end of its first select statement, and
  \<open>AppendAsync\<close> from its checks to the end of its own; so no call is between its checks and its select here.
\<close>

definition shutdownSend :: "wproc \<Rightarrow> wproc" where
  "shutdownSend p = (let q = snd (markClosed p) in
     q\<lparr>wp_nextChan := wp_nextChan q + 1, wp_requests := wp_requests q @ [ReqShutdown (wp_nextChan q)]\<rparr>)"

definition shutdownCancel :: "wproc \<Rightarrow> wproc" where
  "shutdownCancel p = reopen (snd (markClosed p))"

text \<open>What a call of \<open>Shutdown\<close> returns once the goroutine has ended, if another call has closed the writer before it.\<close>

definition shutdownAgain :: "wproc \<Rightarrow> wal_err option option" where
  "shutdownAgain p = (if isClosed p \<and> wp_done p then Some (getTerminalError p) else None)"

definition roomInQueue :: "wproc \<Rightarrow> bool" where
  "roomInQueue p \<longleftrightarrow> int (length (wp_requests p)) < wc_QueueSize (wp_cfg p)"

inductive wstep :: "wproc \<Rightarrow> wproc \<Rightarrow> bool" where
  step_start: "wp_phase p = Starting \<Longrightarrow> wstep p (exec runStart p)"
| step_request: "wp_phase p = Running \<Longrightarrow> wp_requests p \<noteq> [] \<Longrightarrow> wstep p (exec runRequest p)"
| step_timer: "wp_phase p = Running \<Longrightarrow> wp_timerArmed p \<Longrightarrow> wstep p (exec runTimer p)"
| step_enter: "appendEnter rec p = (r, p') \<Longrightarrow> wstep p p'"
| step_send: "c \<in> set (wp_callers p) \<Longrightarrow> roomInQueue p \<Longrightarrow> wstep p (appendSend c p)"
| step_closed: "c \<in> set (wp_callers p) \<Longrightarrow> wp_done p \<Longrightarrow> wstep p (snd (appendClosed c p))"
| step_cancel: "c \<in> set (wp_callers p) \<Longrightarrow> wstep p (snd (appendCancel c p))"
| step_flush: "roomInQueue p \<Longrightarrow> wstep p (snd (flushSend p))"
| step_shutdown: "wp_callers p = [] \<Longrightarrow> \<not> wp_closed p \<Longrightarrow> roomInQueue p \<Longrightarrow> wstep p (shutdownSend p)"
| step_shutdown_done: "wp_callers p = [] \<Longrightarrow> \<not> wp_closed p \<Longrightarrow> wp_done p \<Longrightarrow> wstep p (snd (markClosed p))"
| step_shutdown_cancel: "wp_callers p = [] \<Longrightarrow> \<not> wp_closed p \<Longrightarrow> wstep p (shutdownCancel p)"

text \<open>\<open>NewWriter\<close>: the writer before its goroutine has run, on a disk and with the outcomes of its calls.\<close>

definition initWriter :: "WriterConfig \<Rightarrow> disk \<Rightarrow> io_out list \<Rightarrow> wproc" where
  "initWriter cfg d outs = \<lparr>w_disk = d, w_outs = outs, ws_segmentIndex = 0, ws_currentFile = None, ws_currentSize = 0,
     wp_cfg = cfg, wp_requests = [], wp_done = False, wp_closed = False, wp_failedErr = None, wp_pendingBytes = [],
     wp_pendingAcks = [], wp_timerArmed = False, wp_phase = Starting, wp_callers = [], wp_nextChan = 0,
     wp_appended = [], wp_acks = [], wp_closedDones = [], wp_batches = []\<rparr>"

definition NewWriter :: "WriterConfig \<Rightarrow> disk \<Rightarrow> io_out list \<Rightarrow> wal_err + wproc" where
  "NewWriter cfg d outs =
     (case validateWriterConfig cfg of
        Some e \<Rightarrow> Inl e
      | None \<Rightarrow> (case makeDir \<lparr>w_disk = d, w_outs = outs\<rparr> of
            (Ret _, w) \<Rightarrow> Inr (initWriter cfg (w_disk w) (w_outs w))
          | (Fail e, _) \<Rightarrow> Inl (WalIO e)
          | (Crash, w) \<Rightarrow> Inr ((initWriter cfg (w_disk w) []) \<lparr>wp_phase := Crashed\<rparr>)))"

end
