(* ===== verification/Wal_Log.thy ===== *)
theory Wal_Log
  imports Wal_Writer
begin

text \<open>
  The log of a shard on the disk: which files a writer leaves behind, and what a reader finds after a
  crash.  Segment names of at most six digits sort in the order of their indices.
\<close>

subsection \<open>Segment names\<close>

lemma segmentName_glob: "globMatch (segmentPrefix shard) ''.wal'' (segmentName shard i)"
  by (simp add: globMatch_def segmentName_def suffix_def prefix_def)

lemma segmentName_less:
  assumes "i < 10 ^ 6" and "j < 10 ^ 6"
  shows "segmentName shard i < segmentName shard j \<longleftrightarrow> i < j"
  unfolding segmentName_def prepend_less_iff
  using append_less_iff [of "padded 6 i" "padded 6 j"] padded_less_iff [OF assms] padded_length [OF assms(1)] padded_length [OF assms(2)]
  by simp

lemma segmentName_inj [simp]: "segmentName shard i = segmentName shard j \<longleftrightarrow> i = j"
  by (auto simp: segmentName_def dest: padded_inj)

lemma segmentNames_sorted: "m \<le> 10 ^ 6 \<Longrightarrow> sorted (map (segmentName shard) [0..<m])"
  by (auto simp: sorted_iff_nth_mono_less segmentName_less intro!: less_imp_le)

lemma segmentNames_distinct: "distinct (map (segmentName shard) [i..<j])"
  by (simp add: distinct_map inj_on_def)

text \<open>A directory whose segments of the shard are those with the indices below \<open>m\<close>.\<close>

definition hasSegments :: "nat \<Rightarrow> (string \<times> 'b) list \<Rightarrow> nat \<Rightarrow> bool" where
  "hasSegments shard dir m \<longleftrightarrow> (\<forall>name. globMatch (segmentPrefix shard) ''.wal'' name \<longrightarrow>
     (map_of dir name \<noteq> None \<longleftrightarrow> name \<in> segmentName shard ` {..<m}))"

lemma sort_glob_segments:
  assumes "distinct (map fst dir)" and "hasSegments shard dir m" and "m \<le> 10 ^ 6"
  shows "sort (glob (segmentPrefix shard) ''.wal'' (map fst dir)) = map (segmentName shard) [0..<m]"
proof (rule sort_unique [OF segmentNames_sorted [OF assms(3)] segmentNames_distinct])
  show "distinct (glob (segmentPrefix shard) ''.wal'' (map fst dir))" using assms(1) by (simp add: glob_def)
  have "name \<in> set (map fst dir) \<longleftrightarrow> map_of dir name \<noteq> None" for name by (simp add: map_of_eq_None_iff)
  then show "set (glob (segmentPrefix shard) ''.wal'' (map fst dir)) = set (map (segmentName shard) [0..<m])"
    using assms(2) segmentName_glob by (auto simp: glob_def hasSegments_def)
qed

lemma segmentPrefix_dash: "\<exists>p. segmentPrefix shard = ''shard-'' @ p @ ''-'' \<and> CHR ''-'' \<notin> set p"
proof -
  have "CHR ''-'' \<notin> set (padded 2 shard)" using padded_digits [of 2 shard] by (auto simp: list_all_iff isDigit_def)
  then show ?thesis by (auto simp: segmentPrefix_def)
qed

text \<open>The next index after those in the directory.\<close>

lemma nextSegmentIndex_segments:
  assumes "distinct (map fst dir)" and "hasSegments shard dir m" and "m \<le> 10 ^ 6"
  shows "nextSegmentIndex (map fst dir) shard = Inr (int m)"
proof (cases m)
  case 0
  then show ?thesis using sort_glob_segments [OF assms] by (simp add: nextSegmentIndex_def)
next
  case (Suc i)
  then have l: "last (sort (glob (segmentPrefix shard) ''.wal'' (map fst dir))) = segmentName shard i"
    "sort (glob (segmentPrefix shard) ''.wal'' (map fst dir)) \<noteq> []"
    unfolding sort_glob_segments [OF assms] by simp_all
  obtain p where p: "segmentPrefix shard = ''shard-'' @ p @ ''-''" "CHR ''-'' \<notin> set p" using segmentPrefix_dash by blast
  have t: "CHR ''-'' \<notin> set (padded 6 i @ ''.wal'')" using padded_digits [of 6 i] by (auto simp: list_all_iff isDigit_def)
  have "segmentName shard i = ''shard'' @ CHR ''-'' # p @ CHR ''-'' # padded 6 i @ ''.wal''"
    using p(1) by (simp add: segmentName_def)
  moreover have "splitOn (CHR ''-'') (''shard'' @ CHR ''-'' # p @ CHR ''-'' # padded 6 i @ ''.wal'')
      = [''shard'', p, padded 6 i @ ''.wal'']"
    using splitOn_append [of "CHR ''-''" "''shard''"] splitOn_append [OF p(2)] splitOn_last [OF t] by simp
  ultimately have s: "splitOn (CHR ''-'') (segmentName shard i) = [''shard'', p, padded 6 i @ ''.wal'']" by simp
  have "i < 2 ^ 63" using Suc assms(3) by simp
  then show ?thesis using l s Suc Atoi_padded by (simp add: nextSegmentIndex_def Let_def)
qed

subsection \<open>Reading a directory of segments\<close>

lemma read_whole_log:
  assumes "EncodeSegmentHeader h = Inr hb" and "sh_ShardID h = word_of_nat shard" and "sh_ShardCount h = word_of_nat count"
    and "distinct (map fst img)" and "hasSegments shard img (length recss)" and "length recss \<le> 10 ^ 6"
    and "\<forall>i<length recss. map_of img (segmentName shard i) = Some (Some (segmentBytes h (recss ! i)))
       \<and> (\<forall>r\<in>set (recss ! i). loggable (sh_ShardID h) r)"
  shows "ReadShardRecordsForEngine img (sh_EngineID h) shard count = Inr (map stored (concat recss))"
proof -
  let ?segs = "zip (map (segmentName shard) [0..<length recss]) recss"
  have "\<forall>(name, recs)\<in>set ?segs. map_of img name = Some (Some (segmentBytes h recs)) \<and> (\<forall>r\<in>set recs. loggable (sh_ShardID h) r)"
    using assms(7) by (auto simp: set_zip)
  from readFiles_whole [OF assms(1-3) this, of "[]"] show ?thesis
    by (simp add: ReadShardRecordsForEngine_def readShardRecords_def sort_glob_segments [OF assms(4-6)])
qed

lemma read_torn_log:
  assumes "EncodeSegmentHeader h = Inr hb" and "sh_ShardID h = word_of_nat shard" and "sh_ShardCount h = word_of_nat count"
    and "distinct (map fst img)" and "hasSegments shard img (Suc (length recss))" and "Suc (length recss) \<le> 10 ^ 6"
    and "\<forall>i<length recss. map_of img (segmentName shard i) = Some (Some (segmentBytes h (recss ! i)))
       \<and> (\<forall>r\<in>set (recss ! i). loggable (sh_ShardID h) r)"
    and "map_of img (segmentName shard (length recss)) = Some (Some (take k (segmentBytes h lastRecs)))"
    and "\<forall>r\<in>set lastRecs. loggable (sh_ShardID h) r"
  shows "\<exists>n\<le>length lastRecs. (\<forall>m\<le>length lastRecs. length (segmentBytes h (take m lastRecs)) \<le> k \<longrightarrow> m \<le> n)
    \<and> ReadShardRecordsForEngine img (sh_EngineID h) shard count = Inr (map stored (concat recss @ take n lastRecs))"
proof -
  let ?segs = "zip (map (segmentName shard) [0..<length recss]) recss"
  have w: "\<forall>(name, recs)\<in>set ?segs. map_of img name = Some (Some (segmentBytes h recs)) \<and> (\<forall>r\<in>set recs. loggable (sh_ShardID h) r)"
    using assms(7) by (auto simp: set_zip)
  have s: "sort (glob (segmentPrefix shard) ''.wal'' (map fst img)) = map fst ?segs @ [segmentName shard (length recss)]"
    using sort_glob_segments [OF assms(4-6)] by simp
  from ReadShardRecords_torn [OF assms(1-3) w assms(8,9) s] show ?thesis by simp
qed

subsection \<open>The log a writer finds and the files it adds\<close>

text \<open>
  The disk a writer starts with: the directory has the whole segments \<open>recss0\<close> of the shard, with the
  indices from zero on.
\<close>

definition shard_log :: "nat \<Rightarrow> SegmentHeader \<Rightarrow> disk \<Rightarrow> Record list list \<Rightarrow> bool" where
  "shard_log shard h d0 recss0 \<longleftrightarrow> settled d0 \<and> hasSegments shard (dk_dir d0) (length recss0)
     \<and> (\<forall>i<length recss0. map_of (contents d0) (segmentName shard i) = Some (Some (segmentBytes h (recss0 ! i)))
          \<and> (\<forall>r\<in>set (recss0 ! i). loggable (sh_ShardID h) r))"

definition wholeFile :: "SegmentHeader \<Rightarrow> Record list \<Rightarrow> inode" where
  "wholeFile h recs = \<lparr>fl_data = segmentBytes h recs, fl_synced = length (segmentBytes h recs)\<rparr>"

definition segEntries :: "nat \<Rightarrow> nat \<Rightarrow> nat \<Rightarrow> nat \<Rightarrow> (string \<times> nat) list" where
  "segEntries shard k n m = map (\<lambda>i. (segmentName shard (k + i), n + i)) [0..<m]"

text \<open>
  The disk after the writer has added the whole segments \<open>recss\<close>, and behind them a last file; \<open>b\<close>
  says whether the directory has been synced since.
\<close>

definition withSegments :: "nat \<Rightarrow> SegmentHeader \<Rightarrow> disk \<Rightarrow> nat \<Rightarrow> Record list list \<Rightarrow> disk" where
  "withSegments shard h d0 k recss = (let es = segEntries shard k (length (dk_files d0)) (length recss) in
     \<lparr>dk_files = dk_files d0 @ map (wholeFile h) recss, dk_dir = dk_dir d0 @ es, dk_durable = dk_dir d0 @ es\<rparr>)"

definition withLast :: "nat \<Rightarrow> SegmentHeader \<Rightarrow> disk \<Rightarrow> nat \<Rightarrow> Record list list \<Rightarrow> inode \<Rightarrow> bool \<Rightarrow> disk" where
  "withLast shard h d0 k recss f b =
     \<lparr>dk_files = dk_files d0 @ map (wholeFile h) recss @ [f],
      dk_dir = dk_dir d0 @ segEntries shard k (length (dk_files d0)) (Suc (length recss)),
      dk_durable = dk_dir d0 @ segEntries shard k (length (dk_files d0)) (if b then Suc (length recss) else length recss)\<rparr>"

lemma segEntries_Suc: "segEntries shard k n (Suc m) = segEntries shard k n m @ [(segmentName shard (k + m), n + m)]"
  by (simp add: segEntries_def)

lemma withLast_whole: "withLast shard h d0 k recss (wholeFile h recs) True = withSegments shard h d0 k (recss @ [recs])"
  by (simp add: withLast_def withSegments_def Let_def)

lemma map_of_segEntries:
  "map_of (segEntries shard k n m) (segmentName shard j) = (if k \<le> j \<and> j < k + m then Some (n + (j - k)) else None)"
  by (induction m) (auto simp: segEntries_Suc segEntries_def [of _ _ _ 0] map_add_def split: option.splits)

lemma map_of_segEntries_None: "name \<notin> segmentName shard ` {k..<k + m} \<Longrightarrow> map_of (segEntries shard k n m) name = None"
  by (auto simp: map_of_eq_None_iff segEntries_def)

text \<open>The directory of a shard log with new entries.\<close>

lemma dir_lookup:
  assumes "hasSegments shard dir k"
  shows "map_of (dir @ segEntries shard k n m) (segmentName shard j)
    = (if j < k then map_of dir (segmentName shard j) else if j < k + m then Some (n + (j - k)) else None)"
proof -
  have "map_of dir (segmentName shard j) \<noteq> None \<longleftrightarrow> j < k"
    using assms segmentName_glob [of shard j] unfolding hasSegments_def by auto
  then show ?thesis by (auto simp: map_add_def map_of_segEntries split: option.splits)
qed

lemma dir_other:
  assumes "hasSegments shard dir k" and "globMatch (segmentPrefix shard) ''.wal'' name" and "name \<notin> segmentName shard ` {..<k + m}"
  shows "map_of (dir @ segEntries shard k n m) name = None"
proof -
  have "map_of dir name = None" using assms unfolding hasSegments_def by auto
  moreover have "map_of (segEntries shard k n m) name = None" using assms(3) by (intro map_of_segEntries_None) auto
  ultimately show ?thesis by (simp add: map_add_def)
qed

subsection \<open>What a crash leaves of the log\<close>

lemma withLast_files:
  assumes "i < length recss"
  shows "dk_files (withLast shard h d0 k recss f b) ! (length (dk_files d0) + i) = wholeFile h (recss ! i)"
  using assms by (simp add: withLast_def nth_append)

text \<open>The segments that are whole are found whole.\<close>

lemma withLast_image_whole:
  assumes log: "shard_log shard h d0 recss0" and img: "crash_image (withLast shard h d0 (length recss0) recss f b) img"
    and i: "i < length (recss0 @ recss)"
  shows "map_of img (segmentName shard i) = Some (Some (segmentBytes h ((recss0 @ recss) ! i)))"
proof -
  let ?d = "withLast shard h d0 (length recss0) recss f b" and ?n = "length (dk_files d0)"
  have hs: "hasSegments shard (dk_dir d0) (length recss0)" and st: "settled d0" using log by (simp_all add: shard_log_def)
  have lk: "map_of (dk_durable ?d) (segmentName shard i) = map_of (dk_dir ?d) (segmentName shard i)"
    using i by (simp add: withLast_def dir_lookup [OF hs] del: map_of_append)
  note e = crash_image_same [OF img lk]
  show ?thesis
  proof (cases "i < length recss0")
    case True
    have c: "map_of (contents d0) (segmentName shard i) = Some (Some (segmentBytes h (recss0 ! i)))"
      using log True by (simp add: shard_log_def)
    then obtain j where j: "map_of (dk_dir d0) (segmentName shard i) = Some j" "fl_data (dk_files d0 ! j) = segmentBytes h (recss0 ! i)"
      by (auto simp: map_of_contents)
    have "map_of (dk_dir ?d) (segmentName shard i) = Some j" using True j by (simp add: withLast_def dir_lookup [OF hs] del: map_of_append)
    moreover have "dk_files ?d ! j = dk_files d0 ! j" using settledD(1) [OF st j(1)] by (simp add: withLast_def nth_append)
    ultimately show ?thesis
      using e j settledD [OF st j(1)] True by (auto simp: entry_after_def nth_append dest!: leftOf_synced)
  next
    case False
    then have "map_of (dk_dir ?d) (segmentName shard i) = Some (?n + (i - length recss0))"
      using i by (simp add: withLast_def dir_lookup [OF hs] del: map_of_append)
    then show ?thesis using e False i withLast_files [of "i - length recss0" recss shard h d0 "length recss0" f b]
      by (auto simp: entry_after_def nth_append wholeFile_def dest!: leftOf_synced)
  qed
qed

text \<open>The last file is there with what its syncs cover, or, before the directory was synced, is missing.\<close>

lemma withLast_image_last:
  assumes log: "shard_log shard h d0 recss0" and img: "crash_image (withLast shard h d0 (length recss0) recss f b) img"
  shows "(\<exists>bs. map_of img (segmentName shard (length recss0 + length recss)) = Some (Some bs) \<and> leftOf f bs)
    \<or> (\<not> b \<and> map_of img (segmentName shard (length recss0 + length recss)) = None)"
proof -
  let ?d = "withLast shard h d0 (length recss0) recss f b" and ?s = "segmentName shard (length recss0 + length recss)"
  have hs: "hasSegments shard (dk_dir d0) (length recss0)" using log by (simp add: shard_log_def)
  have l: "map_of (dk_dir ?d) ?s = Some (length (dk_files d0) + length recss)"
    "map_of (dk_durable ?d) ?s = (if b then Some (length (dk_files d0) + length recss) else None)"
    by (simp_all add: withLast_def dir_lookup [OF hs] del: map_of_append)
  have f: "dk_files ?d ! (length (dk_files d0) + length recss) = f" by (simp add: withLast_def nth_append)
  have "entry_after ?d (map_of (dk_dir ?d) ?s) (map_of img ?s) \<or> entry_after ?d (map_of (dk_durable ?d) ?s) (map_of img ?s)"
    using img by (simp add: crash_image_def)
  then show ?thesis unfolding l using f by (auto simp: entry_after_def split: if_splits)
qed

lemma withLast_image_segments:
  assumes log: "shard_log shard h d0 recss0" and img: "crash_image (withLast shard h d0 (length recss0) recss f b) img"
  shows "hasSegments shard img (if map_of img (segmentName shard (length recss0 + length recss)) = None
    then length recss0 + length recss else Suc (length recss0 + length recss))"
proof -
  let ?d = "withLast shard h d0 (length recss0) recss f b" and ?m = "length recss0 + length recss"
  have hs: "hasSegments shard (dk_dir d0) (length recss0)" using log by (simp add: shard_log_def)
  have whole: "map_of img (segmentName shard i) \<noteq> None" if "i < ?m" for i
    using withLast_image_whole [OF log img] that by simp
  have other: "map_of img name = None"
    if "globMatch (segmentPrefix shard) ''.wal'' name" "name \<notin> segmentName shard ` {..<Suc ?m}" for name
  proof -
    have "name \<notin> segmentName shard ` {..<?m}" using that(2) by auto
    then have "map_of (dk_dir ?d) name = None" "map_of (dk_durable ?d) name = None"
      using dir_other [OF hs that(1), of "Suc (length recss)"] dir_other [OF hs that(1), of "length recss"] that(2)
      by (auto simp: withLast_def simp del: map_of_append)
    then show ?thesis using img by (auto simp: crash_image_def entry_after_def dest!: spec [of _ name])
  qed
  have "map_of img name \<noteq> None \<longleftrightarrow> name \<in> segmentName shard ` {..<if map_of img (segmentName shard ?m) = None then ?m else Suc ?m}"
    if "globMatch (segmentPrefix shard) ''.wal'' name" for name
  proof (cases "name \<in> segmentName shard ` {..<Suc ?m}")
    case True
    then obtain i where "name = segmentName shard i" "i < Suc ?m" by auto
    then show ?thesis using whole by (cases "i = ?m") (auto simp: less_Suc_eq)
  qed (use other [OF that] in auto)
  then show ?thesis by (simp add: hasSegments_def)
qed

text \<open>Reading the log after a crash.\<close>

lemma withLast_reads:
  assumes log: "shard_log shard h d0 recss0" and img: "crash_image (withLast shard h d0 (length recss0) recss f b) img"
    and h: "EncodeSegmentHeader h = Inr hb" "sh_ShardID h = word_of_nat shard" "sh_ShardCount h = word_of_nat count"
    and f: "fl_data f = take j (segmentBytes h lastRecs)" and m: "length recss0 + length recss < 10 ^ 6"
    and ok: "\<forall>r\<in>set (concat recss @ lastRecs). loggable (sh_ShardID h) r"
    and must: "must \<le> length lastRecs" "must = 0 \<or> (b \<and> length (segmentBytes h (take must lastRecs)) \<le> min (fl_synced f) j)"
  shows "\<exists>n. must \<le> n \<and> n \<le> length lastRecs \<and> ReadShardRecordsForEngine img (sh_EngineID h) shard count
    = Inr (map stored (concat recss0 @ concat recss @ take n lastRecs))"
proof -
  let ?m = "length recss0 + length recss" and ?rs = "recss0 @ recss"
  have "\<forall>rs\<in>set ?rs. \<forall>r\<in>set rs. loggable (sh_ShardID h) r"
    using log ok by (auto simp: shard_log_def) (metis in_set_conv_nth)
  then have whole: "\<forall>i<length ?rs. map_of img (segmentName shard i) = Some (Some (segmentBytes h (?rs ! i)))
      \<and> (\<forall>r\<in>set (?rs ! i). loggable (sh_ShardID h) r)"
    using withLast_image_whole [OF log img] nth_mem by blast
  have d: "distinct (map fst img)" using img by (simp add: crash_image_def)
  note hs = withLast_image_segments [OF log img]
  show ?thesis
    using withLast_image_last [OF log img]
  proof
    assume "\<exists>bs. map_of img (segmentName shard ?m) = Some (Some bs) \<and> leftOf f bs"
    then obtain i where i: "fl_synced f \<le> i" "map_of img (segmentName shard ?m) = Some (Some (take (min i j) (segmentBytes h lastRecs)))"
      using f by (auto simp: leftOf_def)
    have "\<exists>n\<le>length lastRecs. (\<forall>m\<le>length lastRecs. length (segmentBytes h (take m lastRecs)) \<le> min i j \<longrightarrow> m \<le> n)
      \<and> ReadShardRecordsForEngine img (sh_EngineID h) shard count = Inr (map stored (concat ?rs @ take n lastRecs))"
      by (rule read_torn_log [OF h d _ _ whole]) (use hs i(2) m ok in auto)
    then show ?thesis using must i(1) by force
  next
    assume "\<not> b \<and> map_of img (segmentName shard ?m) = None"
    then have "ReadShardRecordsForEngine img (sh_EngineID h) shard count = Inr (map stored (concat ?rs))"
      using hs m by (intro read_whole_log [OF h d _ _ whole]) auto
    then show ?thesis using must \<open>\<not> b \<and> _\<close> by (intro exI [of _ 0]) auto
  qed
qed

end
