(* ===== verification/Wal_Durable.thy ===== *)
theory Wal_Durable
  imports Wal_Log
begin

text \<open>
  What the writer's disk operations do to the log, whatever fails and wherever the machine crashes: the
  records written and synced before are read back, and of the batch being written a prefix.
\<close>

subsection \<open>States of the log\<close>

text \<open>
  The log the writer starts with: whole segments of its shard, fewer than a million, and an engine
  id that fits into a header.
\<close>

definition logBase :: "WriterConfig \<Rightarrow> disk \<Rightarrow> Record list list \<Rightarrow> bool" where
  "logBase cfg d0 recss0 \<longleftrightarrow> shard_log (nat (wc_ShardID cfg)) (segmentHeader cfg) d0 recss0 \<and> 0 \<le> wc_ShardID cfg
     \<and> 0 \<le> wc_ShardCount cfg \<and> length recss0 < 10 ^ 6 \<and> length (wc_EngineID cfg) \<le> 0xffff"

abbreviation segmentsDisk :: "WriterConfig \<Rightarrow> disk \<Rightarrow> Record list list \<Rightarrow> Record list list \<Rightarrow> disk" where
  "segmentsDisk cfg d0 recss0 recss \<equiv> withSegments (nat (wc_ShardID cfg)) (segmentHeader cfg) d0 (length recss0) recss"

abbreviation lastDisk :: "WriterConfig \<Rightarrow> disk \<Rightarrow> Record list list \<Rightarrow> Record list list \<Rightarrow> inode \<Rightarrow> bool \<Rightarrow> disk" where
  "lastDisk cfg d0 recss0 recss f b \<equiv> withLast (nat (wc_ShardID cfg)) (segmentHeader cfg) d0 (length recss0) recss f b"

text \<open>The writer has the last of its segments open, and everything is synced.\<close>

definition atLog :: "WriterConfig \<Rightarrow> disk \<Rightarrow> Record list list \<Rightarrow> Record list list \<Rightarrow> Record list \<Rightarrow> 'z writerState_scheme \<Rightarrow> bool" where
  "atLog cfg d0 recss0 recss recs s \<longleftrightarrow> w_disk s = segmentsDisk cfg d0 recss0 (recss @ [recs])
     \<and> ws_currentFile s = Some (length (dk_files d0) + length recss)
     \<and> ws_segmentIndex s = int (length recss0 + Suc (length recss))
     \<and> ws_currentSize s = int (length (segmentBytes (segmentHeader cfg) recs))"

text \<open>
  After a crash the log is read back with the records \<open>acked\<close> and a prefix of \<open>late\<close>, as long as
  segment indices have six digits and the records are those of the shard.
\<close>

definition readsBack :: "WriterConfig \<Rightarrow> Record list list \<Rightarrow> disk \<Rightarrow> Record list \<Rightarrow> Record list \<Rightarrow> bool" where
  "readsBack cfg recss0 d acked late \<longleftrightarrow> (\<forall>img. crash_image d img \<longrightarrow>
     (\<exists>n. length acked \<le> n \<and> n \<le> length (acked @ late)
        \<and> ReadShardRecordsForEngine img (wc_EngineID cfg) (nat (wc_ShardID cfg)) (nat (wc_ShardCount cfg))
          = Inr (map stored (concat recss0 @ take n (acked @ late)))))"

definition durable :: "WriterConfig \<Rightarrow> Record list list \<Rightarrow> Record list \<Rightarrow> Record list \<Rightarrow> 'z writerState_scheme \<Rightarrow> bool" where
  "durable cfg recss0 acked late s \<longleftrightarrow>
     (ws_segmentIndex s < 10 ^ 6 \<and> (\<forall>r\<in>set (acked @ late). loggable (word_of_int (wc_ShardID cfg)) r)
        \<longrightarrow> readsBack cfg recss0 (w_disk s) acked late)"

lemma logBase_header:
  assumes "logBase cfg d0 recss0"
  obtains hb where "EncodeSegmentHeader (segmentHeader cfg) = Inr hb" and "segmentBytes (segmentHeader cfg) [] = hb"
    and "sh_ShardID (segmentHeader cfg) = word_of_nat (nat (wc_ShardID cfg))"
    and "sh_ShardCount (segmentHeader cfg) = word_of_nat (nat (wc_ShardCount cfg))"
    and "sh_EngineID (segmentHeader cfg) = wc_EngineID cfg"
proof -
  have l: "\<not> length (sh_EngineID (segmentHeader cfg)) > 0xffff" and i: "0 \<le> wc_ShardID cfg" "0 \<le> wc_ShardCount cfg"
    using assms by (simp_all add: logBase_def segmentHeader_def)
  obtain hb where hb: "EncodeSegmentHeader (segmentHeader cfg) = Inr hb" using l unfolding EncodeSegmentHeader_def by simp
  show thesis
    by (rule that [OF hb]) (use hb i in \<open>simp_all add: segmentBytes_def, simp_all add: segmentHeader_def\<close>)
qed

lemma readsBack_more: "readsBack cfg recss0 d acked late \<Longrightarrow> readsBack cfg recss0 d acked (late @ xs)"
proof -
  have "take n (acked @ late @ xs) = take n (acked @ late)" "n \<le> length (acked @ late @ xs)" if "n \<le> length (acked @ late)" for n
    using that by simp_all
  then show "readsBack cfg recss0 d acked late \<Longrightarrow> readsBack cfg recss0 d acked (late @ xs)"
    unfolding readsBack_def by metis
qed

lemma durable_more: "durable cfg recss0 acked late s \<Longrightarrow> durable cfg recss0 acked (late @ xs) s"
  using readsBack_more by (auto simp: durable_def)

text \<open>A disk with whole segments and a last file that may be cut.\<close>

lemma lastDisk_reads:
  assumes base: "logBase cfg d0 recss0" and f: "fl_data f = take j (segmentBytes (segmentHeader cfg) lastRecs)"
    and m: "length recss0 + length recss < 10 ^ 6"
    and ok: "\<forall>r\<in>set (concat recss @ lastRecs). loggable (word_of_int (wc_ShardID cfg)) r"
    and must: "lastRecs = must @ late"
      "must = [] \<or> (b \<and> length (segmentBytes (segmentHeader cfg) must) \<le> min (fl_synced f) j)"
  shows "readsBack cfg recss0 (lastDisk cfg d0 recss0 recss f b) (concat recss @ must) late"
  unfolding readsBack_def
proof (intro allI impI)
  fix img assume img: "crash_image (lastDisk cfg d0 recss0 recss f b) img"
  obtain hb where h: "EncodeSegmentHeader (segmentHeader cfg) = Inr hb"
    "sh_ShardID (segmentHeader cfg) = word_of_nat (nat (wc_ShardID cfg))"
    "sh_ShardCount (segmentHeader cfg) = word_of_nat (nat (wc_ShardCount cfg))" "sh_EngineID (segmentHeader cfg) = wc_EngineID cfg"
    using logBase_header [OF base] by metis
  have log: "shard_log (nat (wc_ShardID cfg)) (segmentHeader cfg) d0 recss0" using base by (simp add: logBase_def)
  have ok': "\<forall>r\<in>set (concat recss @ lastRecs). loggable (sh_ShardID (segmentHeader cfg)) r"
    using ok by (simp add: segmentHeader_def)
  have "length must \<le> length lastRecs" "length must = 0 \<or>
      (b \<and> length (segmentBytes (segmentHeader cfg) (take (length must) lastRecs)) \<le> min (fl_synced f) j)"
    using must by auto
  from withLast_reads [OF log img h(1-3) f m ok' this] obtain n where
    n: "length must \<le> n" "n \<le> length lastRecs" "ReadShardRecordsForEngine img (wc_EngineID cfg) (nat (wc_ShardID cfg)) (nat (wc_ShardCount cfg))
      = Inr (map stored (concat recss0 @ concat recss @ take n lastRecs))" using h(4) by auto
  then show "\<exists>n. length (concat recss @ must) \<le> n \<and> n \<le> length ((concat recss @ must) @ late)
      \<and> ReadShardRecordsForEngine img (wc_EngineID cfg) (nat (wc_ShardID cfg)) (nat (wc_ShardCount cfg))
        = Inr (map stored (concat recss0 @ take n ((concat recss @ must) @ late)))"
    using must(1) by (intro exI [of _ "length (concat recss) + n"]) simp
qed

lemma base_reads:
  assumes "logBase cfg d0 recss0"
  shows "readsBack cfg recss0 d0 [] []"
  unfolding readsBack_def
proof (intro allI impI)
  fix img assume img: "crash_image d0 img"
  obtain hb where h: "EncodeSegmentHeader (segmentHeader cfg) = Inr hb"
    "sh_ShardID (segmentHeader cfg) = word_of_nat (nat (wc_ShardID cfg))"
    "sh_ShardCount (segmentHeader cfg) = word_of_nat (nat (wc_ShardCount cfg))" "sh_EngineID (segmentHeader cfg) = wc_EngineID cfg"
    using logBase_header [OF assms] by metis
  have log: "shard_log (nat (wc_ShardID cfg)) (segmentHeader cfg) d0 recss0" using assms by (simp add: logBase_def)
  have m: "map_of img name = map_of (contents d0) name" for name using settled_image log img by (simp add: shard_log_def)
  have "hasSegments (nat (wc_ShardID cfg)) img (length recss0)"
    using log m by (simp add: shard_log_def hasSegments_def map_of_contents)
  moreover have "distinct (map fst img)" using img by (simp add: crash_image_def)
  ultimately have "ReadShardRecordsForEngine img (sh_EngineID (segmentHeader cfg)) (nat (wc_ShardID cfg)) (nat (wc_ShardCount cfg))
      = Inr (map stored (concat recss0))"
    using log m assms by (intro read_whole_log [OF h(1-3)]) (auto simp: logBase_def shard_log_def)
  then show "\<exists>n. length [] \<le> n \<and> n \<le> length ([] @ []) \<and> ReadShardRecordsForEngine img (wc_EngineID cfg) (nat (wc_ShardID cfg)) (nat (wc_ShardCount cfg))
      = Inr (map stored (concat recss0 @ take n ([] @ [])))" using h(4) by simp
qed

lemma segmentsDisk_reads:
  assumes "logBase cfg d0 recss0" and "recss = [] \<or> length recss0 + length recss \<le> 10 ^ 6"
    and "\<forall>r\<in>set (concat recss). loggable (word_of_int (wc_ShardID cfg)) r"
  shows "readsBack cfg recss0 (segmentsDisk cfg d0 recss0 recss) (concat recss) []"
proof (cases recss rule: rev_cases)
  case Nil
  have "segmentsDisk cfg d0 recss0 [] = d0"
    using assms(1) by (simp add: withSegments_def segEntries_def logBase_def shard_log_def settled_def)
  then show ?thesis using base_reads [OF assms(1)] Nil by simp
next
  case (snoc rss recs)
  let ?f = "wholeFile (segmentHeader cfg) recs"
  have "readsBack cfg recss0 (lastDisk cfg d0 recss0 rss ?f True) (concat rss @ recs) []"
    by (rule lastDisk_reads [OF assms(1), where j = "length (segmentBytes (segmentHeader cfg) recs)" and lastRecs = recs])
      (use assms(2,3) snoc in \<open>auto simp: wholeFile_def\<close>)
  then show ?thesis using snoc by (simp add: withLast_whole)
qed

subsection \<open>The disk operations\<close>

lemma onDisk_fields [simp]:
  "ws_segmentIndex (onDisk g s) = ws_segmentIndex s" "ws_currentFile (onDisk g s) = ws_currentFile s"
  "ws_currentSize (onDisk g s) = ws_currentSize s" "writerState.more (onDisk g s) = writerState.more s"
  by (simp_all add: onDisk_def)

lemma addFile_segments:
  "addFile (segmentName shard (k + length recss)) (withSegments shard h d0 k recss)
     = withLast shard h d0 k recss \<lparr>fl_data = [], fl_synced = 0\<rparr> False"
  by (simp add: addFile_def withSegments_def withLast_def Let_def segEntries_Suc)

lemma appendBytes_last:
  "appendBytes (length (dk_files d0) + length recss) bs (withLast shard h d0 k recss f b)
     = withLast shard h d0 k recss (f\<lparr>fl_data := fl_data f @ bs\<rparr>) b"
  by (simp add: appendBytes_def withLast_def list_update_append nth_append)

lemma markSynced_last:
  "markSynced (length (dk_files d0) + length recss) (withLast shard h d0 k recss f b)
     = withLast shard h d0 k recss (f\<lparr>fl_synced := length (fl_data f)\<rparr>) b"
  by (simp add: markSynced_def withLast_def list_update_append nth_append)

lemma syncDir_last: "syncDir (withLast shard h d0 k recss f b) = withLast shard h d0 k recss f True"
  by (simp add: syncDir_def withLast_def)

text \<open>Opening a segment behind the whole segments \<open>recss\<close>.\<close>

definition atOpen :: "WriterConfig \<Rightarrow> disk \<Rightarrow> Record list list \<Rightarrow> Record list list \<Rightarrow> inode \<Rightarrow> bool \<Rightarrow> 'z
    \<Rightarrow> 'z writerState_scheme \<Rightarrow> bool" where
  "atOpen cfg d0 recss0 recss f b z s \<longleftrightarrow> w_disk s = lastDisk cfg d0 recss0 recss f b
     \<and> ws_segmentIndex s = int (length recss0 + length recss) \<and> writerState.more s = z"

definition closedLog :: "WriterConfig \<Rightarrow> disk \<Rightarrow> Record list list \<Rightarrow> Record list list \<Rightarrow> 'z \<Rightarrow> 'z writerState_scheme \<Rightarrow> bool" where
  "closedLog cfg d0 recss0 recss z s \<longleftrightarrow> w_disk s = segmentsDisk cfg d0 recss0 recss
     \<and> ws_segmentIndex s = int (length recss0 + length recss) \<and> writerState.more s = z"

definition safe :: "WriterConfig \<Rightarrow> Record list list \<Rightarrow> Record list \<Rightarrow> Record list \<Rightarrow> 'z \<Rightarrow> 'z writerState_scheme \<Rightarrow> bool" where
  "safe cfg recss0 acked late z s \<longleftrightarrow> durable cfg recss0 acked late s \<and> writerState.more s = z"

lemma atOpen_safe:
  assumes "logBase cfg d0 recss0" and "atOpen cfg d0 recss0 recss f b z s"
    and "fl_data f = take j (segmentBytes (segmentHeader cfg) [])"
  shows "safe cfg recss0 (concat recss) [] z s"
proof -
  have "readsBack cfg recss0 (lastDisk cfg d0 recss0 recss f b) (concat recss @ []) []"
    if "length recss0 + length recss < 10 ^ 6" "\<forall>r\<in>set (concat recss). loggable (word_of_int (wc_ShardID cfg)) r"
    by (rule lastDisk_reads [OF assms(1,3) that(1)]) (use that(2) in auto)
  then show ?thesis using assms(2) by (simp add: safe_def durable_def atOpen_def)
qed

lemma closedLog_safe:
  assumes "logBase cfg d0 recss0" and "closedLog cfg d0 recss0 recss z s"
  shows "safe cfg recss0 (concat recss) [] z s"
  using segmentsDisk_reads [OF assms(1), of recss] assms(2) by (auto simp: safe_def durable_def closedLog_def)

lemma writeHeader_triple:
  assumes base: "logBase cfg d0 recss0"
  shows "triple (atOpen cfg d0 recss0 recss \<lparr>fl_data = [], fl_synced = 0\<rparr> False z)
    (writeHeader (segmentHeader cfg) (length (dk_files d0) + length recss))
    (\<lambda>n s. n = length (segmentBytes (segmentHeader cfg) [])
       \<and> atOpen cfg d0 recss0 recss (wholeFile (segmentHeader cfg) []) True z s)
    (safe cfg recss0 (concat recss) [] z)"
proof -
  let ?hb = "segmentBytes (segmentHeader cfg) []" and ?o = "atOpen cfg d0 recss0 recss"
  let ?w = "\<lparr>fl_data = ?hb, fl_synced = 0\<rparr>" and ?f = "wholeFile (segmentHeader cfg) []"
  have enc: "EncodeSegmentHeader (segmentHeader cfg) = Inr ?hb" using logBase_header [OF base] by metis
  have sf: "safe cfg recss0 (concat recss) [] z s" if "?o f b z s" "\<exists>j. fl_data f = take j ?hb" for f b s
    using that(2) atOpen_safe [OF base that(1)] by blast
  have j: "\<exists>j. [] = take j ?hb" "\<exists>j. take n ?hb = take j ?hb" "\<exists>j. ?hb = take j ?hb" for n
    by (rule exI [of _ 0], simp, rule exI [of _ n], simp, rule exI [of _ "length ?hb"], simp)
  have upd: "?o f b z s \<Longrightarrow> ?o f b z (s\<lparr>w_outs := outs\<rparr>)" for f b s outs by (simp add: atOpen_def)
  have app: "?o \<lparr>fl_data = [], fl_synced = 0\<rparr> b z s \<Longrightarrow>
      ?o \<lparr>fl_data = bs, fl_synced = 0\<rparr> b z (onDisk (appendBytes (length (dk_files d0) + length recss) bs) s)" for bs b s
    by (simp add: atOpen_def appendBytes_last)
  have part: "safe cfg recss0 (concat recss) [] z (onDisk (appendBytes (length (dk_files d0) + length recss) (take n ?hb)) (s\<lparr>w_outs := outs\<rparr>))"
    if "?o \<lparr>fl_data = [], fl_synced = 0\<rparr> False z s" for s outs n
    by (rule sf [OF app [OF upd [OF that]]]) (simp add: j)
  have sfw: "safe cfg recss0 (concat recss) [] z s" if "?o ?w b z s" for b s by (rule sf [OF that]) (simp add: j)
  have sff: "safe cfg recss0 (concat recss) [] z s" if "?o ?f b z s" for b s by (rule sf [OF that]) (simp add: j wholeFile_def)
  have syn: "?o ?w b z s \<Longrightarrow> ?o ?f b z (onDisk (markSynced (length (dk_files d0) + length recss)) s)" for b s
    by (simp add: atOpen_def markSynced_last wholeFile_def)
  have idd: "?o f b z s \<Longrightarrow> ?o f b z (onDisk id s)" for f b s by (simp add: atOpen_def)
  have dir: "?o f b z s \<Longrightarrow> ?o f True z (onDisk syncDir s)" for f b s
    by (simp add: atOpen_def syncDir_last)
  have w: "triple (?o \<lparr>fl_data = [], fl_synced = 0\<rparr> False z) (writeFile (length (dk_files d0) + length recss) ?hb)
      (\<lambda>n s. n = length ?hb \<and> ?o ?w False z s) (safe cfg recss0 (concat recss) [] z)"
    by (rule triple_writeFile) (auto intro: sf j intro!: app upd part)
  have sy: "triple (?o ?w False z) (syncFile (length (dk_files d0) + length recss)) (\<lambda>_. ?o ?f False z) (safe cfg recss0 (concat recss) [] z)"
    unfolding syncFile_def by (rule triple_osCall) (auto intro!: syn upd intro: sfw sfw [OF upd])
  have di: "triple (?o ?f False z) syncDirectory (\<lambda>_. ?o ?f True z) (safe cfg recss0 (concat recss) [] z)"
    unfolding syncDirectory_def
    by (rule triple_andThen [where R = "\<lambda>_. ?o ?f False z"]; rule triple_osCall)
      (auto intro!: dir idd upd intro: sff sff [OF upd])
  show ?thesis
    unfolding writeHeader_def enc sum.case
  proof (rule triple_andThen [OF triple_mapErr [OF w]])
    fix n
    have "triple (?o ?w False z) (andThen (mapErr WalIO (syncFile (length (dk_files d0) + length recss)))
        (\<lambda>_. andThen (mapErr WalIO syncDirectory) (\<lambda>_. ret (length ?hb))))
        (\<lambda>n s. n = length ?hb \<and> ?o ?f True z s) (safe cfg recss0 (concat recss) [] z)"
      by (intro triple_andThen [OF triple_mapErr [OF sy]] triple_andThen [OF triple_mapErr [OF di]] triple_ret) simp
    then show "triple (\<lambda>s. n = length ?hb \<and> ?o ?w False z s)
        (if n \<noteq> length ?hb then fail WalShortHeader
         else andThen (mapErr WalIO (syncFile (length (dk_files d0) + length recss)))
           (\<lambda>_. andThen (mapErr WalIO syncDirectory) (\<lambda>_. ret (length ?hb))))
        (\<lambda>n s. n = length ?hb \<and> ?o ?f True z s) (safe cfg recss0 (concat recss) [] z)"
      by (cases "n = length ?hb") (auto simp: triple_def)
  qed
qed

lemma createSegmentFile_triple:
  assumes base: "logBase cfg d0 recss0"
  shows "triple (closedLog cfg d0 recss0 recss z) (createExcl (segmentName (nat (wc_ShardID cfg)) (length recss0 + length recss)))
    (\<lambda>f s. f = length (dk_files d0) + length recss \<and> atOpen cfg d0 recss0 recss \<lparr>fl_data = [], fl_synced = 0\<rparr> False z s)
    (safe cfg recss0 (concat recss) [] z)"
proof -
  let ?X = "safe cfg recss0 (concat recss) [] z" and ?n = "length (dk_files d0) + length recss"
  let ?e = "\<lparr>fl_data = [], fl_synced = 0\<rparr>" and ?name = "segmentName (nat (wc_ShardID cfg)) (length recss0 + length recss)"
  have sf: "?X s" if "closedLog cfg d0 recss0 recss z s" for s by (rule closedLog_safe [OF base that])
  have upd: "closedLog cfg d0 recss0 recss z (s\<lparr>w_outs := outs\<rparr>)" if "closedLog cfg d0 recss0 recss z s" for s outs
    using that by (simp add: closedLog_def)
  have add: "atOpen cfg d0 recss0 recss ?e False z (onDisk (addFile ?name) s)" if "closedLog cfg d0 recss0 recss z s" for s
    using that by (simp add: closedLog_def atOpen_def addFile_segments)
  have len: "length (dk_files (segmentsDisk cfg d0 recss0 recss)) = ?n" by (simp add: withSegments_def Let_def)
  have os: "triple (closedLog cfg d0 recss0 recss z) (osCall (addFile ?name)) (\<lambda>_. atOpen cfg d0 recss0 recss ?e False z) ?X"
    by (rule triple_osCall) (auto intro: sf sf [OF upd] add upd)
  show ?thesis
    unfolding createExcl_def
  proof (rule triple_andThen [where R = "\<lambda>d s. d = segmentsDisk cfg d0 recss0 recss \<and> closedLog cfg d0 recss0 recss z s"])
    show "triple (\<lambda>s. d = segmentsDisk cfg d0 recss0 recss \<and> closedLog cfg d0 recss0 recss z s)
        (if ?name \<in> fst ` set (dk_dir d) then fail (ErrExist ?name)
         else andThen (osCall (addFile ?name)) (\<lambda>_. ret (length (dk_files d))))
        (\<lambda>f s. f = ?n \<and> atOpen cfg d0 recss0 recss ?e False z s) ?X" for d
    proof (cases "d = segmentsDisk cfg d0 recss0 recss")
      case True
      then show ?thesis using len sf by (auto intro!: triple_fail triple_andThen [OF os triple_ret])
    qed (simp add: triple_def)
  qed (rule triple_gets, simp add: closedLog_def)
qed

lemma createSegment_triple:
  assumes base: "logBase cfg d0 recss0"
  shows "triple (closedLog cfg d0 recss0 recss z) (createSegment cfg)
    (\<lambda>_ s. atLog cfg d0 recss0 recss [] s \<and> writerState.more s = z) (safe cfg recss0 (concat recss) [] z)"
proof -
  let ?X = "safe cfg recss0 (concat recss) [] z" and ?n = "length (dk_files d0) + length recss"
  let ?e = "\<lparr>fl_data = [], fl_synced = 0\<rparr>"
  have cl: "triple ?X (andThen (attempt (closeFile f)) (\<lambda>_. ret ())) (\<lambda>_. ?X) ?X" for f
    unfolding closeFile_def
    by (rule triple_andThen [where R = "\<lambda>_. ?X"], rule triple_attempt, rule triple_osCall) (auto intro: triple_ret simp: safe_def durable_def)
  have hd: "triple (\<lambda>s. f = ?n \<and> atOpen cfg d0 recss0 recss ?e False z s)
      (onError (writeHeader (segmentHeader cfg) f) (andThen (attempt (closeFile f)) (\<lambda>_. ret ())))
      (\<lambda>m s. f = ?n \<and> m = length (segmentBytes (segmentHeader cfg) []) \<and> atOpen cfg d0 recss0 recss (wholeFile (segmentHeader cfg) []) True z s) ?X" for f
    using triple_onError [OF writeHeader_triple [OF base, of recss z] cl] by (cases "f = ?n") (simp_all add: triple_def)
  have md: "triple (\<lambda>s. f = ?n \<and> atOpen cfg d0 recss0 recss ?e False z s)
      (andThen (onError (writeHeader (segmentHeader cfg) f) (andThen (attempt (closeFile f)) (\<lambda>_. ret ()))) (\<lambda>size.
         modify (\<lambda>s. s\<lparr>ws_currentFile := Some f, ws_currentSize := int size, ws_segmentIndex := ws_segmentIndex s + 1\<rparr>)))
      (\<lambda>_ s. atLog cfg d0 recss0 recss [] s \<and> writerState.more s = z) ?X" for f
    by (rule triple_andThen [OF hd], rule triple_modify) (auto simp: atLog_def atOpen_def withLast_whole)
  show ?thesis
    unfolding createSegment_def
  proof (rule triple_andThen [where R = "\<lambda>idx s. idx = int (length recss0 + length recss) \<and> closedLog cfg d0 recss0 recss z s"])
    fix idx
    show "triple (\<lambda>s. idx = int (length recss0 + length recss) \<and> closedLog cfg d0 recss0 recss z s)
      (andThen (mapErr WalIO (createExcl (segmentName (nat (wc_ShardID cfg)) (nat idx)))) (\<lambda>f.
       andThen (onError (writeHeader (segmentHeader cfg) f) (andThen (attempt (closeFile f)) (\<lambda>_. ret ()))) (\<lambda>size.
         modify (\<lambda>s. s\<lparr>ws_currentFile := Some f, ws_currentSize := int size, ws_segmentIndex := ws_segmentIndex s + 1\<rparr>))))
      (\<lambda>_ s. atLog cfg d0 recss0 recss [] s \<and> writerState.more s = z) ?X"
    proof (cases "idx = int (length recss0 + length recss)")
      case True
      then have i: "nat idx = length recss0 + length recss" by simp
      show ?thesis
        unfolding i by (rule triple_pre [OF triple_andThen [OF triple_mapErr [OF createSegmentFile_triple [OF base]] md]]) simp
    qed (simp add: triple_def)
  qed (rule triple_gets, simp add: closedLog_def)
qed

text \<open>Opening the first segment of the writer, and rotating to the next one.\<close>

lemma chooseIndex_first:
  assumes base: "logBase cfg d0 recss0"
  shows "triple (\<lambda>s. w_disk s = d0 \<and> ws_segmentIndex s = 0 \<and> ws_currentFile s = None \<and> writerState.more s = z) (chooseIndex cfg)
    (\<lambda>_ s. closedLog cfg d0 recss0 [] z s \<and> ws_currentFile s = None) (safe cfg recss0 [] [] z)"
proof -
  have log: "settled d0" "hasSegments (nat (wc_ShardID cfg)) (dk_dir d0) (length recss0)" "length recss0 \<le> 10 ^ 6"
    using base by (simp_all add: logBase_def shard_log_def)
  have "distinct (map fst (dk_dir d0))" using log(1) by (simp add: settled_def)
  note nx = nextSegmentIndex_segments [OF this log(2,3)]
  have "segmentsDisk cfg d0 recss0 [] = d0" using log(1) by (simp add: withSegments_def segEntries_def settled_def)
  then show ?thesis using nx
    by (simp add: triple_def chooseIndex_def andThen_def gets_def modify_def ret_def closedLog_def)
qed

lemma openFirst_triple:
  assumes base: "logBase cfg d0 recss0"
  shows "triple (\<lambda>s. w_disk s = d0 \<and> ws_segmentIndex s = 0 \<and> ws_currentFile s = None \<and> writerState.more s = z) (openNextSegment cfg)
    (\<lambda>_ s. atLog cfg d0 recss0 [] [] s \<and> writerState.more s = z) (safe cfg recss0 [] [] z)"
proof -
  have cs: "triple (\<lambda>s. closedLog cfg d0 recss0 [] z s \<and> ws_currentFile s = None) closeSegment (\<lambda>_. closedLog cfg d0 recss0 [] z) (safe cfg recss0 [] [] z)"
    by (simp add: triple_def closeSegment_def andThen_def gets_def ret_def)
  show ?thesis
    unfolding openNextSegment_def
    by (rule triple_andThen [OF chooseIndex_first [OF base] triple_andThen [OF cs createSegment_triple [OF base, of "[]" z, simplified]]])
qed

lemma rotate_triple:
  assumes base: "logBase cfg d0 recss0"
  shows "triple (\<lambda>s. atLog cfg d0 recss0 recss recs s \<and> writerState.more s = z) (openNextSegment cfg)
    (\<lambda>_ s. atLog cfg d0 recss0 (recss @ [recs]) [] s \<and> writerState.more s = z) (safe cfg recss0 (concat recss @ recs) [] z)"
proof -
  let ?P = "\<lambda>s. atLog cfg d0 recss0 recss recs s \<and> writerState.more s = z"
  let ?X = "safe cfg recss0 (concat (recss @ [recs])) [] z" and ?C = "closedLog cfg d0 recss0 (recss @ [recs]) z"
  have C: "?C s" if "?P s" for s using that by (simp add: atLog_def closedLog_def)
  have X: "?X s" if "?P s" for s by (rule closedLog_safe [OF base C [OF that]])
  have ch: "triple ?P (chooseIndex cfg) (\<lambda>_. ?P) ?X"
    by (auto simp: triple_def chooseIndex_def andThen_def gets_def ret_def atLog_def)
  have cl: "triple ?P (mapErr WalIO (closeFile i)) (\<lambda>_. ?P) ?X" for i
    unfolding closeFile_def
    by (intro triple_mapErr triple_osCall) (use X in \<open>auto simp: atLog_def safe_def durable_def\<close>)
  have cs: "triple ?P closeSegment (\<lambda>_. ?C) ?X"
    unfolding closeSegment_def
  proof (rule triple_andThen [where R = "\<lambda>f s. f \<noteq> None \<and> ?P s"])
    show "triple (\<lambda>s. f \<noteq> None \<and> ?P s) (case f of None \<Rightarrow> ret ()
       | Some i \<Rightarrow> andThen (mapErr WalIO (closeFile i)) (\<lambda>_. modify (\<lambda>s. s\<lparr>ws_currentFile := None, ws_currentSize := 0\<rparr>))) (\<lambda>_. ?C) ?X" for f
    proof (cases f)
      case (Some i)
      show ?thesis
        unfolding Some option.case
        by (rule triple_pre [OF triple_andThen [OF cl]], rule triple_modify) (simp_all add: atLog_def closedLog_def)
    qed (simp add: triple_def)
  qed (rule triple_gets, simp add: atLog_def)
  show ?thesis
    unfolding openNextSegment_def
    using triple_andThen [OF ch triple_andThen [OF cs createSegment_triple [OF base]]] by simp
qed

text \<open>Writing a batch of frames to the open segment.\<close>

lemma atLog_last:
  "atLog cfg d0 recss0 recss recs s \<Longrightarrow> w_disk s = lastDisk cfg d0 recss0 recss (wholeFile (segmentHeader cfg) recs) True"
  by (simp add: atLog_def withLast_whole)

lemma segmentBytes_append: "segmentBytes h (recs @ late) = segmentBytes h recs @ rc.stream late"
  by (simp add: segmentBytes_def)

lemma partial_safe:
  assumes base: "logBase cfg d0 recss0"
    and s: "w_disk s = lastDisk cfg d0 recss0 recss f True" "ws_segmentIndex s = int (length recss0 + Suc (length recss))"
      "writerState.more s = z"
    and f: "fl_data f = segmentBytes (segmentHeader cfg) recs @ take n (rc.stream late)"
      "length (segmentBytes (segmentHeader cfg) recs) \<le> fl_synced f"
  shows "safe cfg recss0 (concat recss @ recs) late z s"
proof -
  let ?l = "length (segmentBytes (segmentHeader cfg) recs)"
  have "fl_data f = take (?l + n) (segmentBytes (segmentHeader cfg) (recs @ late))" using f(1) by (simp add: segmentBytes_append)
  from lastDisk_reads [OF base this, of recss recs late True] have
    "readsBack cfg recss0 (lastDisk cfg d0 recss0 recss f True) (concat recss @ recs) late"
    if "length recss0 + length recss < 10 ^ 6" "\<forall>r\<in>set (concat recss @ recs @ late). loggable (word_of_int (wc_ShardID cfg)) r"
    using that f(2) by simp
  then show ?thesis using s by (simp add: safe_def durable_def)
qed

definition inBatch :: "WriterConfig \<Rightarrow> disk \<Rightarrow> Record list list \<Rightarrow> Record list list \<Rightarrow> Record list \<Rightarrow> inode \<Rightarrow> 'z
    \<Rightarrow> 'z writerState_scheme \<Rightarrow> bool" where
  "inBatch cfg d0 recss0 recss recs f z s \<longleftrightarrow> w_disk s = lastDisk cfg d0 recss0 recss f True
     \<and> ws_currentFile s = Some (length (dk_files d0) + length recss)
     \<and> ws_segmentIndex s = int (length recss0 + Suc (length recss))
     \<and> ws_currentSize s = int (length (segmentBytes (segmentHeader cfg) recs)) \<and> writerState.more s = z"

lemma inBatch_start:
  "atLog cfg d0 recss0 recss recs s \<and> writerState.more s = z \<longleftrightarrow> inBatch cfg d0 recss0 recss recs (wholeFile (segmentHeader cfg) recs) z s"
  by (auto simp: atLog_def inBatch_def withLast_whole)

lemma writeCurrent_triple:
  assumes base: "logBase cfg d0 recss0"
  shows "triple (\<lambda>s. atLog cfg d0 recss0 recss recs s \<and> writerState.more s = z) (writeCurrent (rc.stream late))
    (\<lambda>_ s. atLog cfg d0 recss0 recss (recs @ late) s \<and> writerState.more s = z) (safe cfg recss0 (concat recss @ recs) late z)"
proof -
  let ?B = "inBatch cfg d0 recss0 recss recs" and ?X = "safe cfg recss0 (concat recss @ recs) late z"
  let ?i = "length (dk_files d0) + length recss" and ?bs = "rc.stream late" and ?h = "segmentHeader cfg"
  let ?f = "\<lambda>n. \<lparr>fl_data = segmentBytes ?h recs @ take n ?bs, fl_synced = length (segmentBytes ?h recs)\<rparr>"
  have w0: "wholeFile ?h recs = ?f 0" and fl: "?f (length ?bs) = \<lparr>fl_data = segmentBytes ?h (recs @ late), fl_synced = length (segmentBytes ?h recs)\<rparr>"
    by (simp_all add: wholeFile_def segmentBytes_append)
  have sf: "?X s" if "?B (?f n) z s" for n s
    by (rule partial_safe [OF base, of s recss "?f n"]) (use that in \<open>auto simp: inBatch_def\<close>)
  have upd: "?B f z (s\<lparr>w_outs := outs\<rparr>)" if "?B f z s" for f s outs using that by (simp add: inBatch_def)
  have app: "?B (?f n) z (onDisk (appendBytes ?i (take n ?bs)) s)" if "?B (?f 0) z s" for n s
    using that by (simp add: inBatch_def appendBytes_last)
  have syn: "?B (wholeFile ?h (recs @ late)) z (onDisk (markSynced ?i) s)" if "?B (?f (length ?bs)) z s" for s
    using that unfolding fl by (simp add: inBatch_def markSynced_last wholeFile_def)
  have all: "?B (?f (length ?bs)) z (onDisk (appendBytes ?i ?bs) s)" if "?B (?f 0) z s" for s
    using app [OF that, of "length ?bs"] by simp
  have w: "triple (?B (?f 0) z) (writeFile ?i ?bs) (\<lambda>m s. m = length ?bs \<and> ?B (?f (length ?bs)) z s) ?X"
    by (rule triple_writeFile) (use sf upd app all in blast)+
  have sy: "triple (?B (?f (length ?bs)) z) (syncFile ?i) (\<lambda>_. ?B (wholeFile ?h (recs @ late)) z) ?X"
    unfolding syncFile_def by (rule triple_osCall) (use sf upd syn in blast)+
  have md: "triple (?B (wholeFile ?h (recs @ late)) z) (modify (\<lambda>s. s\<lparr>ws_currentSize := ws_currentSize s + int (length ?bs)\<rparr>))
      (\<lambda>_ s. atLog cfg d0 recss0 recss (recs @ late) s \<and> writerState.more s = z) ?X"
    by (rule triple_modify) (auto simp: inBatch_def atLog_def withLast_whole segmentBytes_append)
  have body: "triple (\<lambda>s. m = length ?bs \<and> ?B (?f (length ?bs)) z s) (if m \<noteq> length ?bs then fail WalShortBatch
      else andThen (mapErr WalIO (syncFile ?i)) (\<lambda>_. modify (\<lambda>s. s\<lparr>ws_currentSize := ws_currentSize s + int m\<rparr>)))
      (\<lambda>_ s. atLog cfg d0 recss0 recss (recs @ late) s \<and> writerState.more s = z) ?X" for m
    using triple_andThen [OF triple_mapErr [OF sy] md] by (cases "m = length ?bs") (simp_all add: triple_def)
  show ?thesis
    unfolding writeCurrent_def inBatch_start w0
  proof (rule triple_andThen [where R = "\<lambda>f s. f = Some ?i \<and> ?B (?f 0) z s"])
    show "triple (\<lambda>s. f = Some ?i \<and> ?B (?f 0) z s) (case f of None \<Rightarrow> fail (WalIO (ErrOS ''invalid argument''))
     | Some i \<Rightarrow> andThen (mapErr WalIO (writeFile i ?bs)) (\<lambda>n. if n \<noteq> length ?bs then fail WalShortBatch
         else andThen (mapErr WalIO (syncFile i)) (\<lambda>_. modify (\<lambda>s. s\<lparr>ws_currentSize := ws_currentSize s + int n\<rparr>))))
      (\<lambda>_ s. inBatch cfg d0 recss0 recss (recs @ late) (wholeFile ?h (recs @ late)) z s) ?X" for f
      using triple_andThen [OF triple_mapErr [OF w] body] unfolding inBatch_start [symmetric]
      by (cases "f = Some ?i") (simp_all add: triple_def)
  qed (rule triple_gets, simp add: inBatch_def)
qed

lemma stream_Nil: "rc.stream rs = [] \<Longrightarrow> \<forall>r\<in>set rs. encodable r \<Longrightarrow> rs = []"
  using rc.enc_nonempty by (cases rs) auto

lemma safe_late: "safe cfg recss0 acked [] z s \<Longrightarrow> safe cfg recss0 acked late z s"
  using durable_more [of cfg recss0 acked "[]" s late] by (simp add: safe_def)

text \<open>
  A batch is on the disk behind everything before it, in the open segment or in a new one, or the
  writer has failed and a crash leaves a prefix of it.
\<close>

lemma writeBatch_triple:
  assumes base: "logBase cfg d0 recss0" and ok: "\<forall>r\<in>set late. encodable r"
  shows "triple (\<lambda>s. atLog cfg d0 recss0 recss recs s \<and> writerState.more s = z) (writeBatch cfg (rc.stream late))
    (\<lambda>_ s. (\<exists>recss' recs'. atLog cfg d0 recss0 recss' recs' s \<and> concat recss' @ recs' = concat recss @ recs @ late) \<and> writerState.more s = z)
    (safe cfg recss0 (concat recss @ recs) late z)"
proof (cases "rc.stream late = []")
  case True
  then have "late = []" using stream_Nil ok by blast
  then show ?thesis unfolding writeBatch_def using True by (auto intro!: triple_ret)
next
  case False
  let ?Q = "\<lambda>_ s. (\<exists>recss' recs'. atLog cfg d0 recss0 recss' recs' s \<and> concat recss' @ recs' = concat recss @ recs @ late) \<and> writerState.more s = z"
  let ?P = "\<lambda>s. atLog cfg d0 recss0 recss recs s \<and> writerState.more s = z" and ?X = "safe cfg recss0 (concat recss @ recs) late z"
  have stay: "triple ?P (writeCurrent (rc.stream late)) ?Q ?X"
    by (rule triple_weaken [OF writeCurrent_triple [OF base]]) fastforce+
  have wr: "triple (\<lambda>s. atLog cfg d0 recss0 (recss @ [recs]) [] s \<and> writerState.more s = z) (writeCurrent (rc.stream late)) ?Q ?X"
    by (rule triple_weaken [OF writeCurrent_triple [OF base]]) fastforce+
  have op: "triple ?P (openNextSegment cfg) (\<lambda>_ s. atLog cfg d0 recss0 (recss @ [recs]) [] s \<and> writerState.more s = z) ?X"
    by (rule triple_weaken [OF rotate_triple [OF base]]) (auto intro: safe_late)
  have "triple ?P (andThen (openNextSegment cfg) (\<lambda>_. writeCurrent (rc.stream late))) ?Q ?X" by (rule triple_andThen [OF op wr])
  moreover have "triple ?P (andThen (ret ()) (\<lambda>_. writeCurrent (rc.stream late))) ?Q ?X"
    by (rule triple_andThen [OF triple_ret stay]) simp
  ultimately have br: "triple ?P (andThen (if b then openNextSegment cfg else ret ()) (\<lambda>_. writeCurrent (rc.stream late))) ?Q ?X" for b
    by (cases b) simp_all
  show ?thesis
    unfolding writeBatch_def if_not_P [OF False]
    by (rule triple_andThen [where R = "\<lambda>_. ?P"], rule triple_gets, assumption, rule br)
qed

end
