(* ===== verification/Wal_Process.thy ===== *)
theory Wal_Process
  imports Wal_Durable
begin

text \<open>
  The writer as a process: an invariant of the step relation, from which it follows that a record whose
  append was answered without an error is read back after any crash, that records are logged in the
  order of the requests, and that nothing is answered without an error after a failure.
\<close>

subsection \<open>What has been answered and what is waiting\<close>

definition ackedChans :: "wproc \<Rightarrow> ack_chan list" where
  "ackedChans p = map fst (filter (\<lambda>a. snd a = None) (wp_acks p))"

fun reqChans :: "writerRequest \<Rightarrow> ack_chan list" where
  "reqChans (ReqAppend c) = [c]"
| "reqChans (ReqFlush d) = []"
| "reqChans (ReqShutdown d) = []"

definition queuedChans :: "writerRequest list \<Rightarrow> ack_chan list" where
  "queuedChans reqs = concat (map reqChans reqs)"

definition enc :: "ack_chan list \<Rightarrow> ack_chan list" where
  "enc cs = filter (\<lambda>c. encodable (snd c)) cs"

lemma queuedChans_simps [simp]:
  "queuedChans [] = []" "queuedChans (r # rs) = reqChans r @ queuedChans rs" "queuedChans (rs @ qs) = queuedChans rs @ queuedChans qs"
  by (simp_all add: queuedChans_def)

lemma enc_simps [simp]: "enc [] = []" "enc (c # cs) = (if encodable (snd c) then c # enc cs else enc cs)" "enc (cs @ ds) = enc cs @ enc ds"
  by (simp_all add: enc_def)

text \<open>The fields of the process that the disk operations do not touch.\<close>

lemma same_more:
  assumes "writerState.more q = writerState.more (p :: wproc)"
  shows "wp_cfg q = wp_cfg p" and "wp_requests q = wp_requests p" and "wp_pendingBytes q = wp_pendingBytes p"
    and "wp_pendingAcks q = wp_pendingAcks p" and "wp_appended q = wp_appended p" and "wp_acks q = wp_acks p"
    and "wp_failedErr q = wp_failedErr p" and "wp_phase q = wp_phase p"
  using assms by (cases p; cases q; simp)+

subsection \<open>The invariant\<close>

definition batchOk :: "wproc \<Rightarrow> bool" where
  "batchOk p \<longleftrightarrow> wp_pendingBytes p = rc.stream (map snd (wp_pendingAcks p)) \<and> (\<forall>c\<in>set (wp_pendingAcks p). encodable (snd c))"

text \<open>The loop is running, and has the append requests \<open>hand\<close> in its hands.\<close>

definition running :: "WriterConfig \<Rightarrow> disk \<Rightarrow> Record list list \<Rightarrow> ack_chan list \<Rightarrow> wproc \<Rightarrow> bool" where
  "running cfg d0 recss0 hand p \<longleftrightarrow> wp_cfg p = cfg \<and> wp_phase p = Running \<and> batchOk p \<and> wp_failedErr p = None
     \<and> (\<exists>recss recs. atLog cfg d0 recss0 recss recs p \<and> map snd (ackedChans p) = concat recss @ recs)
     \<and> enc (wp_appended p) = ackedChans p @ wp_pendingAcks p @ enc hand @ enc (queuedChans (wp_requests p))"

definition halted :: "WriterConfig \<Rightarrow> Record list list \<Rightarrow> wproc \<Rightarrow> bool" where
  "halted cfg recss0 p \<longleftrightarrow> wp_cfg p = cfg
     \<and> (\<exists>late rest. enc (wp_appended p) = ackedChans p @ late @ rest
          \<and> durable cfg recss0 (map snd (ackedChans p)) (map snd late) p)"

definition starting :: "WriterConfig \<Rightarrow> disk \<Rightarrow> wproc \<Rightarrow> bool" where
  "starting cfg d0 p \<longleftrightarrow> wp_cfg p = cfg \<and> w_disk p = d0 \<and> ws_segmentIndex p = 0 \<and> ws_currentFile p = None
     \<and> wp_acks p = [] \<and> wp_pendingAcks p = [] \<and> wp_pendingBytes p = [] \<and> wp_failedErr p = None
     \<and> wp_appended p = queuedChans (wp_requests p)"

definition winv :: "WriterConfig \<Rightarrow> disk \<Rightarrow> Record list list \<Rightarrow> wproc \<Rightarrow> bool" where
  "winv cfg d0 recss0 p \<longleftrightarrow> (case wp_phase p of
       Starting \<Rightarrow> starting cfg d0 p
     | Running \<Rightarrow> running cfg d0 recss0 [] p
     | _ \<Rightarrow> halted cfg recss0 p)"

lemma durable_cong:
  "w_disk q = w_disk p \<Longrightarrow> ws_segmentIndex q = ws_segmentIndex p \<Longrightarrow> durable cfg recss0 a l q = durable cfg recss0 a l p"
  by (simp add: durable_def)

lemma halted_cong:
  assumes "halted cfg recss0 p" and "wp_cfg q = wp_cfg p" and "w_disk q = w_disk p" and "ws_segmentIndex q = ws_segmentIndex p"
    and "ackedChans q = ackedChans p" and "wp_appended q = wp_appended p"
  shows "halted cfg recss0 q"
  using assms durable_cong [of q p] by (auto simp: halted_def)

lemma running_halted:
  assumes "logBase cfg d0 recss0" and "running cfg d0 recss0 hand p"
  shows "halted cfg recss0 p"
proof -
  obtain recss recs where r: "atLog cfg d0 recss0 recss recs p" "map snd (ackedChans p) = concat recss @ recs"
    using assms(2) by (auto simp: running_def)
  have "closedLog cfg d0 recss0 (recss @ [recs]) (writerState.more p) p" using r(1) by (simp add: atLog_def closedLog_def)
  from closedLog_safe [OF assms(1) this] have "durable cfg recss0 (map snd (ackedChans p)) (map snd []) p"
    using r(2) by (simp add: safe_def)
  then show ?thesis using assms(2) unfolding halted_def running_def
    by (intro conjI exI [of _ "[]"] exI [of _ "wp_pendingAcks p @ enc hand @ enc (queuedChans (wp_requests p))"]) simp_all
qed

lemma starting_halted:
  assumes "logBase cfg d0 recss0" and "starting cfg d0 p"
  shows "halted cfg recss0 p"
proof -
  have "durable cfg recss0 [] [] p" using base_reads [OF assms(1)] assms(2) by (simp add: durable_def starting_def)
  then show ?thesis using assms(2) unfolding halted_def
    by (intro conjI exI [of _ "[]"] exI [of _ "enc (wp_appended p)"]) (simp_all add: starting_def ackedChans_def)
qed

subsection \<open>Answers\<close>

lemma ackedChans_sendAcks [simp]:
  "ackedChans (sendAcks (Some e) cs p) = ackedChans p" "ackedChans (sendAcks None cs p) = ackedChans p @ cs"
  by (simp_all add: ackedChans_def sendAcks_def o_def)

lemma sendAcks_fields [simp]:
  "wp_cfg (sendAcks e cs p) = wp_cfg p" "w_disk (sendAcks e cs p) = w_disk p" "ws_segmentIndex (sendAcks e cs p) = ws_segmentIndex p"
  "wp_appended (sendAcks e cs p) = wp_appended p" "wp_pendingAcks (sendAcks e cs p) = wp_pendingAcks p"
  "wp_pendingBytes (sendAcks e cs p) = wp_pendingBytes p" "wp_requests (sendAcks e cs p) = wp_requests p"
  "wp_failedErr (sendAcks e cs p) = wp_failedErr p" "wp_phase (sendAcks e cs p) = wp_phase p" "ws_currentFile (sendAcks e cs p) = ws_currentFile p"
  "ws_currentSize (sendAcks e cs p) = ws_currentSize p" "atLog cfg d0 recss0 recss recs (sendAcks e cs p) = atLog cfg d0 recss0 recss recs p"
  by (simp_all add: sendAcks_def atLog_def)

lemma ackedChans_upd [simp]:
  "ackedChans (p\<lparr>wp_requests := r\<rparr>) = ackedChans p" "ackedChans (p\<lparr>wp_failedErr := e\<rparr>) = ackedChans p"
  "ackedChans (p\<lparr>wp_closedDones := ds\<rparr>) = ackedChans p" "ackedChans (p\<lparr>wp_phase := ph\<rparr>) = ackedChans p"
  "ackedChans (p\<lparr>wp_done := b\<rparr>) = ackedChans p" "ackedChans (p\<lparr>wp_batches := bs\<rparr>) = ackedChans p"
  "ackedChans (p\<lparr>wp_pendingBytes := pb\<rparr>) = ackedChans p" "ackedChans (p\<lparr>wp_pendingAcks := pa\<rparr>) = ackedChans p"
  "ackedChans (p\<lparr>wp_timerArmed := b\<rparr>) = ackedChans p" "ackedChans (p\<lparr>wp_callers := cs\<rparr>) = ackedChans p"
  "ackedChans (p\<lparr>wp_nextChan := n\<rparr>) = ackedChans p" "ackedChans (p\<lparr>wp_appended := cs\<rparr>) = ackedChans p"
  "ackedChans (p\<lparr>wp_closed := b\<rparr>) = ackedChans p"
  by (simp_all add: ackedChans_def)

lemma rejectRequest_fields:
  "wp_cfg (rejectRequest err r p) = wp_cfg p \<and> w_disk (rejectRequest err r p) = w_disk p
   \<and> ws_segmentIndex (rejectRequest err r p) = ws_segmentIndex p \<and> wp_appended (rejectRequest err r p) = wp_appended p
   \<and> ackedChans (rejectRequest err r p) = ackedChans p \<and> wp_failedErr (rejectRequest err r p) = wp_failedErr p"
  by (cases r) (simp_all add: closeDone_def)

lemma rejectRemaining_fields:
  "wp_cfg (rejectRemaining err p) = wp_cfg p \<and> w_disk (rejectRemaining err p) = w_disk p
   \<and> ws_segmentIndex (rejectRemaining err p) = ws_segmentIndex p \<and> wp_appended (rejectRemaining err p) = wp_appended p
   \<and> ackedChans (rejectRemaining err p) = ackedChans p \<and> wp_failedErr (rejectRemaining err p) = wp_failedErr p"
proof -
  have "wp_cfg (fold (rejectRequest err) reqs q) = wp_cfg q \<and> w_disk (fold (rejectRequest err) reqs q) = w_disk q
     \<and> ws_segmentIndex (fold (rejectRequest err) reqs q) = ws_segmentIndex q \<and> wp_appended (fold (rejectRequest err) reqs q) = wp_appended q
     \<and> ackedChans (fold (rejectRequest err) reqs q) = ackedChans q \<and> wp_failedErr (fold (rejectRequest err) reqs q) = wp_failedErr q" for reqs q
    by (induction reqs arbitrary: q) (simp_all add: rejectRequest_fields)
  then show ?thesis by (simp add: rejectRemaining_def)
qed

lemma setTerminalError_fields [simp]:
  "wp_cfg (setTerminalError e p) = wp_cfg p" "w_disk (setTerminalError e p) = w_disk p"
  "ws_segmentIndex (setTerminalError e p) = ws_segmentIndex p" "wp_appended (setTerminalError e p) = wp_appended p"
  "ackedChans (setTerminalError e p) = ackedChans p" "wp_pendingAcks (setTerminalError e p) = wp_pendingAcks p"
  by (simp_all add: setTerminalError_def)

lemma flushFailed_halted: "halted cfg recss0 p \<Longrightarrow> halted cfg recss0 (flushFailed e p)"
  by (erule halted_cong) (simp_all add: flushFailed_def rejectRemaining_fields)

subsection \<open>The steps of the goroutine\<close>

lemma flush_triple:
  assumes base: "logBase cfg d0 recss0"
  shows "triple (running cfg d0 recss0 hand) flush
    (\<lambda>ok p. if ok then running cfg d0 recss0 hand p else halted cfg recss0 p) (halted cfg recss0)"
  unfolding triple_def
proof (intro allI impI)
  fix p assume run: "running cfg d0 recss0 hand p"
  obtain recss recs where r: "atLog cfg d0 recss0 recss recs p" "map snd (ackedChans p) = concat recss @ recs"
    and cfg: "wp_cfg p = cfg" and pb: "wp_pendingBytes p = rc.stream (map snd (wp_pendingAcks p))"
      "\<forall>c\<in>set (wp_pendingAcks p). encodable (snd c)"
    and ord: "enc (wp_appended p) = ackedChans p @ wp_pendingAcks p @ enc hand @ enc (queuedChans (wp_requests p))"
    using run by (auto simp: running_def batchOk_def)
  let ?late = "map snd (wp_pendingAcks p)"
  obtain x q where w: "writeBatch cfg (rc.stream ?late) p = (x, q)" by (cases "writeBatch cfg (rc.stream ?late) p")
  have "\<forall>r\<in>set ?late. encodable r" using pb(2) by auto
  from tripleD [OF writeBatch_triple [OF base this, of recss recs "writerState.more p"] _ w] r(1)
  have res: "case x of Ret _ \<Rightarrow> (\<exists>recss' recs'. atLog cfg d0 recss0 recss' recs' q \<and> concat recss' @ recs' = concat recss @ recs @ ?late)
        \<and> writerState.more q = writerState.more p
      | _ \<Rightarrow> durable cfg recss0 (map snd (ackedChans p)) ?late q \<and> writerState.more q = writerState.more p"
    using r(2) by (auto simp: safe_def split: io_res.splits)
  then have "writerState.more q = writerState.more p" by (cases x) auto
  note m = same_more [OF this]
  have acked: "ackedChans q = ackedChans p" using m by (simp add: ackedChans_def)
  have torn: "halted cfg recss0 q" if "durable cfg recss0 (map snd (ackedChans p)) ?late q"
    unfolding halted_def using that m acked cfg ord
    by (intro conjI exI [of _ "wp_pendingAcks p"] exI [of _ "enc hand @ enc (queuedChans (wp_requests p))"]) simp_all
  have good: "running cfg d0 recss0 hand (flushDone q)"
    if "atLog cfg d0 recss0 recss' recs' q" "concat recss' @ recs' = concat recss @ recs @ ?late" for recss' recs'
    unfolding running_def using that m acked cfg ord r(2) run
    by (auto simp: flushDone_def batchOk_def atLog_def running_def intro!: exI [of _ recss'] exI [of _ recs'])
  show "case flush p of (Ret ok, p') \<Rightarrow> if ok then running cfg d0 recss0 hand p' else halted cfg recss0 p'
      | (_, p') \<Rightarrow> halted cfg recss0 p'"
  proof (cases "wp_pendingAcks p = []")
    case True
    then show ?thesis using run by (simp add: flush_def andThen_def gets_def ret_def)
  next
    case False
    then have "flush p = (case x of Ret _ \<Rightarrow> (Ret True, flushDone q) | Fail e \<Rightarrow> (Ret False, flushFailed e q) | Crash \<Rightarrow> (Crash, q))"
      using w pb(1) cfg by (cases x) (simp_all add: flush_def andThen_def gets_def ret_def attempt_def modify_def)
    then show ?thesis using res torn good flushFailed_halted by (cases x) auto
  qed
qed

lemma running_upd:
  "running cfg d0 recss0 hand p \<Longrightarrow> running cfg d0 recss0 hand (closeDone d p)"
  by (simp add: running_def closeDone_def batchOk_def atLog_def)

lemma halted_closeDone: "halted cfg recss0 p \<Longrightarrow> halted cfg recss0 (closeDone d p)"
  by (erule halted_cong) (simp_all add: closeDone_def)

lemma append_encoded:
  "appendEncodedRecord bs rec = (if encodable rec then Inr (bs @ frameOf rec)
     else Inl (case payloadSize rec of Inl e \<Rightarrow> e))"
  by (auto simp: appendEncodedRecord_def encodable_def frameOf_def EncodeRecord_def ebind_def split: sum.splits)

lemma handleRequest_triple:
  assumes base: "logBase cfg d0 recss0"
  shows "triple (running cfg d0 recss0 (reqChans req)) (handleRequest req)
    (\<lambda>ok p. if ok then running cfg d0 recss0 [] p else halted cfg recss0 p) (halted cfg recss0)"
proof (cases req)
  case (ReqAppend c)
  let ?R = "running cfg d0 recss0 (reqChans req)"
  let ?Q = "\<lambda>ok p. if ok then running cfg d0 recss0 [] p else halted cfg recss0 p"
  show ?thesis
  proof (cases "encodable (snd c)")
    case False
    then show ?thesis unfolding ReqAppend
      by (auto simp: triple_def andThen_def gets_def modify_def ret_def append_encoded running_def batchOk_def)
  next
    case True
    let ?f = "\<lambda>p. p\<lparr>wp_pendingBytes := wp_pendingBytes p @ frameOf (snd c), wp_pendingAcks := wp_pendingAcks p @ [c], wp_timerArmed := True\<rparr>"
    have f: "running cfg d0 recss0 [] (?f p)" if "?R p" for p
      using that True ReqAppend by (auto simp: running_def batchOk_def atLog_def)
    have fl: "triple (running cfg d0 recss0 []) (if full then flush else ret True) ?Q (halted cfg recss0)" for full
      using flush_triple [OF base] by (cases full) (auto intro: triple_ret)
    have "handleRequest req p = (if batchFull (?f p) then flush else ret True) (?f p)" for p
      using True ReqAppend by (simp add: andThen_def gets_def modify_def append_encoded)
    then show ?thesis using f fl unfolding triple_def by simp
  qed
next
  case (ReqFlush d)
  have "triple (running cfg d0 recss0 []) (handleRequest req)
    (\<lambda>ok p. if ok then running cfg d0 recss0 [] p else halted cfg recss0 p) (halted cfg recss0)"
    unfolding ReqFlush handleRequest.simps
    by (rule triple_andThen [OF flush_triple [OF base]]; simp add: triple_def andThen_def modify_def ret_def running_upd halted_closeDone)
  then show ?thesis by (rule triple_pre) (simp add: running_def ReqFlush)
next
  case (ReqShutdown d)
  have "triple (running cfg d0 recss0 []) (handleRequest req)
    (\<lambda>ok p. if ok then running cfg d0 recss0 [] p else halted cfg recss0 p) (halted cfg recss0)"
    unfolding ReqShutdown handleRequest.simps
    by (rule triple_andThen [OF flush_triple [OF base]]; simp add: triple_def andThen_def modify_def ret_def running_halted [OF base] halted_closeDone)
  then show ?thesis by (rule triple_pre) (simp add: running_def ReqShutdown)
qed

lemma stopLoop_triple: "triple (halted cfg recss0) stopLoop (\<lambda>_ p. wp_phase p = Stopped \<and> halted cfg recss0 p) (halted cfg recss0)"
proof -
  have h: "halted cfg recss0 (p\<lparr>wp_done := b, wp_phase := ph\<rparr>)" "halted cfg recss0 (p\<lparr>w_outs := outs\<rparr>)"
    if "halted cfg recss0 p" for p b ph outs
    using that by (auto elim!: halted_cong simp: ackedChans_def)
  have "triple (halted cfg recss0) closeCurrent (\<lambda>_. halted cfg recss0) (halted cfg recss0)"
    using h(2) by (auto simp: triple_def closeCurrent_def andThen_def gets_def ret_def attempt_def closeFile_def osCall_def
        nextOutcome_def fail_def modify_def onDisk_def split: option.splits list.splits io_out.splits)
  then show ?thesis
    unfolding stopLoop_def by (rule triple_andThen) (rule triple_modify, simp add: h)
qed

text \<open>The goroutine handles all errors itself.\<close>

definition noFail :: "('s, 'e, 'a) io \<Rightarrow> bool" where
  "noFail m \<longleftrightarrow> (\<forall>s e. fst (m s) \<noteq> Fail e)"

lemma noFail_basic [simp]: "noFail (ret x)" "noFail (gets g)" "noFail (modify f)" "noFail (attempt m)"
  by (auto simp: noFail_def ret_def gets_def modify_def attempt_def split: prod.splits io_res.splits)

lemma noFail_andThen:
  assumes "noFail m" and "\<And>x. noFail (f x)"
  shows "noFail (andThen m f)"
  unfolding noFail_def
proof (intro allI)
  fix s e
  obtain r s' where r: "m s = (r, s')" by (cases "m s")
  show "fst (andThen m f s) \<noteq> Fail e"
    using assms r by (cases r) (auto simp: andThen_def noFail_def, metis fst_conv)
qed

lemma noFail_flush: "noFail flush"
  unfolding flush_def by (intro noFail_andThen noFail_basic) (auto intro!: noFail_andThen split: sum.split)

lemma noFail_handleRequest: "noFail (handleRequest req)"
  by (cases req) (auto intro!: noFail_andThen simp: noFail_flush split: sum.split)

lemma noFail_endIteration: "noFail (endIteration ok)"
  by (auto simp: endIteration_def stopLoop_def closeCurrent_def intro!: noFail_andThen split: option.split)

lemma noFail_run: "noFail runStart" "noFail runRequest" "noFail runTimer"
  by (auto simp: runStart_def runRequest_def runTimer_def noFail_flush noFail_handleRequest noFail_endIteration
      intro!: noFail_andThen split: sum.split list.split)

lemma exec_cases:
  assumes "noFail m" and "triple P m Q X" and "P p"
  shows "(\<exists>x. Q x (exec m p)) \<or> (\<exists>q. X q \<and> exec m p = q\<lparr>wp_phase := Crashed\<rparr>)"
proof (cases "m p")
  case (Pair r q)
  then show ?thesis using tripleD [OF assms(2,3) Pair] assms(1) by (cases r) (auto simp: exec_def noFail_def, metis fst_conv)
qed

lemma endIteration_triple:
  assumes "logBase cfg d0 recss0"
  shows "triple (\<lambda>p. if ok then running cfg d0 recss0 [] p else halted cfg recss0 p) (endIteration ok)
    (\<lambda>_ p. winv cfg d0 recss0 p) (halted cfg recss0)"
proof (cases ok)
  case True
  have "winv cfg d0 recss0 p" if "running cfg d0 recss0 [] p" for p
    using that by (simp add: winv_def) (simp add: running_def)
  then show ?thesis using True unfolding endIteration_def by (auto intro!: triple_ret)
next
  case False
  have "triple (halted cfg recss0) stopLoop (\<lambda>_ p. winv cfg d0 recss0 p) (halted cfg recss0)"
    by (rule triple_weaken [OF stopLoop_triple]) (auto simp: winv_def)
  then show ?thesis using False by (simp add: endIteration_def)
qed

lemma runTimer_triple:
  assumes "logBase cfg d0 recss0"
  shows "triple (running cfg d0 recss0 []) runTimer (\<lambda>_. winv cfg d0 recss0) (halted cfg recss0)"
  unfolding runTimer_def by (rule triple_andThen [OF flush_triple [OF assms] endIteration_triple [OF assms]])

lemma runRequest_triple:
  assumes "logBase cfg d0 recss0"
  shows "triple (running cfg d0 recss0 []) runRequest (\<lambda>_. winv cfg d0 recss0) (halted cfg recss0)"
proof -
  let ?R = "running cfg d0 recss0"
  have req: "triple (?R (reqChans req)) (andThen (handleRequest req) endIteration) (\<lambda>_. winv cfg d0 recss0) (halted cfg recss0)" for req
    by (rule triple_andThen [OF handleRequest_triple [OF assms] endIteration_triple [OF assms]])
  have "triple (\<lambda>p. ?R [] p \<and> wp_requests p = reqs) (case reqs of [] \<Rightarrow> ret ()
     | req # rest \<Rightarrow> andThen (modify (\<lambda>p. p\<lparr>wp_requests := rest\<rparr>)) (\<lambda>_. andThen (handleRequest req) endIteration))
      (\<lambda>_. winv cfg d0 recss0) (halted cfg recss0)" for reqs
  proof (cases reqs)
    case Nil
    then show ?thesis by (auto intro!: triple_ret simp: winv_def) (simp add: running_def)
  next
    case (Cons r rs)
    have "triple (\<lambda>p. ?R [] p \<and> wp_requests p = r # rs) (modify (\<lambda>p. p\<lparr>wp_requests := rs\<rparr>)) (\<lambda>_. ?R (reqChans r)) (halted cfg recss0)"
      by (rule triple_modify) (auto simp: running_def batchOk_def atLog_def)
    from triple_andThen [OF this req] Cons show ?thesis by simp
  qed
  note body = this
  show ?thesis
    unfolding runRequest_def
    by (rule triple_andThen [where R = "\<lambda>reqs p. ?R [] p \<and> wp_requests p = reqs"]) (rule triple_gets, simp, rule body)
qed

lemma runStart_triple:
  assumes base: "logBase cfg d0 recss0"
  shows "triple (starting cfg d0) runStart (\<lambda>_. winv cfg d0 recss0) (halted cfg recss0)"
  unfolding triple_def
proof (intro allI impI)
  fix p assume st: "starting cfg d0 p"
  obtain x q where o: "openNextSegment cfg p = (x, q)" by (cases "openNextSegment cfg p")
  from tripleD [OF openFirst_triple [OF base, of "writerState.more p"] _ o] st
  have res: "case x of Ret _ \<Rightarrow> atLog cfg d0 recss0 [] [] q \<and> writerState.more q = writerState.more p
      | _ \<Rightarrow> durable cfg recss0 [] [] q \<and> writerState.more q = writerState.more p"
    by (auto simp: starting_def safe_def split: io_res.splits)
  then have "writerState.more q = writerState.more p" by (cases x) auto
  note m = same_more [OF this]
  have acked: "ackedChans q = []" using m st by (simp add: ackedChans_def starting_def)
  have bad: "halted cfg recss0 q" if "durable cfg recss0 [] [] q"
    unfolding halted_def using that acked m st
    by (intro conjI exI [of _ "[]"] exI [of _ "enc (wp_appended q)"]) (simp_all add: starting_def)
  have good: "running cfg d0 recss0 [] (q\<lparr>wp_phase := Running\<rparr>)" if "atLog cfg d0 recss0 [] [] q"
    using that acked m st unfolding running_def
    by (intro conjI exI [of _ "[]"]) (simp_all add: starting_def batchOk_def atLog_def)
  have rej: "halted cfg recss0 ((rejectRemaining e (setTerminalError e q))\<lparr>wp_done := True, wp_phase := Stopped\<rparr>)"
    if "halted cfg recss0 q" for e
    using that by (rule halted_cong) (simp_all add: rejectRemaining_fields)
  have "runStart p = (case x of Ret _ \<Rightarrow> (Ret (), q\<lparr>wp_phase := Running\<rparr>)
      | Fail e \<Rightarrow> (Ret (), (rejectRemaining e (setTerminalError e q))\<lparr>wp_done := True, wp_phase := Stopped\<rparr>) | Crash \<Rightarrow> (Crash, q))"
    using o st by (cases x) (simp_all add: runStart_def andThen_def gets_def attempt_def modify_def starting_def)
  then show "case runStart p of (Ret _, p') \<Rightarrow> winv cfg d0 recss0 p' | (_, p') \<Rightarrow> halted cfg recss0 p'"
    using res good bad rej by (cases x) (auto simp: winv_def)
qed

lemma crashed_winv: "halted cfg recss0 q \<Longrightarrow> winv cfg d0 recss0 (q\<lparr>wp_phase := Crashed\<rparr>)"
  by (auto simp: winv_def elim!: halted_cong)

lemma exec_winv:
  assumes "noFail m" and "triple P m (\<lambda>_. winv cfg d0 recss0) (halted cfg recss0)" and "P p"
  shows "winv cfg d0 recss0 (exec m p)"
  using exec_cases [OF assms] crashed_winv by fastforce

subsection \<open>The calls\<close>

text \<open>A call that appends to the channel, or to nothing.\<close>

lemma halted_call:
  assumes "halted cfg recss0 p" and "wp_cfg q = wp_cfg p" "w_disk q = w_disk p" "ws_segmentIndex q = ws_segmentIndex p"
    "wp_acks q = wp_acks p" and "wp_appended q = wp_appended p @ cs"
  shows "halted cfg recss0 q"
proof -
  obtain late rest where "enc (wp_appended p) = ackedChans p @ late @ rest" "durable cfg recss0 (map snd (ackedChans p)) (map snd late) p"
    "wp_cfg p = cfg" using assms(1) by (auto simp: halted_def)
  then show ?thesis unfolding halted_def using assms(2-) durable_cong [of q p]
    by (intro conjI exI [of _ late] exI [of _ "rest @ enc cs"]) (simp_all add: ackedChans_def)
qed

lemma winv_call:
  assumes "winv cfg d0 recss0 p"
    and "wp_phase q = wp_phase p" "wp_cfg q = wp_cfg p" "w_disk q = w_disk p" "ws_segmentIndex q = ws_segmentIndex p"
      "ws_currentFile q = ws_currentFile p" "ws_currentSize q = ws_currentSize p" "wp_acks q = wp_acks p"
      "wp_pendingAcks q = wp_pendingAcks p" "wp_pendingBytes q = wp_pendingBytes p" "wp_failedErr q = wp_failedErr p"
    and "wp_requests q = wp_requests p @ reqs" and "wp_appended q = wp_appended p @ queuedChans reqs"
  shows "winv cfg d0 recss0 q"
proof (cases "wp_phase p")
  case Starting
  then show ?thesis using assms by (simp add: winv_def starting_def)
next
  case Running
  then show ?thesis using assms by (simp add: winv_def running_def batchOk_def atLog_def ackedChans_def)
qed (use assms halted_call [of cfg recss0 p q] in \<open>auto simp: winv_def\<close>)

lemma wstep_winv:
  assumes base: "logBase cfg d0 recss0" and "wstep p p'" and "winv cfg d0 recss0 p"
  shows "winv cfg d0 recss0 p'"
  using assms(2,3)
proof (cases rule: wstep.cases)
  case step_start
  then show ?thesis using assms(3) exec_winv [OF noFail_run(1) runStart_triple [OF base]] by (simp add: winv_def)
next
  case step_request
  then show ?thesis using assms(3) exec_winv [OF noFail_run(2) runRequest_triple [OF base]] by (simp add: winv_def)
next
  case step_timer
  then show ?thesis using assms(3) exec_winv [OF noFail_run(3) runTimer_triple [OF base]] by (simp add: winv_def)
next
  case (step_enter rec r)
  then show ?thesis using assms(3)
    by (auto simp: appendEnter_def Let_def split: option.splits if_splits intro: winv_call [where reqs = "[]"])
next
  case (step_send c)
  then show ?thesis by (auto simp: appendSend_def intro: winv_call [OF assms(3), where reqs = "[ReqAppend c]"])
next
  case (step_flush)
  then show ?thesis by (auto simp: flushSend_def intro: winv_call [OF assms(3), where reqs = "[ReqFlush (wp_nextChan p)]"])
next
  case step_shutdown
  then show ?thesis
    by (auto simp: shutdownSend_def markClosed_def intro: winv_call [OF assms(3), where reqs = "[ReqShutdown (wp_nextChan p)]"])
qed (auto simp: appendClosed_def appendCancel_def markClosed_def shutdownCancel_def reopen_def
    intro: winv_call [OF assms(3), where reqs = "[]"])

lemma wsteps_winv: "wstep\<^sup>*\<^sup>* p q \<Longrightarrow> logBase cfg d0 recss0 \<Longrightarrow> winv cfg d0 recss0 p \<Longrightarrow> winv cfg d0 recss0 q"
  by (induction rule: rtranclp_induct) (auto intro: wstep_winv)

lemma NewWriter_winv:
  assumes "logBase cfg d0 recss0" and "NewWriter cfg d0 outs = Inr p"
  shows "winv cfg d0 recss0 p"
proof -
  have st: "starting cfg d0 (initWriter cfg d0 os)" for os by (simp add: starting_def initWriter_def)
  then have "winv cfg d0 recss0 (initWriter cfg d0 os)" for os by (simp add: winv_def) (simp add: initWriter_def)
  then show ?thesis using assms(2) crashed_winv [OF starting_halted [OF assms(1) st]]
    by (auto simp: NewWriter_def makeDir_def osCall_def andThen_def nextOutcome_def fail_def modify_def onDisk_def
        split: option.splits list.splits io_out.splits)
qed

text \<open>What the invariant says about reading the log.\<close>

lemma winv_reads:
  assumes base: "logBase cfg d0 recss0" and "winv cfg d0 recss0 p" and "crash_image (w_disk p) img" and "ws_segmentIndex p < 10 ^ 6"
    and "\<forall>c\<in>set (wp_appended p). rec_ShardID (snd c) = word_of_int (wc_ShardID cfg)"
  shows "\<exists>n. length (ackedChans p) \<le> n \<and> n \<le> length (enc (wp_appended p))
    \<and> ackedChans p = take (length (ackedChans p)) (enc (wp_appended p))
    \<and> ReadShardRecordsForEngine img (wc_EngineID cfg) (nat (wc_ShardID cfg)) (nat (wc_ShardCount cfg))
      = Inr (map stored (concat recss0 @ map snd (take n (enc (wp_appended p)))))"
proof -
  have "halted cfg recss0 p"
    using assms(2) starting_halted [OF base] running_halted [OF base] by (auto simp: winv_def split: phase.splits)
  then obtain late rest where l: "enc (wp_appended p) = ackedChans p @ late @ rest"
    "durable cfg recss0 (map snd (ackedChans p)) (map snd late) p" by (auto simp: halted_def)
  have "set (ackedChans p @ late) \<subseteq> set (enc (wp_appended p))" using l(1) by auto
  then have "\<forall>r\<in>set (map snd (ackedChans p) @ map snd late). loggable (word_of_int (wc_ShardID cfg)) r"
    using assms(5) by (auto simp: enc_def loggable_def)
  then have "readsBack cfg recss0 (w_disk p) (map snd (ackedChans p)) (map snd late)" using l(2) assms(4) by (simp add: durable_def)
  then obtain n where n: "length (ackedChans p) \<le> n" "n \<le> length (ackedChans p @ late)"
    "ReadShardRecordsForEngine img (wc_EngineID cfg) (nat (wc_ShardID cfg)) (nat (wc_ShardCount cfg))
      = Inr (map stored (concat recss0 @ take n (map snd (ackedChans p @ late))))"
    using assms(3) by (auto simp: readsBack_def)
  have "take n (map snd (ackedChans p @ late)) = map snd (take n (enc (wp_appended p)))"
    using n(2) l(1) by (simp add: take_map)
  then show ?thesis using n l(1) by (intro exI [of _ n]) simp
qed

text \<open>A writer that has failed has left its loop.\<close>

lemma winv_failed:
  assumes "winv cfg d0 recss0 p" and "wp_failedErr p \<noteq> None"
  shows "wp_phase p \<noteq> Starting \<and> wp_phase p \<noteq> Running"
  using assms by (auto simp: winv_def starting_def running_def)

end
