(* ===== verification/Wal_Answers.thy ===== *)
theory Wal_Answers
  imports Wal_Process "HOL-Library.Multiset"
begin

text \<open>
  The answers of the log writer.  Every append request is answered once, or is waiting in the batch or in the
  channel; a writer that was shut down has left none behind.  A writer that has failed stays as it is.
\<close>

subsection \<open>What the disk operations leave alone\<close>

definition keeps :: "('s \<Rightarrow> 'b) \<Rightarrow> ('s, 'e, 'a) io \<Rightarrow> bool" where
  "keeps g m \<longleftrightarrow> (\<forall>s. g (snd (m s)) = g s)"

lemma keeps_basic:
  "keeps g (ret x)" "keeps g (fail e)" "keeps g (gets h)" "(\<And>s. g (f s) = g s) \<Longrightarrow> keeps g (modify f)"
  by (simp_all add: keeps_def ret_def fail_def gets_def modify_def)

lemma keeps_andThen: "keeps g m \<Longrightarrow> (\<And>x. keeps g (f x)) \<Longrightarrow> keeps g (andThen m f)"
  unfolding keeps_def andThen_def by (auto split: prod.splits io_res.splits) (metis snd_conv)+

lemma keeps_attempt: "keeps g m \<Longrightarrow> keeps g (attempt m)"
  unfolding keeps_def attempt_def by (auto split: prod.splits io_res.splits) (metis snd_conv)+

lemma keeps_mapErr: "keeps g m \<Longrightarrow> keeps g (mapErr h m)"
  unfolding keeps_def mapErr_def by (auto split: prod.splits io_res.splits) (metis snd_conv)+

lemmas keeps_rules = keeps_basic keeps_andThen keeps_attempt keeps_mapErr

abbreviation keepsMore :: "(wproc, 'e, 'a) io \<Rightarrow> bool" where
  "keepsMore \<equiv> keeps writerState.more"

lemma keepsMore_nextOutcome: "keepsMore nextOutcome"
  by (auto simp: keeps_def nextOutcome_def split: list.split)

lemma keepsMore_osCall: "keepsMore (osCall f)"
  unfolding osCall_def by (intro keeps_rules keepsMore_nextOutcome) (auto intro!: keeps_rules simp: onDisk_def split: io_out.split)

lemma keepsMore_writeFile: "keepsMore (writeFile i bs)"
  unfolding writeFile_def by (intro keeps_rules keepsMore_nextOutcome) (auto intro!: keeps_rules simp: onDisk_def split: io_out.split)

lemma keepsMore_openNextSegment: "keepsMore (openNextSegment cfg)"
  unfolding openNextSegment_def chooseIndex_def closeSegment_def createSegment_def writeHeader_def onError_def createExcl_def
    syncFile_def syncDirectory_def closeFile_def
  by (auto intro!: keeps_rules keepsMore_osCall keepsMore_writeFile split: sum.split option.split)

lemma keepsMore_writeBatch: "keepsMore (writeBatch cfg bs)"
  unfolding writeBatch_def writeCurrent_def syncFile_def
  by (auto intro!: keeps_rules keepsMore_osCall keepsMore_writeFile keepsMore_openNextSegment split: option.split)

lemma keepsMore_closeCurrent: "keepsMore closeCurrent"
  unfolding closeCurrent_def closeFile_def by (auto intro!: keeps_rules keepsMore_osCall split: option.split)

lemma same_calls:
  assumes "writerState.more q = writerState.more (p :: wproc)"
  shows "wp_closed q = wp_closed p" and "wp_callers q = wp_callers p" and "wp_nextChan q = wp_nextChan p"
  using assms by (cases p; cases q; simp)+

text \<open>The part of the state that only the calls change.\<close>

definition callState :: "wproc \<Rightarrow> ack_chan list \<times> ack_chan list \<times> nat" where
  "callState p = (wp_appended p, wp_callers p, wp_nextChan p)"

lemma keeps_calls: "keepsMore m \<Longrightarrow> keeps callState m"
  unfolding keeps_def callState_def by (blast dest: same_more(5) same_calls(2,3) intro: arg_cong2 [where f = Pair])

lemma rejectRemaining_calls: "callState (rejectRemaining err p) = callState p"
proof -
  have "callState (rejectRequest err r q) = callState q" for r q
    by (cases r) (simp_all add: callState_def sendAcks_def closeDone_def)
  then have "callState (fold (rejectRequest err) reqs q) = callState q" for reqs q
    by (induction reqs arbitrary: q) simp_all
  then show ?thesis by (simp add: rejectRemaining_def) (simp add: callState_def)
qed

lemma keeps_flush: "keeps callState flush"
proof -
  have "callState (flushFailed e p) = callState p" "callState (flushDone p) = callState p" for e p
    by (simp_all add: flushFailed_def rejectRemaining_calls) (simp_all add: callState_def flushDone_def sendAcks_def setTerminalError_def)
  then show ?thesis unfolding flush_def
    by (auto intro!: keeps_rules keeps_calls [OF keepsMore_writeBatch] split: sum.split)
qed

lemma keeps_handleRequest: "keeps callState (handleRequest req)"
  by (cases req) (auto intro!: keeps_rules keeps_flush simp: callState_def sendAcks_def closeDone_def split: sum.split)

lemma keeps_endIteration: "keeps callState (endIteration ok)"
  unfolding endIteration_def stopLoop_def
  by (auto intro!: keeps_rules keeps_calls [OF keepsMore_closeCurrent] simp: callState_def)

lemma keeps_run: "keeps callState runStart" "keeps callState runRequest" "keeps callState runTimer"
proof -
  have "callState ((rejectRemaining e (setTerminalError e p))\<lparr>wp_done := True, wp_phase := Stopped\<rparr>) = callState p" for e p
    using rejectRemaining_calls [of e "setTerminalError e p"] by (simp add: callState_def setTerminalError_def)
  then show "keeps callState runStart" unfolding runStart_def
    by (auto intro!: keeps_rules keeps_calls [OF keepsMore_openNextSegment] simp: callState_def split: sum.split)
  show "keeps callState runRequest" unfolding runRequest_def
    by (auto intro!: keeps_rules keeps_handleRequest keeps_endIteration simp: callState_def split: list.split)
  show "keeps callState runTimer" unfolding runTimer_def by (intro keeps_rules keeps_flush keeps_endIteration)
qed

lemma exec_calls: "keeps callState m \<Longrightarrow> callState (exec m p) = callState p"
  unfolding keeps_def exec_def by (auto simp: callState_def split: prod.splits io_res.splits) (metis snd_conv prod.inject)+

subsection \<open>The invariant\<close>

text \<open>Channels are new; the requests sent and those about to be sent are different.\<close>

definition freshChans :: "wproc \<Rightarrow> bool" where
  "freshChans p \<longleftrightarrow> distinct (wp_appended p @ wp_callers p) \<and> (\<forall>c\<in>set (wp_appended p @ wp_callers p). fst c < wp_nextChan p)"

definition answered :: "wproc \<Rightarrow> ack_chan list" where
  "answered p = map fst (wp_acks p)"

text \<open>No append request can be sent any more.\<close>

definition shut :: "wproc \<Rightarrow> bool" where
  "shut p \<longleftrightarrow> wp_closed p \<and> wp_callers p = []"

text \<open>After a shutdown request there is no append request.\<close>

fun orderly :: "bool \<Rightarrow> writerRequest list \<Rightarrow> bool" where
  "orderly closed [] = True"
| "orderly closed (ReqAppend c # rs) = orderly closed rs"
| "orderly closed (ReqFlush d # rs) = orderly closed rs"
| "orderly closed (ReqShutdown d # rs) = (closed \<and> queuedChans rs = [])"

lemma orderly_mono: "orderly a rs \<Longrightarrow> (a \<Longrightarrow> b) \<Longrightarrow> orderly b rs"
  by (induction a rs rule: orderly.induct) auto

lemma orderly_none: "queuedChans rs = [] \<Longrightarrow> orderly True rs"
  by (induction True rs rule: orderly.induct) auto

lemma orderly_flush: "orderly b rs \<Longrightarrow> orderly b (rs @ [ReqFlush d])"
  by (induction b rs rule: orderly.induct) auto

lemma orderly_send: "orderly False rs \<Longrightarrow> orderly False (rs @ [ReqAppend c])"
  by (induction False rs rule: orderly.induct) auto

lemma orderly_shutdown: "orderly False rs \<Longrightarrow> orderly True (rs @ [ReqShutdown d])"
  by (induction False rs rule: orderly.induct) auto

text \<open>The append requests are those answered, in the batch, in the hands of the loop, and in the channel.\<close>

definition accounted :: "ack_chan list \<Rightarrow> ack_chan list \<Rightarrow> wproc \<Rightarrow> bool" where
  "accounted batch hand p \<longleftrightarrow>
     mset (wp_appended p) = mset (answered p) + mset batch + mset hand + mset (queuedChans (wp_requests p))"

definition looping :: "ack_chan list \<Rightarrow> wproc \<Rightarrow> bool" where
  "looping hand p \<longleftrightarrow> accounted (wp_pendingAcks p) hand p \<and> wp_failedErr p = None \<and> orderly (shut p) (wp_requests p)"

definition ended :: "wproc \<Rightarrow> bool" where
  "ended p \<longleftrightarrow> accounted [] [] p \<and> (wp_failedErr p = None \<longrightarrow> shut p \<and> queuedChans (wp_requests p) = [])"

definition ainv :: "wproc \<Rightarrow> bool" where
  "ainv p \<longleftrightarrow> freshChans p \<and> (case wp_phase p of
       Starting \<Rightarrow> looping [] p \<and> wp_pendingAcks p = []
     | Running \<Rightarrow> looping [] p
     | Stopped \<Rightarrow> ended p
     | Crashed \<Rightarrow> True)"

lemmas ainv_defs = looping_def ended_def accounted_def answered_def shut_def

subsection \<open>The goroutine\<close>

lemma fold_reject:
  "map fst (wp_acks (fold (rejectRequest err) reqs p)) = map fst (wp_acks p) @ queuedChans reqs
   \<and> wp_requests (fold (rejectRequest err) reqs p) = wp_requests p \<and> wp_appended (fold (rejectRequest err) reqs p) = wp_appended p
   \<and> wp_failedErr (fold (rejectRequest err) reqs p) = wp_failedErr p"
proof (induction reqs arbitrary: p)
  case (Cons r rs)
  show ?case by (cases r) (simp_all add: Cons sendAcks_def closeDone_def)
qed simp

lemma rejectRemaining_answers:
  "answered (rejectRemaining err p) = answered p @ queuedChans (wp_requests p)" "wp_requests (rejectRemaining err p) = []"
  "wp_appended (rejectRemaining err p) = wp_appended p" "wp_failedErr (rejectRemaining err p) = wp_failedErr p"
  using fold_reject [of err "wp_requests p" "p\<lparr>wp_requests := []\<rparr>"] by (simp_all add: rejectRemaining_def answered_def)

lemma setTerminalError_failed: "wp_failedErr (setTerminalError e p) \<noteq> None" "wp_requests (setTerminalError e p) = wp_requests p"
  "wp_acks (setTerminalError e p) = wp_acks p"
  by (auto simp: setTerminalError_def)

lemma flushFailed_ended: "looping [] p \<Longrightarrow> ended (flushFailed e p)"
  by (simp add: ainv_defs flushFailed_def rejectRemaining_answers rejectRemaining_answers(1) [unfolded answered_def]
      setTerminalError_failed sendAcks_def o_def)

lemma flushDone_looping: "looping hand p \<Longrightarrow> looping hand (flushDone p) \<and> wp_pendingAcks (flushDone p) = []"
  by (simp add: ainv_defs flushDone_def sendAcks_def o_def)

lemma looping_more: "writerState.more q = writerState.more p \<Longrightarrow> looping hand q = looping hand p"
  by (simp add: ainv_defs same_more [of q p] same_calls [of q p])

lemma ended_more: "writerState.more q = writerState.more p \<Longrightarrow> ended q = ended p"
  by (simp add: ainv_defs same_more [of q p] same_calls [of q p])

definition channelState :: "wproc \<Rightarrow> phase \<times> bool \<times> ack_chan list \<times> writerRequest list" where
  "channelState p = (wp_phase p, wp_closed p, wp_callers p, wp_requests p)"

definition active :: "ack_chan list \<Rightarrow> wproc \<Rightarrow> bool" where
  "active hand p \<longleftrightarrow> looping hand p \<and> wp_phase p = Running"

lemma flush_answers:
  "triple (\<lambda>p. looping [] p \<and> K (channelState p)) flush
     (\<lambda>ok p. if ok then looping [] p \<and> wp_pendingAcks p = [] \<and> K (channelState p) else ended p) (\<lambda>_. True)"
  unfolding triple_def
proof (intro allI impI)
  fix p assume l: "looping [] p \<and> K (channelState p)"
  obtain x q where w: "writeBatch (wp_cfg p) (wp_pendingBytes p) p = (x, q)" by (cases "writeBatch (wp_cfg p) (wp_pendingBytes p) p")
  have m: "writerState.more q = writerState.more p"
    using keepsMore_writeBatch [of "wp_cfg p" "wp_pendingBytes p"] w by (metis keeps_def snd_conv)
  from looping_more [OF m] l have "looping [] q" by simp
  moreover have "channelState (flushDone q) = channelState p"
    using same_more [OF m] same_calls [OF m] by (simp add: channelState_def flushDone_def sendAcks_def)
  ultimately have "looping [] (flushDone q) \<and> wp_pendingAcks (flushDone q) = [] \<and> K (channelState (flushDone q))" "ended (flushFailed e q)" for e
    using l by (simp_all add: flushDone_looping flushFailed_ended)
  then show "case flush p of (Ret ok, p') \<Rightarrow> if ok then looping [] p' \<and> wp_pendingAcks p' = [] \<and> K (channelState p') else ended p' | (_, p') \<Rightarrow> True"
    using l w by (cases "wp_pendingAcks p = []"; cases x)
      (simp_all add: flush_def andThen_def gets_def ret_def attempt_def modify_def)
qed

lemma flush_active: "triple (active []) flush (\<lambda>ok p. if ok then active [] p else ended p) (\<lambda>_. True)"
  by (rule triple_pre [OF triple_weaken [OF flush_answers [of "\<lambda>s. fst s = Running"]]])
    (auto simp: active_def channelState_def split: if_splits)

lemma closeDone_answers [simp]: "active hand (closeDone d p) = active hand p" "ended (closeDone d p) = ended p"
  by (simp_all add: active_def ainv_defs closeDone_def)

text \<open>A request taken from the channel.\<close>

definition taken :: "writerRequest \<Rightarrow> wproc \<Rightarrow> bool" where
  "taken req p \<longleftrightarrow> active (reqChans req) p
     \<and> (case req of ReqShutdown d \<Rightarrow> shut p \<and> queuedChans (wp_requests p) = [] | _ \<Rightarrow> True)"

lemma handleAppend_answers:
  assumes ReqAppend: "req = ReqAppend c"
  shows "triple (taken req) (handleRequest req) (\<lambda>ok p. if ok then active [] p else ended p) (\<lambda>_. True)"
proof -
  let ?Q = "\<lambda>ok p. if ok then active [] p else ended p"
  let ?f = "\<lambda>bs p. p\<lparr>wp_pendingBytes := bs, wp_pendingAcks := wp_pendingAcks p @ [c], wp_timerArmed := True\<rparr>"
  have f: "active [] (?f bs p)" if "taken req p" for p bs
    using that ReqAppend by (auto simp: taken_def active_def ainv_defs)
  have bad: "active [] (sendAcks e [c] p)" if "taken req p" for p e
    using that ReqAppend by (auto simp: taken_def active_def ainv_defs sendAcks_def)
  have fl: "triple (active []) (if full then flush else ret True) ?Q (\<lambda>_. True)" for full
    using flush_active by (cases full) (auto intro: triple_ret)
  have "handleRequest req p = (case appendEncodedRecord (wp_pendingBytes p) (snd c) of
      Inl e \<Rightarrow> (Ret True, sendAcks (Some (WalEncode e)) [c] p)
    | Inr bs \<Rightarrow> (if batchFull (?f bs p) then flush else ret True) (?f bs p))" for p
    using ReqAppend by (simp add: andThen_def gets_def modify_def ret_def split: sum.split)
  note h = this
  show ?thesis
    unfolding triple_def
  proof (intro allI impI)
    fix p assume t: "taken req p"
    show "case handleRequest req p of (Ret ok, p') \<Rightarrow> ?Q ok p' | (_, p') \<Rightarrow> True"
    proof (cases "appendEncodedRecord (wp_pendingBytes p) (snd c)")
      case Inl
      then show ?thesis using h bad [OF t] by simp
    next
      case (Inr bs)
      then show ?thesis using h fl [unfolded triple_def, rule_format, OF f [OF t]] by simp
    qed
  qed
qed

lemma handleRequest_answers:
  "triple (taken req) (handleRequest req) (\<lambda>ok p. if ok then active [] p else ended p) (\<lambda>_. True)"
proof (cases req)
  case (ReqAppend c)
  then show ?thesis by (rule handleAppend_answers)
next
  case (ReqFlush d)
  have "triple (active []) (handleRequest req) (\<lambda>ok p. if ok then active [] p else ended p) (\<lambda>_. True)"
    unfolding ReqFlush handleRequest.simps
    by (rule triple_andThen [OF flush_active]) (simp add: triple_def andThen_def modify_def ret_def)
  then show ?thesis by (rule triple_pre) (simp add: taken_def ReqFlush)
next
  case (ReqShutdown d)
  let ?K = "\<lambda>(ph, closed, callers, reqs). ph = Running \<and> closed \<and> callers = [] \<and> queuedChans reqs = []"
  have "ended p" if "looping [] p \<and> wp_pendingAcks p = [] \<and> ?K (channelState p)" for p
    using that by (simp add: ainv_defs channelState_def)
  then have "triple (\<lambda>p. looping [] p \<and> ?K (channelState p)) (handleRequest req) (\<lambda>ok p. if ok then active [] p else ended p) (\<lambda>_. True)"
    unfolding ReqShutdown handleRequest.simps
    by (intro triple_andThen [OF flush_answers]) (simp add: triple_def andThen_def modify_def ret_def)
  then show ?thesis by (rule triple_pre) (simp add: taken_def ReqShutdown channelState_def shut_def active_def)
qed

lemma stopLoop_answers: "triple ended stopLoop (\<lambda>_ p. wp_phase p = Stopped \<and> ended p) (\<lambda>_. True)"
proof -
  have "triple ended closeCurrent (\<lambda>_. ended) (\<lambda>_. True)"
    unfolding triple_def
  proof (intro allI impI)
    fix p assume "ended p"
    moreover obtain x q where q: "closeCurrent p = (x, q)" by (cases "closeCurrent p")
    moreover have "writerState.more q = writerState.more p" using keepsMore_closeCurrent q by (metis keeps_def snd_conv)
    ultimately show "case closeCurrent p of (Ret _, p') \<Rightarrow> ended p' | (_, p') \<Rightarrow> True"
      using ended_more [of q p] by (cases x) simp_all
  qed
  then show ?thesis
    unfolding stopLoop_def by (rule triple_andThen) (rule triple_modify, simp add: ainv_defs)
qed

text \<open>The state after a step of the goroutine, less the part of the calls.\<close>

definition between :: "wproc \<Rightarrow> bool" where
  "between p \<longleftrightarrow> (case wp_phase p of Starting \<Rightarrow> False | Running \<Rightarrow> looping [] p | Stopped \<Rightarrow> ended p | Crashed \<Rightarrow> True)"

lemma endIteration_answers:
  "triple (\<lambda>p. if ok then active [] p else ended p) (endIteration ok) (\<lambda>_. between) (\<lambda>_. True)"
proof (cases ok)
  case True
  then show ?thesis by (auto simp: endIteration_def between_def active_def intro!: triple_ret)
next
  case False
  have "triple ended stopLoop (\<lambda>_. between) (\<lambda>_. True)"
    by (rule triple_weaken [OF stopLoop_answers]) (auto simp: between_def)
  then show ?thesis using False by (simp add: endIteration_def)
qed

lemma runTimer_answers: "triple (active []) runTimer (\<lambda>_. between) (\<lambda>_. True)"
  unfolding runTimer_def by (rule triple_andThen [OF flush_active endIteration_answers])

lemma runRequest_answers: "triple (active []) runRequest (\<lambda>_. between) (\<lambda>_. True)"
  unfolding triple_def
proof (intro allI impI)
  fix p assume p: "active [] p"
  show "case runRequest p of (Ret _, p') \<Rightarrow> between p' | (_, p') \<Rightarrow> True"
  proof (cases "wp_requests p")
    case Nil
    then show ?thesis using p by (simp add: runRequest_def andThen_def gets_def ret_def between_def active_def)
  next
    case (Cons r rs)
    have "taken r (p\<lparr>wp_requests := rs\<rparr>)"
      using p Cons by (cases r) (simp_all add: taken_def active_def ainv_defs ac_simps orderly_none)
    then show ?thesis using Cons triple_andThen [OF handleRequest_answers endIteration_answers, of r]
      by (simp add: runRequest_def andThen_def [of "gets wp_requests"] andThen_def [of "modify f" for f] gets_def modify_def triple_def)
  qed
qed

lemma runStart_answers: "triple (\<lambda>p. looping [] p \<and> wp_pendingAcks p = []) runStart (\<lambda>_. between) (\<lambda>_. True)"
  unfolding triple_def
proof (intro allI impI)
  fix p assume p: "looping [] p \<and> wp_pendingAcks p = []"
  obtain x q where q: "openNextSegment (wp_cfg p) p = (x, q)" by (cases "openNextSegment (wp_cfg p) p")
  have "writerState.more q = writerState.more p" using keepsMore_openNextSegment q by (metis keeps_def snd_conv)
  then have l: "looping [] q" "wp_pendingAcks q = []" using p looping_more [of q p] same_more(4) [of q p] by simp_all
  then have "ended ((rejectRemaining e (setTerminalError e q))\<lparr>wp_done := True, wp_phase := Stopped\<rparr>)" for e
    using rejectRemaining_answers [of e "setTerminalError e q"] setTerminalError_failed [of e q]
    by (auto simp: ainv_defs)
  moreover have "looping [] (q\<lparr>wp_phase := Running\<rparr>)" using l(1) by (simp add: ainv_defs)
  ultimately show "case runStart p of (Ret _, p') \<Rightarrow> between p' | (_, p') \<Rightarrow> True"
    using q by (cases x) (simp_all add: runStart_def andThen_def gets_def attempt_def modify_def between_def)
qed

lemma exec_between:
  assumes "noFail m" and "triple P m (\<lambda>_. between) (\<lambda>_. True)" and "P p"
  shows "between (exec m p)"
  using exec_cases [OF assms] by (auto simp: between_def)

lemma between_ainv: "between p \<Longrightarrow> freshChans p \<Longrightarrow> ainv p"
  by (auto simp: between_def ainv_def split: phase.splits)

lemma freshChans_calls: "callState q = callState p \<Longrightarrow> freshChans q = freshChans p"
  by (simp add: freshChans_def callState_def)

subsection \<open>The step relation\<close>

lemma exec_ainv:
  assumes "noFail m" and "triple P m (\<lambda>_. between) (\<lambda>_. True)" and "keeps callState m" and "P p" and "freshChans p"
  shows "ainv (exec m p)"
  using exec_between [OF assms(1,2,4)] freshChans_calls [OF exec_calls [OF assms(3)], of p] assms(5) by (simp add: between_ainv)

lemma ainv_call:
  assumes "ainv p" and "wp_phase q = wp_phase p" "wp_acks q = wp_acks p" "wp_pendingAcks q = wp_pendingAcks p" "wp_failedErr q = wp_failedErr p"
    and "wp_requests q = wp_requests p @ reqs" and "wp_appended q = wp_appended p @ queuedChans reqs"
    and "freshChans p \<Longrightarrow> freshChans q" and "orderly (shut p) (wp_requests p) \<Longrightarrow> orderly (shut q) (wp_requests q)"
    and "shut p \<Longrightarrow> shut q \<and> queuedChans reqs = []"
  shows "ainv q"
proof -
  have "looping [] p \<Longrightarrow> looping [] q" using assms(3-7,9) by (simp add: looping_def accounted_def answered_def)
  moreover have "ended p \<Longrightarrow> ended q" using assms(3-7,10) by (simp add: ended_def accounted_def answered_def)
  ultimately show ?thesis using assms(1,2,4,8) by (auto simp: ainv_def split: phase.splits)
qed

lemma ainv_leave:
  assumes "ainv p"
  shows "ainv (p\<lparr>wp_callers := remove1 c (wp_callers p)\<rparr>)"
  by (rule ainv_call [OF assms, where reqs = "[]"])
    (auto simp: freshChans_def shut_def distinct_remove1 dest: in_set_remove1 [THEN iffD1, rotated] set_remove1_subset [THEN subsetD] elim!: orderly_mono)

lemma ainv_closed:
  assumes "ainv p"
  shows "ainv (p\<lparr>wp_closed := True\<rparr>)"
  by (rule ainv_call [OF assms, where reqs = "[]"]) (auto simp: freshChans_def shut_def elim!: orderly_mono)

lemma freshChans_enter:
  assumes "freshChans p"
  shows "freshChans (p\<lparr>wp_nextChan := Suc (wp_nextChan p), wp_callers := wp_callers p @ [(wp_nextChan p, rec)]\<rparr>)"
proof -
  have "(wp_nextChan p, rec) \<notin> set (wp_appended p @ wp_callers p)"
    using assms unfolding freshChans_def by (metis fst_conv less_irrefl)
  moreover have "fst c < Suc (wp_nextChan p)" if "c \<in> set (wp_appended p @ wp_callers p)" for c
    using assms that by (auto simp: freshChans_def dest!: bspec)
  ultimately show ?thesis using assms by (auto simp: freshChans_def)
qed

lemma freshChans_flush: "freshChans p \<Longrightarrow> freshChans (p\<lparr>wp_nextChan := Suc (wp_nextChan p), wp_requests := rs\<rparr>)"
  unfolding freshChans_def by (simp add: less_SucI)

lemma wstep_ainv: "wstep p q \<Longrightarrow> ainv p \<Longrightarrow> ainv q"
proof (induction rule: wstep.induct)
  case (step_start p)
  then show ?case using exec_ainv [OF noFail_run(1) runStart_answers keeps_run(1), of p] by (simp add: ainv_def)
next
  case (step_request p)
  then show ?case using exec_ainv [OF noFail_run(2) runRequest_answers keeps_run(2), of p] by (simp add: ainv_def active_def)
next
  case (step_timer p)
  then show ?case using exec_ainv [OF noFail_run(3) runTimer_answers keeps_run(3), of p] by (simp add: ainv_def active_def)
next
  case (step_enter rec p r p')
  show ?case
  proof (cases "wp_failedErr p = None \<and> \<not> wp_closed p")
    case True
    then show ?thesis using step_enter
      by (auto simp: appendEnter_def Let_def shut_def freshChans_enter intro!: ainv_call [OF step_enter(2), where reqs = "[]"])
  qed (use step_enter in \<open>auto simp: appendEnter_def split: option.splits\<close>)
next
  case (step_send c p)
  then have "\<not> shut p" by (auto simp: shut_def)
  then show ?case using step_send
    by (intro ainv_call [OF step_send(3), where reqs = "[ReqAppend c]"])
      (auto simp: appendSend_def freshChans_def shut_def dest: set_remove1_subset [THEN subsetD] intro: orderly_mono [OF orderly_send])
next
  case (step_closed c p)
  then show ?case by (simp add: appendClosed_def ainv_leave)
next
  case (step_cancel c p)
  then show ?case by (simp add: appendCancel_def ainv_leave)
next
  case (step_flush p)
  then show ?case
    by (intro ainv_call [OF step_flush(2), where reqs = "[ReqFlush (wp_nextChan p)]"])
      (auto simp: flushSend_def freshChans_flush shut_def intro: orderly_flush)
next
  case (step_shutdown p)
  then show ?case
    by (intro ainv_call [OF step_shutdown(4), where reqs = "[ReqShutdown (wp_nextChan p)]"])
      (auto simp: shutdownSend_def markClosed_def freshChans_def shut_def less_SucI intro: orderly_shutdown)
next
  case (step_shutdown_done p)
  then show ?case by (simp add: markClosed_def ainv_closed)
next
  case (step_shutdown_cancel p)
  then have "shutdownCancel p = p" by (simp add: shutdownCancel_def markClosed_def reopen_def)
  then show ?case using step_shutdown_cancel by simp
qed

lemma wsteps_ainv: "wstep\<^sup>*\<^sup>* p q \<Longrightarrow> ainv p \<Longrightarrow> ainv q"
  by (induction rule: rtranclp_induct) (auto intro: wstep_ainv)

lemma NewWriter_ainv:
  assumes "NewWriter cfg d0 outs = Inr p"
  shows "ainv p"
proof -
  have "ainv (initWriter cfg d outs)" for d outs by (simp add: ainv_def ainv_defs freshChans_def initWriter_def)
  moreover have "ainv ((initWriter cfg d outs)\<lparr>wp_phase := Crashed\<rparr>)" for d outs by (simp add: ainv_def freshChans_def initWriter_def)
  ultimately show ?thesis using assms by (auto simp: NewWriter_def split: option.splits prod.splits io_res.splits)
qed

subsection \<open>A writer that has failed\<close>

lemma failed_wstep:
  assumes "wstep p q" and "wp_phase p = Stopped \<or> wp_phase p = Crashed"
  shows "wp_phase q = wp_phase p \<and> wp_failedErr q = wp_failedErr p \<and> wp_acks q = wp_acks p \<and> w_disk q = w_disk p"
  using assms
  by (induction rule: wstep.induct)
    (auto simp: appendEnter_def appendSend_def appendClosed_def appendCancel_def flushSend_def shutdownSend_def markClosed_def
      shutdownCancel_def reopen_def Let_def split: option.splits if_splits)

lemma failed_wsteps:
  assumes "wstep\<^sup>*\<^sup>* p q" and "wp_phase p = Stopped \<or> wp_phase p = Crashed"
  shows "wp_phase q = wp_phase p \<and> wp_failedErr q = wp_failedErr p \<and> wp_acks q = wp_acks p \<and> w_disk q = w_disk p"
  using assms by (induction rule: rtranclp_induct) (auto dest: failed_wstep)

end
