(* ===== verification/Wal_Interface.thy ===== *)
theory Wal_Interface
  imports Wal_Answers
begin

text \<open>
  The interface \<open>walWriter\<close> of \<open>internal/shard/loop.go\<close>: what the loop of a shard relies on when it replies to a caller
  after an acknowledgement, and when it answers a drain.  The locales state the contract over any kind of writer, and are
  interpreted on the writer of \<open>internal/journal\<close>.
\<close>

subsection \<open>The contract\<close>

text \<open>
  A writer that serves a configuration \<open>c\<close>: the append requests it has taken, each with a channel of its own, and those of them it
  has acknowledged.
\<close>

locale append_channels =
  fixes serving :: "'c \<Rightarrow> 'w \<Rightarrow> bool" and appended :: "'w \<Rightarrow> ack_chan list" and acked :: "'w \<Rightarrow> ack_chan list"
  assumes own_channel: "serving c w \<Longrightarrow> distinct (appended w)"
begin

lemma all_acked_length:
  assumes "serving c w" and "set (appended w) \<subseteq> set (acked w)"
  shows "length (appended w) \<le> length (acked w)"
proof -
  have "length (appended w) = card (set (appended w))" using own_channel [OF assms(1)] by (simp add: distinct_card)
  also have "\<dots> \<le> card (set (acked w))" using assms(2) by (intro card_mono) simp_all
  also have "\<dots> \<le> length (acked w)" by (rule card_length)
  finally show ?thesis .
qed

end

text \<open>
  A writer that is durable: after a crash the log is read without an error, and gives what it had before and a prefix of
  the append requests that has at least the acknowledged ones.
\<close>

locale wal_writer = append_channels serving appended acked
  for serving :: "'c \<Rightarrow> 'w \<Rightarrow> bool" and appended :: "'w \<Rightarrow> ack_chan list" and acked :: "'w \<Rightarrow> ack_chan list" +
  fixes crashed :: "'c \<Rightarrow> 'w \<Rightarrow> 'i \<Rightarrow> bool" and readback :: "'c \<Rightarrow> 'i \<Rightarrow> 'e + Record list" and earlier :: "'c \<Rightarrow> Record list"
  assumes prefix_survives: "serving c w \<Longrightarrow> crashed c w img \<Longrightarrow> \<exists>n. length (acked w) \<le> n \<and> n \<le> length (appended w)
    \<and> acked w = take (length (acked w)) (appended w) \<and> readback c img = Inr (earlier c @ map stored (map snd (take n (appended w))))"
begin

lemma acked_survives:
  assumes "serving c w" and "crashed c w img" and "ch \<in> set (acked w)"
  shows "\<exists>recs. readback c img = Inr (earlier c @ recs) \<and> stored (snd ch) \<in> set recs"
proof -
  obtain n where n: "length (acked w) \<le> n" "acked w = take (length (acked w)) (appended w)"
    "readback c img = Inr (earlier c @ map stored (map snd (take n (appended w))))" using prefix_survives [OF assms(1,2)] by blast
  have "ch \<in> set (take n (appended w))" using assms(3) n(1,2) set_take_subset_set_take by (metis subsetD)
  then show ?thesis using n(3) by auto
qed

lemma all_acked_all_survive:
  assumes "serving c w" and "crashed c w img" and "set (appended w) \<subseteq> set (acked w)"
  shows "readback c img = Inr (earlier c @ map stored (map snd (appended w)))"
  using prefix_survives [OF assms(1,2)] all_acked_length [OF assms(1,3)] by auto

end

subsection \<open>The log writer\<close>

text \<open>A configuration of the writer with the directory it starts on, and the records of the whole segments in it.\<close>

type_synonym wal_context = "WriterConfig \<times> disk \<times> Record list list"

fun walServing :: "wal_context \<Rightarrow> wproc \<Rightarrow> bool" where
  "walServing (cfg, d0, recss0) w \<longleftrightarrow> (\<exists>outs w0. NewWriter cfg d0 outs = Inr w0 \<and> wstep\<^sup>*\<^sup>* w0 w)"

fun walCrashed :: "wal_context \<Rightarrow> wproc \<Rightarrow> wal_dir \<Rightarrow> bool" where
  "walCrashed (cfg, d0, recss0) w img \<longleftrightarrow> logBase cfg d0 recss0 \<and> crash_image (w_disk w) img \<and> ws_segmentIndex w < 10 ^ 6
     \<and> (\<forall>c\<in>set (wp_appended w). encodable (snd c) \<and> rec_ShardID (snd c) = word_of_int (wc_ShardID cfg))"

fun walReadback :: "wal_context \<Rightarrow> wal_dir \<Rightarrow> journal_err + Record list" where
  "walReadback (cfg, d0, recss0) img = ReadShardRecordsForEngine img (wc_EngineID cfg) (nat (wc_ShardID cfg)) (nat (wc_ShardCount cfg))"

fun walEarlier :: "wal_context \<Rightarrow> Record list" where
  "walEarlier (cfg, d0, recss0) = map stored (concat recss0)"

lemma writer_survives:
  assumes "walServing c w" and "walCrashed c w img"
  shows "\<exists>n. length (ackedChans w) \<le> n \<and> n \<le> length (wp_appended w)
    \<and> ackedChans w = take (length (ackedChans w)) (wp_appended w)
    \<and> walReadback c img = Inr (walEarlier c @ map stored (map snd (take n (wp_appended w))))"
proof (cases c)
  case (fields cfg d0 recss0)
  obtain outs w0 where run: "NewWriter cfg d0 outs = Inr w0" "wstep\<^sup>*\<^sup>* w0 w" using assms(1) fields by auto
  have crash: "logBase cfg d0 recss0" "crash_image (w_disk w) img" "ws_segmentIndex w < 10 ^ 6"
    "\<forall>c\<in>set (wp_appended w). rec_ShardID (snd c) = word_of_int (wc_ShardID cfg)" and enc: "enc (wp_appended w) = wp_appended w"
    using assms(2) fields by (simp_all add: enc_def)
  note inv = wsteps_winv [OF run(2) crash(1) NewWriter_winv [OF crash(1) run(1)]]
  show ?thesis using winv_reads [OF crash(1) inv crash(2-4)] fields by (simp add: enc)
qed

interpretation journal: wal_writer walServing wp_appended ackedChans walCrashed walReadback walEarlier
proof unfold_locales
  fix c w assume "walServing c w"
  then show "distinct (wp_appended w)"
    using wsteps_ainv NewWriter_ainv by (cases c) (fastforce simp: ainv_def freshChans_def)
qed (rule writer_survives)

text \<open>A record for which \<open>Append\<close> has returned without an error is read back after any crash.\<close>

lemma append_returned_survives:
  assumes "walServing c w" and "walCrashed c w img" and "appendReturn ch w = Some None"
  shows "\<exists>recs. walReadback c img = Inr (walEarlier c @ recs) \<and> stored (snd ch) \<in> set recs"
proof -
  have "(ch, None) \<in> set (wp_acks w)" using assms(3) by (auto simp: appendReturn_def dest: map_of_SomeD)
  then have "ch \<in> set (ackedChans w)" by (force simp: ackedChans_def)
  then show ?thesis by (rule journal.acked_survives [OF assms(1,2)])
qed

end
