(* ===== verification/Shard_Loop.thy ===== *)
theory Shard_Loop
  imports Replay Wal_Interface Sequencer
begin

text \<open>
  The loop of a shard (\<open>internal/shard/loop.go\<close>).  One goroutine receives commands, applies them to the books at
  once, sends their records to the log writer, and replies when the writer has acknowledged
  them, in order; barriers and drains wait until every command before them has been acknowledged.  The goroutine
  and the log writer run side by side: a state has both, and the points at which the goroutine may wait are
  explicit.
\<close>

subsection \<open>State\<close>

datatype loop_err =
    LoopAppend nat wal_err
  | LoopFlush nat wal_err
  | LoopShutdown nat wal_err

record pendingCommand =
  pc_sequence :: uint64
  pc_result :: Result
  pc_reply :: nat
  pc_ack :: ack_chan

text \<open>
  The fields of \<open>Loop\<close> and the local variable \<open>pending\<close>; then the outcomes sent on reply channels, and, for the
  statements, the commands received with their reply channels and the commands given to the books.
  \<open>lp_symbols\<close> lists the keys of the map of books, \<open>lp_hasWAL\<close> says that \<open>wal\<close> is not nil.
\<close>

record Loop =
  lp_id :: nat
  lp_symbols :: "string list"
  lp_books :: books
  lp_hasWAL :: bool
  lp_lastAppliedSeq :: uint64
  lp_failedErr :: "loop_err option"
  lp_metrics :: "metricCall list"
  lp_pending :: "pendingCommand list"
  lp_replies :: "(nat \<times> (loop_err + Result)) list"
  lp_received :: "(Command \<times> nat) list"
  lp_applied :: "Command list"

definition newLoop :: "nat \<Rightarrow> string list \<Rightarrow> bool \<Rightarrow> (string \<rightharpoonup> BookSnapshot) \<Rightarrow> Loop option" where
  "newLoop shardID symbols hasWAL snapshots = Option.bind (openBooks snapshots Map.empty symbols) (\<lambda>books.
     Some \<lparr>lp_id = shardID, lp_symbols = symbols, lp_books = books, lp_hasWAL = hasWAL, lp_lastAppliedSeq = 0,
       lp_failedErr = None, lp_metrics = [], lp_pending = [], lp_replies = [], lp_received = [], lp_applied = []\<rparr>)"

text \<open>\<open>snapshots\<close>: those of all books, by symbol.\<close>

fun collectSnapshots :: "books \<Rightarrow> string list \<Rightarrow> BookSnapshot list option" where
  "collectSnapshots books [] = Some []"
| "collectSnapshots books (s # ss) = Option.bind (books s) (\<lambda>b. Option.bind (Snapshot b) (\<lambda>snap.
     Option.bind (collectSnapshots books ss) (\<lambda>snaps. Some (snap # snaps))))"

definition loopSnapshots :: "'z Loop_scheme \<Rightarrow> BookSnapshot list option" where
  "loopSnapshots l = collectSnapshots (lp_books l) (sort (lp_symbols l))"

definition lastApplied :: "'z Loop_scheme \<Rightarrow> uint64" where
  "lastApplied l = lp_lastAppliedSeq l"

subsection \<open>Completing commands\<close>

definition hasRejected :: "Result \<Rightarrow> bool" where
  "hasRejected result \<longleftrightarrow> list_ex (\<lambda>event. ev_Type event = EventRejected) (res_Events result)"

definition sendReply :: "nat \<Rightarrow> loop_err + Result \<Rightarrow> 'z Loop_scheme \<Rightarrow> 'z Loop_scheme" where
  "sendReply reply out l = l\<lparr>lp_replies := lp_replies l @ [(reply, out)]\<rparr>"

definition completeCommand :: "uint64 \<Rightarrow> Result \<Rightarrow> nat \<Rightarrow> 'z Loop_scheme \<Rightarrow> 'z Loop_scheme" where
  "completeCommand sequence result reply l =
     sendReply reply (Inr result)
       (l\<lparr>lp_lastAppliedSeq := sequence, lp_metrics := lp_metrics l @ [if hasRejected result then IncRejected else IncAccepted]\<rparr>)"

definition failPending :: "loop_err \<Rightarrow> 'z Loop_scheme \<Rightarrow> 'z Loop_scheme" where
  "failPending err l = l\<lparr>lp_failedErr := Some err,
     lp_replies := lp_replies l @ map (\<lambda>c. (pc_reply c, Inl err)) (lp_pending l), lp_pending := []\<rparr>"

text \<open>\<open>completeNext\<close> is called only when there is a pending command.\<close>

definition completeNext :: "wal_err option \<Rightarrow> 'z Loop_scheme \<Rightarrow> 'z Loop_scheme" where
  "completeNext err l = (case lp_pending l of
       [] \<Rightarrow> l
     | command # commands \<Rightarrow>
         (let l' = l\<lparr>lp_pending := commands\<rparr> in
          case err of
            Some e \<Rightarrow> (let failed = LoopAppend (lp_id l) e in
              failPending failed (sendReply (pc_reply command) (Inl failed) (l'\<lparr>lp_failedErr := Some failed\<rparr>)))
          | None \<Rightarrow> completeCommand (pc_sequence command) (pc_result command) (pc_reply command) l'))"

subsection \<open>Commands\<close>

text \<open>\<open>enqueueCommand\<close> up to the call of \<open>AppendAsync\<close>, and what follows it.\<close>

datatype 'l enqueued =
    EnqueueDone 'l
  | EnqueueAppend Record Result 'l
  | EnqueuePanic

definition enqueueCommand :: "Command \<Rightarrow> nat \<Rightarrow> 'z Loop_scheme \<Rightarrow> 'z Loop_scheme enqueued" where
  "enqueueCommand cmd reply l =
     (case lp_failedErr l of
        Some err \<Rightarrow> EnqueueDone (sendReply reply (Inl err) l)
      | None \<Rightarrow> (case lp_books l (cmd_Symbol cmd) of
            None \<Rightarrow> EnqueueDone (sendReply reply (Inr (invalidSymbolResult (cmd_Seq cmd) (cmd_OrderID cmd)))
                     (l\<lparr>lp_metrics := lp_metrics l @ [IncRejected]\<rparr>))
          | Some b \<Rightarrow> (case Apply b cmd of
                None \<Rightarrow> EnqueuePanic
              | Some (b', result) \<Rightarrow>
                  (let l' = l\<lparr>lp_books := (lp_books l)(cmd_Symbol cmd \<mapsto> b'), lp_applied := lp_applied l @ [cmd]\<rparr> in
                   if \<not> lp_hasWAL l then EnqueueDone (completeCommand (cmd_Seq cmd) result reply l')
                   else EnqueueAppend (logRecord (word_of_nat (lp_id l)) cmd result) result l'))))"

definition appendFailed :: "wal_err \<Rightarrow> nat \<Rightarrow> 'z Loop_scheme \<Rightarrow> 'z Loop_scheme" where
  "appendFailed err reply l = (let failed = LoopAppend (lp_id l) err in sendReply reply (Inl failed) (failPending failed l))"

definition appendLogged :: "Command \<Rightarrow> nat \<Rightarrow> Result \<Rightarrow> ack_chan \<Rightarrow> 'z Loop_scheme \<Rightarrow> 'z Loop_scheme" where
  "appendLogged cmd reply result ack l = l\<lparr>lp_pending := lp_pending l
     @ [\<lparr>pc_sequence = cmd_Seq cmd, pc_result = result, pc_reply = reply, pc_ack = ack\<rparr>]\<rparr>"

subsection \<open>The goroutine\<close>

text \<open>
  Where the goroutine is.  A barrier or a drain is given by the channel for its answer and, for a drain, the channel
  that releases it.
\<close>

datatype loopPoint =
    Selecting
  | Appending Command nat Result ack_chan
  | FlushSending nat "nat option"
  | FlushWaiting nat nat "nat option"
  | Completing nat "nat option"
  | Held nat
  | ShuttingDown
  | ShutdownWaiting nat
  | LoopEnded
  | LoopPanic

record shardProc = Loop +
  sp_point :: loopPoint
  sp_receiving :: bool
  sp_answers :: "(nat \<times> loop_err option) list"
  sp_wal :: wproc

definition maxPendingCommands :: nat where
  "maxPendingCommands = 1024"

definition canReceive :: "shardProc \<Rightarrow> bool" where
  "canReceive s \<longleftrightarrow> sp_point s = Selecting \<and> sp_receiving s \<and> length (lp_pending s) < maxPendingCommands"

definition receiveCommand :: "Command \<Rightarrow> nat \<Rightarrow> shardProc \<Rightarrow> shardProc" where
  "receiveCommand cmd reply s =
     (case enqueueCommand cmd reply (s\<lparr>lp_received := lp_received s @ [(cmd, reply)]\<rparr>) of
        EnqueueDone s' \<Rightarrow> s'
      | EnqueueAppend rec result s' \<Rightarrow> (case appendEnter rec (sp_wal s') of
            (Inl err, w) \<Rightarrow> appendFailed err reply (s'\<lparr>sp_wal := w\<rparr>)
          | (Inr c, w) \<Rightarrow> s'\<lparr>sp_wal := w, sp_point := Appending cmd reply result c\<rparr>)
      | EnqueuePanic \<Rightarrow> s\<lparr>lp_received := lp_received s @ [(cmd, reply)], sp_point := LoopPanic\<rparr>)"

text \<open>\<open>flushPending\<close> and its answer; after the answer to a drain the loop waits for the release.\<close>

definition answerFlush :: "nat \<Rightarrow> nat option \<Rightarrow> loop_err option \<Rightarrow> shardProc \<Rightarrow> shardProc" where
  "answerFlush ch release err s = s\<lparr>sp_answers := sp_answers s @ [(ch, err)],
     sp_point := (case release of None \<Rightarrow> Selecting | Some r \<Rightarrow> Held r)\<rparr>"

definition flushError :: "nat \<Rightarrow> nat option \<Rightarrow> loop_err \<Rightarrow> shardProc \<Rightarrow> shardProc" where
  "flushError ch release err s = answerFlush ch release (Some err) (failPending err s)"

text \<open>
  \<open>flushWAL\<close> up to the request of \<open>Flush\<close>: an error, or whether there is a request to send and an answer to wait for.
\<close>

definition flushWAL :: "shardProc \<Rightarrow> loop_err + bool" where
  "flushWAL s =
     (case lp_failedErr s of
        Some err \<Rightarrow> Inl err
      | None \<Rightarrow>
          if \<not> lp_hasWAL s then Inr False
          else (case flushEnter (sp_wal s) of Some err \<Rightarrow> Inl (LoopFlush (lp_id s) err) | None \<Rightarrow> Inr True))"

definition flushPending :: "nat \<Rightarrow> nat option \<Rightarrow> shardProc \<Rightarrow> shardProc" where
  "flushPending ch release s =
     (case flushWAL s of
        Inl err \<Rightarrow> flushError ch release err s
      | Inr request \<Rightarrow> s\<lparr>sp_point := if request then FlushSending ch release else Completing ch release\<rparr>)"

fun receiveMessage :: "Routed \<Rightarrow> shardProc \<Rightarrow> shardProc" where
  "receiveMessage (RoutedCommand cmd reply) s = receiveCommand cmd reply s"
| "receiveMessage (RoutedBarrier ch) s = flushPending ch None s"
| "receiveMessage (RoutedDrain ch release) s = flushPending ch (Some release) s"

definition nextAck :: "shardProc \<Rightarrow> wal_err option option" where
  "nextAck s = (case lp_pending s of [] \<Rightarrow> None | command # _ \<Rightarrow> map_of (wp_acks (sp_wal s)) (pc_ack command))"

text \<open>The deferred call of \<open>Shutdown\<close> has returned.\<close>

definition endLoop :: "wal_err option \<Rightarrow> shardProc \<Rightarrow> shardProc" where
  "endLoop err s = s\<lparr>sp_point := LoopEnded,
     lp_failedErr := (case err of Some e \<Rightarrow> if lp_failedErr s = None then Some (LoopShutdown (lp_id s) e) else lp_failedErr s
                      | None \<Rightarrow> lp_failedErr s)\<rparr>"

text \<open>
  The steps of the two goroutines between the points at which they wait for others; contexts with a deadline may
  end at any time.
\<close>

inductive shwork :: "shardProc \<Rightarrow> shardProc \<Rightarrow> bool" where
  sh_wal_start: "wp_phase (sp_wal s) = Starting \<Longrightarrow> shwork s (s\<lparr>sp_wal := exec runStart (sp_wal s)\<rparr>)"
| sh_wal_request: "wp_phase (sp_wal s) = Running \<Longrightarrow> wp_requests (sp_wal s) \<noteq> [] \<Longrightarrow> shwork s (s\<lparr>sp_wal := exec runRequest (sp_wal s)\<rparr>)"
| sh_wal_timer: "wp_phase (sp_wal s) = Running \<Longrightarrow> wp_timerArmed (sp_wal s) \<Longrightarrow> shwork s (s\<lparr>sp_wal := exec runTimer (sp_wal s)\<rparr>)"
| sh_append_sent: "sp_point s = Appending cmd reply result c \<Longrightarrow> roomInQueue (sp_wal s)
    \<Longrightarrow> shwork s (appendLogged cmd reply result c (s\<lparr>sp_wal := appendSend c (sp_wal s), sp_point := Selecting\<rparr>))"
| sh_append_closed: "sp_point s = Appending cmd reply result c \<Longrightarrow> wp_done (sp_wal s) \<Longrightarrow> appendClosed c (sp_wal s) = (err, w)
    \<Longrightarrow> shwork s (appendFailed err reply (s\<lparr>sp_wal := w, sp_point := Selecting\<rparr>))"
| sh_append_timeout: "sp_point s = Appending cmd reply result c \<Longrightarrow> appendCancel c (sp_wal s) = (err, w)
    \<Longrightarrow> shwork s (appendFailed err reply (s\<lparr>sp_wal := w, sp_point := Selecting\<rparr>))"
| sh_ack: "sp_point s = Selecting \<Longrightarrow> nextAck s = Some err \<Longrightarrow> shwork s (completeNext err s)"
| sh_flush_sent: "sp_point s = FlushSending ch release \<Longrightarrow> roomInQueue (sp_wal s) \<Longrightarrow> flushSend (sp_wal s) = (d, w)
    \<Longrightarrow> shwork s (s\<lparr>sp_wal := w, sp_point := FlushWaiting d ch release\<rparr>)"
| sh_flush_send_timeout: "sp_point s = FlushSending ch release \<Longrightarrow> shwork s (flushError ch release (LoopFlush (lp_id s) WalContext) s)"
| sh_flushed: "sp_point s = FlushWaiting d ch release \<Longrightarrow> flushReturn d (sp_wal s) = Some None
    \<Longrightarrow> shwork s (s\<lparr>sp_point := Completing ch release\<rparr>)"
| sh_flush_failed: "sp_point s = FlushWaiting d ch release \<Longrightarrow> flushReturn d (sp_wal s) = Some (Some err)
    \<Longrightarrow> shwork s (flushError ch release (LoopFlush (lp_id s) err) s)"
| sh_flush_timeout: "sp_point s = FlushWaiting d ch release \<Longrightarrow> shwork s (flushError ch release (LoopFlush (lp_id s) WalContext) s)"
| sh_complete: "sp_point s = Completing ch release \<Longrightarrow> nextAck s = Some err \<Longrightarrow> shwork s (completeNext err s)"
| sh_completed: "sp_point s = Completing ch release \<Longrightarrow> lp_pending s = [] \<Longrightarrow> shwork s (answerFlush ch release (lp_failedErr s) s)"
| sh_exit: "sp_point s = Selecting \<Longrightarrow> \<not> sp_receiving s \<Longrightarrow> lp_pending s = []
    \<Longrightarrow> shwork s (s\<lparr>sp_point := if lp_hasWAL s then ShuttingDown else LoopEnded\<rparr>)"
| sh_shutdown_sent: "sp_point s = ShuttingDown \<Longrightarrow> wp_callers (sp_wal s) = [] \<Longrightarrow> \<not> wp_closed (sp_wal s) \<Longrightarrow> roomInQueue (sp_wal s)
    \<Longrightarrow> shwork s (s\<lparr>sp_wal := shutdownSend (sp_wal s), sp_point := ShutdownWaiting (wp_nextChan (sp_wal s))\<rparr>)"
| sh_shutdown_done: "sp_point s = ShuttingDown \<Longrightarrow> wp_callers (sp_wal s) = [] \<Longrightarrow> \<not> wp_closed (sp_wal s) \<Longrightarrow> wp_done (sp_wal s)
    \<Longrightarrow> shwork s (endLoop (wp_failedErr (sp_wal s)) (s\<lparr>sp_wal := snd (markClosed (sp_wal s))\<rparr>))"
| sh_shutdown_timeout: "sp_point s = ShuttingDown \<Longrightarrow> wp_callers (sp_wal s) = [] \<Longrightarrow> \<not> wp_closed (sp_wal s)
    \<Longrightarrow> shwork s (endLoop (Some WalContext) (s\<lparr>sp_wal := shutdownCancel (sp_wal s)\<rparr>))"
| sh_shutdown_returned: "sp_point s = ShutdownWaiting d \<Longrightarrow> flushReturn d (sp_wal s) = Some err \<Longrightarrow> shwork s (endLoop err s)"
| sh_shutdown_wait_timeout: "sp_point s = ShutdownWaiting d \<Longrightarrow> shwork s (endLoop (Some WalContext) s)"

text \<open>
  The shard in its surroundings: messages come from the inbox in any order and number, the inbox may be closed, and a
  drain is released.
\<close>

inductive shstep :: "shardProc \<Rightarrow> shardProc \<Rightarrow> bool" where
  sh_work: "shwork s t \<Longrightarrow> shstep s t"
| sh_receive: "canReceive s \<Longrightarrow> shstep s (receiveMessage m s)"
| sh_inbox_closed: "canReceive s \<Longrightarrow> shstep s (s\<lparr>sp_receiving := False\<rparr>)"
| sh_release: "sp_point s = Held release \<Longrightarrow> shstep s (s\<lparr>sp_point := Selecting\<rparr>)"

text \<open>A loop at its start, beside a writer; the engine sets the watermark after \<open>newLoop\<close>.\<close>

definition startLoop :: "Loop \<Rightarrow> uint64 \<Rightarrow> wproc \<Rightarrow> shardProc" where
  "startLoop l watermark w = Loop.extend (l\<lparr>lp_lastAppliedSeq := watermark\<rparr>)
     \<lparr>sp_point = Selecting, sp_receiving = True, sp_answers = [], sp_wal = w\<rparr>"

end
