(* ===== verification/Shard_Safety.thy ===== *)
theory Shard_Safety
  imports Shard_Loop
begin

text \<open>
  What a shard promises: a result that was sent to a caller is in the log and survives every crash; the
  books are those after the commands of the log; a shard that has answered a drain without an
  error has no command outside the log; every command is answered once.
\<close>

subsection \<open>Serving commands one by one\<close>

lemma serve_append:
  "serve shard books cs = Some (books1, recs) \<Longrightarrow> serve shard books1 ds = Some (books2, recs2)
   \<Longrightarrow> serve shard books (cs @ ds) = Some (books2, recs @ recs2)"
proof (induction cs arbitrary: books recs)
  case (Cons c cs)
  show ?case
  proof (cases "books (cmd_Symbol c)")
    case (Some b)
    then obtain b' r recs' where a: "Apply b c = Some (b', r)" "serve shard (books(cmd_Symbol c \<mapsto> b')) cs = Some (books1, recs')"
      "recs = logRecord shard c r # recs'"
      using Cons.prems by (auto simp: Option.bind_eq_Some_conv split: prod.splits)
    define booksc where "booksc = books(cmd_Symbol c \<mapsto> b')"
    have "serve shard booksc (cs @ ds) = Some (books2, recs' @ recs2)" using Cons a(2) by (simp only: booksc_def)
    then show ?thesis using Some a(1,3) by (simp add: booksc_def)
  qed (use Cons in simp)
qed simp

lemma serve_dom: "serve shard books cs = Some (books', recs) \<Longrightarrow> dom books' = dom books"
proof (induction cs arbitrary: books recs)
  case (Cons c cs)
  show ?case
  proof (cases "books (cmd_Symbol c)")
    case (Some b)
    then obtain b' r recs' where "Apply b c = Some (b', r)" "serve shard (books(cmd_Symbol c \<mapsto> b')) cs = Some (books', recs')"
      using Cons.prems by (auto simp: Option.bind_eq_Some_conv split: prod.splits)
    moreover define books1 where "books1 = books(cmd_Symbol c \<mapsto> b')"
    ultimately have "dom books' = dom books1" using Cons.IH by blast
    then show ?thesis using Some by (auto simp: books1_def)
  qed (use Cons in simp)
qed simp

lemma serve_step:
  assumes "serve shard books cs = Some (books1, recs)" and "books1 (cmd_Symbol c) = Some b" and "Apply b c = Some (b', r)"
  shows "serve shard books (cs @ [c]) = Some (books1(cmd_Symbol c \<mapsto> b'), recs @ [logRecord shard c r])"
  using serve_append [OF assms(1), of "[c]"] assms(2,3) by simp

subsection \<open>Answers of the writer are never taken back\<close>

definition growsAcks :: "'a wio \<Rightarrow> bool" where
  "growsAcks m \<longleftrightarrow> (\<forall>p. prefix (wp_acks p) (wp_acks (snd (m p))))"

lemma growsAcks_keeps: "keeps wp_acks m \<Longrightarrow> growsAcks m"
  by (simp add: growsAcks_def keeps_def)

lemma growsAcks_modify: "(\<And>p. prefix (wp_acks p) (wp_acks (f p))) \<Longrightarrow> growsAcks (modify f)"
  by (simp add: growsAcks_def modify_def)

lemma growsAcks_basic: "growsAcks (ret x)" "growsAcks (gets g)"
  by (simp_all add: growsAcks_def ret_def gets_def)

lemma growsAcks_andThen:
  assumes "growsAcks m" and "\<And>x. growsAcks (f x)"
  shows "growsAcks (andThen m f)"
  unfolding growsAcks_def
proof
  fix p
  obtain r q where q: "m p = (r, q)" by (cases "m p")
  have "prefix (wp_acks p) (wp_acks q)" using assms(1) q by (metis growsAcks_def snd_conv)
  moreover have "prefix (wp_acks q) (wp_acks (snd (f x q)))" for x using assms(2) by (simp add: growsAcks_def)
  ultimately show "prefix (wp_acks p) (wp_acks (snd (andThen m f p)))"
    using q by (cases r) (auto simp: andThen_def intro: prefix_order.trans)
qed

lemma keeps_acks:
  assumes "keepsMore m"
  shows "keeps wp_acks m"
  unfolding keeps_def using assms same_more(6) by (metis keeps_def)

lemma rejectRemaining_acks: "prefix (wp_acks p) (wp_acks (rejectRemaining err p))"
proof -
  have "prefix (wp_acks q) (wp_acks (fold (rejectRequest err) reqs q))" for reqs q
  proof (induction reqs arbitrary: q)
    case (Cons r rs)
    have "prefix (wp_acks q) (wp_acks (rejectRequest err r q))" by (cases r) (simp_all add: sendAcks_def closeDone_def)
    then show ?case using Cons.IH by (auto intro: prefix_order.trans)
  qed simp
  from this [of "p\<lparr>wp_requests := []\<rparr>" "wp_requests p"] show ?thesis by (simp add: rejectRemaining_def)
qed

lemma setTerminalError_acks [simp]: "wp_acks (setTerminalError e p) = wp_acks p"
  by (simp add: setTerminalError_def)

lemma growsAcks_flush: "growsAcks flush"
proof -
  have "prefix (wp_acks p) (wp_acks (flushFailed e p))" for e p
    using rejectRemaining_acks [of "sendAcks (Some e) (wp_pendingAcks p) (setTerminalError e p)" e]
    by (auto simp: flushFailed_def sendAcks_def dest: append_prefixD)
  moreover have "prefix (wp_acks p) (wp_acks (flushDone p))" for p by (simp add: flushDone_def sendAcks_def)
  ultimately show ?thesis unfolding flush_def
    by (auto intro!: growsAcks_andThen growsAcks_basic growsAcks_modify growsAcks_keeps [OF keeps_attempt [OF keeps_acks [OF keepsMore_writeBatch]]]
        split: sum.split)
qed

lemma growsAcks_handleRequest: "growsAcks (handleRequest req)"
  by (cases req)
    (auto intro!: growsAcks_andThen growsAcks_basic growsAcks_modify growsAcks_flush simp: sendAcks_def closeDone_def split: sum.split)

lemma growsAcks_endIteration: "growsAcks (endIteration ok)"
  unfolding endIteration_def stopLoop_def
  by (auto intro!: growsAcks_andThen growsAcks_basic growsAcks_modify growsAcks_keeps [OF keeps_acks [OF keepsMore_closeCurrent]])

lemma growsAcks_run: "growsAcks runStart" "growsAcks runRequest" "growsAcks runTimer"
proof -
  have "prefix (wp_acks p) (wp_acks ((rejectRemaining e (setTerminalError e p))\<lparr>wp_done := True, wp_phase := Stopped\<rparr>))" for e p
    using rejectRemaining_acks [of "setTerminalError e p" e] by simp
  then show "growsAcks runStart" unfolding runStart_def
    by (auto intro!: growsAcks_andThen growsAcks_basic growsAcks_modify growsAcks_keeps [OF keeps_attempt [OF keeps_acks [OF keepsMore_openNextSegment]]]
        split: sum.split)
  show "growsAcks runRequest" unfolding runRequest_def
    by (auto intro!: growsAcks_andThen growsAcks_basic growsAcks_modify growsAcks_handleRequest growsAcks_endIteration split: list.split)
  show "growsAcks runTimer" unfolding runTimer_def by (intro growsAcks_andThen growsAcks_flush growsAcks_endIteration)
qed

lemma exec_acks: "growsAcks m \<Longrightarrow> prefix (wp_acks p) (wp_acks (exec m p))"
  unfolding growsAcks_def exec_def by (auto split: prod.splits io_res.splits) (metis snd_conv)+

text \<open>A step of the goroutine of the writer, seen by its callers.\<close>

lemma exec_callers:
  assumes "keeps callState m"
  shows "wp_appended (exec m p) = wp_appended p" "wp_callers (exec m p) = wp_callers p"
  using exec_calls [OF assms, of p] by (simp_all add: callState_def)

subsection \<open>The invariant\<close>

fun handChans :: "loopPoint \<Rightarrow> ack_chan list" where
  "handChans (Appending cmd reply result c) = [c]"
| "handChans _ = []"

fun handReplies :: "loopPoint \<Rightarrow> nat list" where
  "handReplies (Appending cmd reply result c) = [reply]"
| "handReplies _ = []"

text \<open>The points at which there is no pending command.\<close>

fun quiet :: "loopPoint \<Rightarrow> bool" where
  "quiet (Held release) = True"
| "quiet ShuttingDown = True"
| "quiet (ShutdownWaiting d) = True"
| "quiet LoopEnded = True"
| "quiet _ = False"

text \<open>The books have served the commands applied; their records are the append requests, while there is no failure.\<close>

definition served :: "books \<Rightarrow> shardProc \<Rightarrow> bool" where
  "served books0 s \<longleftrightarrow> (\<forall>c\<in>set (lp_applied s). cmd_Symbol c \<in> dom books0) \<and> (\<exists>recs. serve (word_of_nat (lp_id s)) books0 (lp_applied s) = Some (lp_books s, recs)
     \<and> (if lp_failedErr s = None then recs = map snd (wp_appended (sp_wal s) @ handChans (sp_point s))
         else prefix (map snd (wp_appended (sp_wal s))) recs))"

text \<open>The requests that were completed have been acknowledged; the others are pending, in order.\<close>

definition watermark :: "uint64 \<Rightarrow> ack_chan list \<Rightarrow> uint64" where
  "watermark m0 ds = (if ds = [] then m0 else rec_CommandSeq (snd (last ds)))"

definition completed :: "uint64 \<Rightarrow> shardProc \<Rightarrow> bool" where
  "completed m0 s \<longleftrightarrow> (\<exists>ds. wp_appended (sp_wal s) = ds @ map pc_ack (lp_pending s) \<and> (\<forall>c\<in>set ds. (c, None) \<in> set (wp_acks (sp_wal s)))
     \<and> lp_lastAppliedSeq s = watermark m0 ds)"

definition pendingFor :: "shardProc \<Rightarrow> Command \<Rightarrow> nat \<Rightarrow> Result \<Rightarrow> ack_chan \<Rightarrow> bool" where
  "pendingFor s cmd reply result c \<longleftrightarrow> (cmd, reply) \<in> set (lp_received s) \<and> snd c = logRecord (word_of_nat (lp_id s)) cmd result"

definition waiting :: "shardProc \<Rightarrow> bool" where
  "waiting s \<longleftrightarrow> (\<forall>pc\<in>set (lp_pending s). \<exists>cmd. pendingFor s cmd (pc_reply pc) (pc_result pc) (pc_ack pc) \<and> pc_sequence pc = cmd_Seq cmd)
     \<and> (case sp_point s of Appending cmd reply result c \<Rightarrow> pendingFor s cmd reply result c | _ \<Rightarrow> True)"

text \<open>A result that was sent: the rejection of an unknown symbol, or one whose record is acknowledged.\<close>

definition justified :: "books \<Rightarrow> shardProc \<Rightarrow> nat \<Rightarrow> Result \<Rightarrow> bool" where
  "justified books0 s reply result \<longleftrightarrow> (\<exists>cmd. (cmd, reply) \<in> set (lp_received s)
     \<and> (books0 (cmd_Symbol cmd) = None \<and> result = invalidSymbolResult (cmd_Seq cmd) (cmd_OrderID cmd)
        \<or> (\<exists>c. (c, None) \<in> set (wp_acks (sp_wal s)) \<and> snd c = logRecord (word_of_nat (lp_id s)) cmd result)))"

definition repliesOk :: "books \<Rightarrow> shardProc \<Rightarrow> bool" where
  "repliesOk books0 s \<longleftrightarrow> (\<forall>reply result. (reply, Inr result) \<in> set (lp_replies s) \<longrightarrow> justified books0 s reply result)"

definition repliedOnce :: "shardProc \<Rightarrow> bool" where
  "repliedOnce s \<longleftrightarrow> mset (map snd (lp_received s))
     = mset (map fst (lp_replies s)) + mset (map pc_reply (lp_pending s)) + mset (handReplies (sp_point s))"

definition shinv :: "nat \<Rightarrow> books \<Rightarrow> uint64 \<Rightarrow> shardProc \<Rightarrow> bool" where
  "shinv k books0 m0 s \<longleftrightarrow> lp_id s = k \<and> lp_hasWAL s \<and> (\<exists>A. books_rep (lp_books s) A) \<and> sp_point s \<noteq> LoopPanic \<and> wp_callers (sp_wal s) = handChans (sp_point s)
     \<and> (quiet (sp_point s) \<longrightarrow> lp_pending s = []) \<and> (lp_failedErr s \<noteq> None \<longrightarrow> lp_pending s = [] \<and> handChans (sp_point s) = [])
     \<and> (lp_failedErr s = None \<longrightarrow> completed m0 s) \<and> served books0 s \<and> waiting s \<and> repliesOk books0 s \<and> repliedOnce s"

lemmas shinv_defs = shinv_def served_def completed_def waiting_def pendingFor_def repliesOk_def justified_def repliedOnce_def

subsection \<open>The operations keep the invariant\<close>

text \<open>The writer has moved on.\<close>

lemma shinv_wal:
  assumes "shinv k books0 m0 s" and "wp_appended w = wp_appended (sp_wal s)" and "wp_callers w = wp_callers (sp_wal s)"
    and "prefix (wp_acks (sp_wal s)) (wp_acks w)"
  shows "shinv k books0 m0 (s\<lparr>sp_wal := w\<rparr>)"
proof -
  have "set (wp_acks (sp_wal s)) \<subseteq> set (wp_acks w)" using assms(4) by (rule set_mono_prefix)
  then have "completed m0 s \<Longrightarrow> completed m0 (s\<lparr>sp_wal := w\<rparr>)" "justified books0 s r x \<Longrightarrow> justified books0 (s\<lparr>sp_wal := w\<rparr>) r x" for r x
    using assms(2) by (auto simp: completed_def justified_def)
  then show ?thesis using assms(1-3)
    by (auto simp: shinv_def served_def waiting_def pendingFor_def repliesOk_def repliedOnce_def split: loopPoint.splits)
qed

text \<open>A move from one point to another without a command in hand.\<close>

lemma shinv_point:
  assumes "shinv k books0 m0 s" and "handChans (sp_point s) = []" and "handReplies (sp_point s) = []"
    and "handChans pt = []" and "handReplies pt = []" and "pt \<noteq> LoopPanic"
    and "quiet pt \<longrightarrow> lp_pending s = []"
  shows "shinv k books0 m0 (s\<lparr>sp_point := pt\<rparr>)"
  using assms by (cases pt) (auto simp: shinv_defs)

lemma shinv_fail:
  assumes "shinv k books0 m0 s" and "handChans (sp_point s) = []"
  shows "shinv k books0 m0 (failPending e s)"
proof -
  have "served books0 (failPending e s)" using assms by (auto simp: shinv_def served_def failPending_def split: if_splits)
  then show ?thesis using assms by (auto simp: shinv_def waiting_def pendingFor_def repliesOk_def justified_def repliedOnce_def failPending_def o_def split: loopPoint.splits)
qed

lemma shinv_answers [simp]: "shinv k books0 m0 (s\<lparr>sp_answers := as\<rparr>) = shinv k books0 m0 s" "shinv k books0 m0 (s\<lparr>sp_receiving := r\<rparr>) = shinv k books0 m0 s"
proof -
  have "completed m0 (s\<lparr>sp_answers := as\<rparr>) = completed m0 s" "served books0 (s\<lparr>sp_answers := as\<rparr>) = served books0 s"
    "pendingFor (s\<lparr>sp_answers := as\<rparr>) = pendingFor s" "justified books0 (s\<lparr>sp_answers := as\<rparr>) = justified books0 s"
    "completed m0 (s\<lparr>sp_receiving := r\<rparr>) = completed m0 s" "served books0 (s\<lparr>sp_receiving := r\<rparr>) = served books0 s"
    "pendingFor (s\<lparr>sp_receiving := r\<rparr>) = pendingFor s" "justified books0 (s\<lparr>sp_receiving := r\<rparr>) = justified books0 s"
    by (simp_all add: completed_def served_def fun_eq_iff pendingFor_def justified_def)
  then show "shinv k books0 m0 (s\<lparr>sp_answers := as\<rparr>) = shinv k books0 m0 s" "shinv k books0 m0 (s\<lparr>sp_receiving := r\<rparr>) = shinv k books0 m0 s"
    by (cases "sp_point s"; simp add: shinv_def waiting_def repliesOk_def repliedOnce_def)+
qed

lemma shinv_answer:
  assumes "shinv k books0 m0 s" and "handChans (sp_point s) = []" and "handReplies (sp_point s) = []" and "lp_pending s = []"
  shows "shinv k books0 m0 (answerFlush ch release e s)"
  unfolding answerFlush_def
  by (rule shinv_point [of k books0 m0 "s\<lparr>sp_answers := sp_answers s @ [(ch, e)]\<rparr>" "case release of None \<Rightarrow> Selecting | Some r \<Rightarrow> Held r", simplified])
    (use assms in \<open>auto split: option.splits\<close>)

lemma shinv_flushError:
  assumes "shinv k books0 m0 s" and "handChans (sp_point s) = []" and "handReplies (sp_point s) = []"
  shows "shinv k books0 m0 (flushError ch release e s)"
  unfolding flushError_def by (rule shinv_answer [OF shinv_fail [OF assms(1,2)]]) (use assms in \<open>simp_all add: failPending_def\<close>)

lemma shinv_flushPending:
  assumes "shinv k books0 m0 s" and "sp_point s = Selecting"
  shows "shinv k books0 m0 (flushPending ch release s)"
  using shinv_flushError [OF assms(1)] shinv_point [OF assms(1)] assms(2)
  by (auto simp: flushPending_def flushWAL_def split: option.split)

text \<open>A command whose record could not be sent to the writer.\<close>

lemma shinv_appendFailed:
  assumes "shinv k books0 m0 s" and "sp_point s = Appending cmd reply result c"
    and "wp_appended w = wp_appended (sp_wal s)" and "wp_callers w = []" and "wp_acks w = wp_acks (sp_wal s)"
  shows "shinv k books0 m0 (appendFailed e reply (s\<lparr>sp_wal := w, sp_point := Selecting\<rparr>))"
proof -
  have "lp_failedErr s = None" using assms(1,2) by (auto simp: shinv_def)
  then have "served books0 (appendFailed e reply (s\<lparr>sp_wal := w, sp_point := Selecting\<rparr>))"
    using assms by (auto simp: shinv_def served_def appendFailed_def failPending_def sendReply_def Let_def)
  then show ?thesis using assms
    by (auto simp: shinv_def waiting_def pendingFor_def repliesOk_def justified_def repliedOnce_def appendFailed_def failPending_def sendReply_def Let_def o_def)
qed

lemma shinv_appendLogged:
  assumes "shinv k books0 m0 s" and "sp_point s = Appending cmd reply result c"
  shows "shinv k books0 m0 (appendLogged cmd reply result c (s\<lparr>sp_wal := appendSend c (sp_wal s), sp_point := Selecting\<rparr>))"
proof -
  let ?t = "appendLogged cmd reply result c (s\<lparr>sp_wal := appendSend c (sp_wal s), sp_point := Selecting\<rparr>)"
  have f: "lp_failedErr s = None" "wp_callers (sp_wal s) = [c]" using assms by (auto simp: shinv_def)
  have "completed m0 ?t" using assms f by (auto simp: shinv_def completed_def appendLogged_def appendSend_def)
  moreover have "served books0 ?t" using assms f by (auto simp: shinv_def served_def appendLogged_def appendSend_def)
  moreover have "waiting ?t" using assms by (auto simp: shinv_def waiting_def pendingFor_def appendLogged_def logRecord_def)
  ultimately show ?thesis using assms f
    by (auto simp: shinv_def repliesOk_def justified_def repliedOnce_def appendLogged_def appendSend_def)
qed

text \<open>The first pending command is acknowledged, or the writer has answered with an error.\<close>

lemma shinv_completed:
  assumes "shinv k books0 m0 s" and "handChans (sp_point s) = []" and "nextAck s = Some None"
  shows "shinv k books0 m0 (completeNext None s)"
proof -
  obtain pc pcs where p: "lp_pending s = pc # pcs" "(pc_ack pc, None) \<in> set (wp_acks (sp_wal s))"
    using assms(3) by (auto simp: nextAck_def dest: map_of_SomeD split: list.splits)
  let ?t = "completeNext None s"
  have f: "lp_failedErr s = None" using assms(1) p(1) by (auto simp: shinv_def)
  obtain ds where ds: "wp_appended (sp_wal s) = ds @ map pc_ack (pc # pcs)" "\<forall>c\<in>set ds. (c, None) \<in> set (wp_acks (sp_wal s))"
    using assms(1) f p(1) by (auto simp: shinv_def completed_def)
  obtain cmd where cmd: "(cmd, pc_reply pc) \<in> set (lp_received s)" "snd (pc_ack pc) = logRecord (word_of_nat (lp_id s)) cmd (pc_result pc)"
    "pc_sequence pc = cmd_Seq cmd" using assms(1) p(1) by (auto simp: shinv_def waiting_def pendingFor_def)
  have "completed m0 ?t"
    unfolding completed_def using ds p cmd
    by (intro exI [of _ "ds @ [pc_ack pc]"]) (auto simp: completeNext_def completeCommand_def sendReply_def watermark_def logRecord_def)
  moreover have "served books0 ?t"
    using assms(1) p(1) by (auto simp: shinv_def served_def completeNext_def completeCommand_def sendReply_def)
  moreover have "waiting ?t"
    using assms(1) p(1) by (auto simp: shinv_def waiting_def pendingFor_def completeNext_def completeCommand_def sendReply_def split: loopPoint.splits)
  moreover have "justified books0 s (pc_reply pc) (pc_result pc)" unfolding justified_def using cmd(1,2) p(2) by blast
  then have "repliesOk books0 ?t" using assms(1) p(1)
    by (auto simp: shinv_def repliesOk_def justified_def completeNext_def completeCommand_def sendReply_def)
  ultimately show ?thesis using assms(1) p(1) f
    by (auto simp: shinv_def repliedOnce_def completeNext_def completeCommand_def sendReply_def)
qed

lemma shinv_rejected:
  assumes "shinv k books0 m0 s" and "handChans (sp_point s) = []"
  shows "shinv k books0 m0 (completeNext (Some e) s)"
proof (cases "lp_pending s")
  case Nil
  then show ?thesis using assms by (simp add: completeNext_def)
next
  case (Cons pc pcs)
  have "completeNext (Some e) s = failPending (LoopAppend (lp_id s) e) s"
    using Cons by (simp add: completeNext_def failPending_def sendReply_def Let_def)
  then show ?thesis using shinv_fail [OF assms] by simp
qed

subsection \<open>Receiving a command\<close>

lemma justified_received:
  "justified books0 s r x \<Longrightarrow> lp_received t = lp_received s @ ms \<Longrightarrow> lp_id t = lp_id s \<Longrightarrow> sp_wal t = sp_wal s \<Longrightarrow> justified books0 t r x"
  by (auto simp: justified_def)

lemma shinv_refuse:
  assumes "shinv k books0 m0 s" and "sp_point s = Selecting" and "\<And>result. out = Inr result \<Longrightarrow> books0 (cmd_Symbol cmd) = None
      \<and> result = invalidSymbolResult (cmd_Seq cmd) (cmd_OrderID cmd)"
  shows "shinv k books0 m0 (sendReply reply out (s\<lparr>lp_received := lp_received s @ [(cmd, reply)], lp_metrics := ms\<rparr>))"
proof -
  let ?t = "sendReply reply out (s\<lparr>lp_received := lp_received s @ [(cmd, reply)], lp_metrics := ms\<rparr>)"
  have "justified books0 ?t r x" if "(r, Inr x) \<in> set (lp_replies ?t)" for r x
  proof (cases "(r, Inr x) \<in> set (lp_replies s)")
    case True
    then have "justified books0 s r x" using assms(1) by (simp add: shinv_def repliesOk_def)
    then show ?thesis by (rule justified_received) (simp_all add: sendReply_def)
  next
    case False
    then have "r = reply" "out = Inr x" using that by (auto simp: sendReply_def)
    then show ?thesis using assms(3) by (auto simp: justified_def sendReply_def)
  qed
  then have "repliesOk books0 ?t" by (simp add: repliesOk_def)
  moreover have "completed m0 s \<Longrightarrow> completed m0 ?t" by (auto simp: completed_def sendReply_def)
  moreover have "served books0 ?t = served books0 s" by (simp add: served_def sendReply_def)
  moreover have "waiting ?t" using assms(1,2) by (fastforce simp: shinv_def waiting_def pendingFor_def sendReply_def)
  ultimately show ?thesis using assms(1) by (simp add: shinv_def repliedOnce_def sendReply_def)
qed

text \<open>The state in which the book has applied a command that is not in the log yet.\<close>

lemma served_step:
  assumes "shinv k books0 m0 s" and "lp_failedErr s = None" and "lp_books s (cmd_Symbol cmd) = Some b" and "Apply b cmd = Some (b', result)"
    and "handChans (sp_point s) = []"
  shows "serve (word_of_nat k) books0 (lp_applied s @ [cmd]) = Some ((lp_books s)(cmd_Symbol cmd \<mapsto> b'),
    map snd (wp_appended (sp_wal s)) @ [logRecord (word_of_nat k) cmd result])"
  using assms serve_step [of "word_of_nat k" books0 "lp_applied s" "lp_books s"] by (auto simp: shinv_def served_def)

lemma known_step:
  assumes "shinv k books0 m0 s" and "lp_books s (cmd_Symbol cmd) = Some b"
  shows "\<forall>c\<in>set (lp_applied s @ [cmd]). cmd_Symbol c \<in> dom books0"
proof -
  obtain recs where "serve (word_of_nat (lp_id s)) books0 (lp_applied s) = Some (lp_books s, recs)"
    "\<forall>c\<in>set (lp_applied s). cmd_Symbol c \<in> dom books0" using assms(1) by (auto simp: shinv_def served_def)
  then show ?thesis using serve_dom assms(2) by fastforce
qed

lemma books_rep_applied:
  assumes "shinv k books0 m0 s" and "lp_books s (cmd_Symbol cmd) = Some b" and "Apply b cmd = Some (b', result)"
  shows "\<exists>A. books_rep ((lp_books s)(cmd_Symbol cmd \<mapsto> b')) A"
proof -
  obtain A where "books_rep (lp_books s) A" using assms(1) by (auto simp: shinv_def)
  from books_rep_step [OF this assms(2)] assms(3) show ?thesis by auto
qed

lemma shinv_entered:
  assumes "shinv k books0 m0 s" and "sp_point s = Selecting" and "lp_failedErr s = None"
    and "lp_books s (cmd_Symbol cmd) = Some b" and "Apply b cmd = Some (b', result)"
    and "appendEnter (logRecord (word_of_nat k) cmd result) (sp_wal s) = (Inr c, w)"
  shows "shinv k books0 m0 (s\<lparr>lp_received := lp_received s @ [(cmd, reply)], lp_books := (lp_books s)(cmd_Symbol cmd \<mapsto> b'),
    lp_applied := lp_applied s @ [cmd], sp_wal := w, sp_point := Appending cmd reply result c\<rparr>)" (is "shinv k books0 m0 ?t")
proof -
  have c: "snd c = logRecord (word_of_nat k) cmd result" "wp_callers w = wp_callers (sp_wal s) @ [c]"
    "wp_appended w = wp_appended (sp_wal s)" "wp_acks w = wp_acks (sp_wal s)"
    using assms(6) by (auto simp: appendEnter_def Let_def split: option.splits if_splits)
  have "handChans (sp_point s) = []" using assms(2) by simp
  have k: "lp_id s = k" using assms(1) by (simp add: shinv_def)
  have "served books0 ?t" using served_step [OF assms(1,3-5)] known_step [OF assms(1,4)] assms(2,3) c(1,3) k by (simp add: served_def)
  moreover have "completed m0 ?t" using assms(1,3) c by (auto simp: shinv_def completed_def)
  moreover have "waiting ?t" using assms(1,2) c(1) k by (fastforce simp: shinv_def waiting_def pendingFor_def)
  moreover have "justified books0 ?t r x" if "justified books0 s r x" for r x using that c(4) by (auto simp: justified_def)
  then have "repliesOk books0 ?t" using assms(1) by (auto simp: shinv_def repliesOk_def)
  ultimately show ?thesis using assms(1-3) c(2) books_rep_applied [OF assms(1,4,5)] by (auto simp: shinv_def repliedOnce_def)
qed

lemma shinv_notEntered:
  assumes "shinv k books0 m0 s" and "sp_point s = Selecting" and "lp_failedErr s = None"
    and "lp_books s (cmd_Symbol cmd) = Some b" and "Apply b cmd = Some (b', result)"
  shows "shinv k books0 m0 (appendFailed e reply (s\<lparr>lp_received := lp_received s @ [(cmd, reply)],
    lp_books := (lp_books s)(cmd_Symbol cmd \<mapsto> b'), lp_applied := lp_applied s @ [cmd]\<rparr>))" (is "shinv k books0 m0 ?t")
proof -
  have k: "lp_id s = k" using assms(1) by (simp add: shinv_def)
  have "served books0 ?t" using served_step [OF assms(1,3-5)] known_step [OF assms(1,4)] assms(2) k
    by (simp add: served_def appendFailed_def sendReply_def failPending_def Let_def)
  moreover have "waiting ?t" using assms(2) by (simp add: waiting_def appendFailed_def sendReply_def failPending_def Let_def)
  moreover have "justified books0 ?t r x" if "justified books0 s r x" for r x
    using that by (auto simp: justified_def appendFailed_def sendReply_def failPending_def Let_def)
  then have "repliesOk books0 ?t" using assms(1)
    by (auto simp: shinv_def repliesOk_def appendFailed_def sendReply_def failPending_def Let_def)
  ultimately show ?thesis using assms(1,2) books_rep_applied [OF assms(1,4,5)]
    by (auto simp: shinv_def repliedOnce_def appendFailed_def sendReply_def failPending_def Let_def o_def)
qed

lemma shinv_receiveCommand:
  assumes "shinv k books0 m0 s" and "sp_point s = Selecting"
  shows "shinv k books0 m0 (receiveCommand cmd reply s)"
proof (cases "lp_failedErr s")
  case (Some e)
  then show ?thesis using shinv_refuse [OF assms, of "Inl e" cmd reply "lp_metrics s"] by (simp add: receiveCommand_def enqueueCommand_def)
next
  case None
  obtain recs where "serve (word_of_nat (lp_id s)) books0 (lp_applied s) = Some (lp_books s, recs)"
    using assms(1) by (auto simp: shinv_def served_def)
  then have dom: "dom (lp_books s) = dom books0" by (rule serve_dom)
  show ?thesis
  proof (cases "lp_books s (cmd_Symbol cmd)")
    case unknown: None
    then have "books0 (cmd_Symbol cmd) = None" using dom by (metis domIff)
    then show ?thesis using shinv_refuse [OF assms, of "Inr (invalidSymbolResult (cmd_Seq cmd) (cmd_OrderID cmd))" cmd reply
        "lp_metrics s @ [IncRejected]"] None unknown
      by (simp add: receiveCommand_def enqueueCommand_def)
  next
    case (Some b)
    obtain A where "books_rep (lp_books s) A" using assms(1) by (auto simp: shinv_def)
    from books_rep_step [OF this Some] obtain b' result where a: "Apply b cmd = Some (b', result)" by blast
    have w: "lp_hasWAL s" "lp_id s = k" using assms(1) by (simp_all add: shinv_def)
    obtain r w where e: "appendEnter (logRecord (word_of_nat k) cmd result) (sp_wal s) = (r, w)" by fastforce
    show ?thesis
    proof (cases r)
      case (Inl err)
      then have "w = sp_wal s" using e by (auto simp: appendEnter_def Let_def split: option.splits if_splits)
      then show ?thesis using shinv_notEntered [OF assms None Some a, of err reply] None Some a w e Inl
        by (simp add: receiveCommand_def enqueueCommand_def Let_def)
    next
      case (Inr c)
      then show ?thesis using shinv_entered [OF assms None Some a, of c w reply] None Some a w e
        by (simp add: receiveCommand_def enqueueCommand_def Let_def)
    qed
  qed
qed

lemma shinv_receive:
  assumes "shinv k books0 m0 s" and "sp_point s = Selecting"
  shows "shinv k books0 m0 (receiveMessage m s)"
  using shinv_receiveCommand [OF assms] shinv_flushPending [OF assms] by (cases m) simp_all

lemma endLoop_fields [simp]:
  "lp_id (endLoop e s) = lp_id s" "lp_hasWAL (endLoop e s) = lp_hasWAL s" "lp_books (endLoop e s) = lp_books s"
  "lp_pending (endLoop e s) = lp_pending s" "lp_replies (endLoop e s) = lp_replies s" "lp_received (endLoop e s) = lp_received s"
  "lp_applied (endLoop e s) = lp_applied s" "sp_wal (endLoop e s) = sp_wal s" "sp_point (endLoop e s) = LoopEnded"
  "lp_lastAppliedSeq (endLoop e s) = lp_lastAppliedSeq s"
  by (simp_all add: endLoop_def)

lemma shinv_endLoop:
  assumes "shinv k books0 m0 s" and "handChans (sp_point s) = []" and "handReplies (sp_point s) = []" and "lp_pending s = []"
  shows "shinv k books0 m0 (endLoop e s)"
proof -
  have f: "lp_failedErr s \<noteq> None \<Longrightarrow> lp_failedErr (endLoop e s) \<noteq> None" by (auto simp: endLoop_def split: option.split)
  then have "served books0 (endLoop e s)" using assms(1,2)
    by (cases "lp_failedErr s"; cases "lp_failedErr (endLoop e s)") (auto simp: shinv_def served_def)
  moreover have "completed m0 s \<Longrightarrow> completed m0 (endLoop e s)" by (simp add: completed_def)
  moreover have "justified books0 (endLoop e s) = justified books0 s" by (simp add: fun_eq_iff justified_def)
  ultimately show ?thesis using assms f by (auto simp: shinv_def waiting_def repliesOk_def repliedOnce_def)
qed

subsection \<open>The steps\<close>

text \<open>The loop uses the writer as a caller may: each of its steps is one of the writer's, or none.\<close>

lemma receive_wal: "sp_wal (receiveMessage m s) = sp_wal s \<or> wstep (sp_wal s) (sp_wal (receiveMessage m s))"
proof (cases m)
  case (RoutedCommand cmd reply)
  let ?s = "s\<lparr>lp_received := lp_received s @ [(cmd, reply)]\<rparr>"
  show ?thesis
  proof (cases "enqueueCommand cmd reply ?s")
    case (EnqueueDone s')
    then have "sp_wal s' = sp_wal s"
      by (auto simp: enqueueCommand_def sendReply_def completeCommand_def Let_def split: option.splits if_splits)
    then show ?thesis using RoutedCommand EnqueueDone by (simp add: receiveCommand_def)
  next
    case (EnqueueAppend rec result s')
    then have s': "sp_wal s' = sp_wal s" by (auto simp: enqueueCommand_def Let_def split: option.splits if_splits)
    obtain r w where e: "appendEnter rec (sp_wal s) = (r, w)" by fastforce
    then have "wstep (sp_wal s) w" by (rule step_enter)
    then show ?thesis using RoutedCommand EnqueueAppend s' e
      by (cases r) (simp_all add: receiveCommand_def appendFailed_def failPending_def sendReply_def Let_def)
  qed (simp add: RoutedCommand receiveCommand_def)
qed (auto simp: flushPending_def flushWAL_def flushError_def answerFlush_def failPending_def split: option.split)

lemma completeNext_wal [simp]: "sp_wal (completeNext e s) = sp_wal s"
  by (auto simp: completeNext_def completeCommand_def failPending_def sendReply_def Let_def split: list.split option.split)

lemma shwork_wal: "shwork s t \<Longrightarrow> shinv k books0 m0 s \<Longrightarrow> sp_wal t = sp_wal s \<or> wstep (sp_wal s) (sp_wal t)"
proof (induction rule: shwork.induct)
  case (sh_append_sent s cmd reply result c)
  then show ?case using step_send [of c "sp_wal s"] by (simp add: appendLogged_def shinv_def)
next
  case (sh_append_closed s cmd reply result c err w)
  then show ?case using step_closed [of c "sp_wal s"]
    by (simp add: appendFailed_def failPending_def sendReply_def Let_def shinv_def)
next
  case (sh_append_timeout s cmd reply result c err w)
  then show ?case using step_cancel [of c "sp_wal s"]
    by (simp add: appendFailed_def failPending_def sendReply_def Let_def shinv_def)
next
  case (sh_flush_sent s ch release d w)
  then show ?case using step_flush [of "sp_wal s"] by simp
qed (auto simp: flushError_def answerFlush_def failPending_def intro: wstep.intros)

lemma shstep_wal: "shstep s t \<Longrightarrow> shinv k books0 m0 s \<Longrightarrow> sp_wal t = sp_wal s \<or> wstep (sp_wal s) (sp_wal t)"
  by (induction rule: shstep.induct) (use receive_wal shwork_wal in auto)

lemma shwork_shinv: "shwork s t \<Longrightarrow> shinv k books0 m0 s \<Longrightarrow> shinv k books0 m0 t"
proof (induction rule: shwork.induct)
  case (sh_wal_start s)
  then show ?case by (intro shinv_wal) (simp_all add: exec_callers keeps_run exec_acks growsAcks_run)
next
  case (sh_wal_request s)
  then show ?case by (intro shinv_wal) (simp_all add: exec_callers keeps_run exec_acks growsAcks_run)
next
  case (sh_wal_timer s)
  then show ?case by (intro shinv_wal) (simp_all add: exec_callers keeps_run exec_acks growsAcks_run)
next
  case (sh_append_sent s cmd reply result c)
  then show ?case by (simp add: shinv_appendLogged)
next
  case (sh_append_closed s cmd reply result c err w)
  then have "wp_callers (sp_wal s) = [c]" by (simp add: shinv_def)
  then show ?case using sh_append_closed by (intro shinv_appendFailed) (auto simp: appendClosed_def)
next
  case (sh_append_timeout s cmd reply result c err w)
  then have "wp_callers (sp_wal s) = [c]" by (simp add: shinv_def)
  then show ?case using sh_append_timeout by (intro shinv_appendFailed) (auto simp: appendCancel_def)
next
  case (sh_ack s err)
  then show ?case using shinv_completed shinv_rejected by (cases err) simp_all
next
  case (sh_complete s ch release err)
  then show ?case using shinv_completed shinv_rejected by (cases err) simp_all
next
  case (sh_flush_sent s ch release d w)
  then have "shinv k books0 m0 (s\<lparr>sp_wal := w\<rparr>)" by (intro shinv_wal) (auto simp: flushSend_def)
  then show ?case using shinv_point [of k books0 m0 "s\<lparr>sp_wal := w\<rparr>" "FlushWaiting d ch release"] sh_flush_sent(1) by simp
next
  case (sh_shutdown_sent s)
  then have "shinv k books0 m0 (s\<lparr>sp_wal := shutdownSend (sp_wal s)\<rparr>)"
    by (intro shinv_wal) (auto simp: shutdownSend_def markClosed_def Let_def)
  moreover have "lp_pending s = []" using sh_shutdown_sent by (simp add: shinv_def)
  ultimately show ?case using shinv_point [of k books0 m0 "s\<lparr>sp_wal := shutdownSend (sp_wal s)\<rparr>" "ShutdownWaiting (wp_nextChan (sp_wal s))"]
      sh_shutdown_sent(1) by simp
next
  case (sh_shutdown_done s)
  then have "shinv k books0 m0 (s\<lparr>sp_wal := snd (markClosed (sp_wal s))\<rparr>)" by (intro shinv_wal) (auto simp: markClosed_def)
  then show ?case using sh_shutdown_done by (intro shinv_endLoop) (auto simp: shinv_def)
next
  case (sh_shutdown_timeout s)
  then have "shinv k books0 m0 (s\<lparr>sp_wal := shutdownCancel (sp_wal s)\<rparr>)"
    by (intro shinv_wal) (auto simp: markClosed_def shutdownCancel_def reopen_def)
  then show ?case using sh_shutdown_timeout by (intro shinv_endLoop) (auto simp: shinv_def)
next
  case (sh_shutdown_returned s d err)
  then show ?case by (intro shinv_endLoop) (auto simp: shinv_def)
next
  case (sh_shutdown_wait_timeout s d)
  then show ?case by (intro shinv_endLoop) (auto simp: shinv_def)
qed (auto intro: shinv_point shinv_flushError shinv_answer)

lemma shstep_shinv: "shstep s t \<Longrightarrow> shinv k books0 m0 s \<Longrightarrow> shinv k books0 m0 t"
  by (induction rule: shstep.induct) (auto simp: canReceive_def intro: shwork_shinv shinv_receive shinv_point)

end
