(* ===== verification/Wal_Properties.thy ===== *)
theory Wal_Properties
  imports Wal_Answers
begin

text \<open>The properties of the log writer.\<close>

subsection \<open>A run of the writer\<close>

text \<open>A writer on an empty directory that writes every record at once.\<close>

definition walConfig :: WriterConfig where
  "walConfig = \<lparr>wc_Dir = ''wal'', wc_EngineID = ''engine-1'', wc_ShardID = 3, wc_ShardCount = 4, wc_QueueSize = 8,
     wc_MaxBatchCommands = 1, wc_MaxBatchBytes = 4096, wc_MaxBatchDelay = 1000, wc_SegmentMaxBytes = 67108864, wc_Metrics = False\<rparr>"

definition noFiles :: disk where
  "noFiles = \<lparr>dk_files = [], dk_dir = [], dk_durable = []\<rparr>"

definition walChan :: ack_chan where
  "walChan = (0, sampleRecord 7)"

definition walStarted :: wproc where
  "walStarted = exec runStart (appendSend walChan (snd (appendEnter (sampleRecord 7) (initWriter walConfig noFiles [IoOk, IoOk, IoOk, IoOk, IoOk, IoOk, IoOk]))))"

definition walWritten :: wproc where
  "walWritten = exec runRequest walStarted"

lemma walFields: "wc_ShardID walConfig = 3" "wc_MaxBatchCommands walConfig = 1" "wc_SegmentMaxBytes walConfig = 67108864"
  "wc_Metrics walConfig = False" "wc_ShardCount walConfig = 4" "wc_EngineID walConfig = ''engine-1''"
  by (simp_all add: walConfig_def)

lemma walHeader: "segmentHeader walConfig = \<lparr>sh_EngineID = ''engine-1'', sh_ShardID = 3, sh_ShardCount = 4\<rparr>"
  by (simp add: segmentHeader_def walConfig_def)

lemma walConfig_base: "logBase walConfig noFiles []"
  by (simp add: logBase_def shard_log_def settled_def hasSegments_def noFiles_def walConfig_def)

lemma walConfig_NewWriter: "NewWriter walConfig noFiles (IoOk # outs) = Inr (initWriter walConfig noFiles outs)"
  by (simp add: NewWriter_def validateWriterConfig_def walConfig_def makeDir_def osCall_def andThen_def nextOutcome_def
      modify_def onDisk_def)

lemma wal_encode: "EncodeSegmentHeader (segmentHeader walConfig) = Inr (segmentBytes (segmentHeader walConfig) [])"
  using logBase_header [OF walConfig_base] by metis

lemmas io_simps = andThen_def gets_def modify_def ret_def attempt_def mapErr_def onError_def fail_def osCall_def nextOutcome_def
  onDisk_def createExcl_def addFile_def writeFile_def appendBytes_def syncFile_def markSynced_def syncDirectory_def syncDir_def
  closeFile_def

lemma wal_started:
  "walStarted = (initWriter walConfig \<lparr>dk_files = [wholeFile (segmentHeader walConfig) []],
       dk_dir = [(segmentName 3 0, 0)], dk_durable = [(segmentName 3 0, 0)]\<rparr> [IoOk, IoOk])
     \<lparr>ws_segmentIndex := 1, ws_currentFile := Some 0, ws_currentSize := int (length (segmentBytes (segmentHeader walConfig) [])),
      wp_requests := [ReqAppend walChan], wp_phase := Running, wp_nextChan := 1, wp_appended := [walChan]\<rparr>"
proof -
  have n: "nextSegmentIndex [] 3 = Inr 0" by (simp add: nextSegmentIndex_def glob_def)
  show ?thesis
    by (simp add: walStarted_def exec_def runStart_def openNextSegment_def chooseIndex_def closeSegment_def createSegment_def
        writeHeader_def wal_encode io_simps appendSend_def appendEnter_def initWriter_def noFiles_def walChan_def n
        wholeFile_def walFields Let_def)
qed

lemma wal_written:
  "walWritten = walStarted\<lparr>w_disk := \<lparr>dk_files = [wholeFile (segmentHeader walConfig) [sampleRecord 7]],
       dk_dir = [(segmentName 3 0, 0)], dk_durable = [(segmentName 3 0, 0)]\<rparr>, w_outs := [],
     ws_currentSize := int (length (segmentBytes (segmentHeader walConfig) [sampleRecord 7])),
     wp_requests := [], wp_acks := [(walChan, None)]\<rparr>"
proof -
  have e: "encodable (sampleRecord 7)" using sampleRecord_loggable by (simp add: loggable_def)
  have f: "frameOf (sampleRecord 7) \<noteq> []" by (rule rc.enc_nonempty [OF e])
  have l: "int (length (segmentBytes (segmentHeader walConfig) [])) + int (length (frameOf (sampleRecord 7))) \<le> 67108864"
  proof -
    have "length (frameOf (sampleRecord 7)) = 227"
      by (rule EncodeRecord_frame [OF sampleRecord_encodes [of 7]])
        (auto simp: payloadSize_def sampleRecord_def sampleCommand_def payloadFixedSize_def eventEncodedSize_def Let_def)
    moreover have "length (segmentBytes (segmentHeader walConfig) []) = 20"
      by (simp add: segmentBytes_def EncodeSegmentHeader_def walHeader)
    ultimately show ?thesis by simp
  qed
  have one: "segmentBytes (segmentHeader walConfig) [sampleRecord 7] = segmentBytes (segmentHeader walConfig) [] @ frameOf (sampleRecord 7)"
    using segmentBytes_append [of "segmentHeader walConfig" "[]" "[sampleRecord 7]"] by simp
  show ?thesis
    using f l unfolding walWritten_def wal_started
    by (simp add: exec_def runRequest_def append_encoded e walChan_def batchFull_def flush_def writeBatch_def writeCurrent_def
        endIteration_def flushDone_def sendAcks_def io_simps initWriter_def walFields wholeFile_def one)
qed

lemma wal_run: "wstep\<^sup>*\<^sup>* (initWriter walConfig noFiles [IoOk, IoOk, IoOk, IoOk, IoOk, IoOk, IoOk]) walWritten"
proof -
  let ?p0 = "initWriter walConfig noFiles [IoOk, IoOk, IoOk, IoOk, IoOk, IoOk, IoOk]"
  let ?p1 = "snd (appendEnter (sampleRecord 7) ?p0)"
  have "wstep ?p0 ?p1" by (rule step_enter [of "sampleRecord 7" _ "fst (appendEnter (sampleRecord 7) ?p0)"]) simp
  moreover have "wstep ?p1 (appendSend walChan ?p1)"
    by (rule step_send) (simp_all add: appendEnter_def initWriter_def walChan_def roomInQueue_def walConfig_def Let_def)
  moreover have "wstep (appendSend walChan ?p1) walStarted"
    unfolding walStarted_def by (rule step_start) (simp add: appendSend_def appendEnter_def initWriter_def Let_def)
  moreover have "wstep walStarted walWritten"
    unfolding walWritten_def by (rule step_request) (simp_all add: wal_started)
  ultimately show ?thesis by (meson rtranclp.rtrancl_into_rtrancl rtranclp.rtrancl_refl)
qed

text \<open>A run in which the first segment cannot be created, while a caller is about to send its request.\<close>

definition diskFull :: io_out where
  "diskFull = IoErr ''no space left on device'' 0"

definition walFailed :: wproc where
  "walFailed = exec runStart (snd (appendEnter (sampleRecord 7) (initWriter walConfig noFiles [diskFull])))"

definition walLost :: wproc where
  "walLost = appendSend walChan walFailed"

lemma wal_failed:
  "walFailed = (initWriter walConfig noFiles [])\<lparr>wp_failedErr := Some (WalIO (ErrOS ''no space left on device'')),
     wp_done := True, wp_phase := Stopped, wp_callers := [walChan], wp_nextChan := 1\<rparr>"
proof -
  have n: "nextSegmentIndex [] 3 = Inr 0" by (simp add: nextSegmentIndex_def glob_def)
  show ?thesis
    by (simp add: walFailed_def exec_def runStart_def openNextSegment_def chooseIndex_def closeSegment_def createSegment_def
        io_simps appendEnter_def initWriter_def noFiles_def walChan_def n walFields Let_def diskFull_def rejectRemaining_def
        setTerminalError_def)
qed

lemma wal_failed_run: "wstep\<^sup>*\<^sup>* (initWriter walConfig noFiles [diskFull]) walFailed"
proof -
  let ?p0 = "initWriter walConfig noFiles [diskFull]"
  let ?p1 = "snd (appendEnter (sampleRecord 7) ?p0)"
  have "wstep ?p0 ?p1" by (rule step_enter [of "sampleRecord 7" _ "fst (appendEnter (sampleRecord 7) ?p0)"]) simp
  moreover have "wstep ?p1 walFailed"
    unfolding walFailed_def by (rule step_start) (simp add: appendEnter_def initWriter_def Let_def)
  ultimately show ?thesis by (meson rtranclp.rtrancl_into_rtrancl rtranclp.rtrancl_refl)
qed

lemma wal_lost_step: "wstep walFailed walLost"
  unfolding walLost_def by (rule step_send) (simp_all add: wal_failed initWriter_def roomInQueue_def walConfig_def)

text \<open>When the goroutine has ended nothing leaves the channel.\<close>

lemma stopped_keeps:
  assumes "wstep\<^sup>*\<^sup>* p q" and "wp_phase p = Stopped"
  shows "wp_phase q = Stopped \<and> set (wp_appended p) \<subseteq> set (wp_appended q) \<and> set (wp_requests p) \<subseteq> set (wp_requests q)"
  using assms
proof (induction rule: rtranclp_induct)
  case (step q r)
  then have q: "wp_phase q = Stopped" by simp
  from step(2) have "wp_phase r = Stopped \<and> set (wp_appended q) \<subseteq> set (wp_appended r) \<and> set (wp_requests q) \<subseteq> set (wp_requests r)"
    by (cases rule: wstep.cases) (use q in \<open>auto simp: appendEnter_def appendSend_def appendClosed_def appendCancel_def flushSend_def shutdownSend_def
      markClosed_def shutdownCancel_def reopen_def Let_def split: option.splits if_splits\<close>)
  then show ?case using step by blast
qed simp

subsection \<open>Properties\<close>

text \<open>
  C7: what the writer has acknowledged survives every crash.  The writer starts on a directory with whole
  segments of its shard only, none with a torn tail (a torn segment that is followed by a newer one cannot be read, as
  \<open>torn_segment_blocks_next_restart\<close> shows); a crash leaves of each file a prefix with at least the bytes that were synced; requests, timer, failing calls and the crash come in any order.  Then the records
  answered without an error are the first of the append requests that can be encoded, in the order of the
  requests; and after a crash at any point the log is read without an error, and gives the records that were
  there before, all acknowledged ones, and possibly some that follow them, in order.  Segment
  indices have at most six digits.
\<close>

theorem acknowledged_records_survive_crashes:
  assumes "logBase cfg d0 recss0" and "NewWriter cfg d0 outs = Inr p0" and "wstep\<^sup>*\<^sup>* p0 p"
    and "crash_image (w_disk p) img" and "ws_segmentIndex p < 10 ^ 6"
    and "\<forall>c\<in>set (wp_appended p). rec_ShardID (snd c) = word_of_int (wc_ShardID cfg)"
  shows "let acked = map fst (filter (\<lambda>a. snd a = None) (wp_acks p)); sent = filter (\<lambda>c. encodable (snd c)) (wp_appended p) in
    \<exists>n. length acked \<le> n \<and> n \<le> length sent \<and> acked = take (length acked) sent
      \<and> ReadShardRecordsForEngine img (wc_EngineID cfg) (nat (wc_ShardID cfg)) (nat (wc_ShardCount cfg))
        = Inr (map stored (concat recss0 @ map snd (take n sent)))"
  using winv_reads [OF assms(1) wsteps_winv [OF assms(3,1) NewWriter_winv [OF assms(1,2)]] assms(4-6)]
  unfolding Let_def ackedChans_def [symmetric] enc_def [symmetric] .

theorem acknowledged_records_survive_crashes_witness:
  "ReadShardRecordsForEngine [(segmentName 3 0, Some (segmentBytes (segmentHeader walConfig) [sampleRecord 7]))] ''engine-1'' 3 4
     = Inr [stored (sampleRecord 7)]"
proof -
  have e: "encodable (sampleRecord 7)" "rec_ShardID (sampleRecord 7) = 3"
    using sampleRecord_loggable [of 7] by (simp_all add: loggable_def)
  have img: "crash_image (w_disk walWritten) [(segmentName 3 0, Some (segmentBytes (segmentHeader walConfig) [sampleRecord 7]))]"
    by (auto simp: wal_written crash_image_def entry_after_def leftOf_def wholeFile_def)
  have p: "ws_segmentIndex walWritten < 10 ^ 6" "wp_appended walWritten = [walChan]" "wp_acks walWritten = [(walChan, None)]"
    by (simp_all add: wal_written wal_started)
  have s: "\<forall>c\<in>set (wp_appended walWritten). rec_ShardID (snd c) = word_of_int (wc_ShardID walConfig)"
    using e(2) p(2) by (simp add: walChan_def walFields)
  from acknowledged_records_survive_crashes [OF walConfig_base walConfig_NewWriter wal_run img p(1) s] p(2,3) e(1) show ?thesis
    by (auto simp: Let_def walFields walChan_def)
qed

text \<open>
  C27: every append request is answered once.  In every state the writer can reach, the append requests that
  were sent are all different, and each of them is either answered once, or waits in the batch, or waits in the channel
  (once the goroutine has ended, there is no batch).  A writer whose goroutine has ended without an
  error has no append request in the channel: it has answered all of them.
\<close>

theorem every_append_is_answered_once:
  assumes "NewWriter cfg d0 outs = Inr p0" and "wstep\<^sup>*\<^sup>* p0 p" and "wp_phase p \<noteq> Crashed"
  shows "distinct (wp_appended p)
    \<and> mset (wp_appended p) = mset (map fst (wp_acks p)) + mset (if wp_phase p = Stopped then [] else wp_pendingAcks p)
        + mset (queuedChans (wp_requests p))
    \<and> (wp_phase p = Stopped \<and> wp_failedErr p = None \<longrightarrow> queuedChans (wp_requests p) = [])"
proof -
  have "ainv p" using wsteps_ainv [OF assms(2) NewWriter_ainv [OF assms(1)]] .
  then show ?thesis using assms(3)
    by (cases "wp_phase p") (simp_all add: ainv_def freshChans_def looping_def ended_def accounted_def answered_def)
qed

theorem every_append_is_answered_once_witness:
  "mset [walChan] = mset (map fst (wp_acks walWritten)) + mset (wp_pendingAcks walWritten) + mset (queuedChans (wp_requests walWritten))"
proof -
  have "wp_phase walWritten = Running" "wp_appended walWritten = [walChan]" by (simp_all add: wal_written wal_started)
  then show ?thesis using every_append_is_answered_once [OF walConfig_NewWriter wal_run] by simp
qed

text \<open>
  C34: a failure of the writer is final.  After a call on the disk has failed, whatever happens next leaves the error, the
  disk and the answers given as they are, and \<open>AppendAsync\<close> and \<open>Flush\<close> return that error.
\<close>

theorem failed_writer_stays_failed:
  assumes "logBase cfg d0 recss0" and "NewWriter cfg d0 outs = Inr p0" and "wstep\<^sup>*\<^sup>* p0 p" and "wp_failedErr p = Some e"
    and "wstep\<^sup>*\<^sup>* p q"
  shows "wp_failedErr q = Some e \<and> w_disk q = w_disk p \<and> wp_acks q = wp_acks p
    \<and> appendEnter rec q = (Inl e, q) \<and> flushEnter q = Some e"
proof -
  have "winv cfg d0 recss0 p" by (rule wsteps_winv [OF assms(3,1) NewWriter_winv [OF assms(1,2)]])
  then have "wp_phase p = Stopped \<or> wp_phase p = Crashed"
    using winv_failed [of cfg d0 recss0 p] assms(4) by (cases "wp_phase p") auto
  from failed_wsteps [OF assms(5) this] assms(4) show ?thesis by (simp add: appendEnter_def flushEnter_def)
qed

theorem failed_writer_stays_failed_witness:
  "appendEnter (sampleRecord 9) walLost = (Inl (WalIO (ErrOS ''no space left on device'')), walLost)"
proof -
  have e: "wp_failedErr walFailed = Some (WalIO (ErrOS ''no space left on device''))" by (simp add: wal_failed)
  have r: "wstep\<^sup>*\<^sup>* walFailed walLost" using wal_lost_step by (rule r_into_rtranclp)
  show ?thesis using failed_writer_stays_failed [OF walConfig_base walConfig_NewWriter wal_failed_run e r] by blast
qed

text \<open>
  C38: an append request that is sent too late is lost.  Whatever the writer has done: when its goroutine has ended, as it does after a
  failed call on the disk, and a caller that has passed the checks of \<open>AppendAsync\<close> before puts its request into the channel, which the
  \<open>select\<close> allows as long as there is room, then \<open>AppendAsync\<close> has returned an ack channel, the request stays in the channel, and in no state
  that follows is there an answer on it.
\<close>

theorem append_can_be_lost:
  assumes "NewWriter cfg d0 outs = Inr p0" and "wstep\<^sup>*\<^sup>* p0 p" and "wp_phase p = Stopped"
    and "c \<in> set (wp_callers p)" and "roomInQueue p" and "wstep\<^sup>*\<^sup>* (appendSend c p) q"
  shows "wstep p (appendSend c p) \<and> c \<in> set (wp_appended q) \<and> ReqAppend c \<in> set (wp_requests q) \<and> c \<notin> fst ` set (wp_acks q)"
proof -
  have inv: "ainv p" using wsteps_ainv [OF assms(2) NewWriter_ainv [OF assms(1)]] .
  have "distinct (wp_appended p @ wp_callers p)" using inv by (simp add: ainv_def freshChans_def)
  then have fresh: "c \<notin> set (wp_appended p)" using assms(4) by auto
  have "mset (wp_appended p) = mset (map fst (wp_acks p)) + mset (queuedChans (wp_requests p))"
    using inv assms(3) by (simp add: ainv_def ended_def accounted_def answered_def)
  then have "set (map fst (wp_acks p)) \<subseteq> set (wp_appended p)" by (metis mset_subset_eq_add_left set_mset_mono set_mset_mset)
  then have none: "c \<notin> fst ` set (wp_acks p)" using fresh by auto
  have s: "wp_phase (appendSend c p) = Stopped" "wp_acks (appendSend c p) = wp_acks p" "c \<in> set (wp_appended (appendSend c p))"
    "ReqAppend c \<in> set (wp_requests (appendSend c p))" using assms(3) by (simp_all add: appendSend_def)
  have "wp_acks q = wp_acks p" using failed_wsteps [OF assms(6)] s(1,2) by simp
  moreover have "c \<in> set (wp_appended q) \<and> ReqAppend c \<in> set (wp_requests q)" using stopped_keeps [OF assms(6) s(1)] s(3,4) by blast
  ultimately show ?thesis using none step_send [OF assms(4,5)] by simp
qed

theorem append_can_be_lost_witness:
  "wstep walFailed walLost \<and> walChan \<in> set (wp_appended (snd (flushSend walLost))) \<and> walChan \<notin> fst ` set (wp_acks (snd (flushSend walLost)))"
proof -
  have f: "wp_phase walFailed = Stopped" "walChan \<in> set (wp_callers walFailed)" "roomInQueue walFailed"
    by (simp_all add: wal_failed initWriter_def roomInQueue_def walConfig_def)
  have "wstep walLost (snd (flushSend walLost))"
    by (rule step_flush) (simp add: roomInQueue_def walLost_def appendSend_def wal_failed initWriter_def walConfig_def)
  then have "wstep\<^sup>*\<^sup>* (appendSend walChan walFailed) (snd (flushSend walLost))" unfolding walLost_def by (rule r_into_rtranclp)
  from append_can_be_lost [OF walConfig_NewWriter wal_failed_run f this] show ?thesis by (simp add: walLost_def)
qed

end
