(* ===== verification/Shard_Properties.thy ===== *)
theory Shard_Properties
  imports Shard_Safety Wal_Properties
begin

text \<open>The properties of a shard: its loop and its log writer together.\<close>

subsection \<open>The start\<close>

text \<open>The snapshots a loop starts with are those of books that commands have led to.\<close>

definition genuine :: "(string \<rightharpoonup> BookSnapshot) \<Rightarrow> bool" where
  "genuine snapshots \<longleftrightarrow> (\<forall>s snap. snapshots s = Some snap \<longrightarrow> (\<exists>b. reachable b \<and> Snapshot b = Some snap))"

lemma genuine_books:
  assumes "genuine snapshots"
  shows "\<exists>books A. openBooks snapshots Map.empty symbols = Some books \<and> books_rep books A \<and> dom books = set symbols"
proof -
  have "\<exists>a. (snapshots s = None \<and> a = emptyBook s) \<or> (snapshots s = Some (abs_snapshot a) \<and> abook_ok a \<and> (\<exists>b. represents b a))" for s
  proof (cases "snapshots s")
    case (Some snap)
    then obtain b where b: "reachable b" "Snapshot b = Some snap" using assms by (auto simp: genuine_def)
    obtain a where a: "represents b a" "abook_ok a" using reachable_represents [OF b(1)] .
    then have "snap = abs_snapshot a" using Snapshot_refines(1) [OF a(1)] b(2) by simp
    then show ?thesis using Some a by blast
  qed simp
  then have "\<forall>s. \<exists>a. (snapshots s = None \<and> a = emptyBook s) \<or> (snapshots s = Some (abs_snapshot a) \<and> abook_ok a \<and> (\<exists>b. represents b a))"
    by blast
  from choice [OF this] obtain A where "\<forall>s. (snapshots s = None \<and> A s = emptyBook s)
      \<or> (snapshots s = Some (abs_snapshot (A s)) \<and> abook_ok (A s) \<and> (\<exists>b. represents b (A s)))" by blast
  then show ?thesis using openBooks_rep [of Map.empty A symbols snapshots] by (auto simp: books_rep_def)
qed

lemma newLoop_ok:
  assumes "genuine snapshots"
  shows "\<exists>l A. newLoop k symbols True snapshots = Some l \<and> books_rep (lp_books l) A \<and> dom (lp_books l) = set symbols"
  using genuine_books [OF assms, of symbols] by (auto simp: newLoop_def)

lemma NewWriter_idle: "NewWriter cfg d0 outs = Inr w \<Longrightarrow> wp_callers w = [] \<and> wp_appended w = []"
  by (auto simp: NewWriter_def initWriter_def split: option.splits prod.splits io_res.splits)

lemma start_shinv_rep:
  assumes "newLoop k symbols True snapshots = Some l" and "books_rep (lp_books l) A" and "NewWriter cfg d0 outs = Inr w0"
  shows "shinv k (lp_books l) m0 (startLoop l m0 w0)"
proof -
  have "l = \<lparr>lp_id = k, lp_symbols = symbols, lp_books = lp_books l, lp_hasWAL = True, lp_lastAppliedSeq = 0,
       lp_failedErr = None, lp_metrics = [], lp_pending = [], lp_replies = [], lp_received = [], lp_applied = []\<rparr>"
    using assms(1) by (auto simp: newLoop_def Option.bind_eq_Some_conv)
  then show ?thesis using assms(2) NewWriter_idle [OF assms(3)]
    by (cases l) (auto simp: startLoop_def Loop.extend_def shinv_defs watermark_def)
qed

lemma start_shinv:
  assumes "newLoop k symbols True snapshots = Some l" and "genuine snapshots" and "NewWriter cfg d0 outs = Inr w0"
  shows "shinv k (lp_books l) m0 (startLoop l m0 w0)"
  using newLoop_ok [OF assms(2), of k symbols] start_shinv_rep [OF assms(1) _ assms(3)] assms(1) by auto

text \<open>Everything that is known of a state the shard can reach.\<close>

lemma shsteps_shinv:
  assumes "shstep\<^sup>*\<^sup>* s0 s" and "shinv k books0 m0 s0"
  shows "shinv k books0 m0 s \<and> wstep\<^sup>*\<^sup>* (sp_wal s0) (sp_wal s)"
  using assms
proof (induction rule: rtranclp_induct)
  case (step t u)
  then have t: "shinv k books0 m0 t" "wstep\<^sup>*\<^sup>* (sp_wal s0) (sp_wal t)" by blast+
  have "wstep\<^sup>*\<^sup>* (sp_wal s0) (sp_wal u)"
    using shstep_wal [OF step(2) t(1)] t(2) by (metis rtranclp.rtrancl_into_rtrancl)
  then show ?case using shstep_shinv [OF step(2) t(1)] by simp
qed simp

lemma serve_stored: "serve shard books cs = Some (books', recs) \<Longrightarrow> map stored recs = recs"
proof (induction cs arbitrary: books recs)
  case (Cons c cs)
  then show ?case by (auto simp: Option.bind_eq_Some_conv split: option.splits prod.splits)
qed simp

lemma serve_seqs:
  assumes "serve shard books cs = Some (books', recs)" and "\<forall>c\<in>set cs. cmd_Symbol c \<in> dom books"
  shows "map rec_CommandSeq recs = map cmd_Seq cs" and "\<forall>r\<in>set recs. rec_ShardID r = shard"
proof -
  have "map rec_CommandSeq recs = map cmd_Seq cs \<and> (\<forall>r\<in>set recs. rec_ShardID r = shard)"
    using assms
  proof (induction cs arbitrary: books recs)
    case (Cons c cs)
    obtain b where b: "books (cmd_Symbol c) = Some b" using Cons.prems(2) by auto
    obtain b' r recs' where a: "Apply b c = Some (b', r)" "serve shard (books(cmd_Symbol c \<mapsto> b')) cs = Some (books', recs')"
      "recs = logRecord shard c r # recs'"
      using Cons.prems(1) b by (auto simp: Option.bind_eq_Some_conv split: prod.splits)
    define books1 where "books1 = books(cmd_Symbol c \<mapsto> b')"
    have "\<forall>c\<in>set cs. cmd_Symbol c \<in> dom books1" using Cons.prems(2) by (auto simp: books1_def)
    moreover have "serve shard books1 cs = Some (books', recs')" using a(2) by (simp only: books1_def)
    ultimately have "map rec_CommandSeq recs' = map cmd_Seq cs \<and> (\<forall>r\<in>set recs'. rec_ShardID r = shard)" using Cons.IH by blast
    then show ?case using a(3) by (simp add: logRecord_def)
  qed simp
  then show "map rec_CommandSeq recs = map cmd_Seq cs" and "\<forall>r\<in>set recs. rec_ShardID r = shard" by simp_all
qed

lemma shard_reads:
  assumes base: "logBase cfg d0 recss0" and "NewWriter cfg d0 outs = Inr w0" and "wstep\<^sup>*\<^sup>* w0 (sp_wal s)"
    and inv: "shinv k books0 m0 s" and "wc_ShardID cfg = int k"
    and "crash_image (w_disk (sp_wal s)) img" and "ws_segmentIndex (sp_wal s) < 10 ^ 6"
    and "\<forall>c\<in>set (wp_appended (sp_wal s)). encodable (snd c)"
  shows "\<exists>recs n. serve (word_of_nat k) books0 (lp_applied s) = Some (lp_books s, recs)
    \<and> length (ackedChans (sp_wal s)) \<le> n \<and> ackedChans (sp_wal s) = take (length (ackedChans (sp_wal s))) (wp_appended (sp_wal s))
    \<and> take n recs = map snd (take n (wp_appended (sp_wal s)))
    \<and> ReadShardRecordsForEngine img (wc_EngineID cfg) k (nat (wc_ShardCount cfg)) = Inr (map stored (concat recss0) @ take n recs)"
proof -
  let ?w = "sp_wal s"
  obtain recs where r: "serve (word_of_nat k) books0 (lp_applied s) = Some (lp_books s, recs)"
    "prefix (map snd (wp_appended ?w)) recs" "\<forall>c\<in>set (lp_applied s). cmd_Symbol c \<in> dom books0"
    using inv by (auto simp: shinv_def served_def split: if_splits)
  then obtain more where more: "recs = map snd (wp_appended ?w) @ more" by (auto simp: prefix_def)
  have ids: "rec_ShardID (snd c) = word_of_int (wc_ShardID cfg)" if "c \<in> set (wp_appended ?w)" for c
  proof -
    have "snd c \<in> set recs" using that more by simp
    then have "rec_ShardID (snd c) = word_of_nat k" using serve_seqs(2) [OF r(1,3)] by blast
    then show ?thesis by (simp only: assms(5) of_int_of_nat_eq)
  qed
  have "walServing (cfg, d0, recss0) ?w" "walCrashed (cfg, d0, recss0) ?w img" using base assms(2,3,6-8) ids by auto
  from journal.prefix_survives [OF this] obtain n where n: "length (ackedChans ?w) \<le> n" "n \<le> length (wp_appended ?w)"
    "ackedChans ?w = take (length (ackedChans ?w)) (wp_appended ?w)"
    "ReadShardRecordsForEngine img (wc_EngineID cfg) (nat (wc_ShardID cfg)) (nat (wc_ShardCount cfg))
      = Inr (map stored (concat recss0) @ map stored (map snd (take n (wp_appended ?w))))" by auto
  have t: "take n recs = map snd (take n (wp_appended ?w))" using n(2) more by (simp add: take_map)
  have "map stored (take n recs) = take n recs" using serve_stored [OF r(1)] by (metis take_map)
  then show ?thesis using r(1) n t assms(5) by (intro exI [of _ recs] exI [of _ n]) simp
qed

text \<open>What the replies of a state and its drained states say about such a log.\<close>

lemma replied_logged:
  assumes "shinv k books0 m0 s" and "length (ackedChans (sp_wal s)) \<le> n"
    and "ackedChans (sp_wal s) = take (length (ackedChans (sp_wal s))) (wp_appended (sp_wal s))"
    and "take n recs = map snd (take n (wp_appended (sp_wal s)))" and "(reply, Inr result) \<in> set (lp_replies s)"
  shows "\<exists>cmd. (cmd, reply) \<in> set (lp_received s)
    \<and> (books0 (cmd_Symbol cmd) = None \<and> result = invalidSymbolResult (cmd_Seq cmd) (cmd_OrderID cmd)
      \<or> logRecord (word_of_nat k) cmd result \<in> set (take n recs))"
proof -
  have "snd c \<in> set (take n recs)" if "(c, None) \<in> set (wp_acks (sp_wal s))" for c
  proof -
    have "c \<in> set (ackedChans (sp_wal s))" using that by (force simp: ackedChans_def)
    then have "c \<in> set (take n (wp_appended (sp_wal s)))" using assms(2,3) set_take_subset_set_take by (metis subsetD)
    then show ?thesis using assms(4) by simp
  qed
  moreover have "justified books0 s reply result" "lp_id s = k" using assms(1,5) by (simp_all add: shinv_def repliesOk_def)
  ultimately show ?thesis unfolding justified_def by metis
qed

lemma drained_acked:
  assumes "NewWriter cfg d0 outs = Inr w0" and "wstep\<^sup>*\<^sup>* w0 (sp_wal s)" and "shinv k books0 m0 s"
    and "sp_point s = Held release" and "lp_failedErr s = None"
  shows "lp_pending s = []" and "lastApplied s = lastSeq m0 (lp_applied s)" and "length (lp_applied s) \<le> length (ackedChans (sp_wal s))"
proof -
  let ?a = "wp_appended (sp_wal s)"
  show p: "lp_pending s = []" using assms(3,4) by (simp add: shinv_def)
  have ac: "\<forall>c\<in>set ?a. (c, None) \<in> set (wp_acks (sp_wal s))" "lp_lastAppliedSeq s = watermark m0 ?a"
    using assms(3,5) p by (auto simp: shinv_def completed_def)
  have r: "serve (word_of_nat (lp_id s)) books0 (lp_applied s) = Some (lp_books s, map snd ?a)" "\<forall>c\<in>set (lp_applied s). cmd_Symbol c \<in> dom books0"
    using assms(3-5) by (auto simp: shinv_def served_def)
  then have seqs: "map rec_CommandSeq (map snd ?a) = map cmd_Seq (lp_applied s)" by (rule serve_seqs(1))
  then show "lastApplied s = lastSeq m0 (lp_applied s)"
    using ac(2) by (cases ?a rule: rev_cases; cases "lp_applied s" rule: rev_cases) (auto simp: lastApplied_def watermark_def lastSeq_def)
  have "walServing (cfg, d0, []) (sp_wal s)" using assms(1,2) by auto
  then have "length ?a \<le> length (ackedChans (sp_wal s))"
    by (rule journal.all_acked_length) (use ac(1) in \<open>auto simp: ackedChans_def image_iff\<close>)
  then show "length (lp_applied s) \<le> length (ackedChans (sp_wal s))" using map_eq_imp_length_eq [OF seqs] by simp
qed

subsection \<open>A run of a shard\<close>

text \<open>
  Shard 3 receives an order, its record is written and acknowledged, then it receives a drain.
\<close>

definition sampleResult :: Result where
  "sampleResult = rec_Result (sampleRecord 7)"

definition sampleBooks :: books where
  "sampleBooks = [''BTC'' \<mapsto> New ''BTC'']"

definition restedBook :: Book where
  "restedBook = fst (the (Apply (New ''BTC'') sampleCommand))"

definition sampleLoop :: Loop where
  "sampleLoop = \<lparr>lp_id = 3, lp_symbols = [''BTC''], lp_books = sampleBooks, lp_hasWAL = True, lp_lastAppliedSeq = 0,
       lp_failedErr = None, lp_metrics = [], lp_pending = [], lp_replies = [], lp_received = [], lp_applied = []\<rparr>"

definition sampleWriter :: wproc where
  "sampleWriter = initWriter walConfig noFiles [IoOk, IoOk, IoOk, IoOk, IoOk, IoOk, IoOk]"

text \<open>The shard after it has received the command, with the parts of the state that change.\<close>

definition shardAt :: "wproc \<Rightarrow> loopPoint \<Rightarrow> pendingCommand list \<Rightarrow> shardProc" where
  "shardAt w pt pcs = \<lparr>lp_id = 3, lp_symbols = [''BTC''], lp_books = [''BTC'' \<mapsto> restedBook], lp_hasWAL = True, lp_lastAppliedSeq = 0,
       lp_failedErr = None, lp_metrics = [], lp_pending = pcs, lp_replies = [], lp_received = [(sampleCommand, 0)], lp_applied = [sampleCommand],
       sp_point = pt, sp_receiving = True, sp_answers = [], sp_wal = w\<rparr>"

definition samplePending :: pendingCommand where
  "samplePending = \<lparr>pc_sequence = 7, pc_result = sampleResult, pc_reply = 0, pc_ack = walChan\<rparr>"

definition walFlushing :: wproc where
  "walFlushing = snd (flushSend walWritten)"

definition walFlushed :: wproc where
  "walFlushed = exec runRequest walFlushing"

definition repliedShard :: shardProc where
  "repliedShard = completeNext None (shardAt walFlushed (Completing 1 (Some 2)) [samplePending])"

definition drainedShard :: shardProc where
  "drainedShard = answerFlush 1 (Some 2) None repliedShard"

lemma rested_Apply: "Apply (New ''BTC'') sampleCommand = Some (restedBook, sampleResult)"
proof -
  have r: "map_option snd (Apply (New ''BTC'') sampleCommand) = Some sampleResult" by code_simp
  then obtain b where b: "Apply (New ''BTC'') sampleCommand = Some (b, sampleResult)" by (auto simp: map_option_case split: option.splits)
  then have "restedBook = b" unfolding restedBook_def b by simp
  with b show ?thesis by (simp only:)
qed

lemma sample_newLoop: "newLoop 3 [''BTC''] True Map.empty = Some sampleLoop"
  by (simp add: newLoop_def sampleLoop_def sampleBooks_def)

lemma sample_logRecord: "logRecord 3 sampleCommand sampleResult = sampleRecord 7"
  by (simp add: logRecord_def sampleResult_def sampleRecord_def sampleCommand_def)

lemma sample_symbol: "cmd_Symbol sampleCommand = ''BTC''" "cmd_Seq sampleCommand = 7" by (simp_all add: sampleCommand_def)

lemma sample_received:
  "receiveMessage (RoutedCommand sampleCommand 0) (startLoop sampleLoop 0 sampleWriter)
     = shardAt (snd (appendEnter (sampleRecord 7) sampleWriter)) (Appending sampleCommand 0 sampleResult walChan) []"
proof -
  have "fst (appendEnter (sampleRecord 7) sampleWriter) = Inr walChan"
    by (simp add: appendEnter_def sampleWriter_def initWriter_def walChan_def Let_def)
  then obtain w where w: "appendEnter (sampleRecord 7) sampleWriter = (Inr walChan, w)" by (metis prod.collapse)
  show ?thesis
    by (simp add: receiveCommand_def enqueueCommand_def startLoop_def Loop.extend_def sampleLoop_def sampleBooks_def sample_symbol rested_Apply
        sample_logRecord Let_def w shardAt_def)
qed

lemma sample_flushed:
  "walFlushed = walWritten\<lparr>wp_nextChan := 2, wp_closedDones := [1]\<rparr>"
  by (simp add: walFlushed_def walFlushing_def wal_written wal_started initWriter_def flushSend_def exec_def runRequest_def flush_def endIteration_def closeDone_def io_simps)

lemma shardAt_simps [simp]:
  "sp_wal (shardAt w pt pcs) = w" "sp_point (shardAt w pt pcs) = pt" "lp_pending (shardAt w pt pcs) = pcs"
  "lp_failedErr (shardAt w pt pcs) = None" "lp_hasWAL (shardAt w pt pcs)" "sp_receiving (shardAt w pt pcs)"
  "(shardAt w pt pcs)\<lparr>sp_wal := w'\<rparr> = shardAt w' pt pcs" "(shardAt w pt pcs)\<lparr>sp_point := pt'\<rparr> = shardAt w pt' pcs"
  "(shardAt w pt pcs)\<lparr>sp_wal := w', sp_point := pt'\<rparr> = shardAt w' pt' pcs"
  by (simp_all add: shardAt_def)

lemma sample_appended:
  "shstep\<^sup>*\<^sup>* (startLoop sampleLoop 0 sampleWriter)
     (shardAt (appendSend walChan (snd (appendEnter (sampleRecord 7) sampleWriter))) Selecting [samplePending])"
proof -
  let ?w = "snd (appendEnter (sampleRecord 7) sampleWriter)" and ?pt = "Appending sampleCommand 0 sampleResult walChan"
  have "shstep (startLoop sampleLoop 0 sampleWriter) (shardAt ?w ?pt [])"
    unfolding sample_received [symmetric]
    by (rule sh_receive) (simp add: canReceive_def startLoop_def Loop.extend_def sampleLoop_def maxPendingCommands_def)
  moreover have "roomInQueue ?w"
    by (simp add: roomInQueue_def sampleWriter_def initWriter_def appendEnter_def walConfig_def Let_def)
  moreover have "appendLogged sampleCommand 0 sampleResult walChan (shardAt (appendSend walChan ?w) Selecting [])
    = shardAt (appendSend walChan ?w) Selecting [samplePending]"
    by (simp add: appendLogged_def samplePending_def sample_symbol) (simp add: shardAt_def)
  ultimately show ?thesis using sh_work [OF sh_append_sent, of "shardAt ?w ?pt []" sampleCommand 0 sampleResult walChan] by simp
qed

lemma sample_written:
  "shstep\<^sup>*\<^sup>* (shardAt (appendSend walChan (snd (appendEnter (sampleRecord 7) sampleWriter))) Selecting [samplePending])
     (shardAt walWritten Selecting [samplePending])"
proof -
  let ?w = "appendSend walChan (snd (appendEnter (sampleRecord 7) sampleWriter))"
  have "wp_phase ?w = Starting" by (simp add: sampleWriter_def initWriter_def appendEnter_def appendSend_def Let_def)
  then have "shstep (shardAt ?w Selecting [samplePending]) (shardAt walStarted Selecting [samplePending])"
    using sh_work [OF sh_wal_start, of "shardAt ?w Selecting [samplePending]"] by (simp add: walStarted_def sampleWriter_def)
  moreover have "shstep (shardAt walStarted Selecting [samplePending]) (shardAt walWritten Selecting [samplePending])"
    using sh_work [OF sh_wal_request, of "shardAt walStarted Selecting [samplePending]"] by (simp add: walWritten_def) (simp add: wal_started)
  ultimately show ?thesis by simp
qed

lemma sample_drained: "shstep\<^sup>*\<^sup>* (shardAt walWritten Selecting [samplePending]) drainedShard"
proof -
  let ?s = "\<lambda>w pt. shardAt w pt [samplePending]"
  have e: "flushEnter walWritten = None" by (simp add: flushEnter_def wal_written wal_started initWriter_def)
  have f: "flushPending 1 (Some 2) (?s walWritten Selecting) = ?s walWritten (FlushSending 1 (Some 2))"
    using e by (simp add: flushPending_def flushWAL_def)
  have "canReceive (?s walWritten Selecting)" by (simp add: canReceive_def maxPendingCommands_def)
  from sh_receive [OF this, of "RoutedDrain 1 2"] have s1: "shstep (?s walWritten Selecting) (?s walWritten (FlushSending 1 (Some 2)))"
    by (simp add: f [simplified])
  have "roomInQueue walWritten" by (simp add: roomInQueue_def wal_written wal_started initWriter_def walConfig_def)
  moreover have "flushSend walWritten = (1, walFlushing)" by (simp add: walFlushing_def flushSend_def wal_written wal_started)
  ultimately have s2: "shstep (?s walWritten (FlushSending 1 (Some 2))) (?s walFlushing (FlushWaiting 1 1 (Some 2)))"
    using sh_work [OF sh_flush_sent, of "?s walWritten (FlushSending 1 (Some 2))"] by simp
  have "wp_phase walFlushing = Running" "wp_requests walFlushing \<noteq> []"
    by (simp_all add: walFlushing_def flushSend_def wal_written wal_started)
  then have s3: "shstep (?s walFlushing (FlushWaiting 1 1 (Some 2))) (?s walFlushed (FlushWaiting 1 1 (Some 2)))"
    using sh_work [OF sh_wal_request, of "?s walFlushing (FlushWaiting 1 1 (Some 2))"] by (simp add: walFlushed_def)
  have "flushReturn 1 walFlushed = Some None" by (simp add: flushReturn_def sample_flushed wal_written wal_started initWriter_def)
  then have s4: "shstep (?s walFlushed (FlushWaiting 1 1 (Some 2))) (?s walFlushed (Completing 1 (Some 2)))"
    using sh_work [OF sh_flushed, of "?s walFlushed (FlushWaiting 1 1 (Some 2))"] by simp
  have "nextAck (?s walFlushed (Completing 1 (Some 2))) = Some None"
    by (simp add: nextAck_def samplePending_def sample_flushed wal_written)
  then have s5: "shstep (?s walFlushed (Completing 1 (Some 2))) repliedShard"
    unfolding repliedShard_def by (intro sh_work sh_complete) simp_all
  have "sp_point repliedShard = Completing 1 (Some 2)" "lp_pending repliedShard = []" "lp_failedErr repliedShard = None"
    by (simp_all add: repliedShard_def completeNext_def completeCommand_def sendReply_def shardAt_def)
  then have s6: "shstep repliedShard drainedShard"
    using sh_work [OF sh_completed, of repliedShard 1 "Some 2"] by (simp add: drainedShard_def)
  from s1 s2 s3 s4 s5 s6 show ?thesis by (meson rtranclp.rtrancl_into_rtrancl rtranclp.rtrancl_refl)
qed

lemma sample_shard_run: "shstep\<^sup>*\<^sup>* (startLoop sampleLoop 0 sampleWriter) drainedShard"
  using sample_appended sample_written sample_drained by (meson rtranclp_trans)

lemma drained_fields:
  "sp_wal drainedShard = walFlushed" "sp_point drainedShard = Held 2" "lp_failedErr drainedShard = None" "lp_applied drainedShard = [sampleCommand]"
  "lp_replies drainedShard = [(0, Inr sampleResult)]" "lp_received drainedShard = [(sampleCommand, 0)]"
  by (simp_all add: drainedShard_def repliedShard_def answerFlush_def completeNext_def completeCommand_def sendReply_def samplePending_def shardAt_def)

lemma sample_genuine: "genuine Map.empty"
  by (simp add: genuine_def)

lemma sample_NewWriter: "NewWriter walConfig noFiles [IoOk, IoOk, IoOk, IoOk, IoOk, IoOk, IoOk, IoOk] = Inr sampleWriter"
  unfolding sampleWriter_def by (rule walConfig_NewWriter)

definition drainedImage :: "(string \<times> byte list option) list" where
  "drainedImage = [(segmentName 3 0, Some (segmentBytes (segmentHeader walConfig) [sampleRecord 7]))]"

lemma drained_image: "crash_image (w_disk (sp_wal drainedShard)) drainedImage" "ws_segmentIndex (sp_wal drainedShard) < 10 ^ 6"
  "\<forall>c\<in>set (wp_appended (sp_wal drainedShard)). encodable (snd c)"
  using sampleRecord_loggable [of 7]
  by (auto simp: drained_fields sample_flushed wal_written wal_started crash_image_def entry_after_def leftOf_def wholeFile_def drainedImage_def
      walChan_def loggable_def)

lemma sample_served: "serve 3 (lp_books sampleLoop) [sampleCommand] = Some ([''BTC'' \<mapsto> restedBook], [sampleRecord 7])"
  by (simp add: sampleLoop_def sampleBooks_def sample_symbol rested_Apply sample_logRecord)

subsection \<open>Properties\<close>





text \<open>
  C30: every command is answered once.  In every state the shard can reach, each command it has received has been answered
  once, or is pending, or its record is being sent to the writer; when the loop has ended, all have been answered.  The
  loop never panics.
\<close>

theorem every_command_is_answered_once:
  assumes "NewWriter cfg d0 outs = Inr w0" and "newLoop k symbols True snapshots = Some l" and "genuine snapshots"
    and "shstep\<^sup>*\<^sup>* (startLoop l m0 w0) s"
  shows "sp_point s \<noteq> LoopPanic
    \<and> mset (map snd (lp_received s)) = mset (map fst (lp_replies s)) + mset (map pc_reply (lp_pending s)) + mset (handReplies (sp_point s))
    \<and> (sp_point s = LoopEnded \<longrightarrow> mset (map snd (lp_received s)) = mset (map fst (lp_replies s)))"
proof -
  have "shinv k (lp_books l) m0 s" using shsteps_shinv [OF assms(4) start_shinv [OF assms(2,3,1)]] by simp
  then show ?thesis by (auto simp: shinv_def repliedOnce_def)
qed

theorem every_command_is_answered_once_witness:
  "mset (map snd (lp_received drainedShard)) = mset (map fst (lp_replies drainedShard)) + mset (map pc_reply (lp_pending drainedShard))"
  using every_command_is_answered_once [OF sample_NewWriter sample_newLoop sample_genuine sample_shard_run] by (simp add: drained_fields)

end
