(* ===== verification/Engine.thy ===== *)
theory Engine
  imports Shard_Properties Sequencer_Order
begin

text \<open>
  The engine (\<open>internal/shard/engine.go\<close>): recovery, the log writers, the shard loops and the sequencer put
  together.  A state has the sequencer and all shards; a step is one of theirs, and a message that a shard
  takes from its inbox is a step of both.  The files of one shard are told from those of the others by their
  names, so each log writer has a disk of its own, with the files of its shard.
\<close>

subsection \<open>Starting\<close>

datatype engine_err =
    EngRegistry error
  | EngRecover recover_err
  | EngExhausted
  | EngWriter wal_err

text \<open>
  \<open>time.Duration(cfg.MaxBatchDelayMicros) * time.Microsecond\<close> is a product of \<open>int64\<close> values.
\<close>

definition batchDelay :: "int \<Rightarrow> int" where
  "batchDelay micros = sint (word_of_int (micros * 1000) :: int64)"

definition engineWriterConfig :: "Config \<Rightarrow> nat \<Rightarrow> WriterConfig" where
  "engineWriterConfig cfg shardID = \<lparr>wc_Dir = cfg_WALDir cfg, wc_EngineID = cfg_EngineID cfg, wc_ShardID = int shardID,
     wc_ShardCount = cfg_ShardCount cfg, wc_QueueSize = cfg_ShardQueueSize cfg, wc_MaxBatchCommands = cfg_MaxBatchCommands cfg,
     wc_MaxBatchBytes = cfg_MaxBatchBytes cfg, wc_MaxBatchDelay = batchDelay (cfg_MaxBatchDelayMicros cfg),
     wc_SegmentMaxBytes = 67108864, wc_Metrics = True\<rparr>"

record Engine =
  en_registry :: SymbolRegistry
  en_sequencer :: "loop_err Sequencer"
  en_shards :: "shardProc list"
  en_engineID :: string
  en_metrics :: "metricCall list"

text \<open>
  The loop of \<open>NewEngine\<close> over the shards, on the disk of each and with the outcomes of its calls.
\<close>

definition startShard :: "Config \<Rightarrow> SymbolRegistry \<Rightarrow> (string \<rightharpoonup> BookSnapshot) \<Rightarrow> uint64 \<Rightarrow> disk \<Rightarrow> io_out list \<Rightarrow> nat
    \<Rightarrow> (engine_err + shardProc) option" where
  "startShard cfg registry recovered mark d outs shardID =
     (case NewWriter (engineWriterConfig cfg shardID) d outs of
        Inl e \<Rightarrow> Some (Inl (EngWriter e))
      | Inr w \<Rightarrow> Option.bind (newLoop shardID (SymbolsForShard registry (int shardID)) True recovered) (\<lambda>l.
          Some (Inr (startLoop l mark w))))"

fun startShards :: "Config \<Rightarrow> SymbolRegistry \<Rightarrow> (string \<rightharpoonup> BookSnapshot) \<Rightarrow> uint64 list \<Rightarrow> (nat \<Rightarrow> disk) \<Rightarrow> (nat \<Rightarrow> io_out list)
    \<Rightarrow> nat list \<Rightarrow> (engine_err + shardProc list) option" where
  "startShards cfg registry recovered watermarks disks outs [] = Some (Inr [])"
| "startShards cfg registry recovered watermarks disks outs (k # ks) =
     Option.bind (startShard cfg registry recovered (watermarks ! k) (disks k) (outs k) k) (\<lambda>r. case r of
         Inl e \<Rightarrow> Some (Inl e)
       | Inr s \<Rightarrow> Option.bind (startShards cfg registry recovered watermarks disks outs ks) (\<lambda>r. case r of
           Inl e \<Rightarrow> Some (Inl e)
         | Inr ss \<Rightarrow> Some (Inr (s # ss))))"

definition NewEngine :: "gob_encoder \<Rightarrow> gob_decoder \<Rightarrow> snap_dir \<Rightarrow> wal_dir \<Rightarrow> (nat \<Rightarrow> disk) \<Rightarrow> (nat \<Rightarrow> io_out list) \<Rightarrow> Config
    \<Rightarrow> (engine_err + Engine) option" where
  "NewEngine genc gdec snapDir walDir disks outs cfg =
     Option.bind (NewSymbolRegistry (cfg_Symbols cfg) (cfg_ShardCount cfg)) (\<lambda>reg. case reg of
         Inl e \<Rightarrow> Some (Inl (EngRegistry e))
       | Inr registry \<Rightarrow> Option.bind (recoverBooks genc gdec snapDir walDir cfg registry) (\<lambda>r. case r of
           Inl e \<Rightarrow> Some (Inl (EngRecover e))
         | Inr (recovered, watermarks) \<Rightarrow>
             (let initialSequence = nextSequence watermarks; n = nat (cfg_ShardCount cfg) in
              if initialSequence = 0 then Some (Inl EngExhausted)
              else Option.bind (startShards cfg registry recovered watermarks disks outs [0..<n]) (\<lambda>r. case r of
                  Inl e \<Rightarrow> Some (Inl e)
                | Inr shards \<Rightarrow> Some (Inr \<lparr>en_registry = registry,
                    en_sequencer = NewSequencer (nat (cfg_IngressQueueSize cfg)) initialSequence n (nat (cfg_ShardQueueSize cfg)) (ShardFor registry),
                    en_shards = shards, en_engineID = cfg_EngineID cfg, en_metrics = []\<rparr>)))))"

subsection \<open>Calls\<close>

text \<open>
  \<open>Submit\<close> and \<open>TrySubmit\<close> after the request is in the channel: the outcome on the reply channel comes from the
  sequencer or from a shard; \<open>None\<close> while there is none.
\<close>

definition replyOn :: "nat \<Rightarrow> Engine \<Rightarrow> ((seq_err + loop_err) + Result) option" where
  "replyOn reply e =
     (case map_of (sq_replies (en_sequencer e)) reply of
        Some (Inl err) \<Rightarrow> Some (Inl (Inl err))
      | Some (Inr result) \<Rightarrow> Some (Inr result)
      | None \<Rightarrow> (case map_of (concat (map lp_replies (en_shards e))) reply of
            Some (Inl err) \<Rightarrow> Some (Inl (Inr err))
          | Some (Inr result) \<Rightarrow> Some (Inr result)
          | None \<Rightarrow> None))"

text \<open>The latency is reported only for a result.\<close>

definition SubmitReturn :: "nat \<Rightarrow> int64 \<Rightarrow> Engine \<Rightarrow> (((seq_err + loop_err) + Result) \<times> Engine) option" where
  "SubmitReturn reply latency e = (case replyOn reply e of
       None \<Rightarrow> None
     | Some (Inl err) \<Rightarrow> Some (Inl err, e)
     | Some (Inr result) \<Rightarrow> Some (Inr result, e\<lparr>en_metrics := en_metrics e @ [ObserveSubmitLatency latency]\<rparr>))"

text \<open>\<open>Shutdown\<close> after that of the sequencer: the shards are waited for in turn, and the first error is returned.\<close>

fun firstFailure :: "loop_err option \<Rightarrow> shardProc list \<Rightarrow> loop_err option option" where
  "firstFailure firstErr [] = Some firstErr"
| "firstFailure firstErr (s # ss) =
     (if sp_point s \<noteq> LoopEnded then None
      else firstFailure (if lp_failedErr s \<noteq> None \<and> firstErr = None then lp_failedErr s else firstErr) ss)"

definition ShutdownReturn :: "Engine \<Rightarrow> loop_err option option" where
  "ShutdownReturn e = firstFailure None (en_shards e)"

definition ValidateSymbolRouting :: "Engine \<Rightarrow> string \<Rightarrow> error option" where
  "ValidateSymbolRouting e symbol =
     (if ShardFor (en_registry e) symbol = None then Some (''symbol is not registered: '' @ symbol) else None)"

text \<open>
  \<open>CreateSnapshot\<close> between the drain and its release: what is read from the shards and handed to \<open>SaveAtomically\<close>.
\<close>

fun shardSnapshots :: "shardProc list \<Rightarrow> (BookSnapshot list \<times> uint64 list) option" where
  "shardSnapshots [] = Some ([], [])"
| "shardSnapshots (s # ss) = Option.bind (loopSnapshots s) (\<lambda>books. Option.bind (shardSnapshots ss) (\<lambda>(bs, seqs).
     Some (books @ bs, lastApplied s # seqs)))"

definition engineSnapshot :: "Engine \<Rightarrow> EngineSnapshot option" where
  "engineSnapshot e = Option.bind (shardSnapshots (en_shards e)) (\<lambda>(books, seqs).
     Some \<lparr>es_EngineID = en_engineID e, es_ShardCount = int (length (en_shards e)), es_LastAppliedByShard = seqs,
       es_Books = sort_key bs_Symbol books\<rparr>)"

subsection \<open>Running\<close>

definition setShard :: "nat \<Rightarrow> shardProc \<Rightarrow> Engine \<Rightarrow> Engine" where
  "setShard k s e = e\<lparr>en_shards := (en_shards e)[k := s]\<rparr>"

text \<open>A step of a shard; the sequencer sees the answers to barriers and drains that it adds.\<close>

definition shardStep :: "nat \<Rightarrow> shardProc \<Rightarrow> Engine \<Rightarrow> Engine" where
  "shardStep k s e = (setShard k s e)
     \<lparr>en_sequencer := (en_sequencer e)\<lparr>sq_answers := sq_answers (en_sequencer e)
        @ drop (length (sp_answers (en_shards e ! k))) (sp_answers s)\<rparr>\<rparr>"

definition onSequencer :: "loop_err Sequencer \<Rightarrow> Engine \<Rightarrow> Engine" where
  "onSequencer q e = e\<lparr>en_sequencer := q\<rparr>"

text \<open>
  \<open>CreateSnapshot\<close> once \<open>AcquireDrain\<close> has returned: the snapshot is saved in the snapshot directory, and the release
  function is called in the end, also after an error.
\<close>

definition snapshotPause :: "int64 \<Rightarrow> Engine \<Rightarrow> Engine" where
  "snapshotPause d e = e\<lparr>en_metrics := en_metrics e @ [ObserveSnapshotPause d]\<rparr>"

definition CreateSnapshot :: "gob_encoder \<Rightarrow> nat \<Rightarrow> int64 \<Rightarrow> Engine \<Rightarrow> world \<Rightarrow> ((snap_err, string) io_res \<times> Engine \<times> world) option" where
  "CreateSnapshot genc release d e w = Option.bind (engineSnapshot e) (\<lambda>snap.
     let (r, w') = SaveAtomically genc snap w;
         e' = (case r of Ret path \<Rightarrow> snapshotPause d e | _ \<Rightarrow> e) in
     Some (r, onSequencer (closeRelease release (en_sequencer e')) e', w'))"

inductive estep :: "Engine \<Rightarrow> Engine \<Rightarrow> bool" where
  e_run: "seqRun (en_sequencer e) = Some q \<Longrightarrow> estep e (onSequencer q e)"
| e_submit: "SubmitBlocking cmd reply (en_sequencer e) = Some (r, q) \<Longrightarrow> estep e (onSequencer q e)"
| e_try: "SubmitNonBlocking cmd reply (en_sequencer e) = (r, q) \<Longrightarrow> estep e (onSequencer q e)"
| e_barrier: "BarrierSend result (en_sequencer e) = Some (r, q) \<Longrightarrow> estep e (onSequencer q e)"
| e_drain: "DrainSend result release (en_sequencer e) = Some (r, q) \<Longrightarrow> estep e (onSequencer q e)"
| e_release: "estep e (onSequencer (closeRelease release (en_sequencer e)) e)"
| e_mark: "seqMarkClosed done (en_sequencer e) = (r, q) \<Longrightarrow> estep e (onSequencer q e)"
| e_shutdown: "done \<in> set (sq_closers (en_sequencer e)) \<Longrightarrow> ShutdownSend done (en_sequencer e) = Some q \<Longrightarrow> estep e (onSequencer q e)"
| e_shutdown_cancel: "done \<in> set (sq_closers (en_sequencer e)) \<Longrightarrow> ShutdownCancel done (en_sequencer e) = (r, q) \<Longrightarrow> estep e (onSequencer q e)"
| e_work: "k < length (en_shards e) \<Longrightarrow> shwork (en_shards e ! k) s \<Longrightarrow> estep e (shardStep k s e)"
| e_receive: "k < length (en_shards e) \<Longrightarrow> canReceive (en_shards e ! k) \<Longrightarrow> sq_inboxes (en_sequencer e) ! k = m # ms
    \<Longrightarrow> estep e (shardStep k (receiveMessage m (en_shards e ! k)) (onSequencer (takeInbox k (en_sequencer e)) e))"
| e_closed: "k < length (en_shards e) \<Longrightarrow> canReceive (en_shards e ! k) \<Longrightarrow> sq_inboxes (en_sequencer e) ! k = []
    \<Longrightarrow> sq_inboxesClosed (en_sequencer e) \<Longrightarrow> estep e (setShard k ((en_shards e ! k)\<lparr>sp_receiving := False\<rparr>) e)"
| e_resume: "k < length (en_shards e) \<Longrightarrow> sp_point (en_shards e ! k) = Held release \<Longrightarrow> release \<in> set (sq_released (en_sequencer e))
    \<Longrightarrow> estep e (setShard k ((en_shards e ! k)\<lparr>sp_point := Selecting\<rparr>) e)"
| e_returned: "SubmitReturn reply latency e = Some (r, e') \<Longrightarrow> estep e e'"
| e_paused: "estep e (snapshotPause d e)"

end
