(* ===== verification/Engine_Run.thy ===== *)
theory Engine_Run
  imports Engine
begin

text \<open>
  A run of the engine is a run of each of its parts, and the parts agree on the commands that pass between them: what
  a shard has received and what waits in its inbox are, in order, the commands the sequencer has sent to it.
\<close>

subsection \<open>Steps of the parts\<close>

lemma answers_steps: "seqstep\<^sup>*\<^sup>* q (q\<lparr>sq_answers := sq_answers q @ as\<rparr>)"
proof (induction as arbitrary: q)
  case (Cons a as)
  have "seqstep q (answerSeq (fst a) (snd a) q)" by (rule seq_answer)
  also note Cons.IH [of "answerSeq (fst a) (snd a) q"]
  finally show ?case by (simp add: answerSeq_def)
qed simp

lemma engine_fields [simp]:
  "en_shards (onSequencer q e) = en_shards e" "en_sequencer (onSequencer q e) = q" "en_registry (onSequencer q e) = en_registry e"
  "en_shards (setShard k s e) = (en_shards e)[k := s]" "en_sequencer (setShard k s e) = en_sequencer e"
  "en_registry (setShard k s e) = en_registry e" "en_engineID (onSequencer q e) = en_engineID e" "en_engineID (setShard k s e) = en_engineID e"
  "en_shards (shardStep k s e) = (en_shards e)[k := s]" "en_registry (shardStep k s e) = en_registry e" "en_engineID (shardStep k s e) = en_engineID e"
  "en_sequencer (shardStep k s e) = (en_sequencer e)\<lparr>sq_answers := sq_answers (en_sequencer e)
     @ drop (length (sp_answers (en_shards e ! k))) (sp_answers s)\<rparr>"
  "en_shards (snapshotPause d e) = en_shards e" "en_sequencer (snapshotPause d e) = en_sequencer e"
  "en_registry (snapshotPause d e) = en_registry e" "en_engineID (snapshotPause d e) = en_engineID e"
  by (simp_all add: onSequencer_def setShard_def shardStep_def snapshotPause_def)

lemma SubmitReturn_fields: "SubmitReturn reply latency e = Some (r, e') \<Longrightarrow>
    en_shards e' = en_shards e \<and> en_sequencer e' = en_sequencer e \<and> en_registry e' = en_registry e \<and> en_engineID e' = en_engineID e"
  by (auto simp: SubmitReturn_def split: option.splits sum.splits)

lemma estep_sequencer:
  assumes "estep e e'" and "length (sq_inboxes (en_sequencer e)) = length (en_shards e)"
  shows "seqstep\<^sup>*\<^sup>* (en_sequencer e) (en_sequencer e')"
  using assms
proof (induction rule: estep.induct)
  case (e_work k e s)
  then show ?case by (simp add: answers_steps)
next
  case (e_receive k e m ms)
  then have "seqstep (en_sequencer e) (takeInbox k (en_sequencer e))" by (intro seq_take) simp_all
  also have "seqstep\<^sup>*\<^sup>* \<dots> (en_sequencer (shardStep k (receiveMessage m (en_shards e ! k)) (onSequencer (takeInbox k (en_sequencer e)) e)))"
    by (simp add: answers_steps)
  finally show ?case .
qed (auto intro: seqstep.intros dest: SubmitReturn_fields)

lemma estep_shards:
  assumes "estep e e'"
  shows "length (en_shards e') = length (en_shards e) \<and> en_registry e' = en_registry e \<and> en_engineID e' = en_engineID e
    \<and> (\<forall>k<length (en_shards e). shstep\<^sup>*\<^sup>* (en_shards e ! k) (en_shards e' ! k))"
  using assms
proof (induction rule: estep.induct)
  case (e_work k e s)
  then show ?case by (auto simp: nth_list_update intro: sh_work)
next
  case (e_receive k e m ms)
  then show ?case by (auto simp: nth_list_update intro: sh_receive)
next
  case (e_closed k e)
  then show ?case by (auto simp: nth_list_update intro: sh_inbox_closed)
next
  case (e_resume k e release)
  then show ?case by (auto simp: nth_list_update intro: sh_release)
qed (auto dest: SubmitReturn_fields)

lemma esteps_shards:
  assumes "estep\<^sup>*\<^sup>* e e'"
  shows "length (en_shards e') = length (en_shards e) \<and> en_registry e' = en_registry e \<and> en_engineID e' = en_engineID e
    \<and> (\<forall>k<length (en_shards e). shstep\<^sup>*\<^sup>* (en_shards e ! k) (en_shards e' ! k))"
  using assms
proof (induction rule: rtranclp_induct)
  case (step t u)
  then show ?case using estep_shards [OF step(2)] by (metis rtranclp_trans)
qed simp

subsection \<open>What a shard receives and applies\<close>

lemma completeNext_received [simp]: "lp_received (completeNext e s) = lp_received s" "lp_applied (completeNext e s) = lp_applied s"
  by (auto simp: completeNext_def completeCommand_def failPending_def sendReply_def Let_def split: list.split option.split)

lemma shwork_received: "shwork s t \<Longrightarrow> lp_received t = lp_received s \<and> lp_applied t = lp_applied s"
  by (induction rule: shwork.induct)
    (auto simp: appendLogged_def appendFailed_def failPending_def sendReply_def flushError_def answerFlush_def Let_def)

fun commandOf :: "Routed \<Rightarrow> (Command \<times> nat) list" where
  "commandOf (RoutedCommand cmd reply) = [(cmd, reply)]"
| "commandOf _ = []"

lemma receive_received:
  "lp_received (receiveMessage m s) = lp_received s @ commandOf m
   \<and> (lp_applied (receiveMessage m s) = lp_applied s \<or> lp_applied (receiveMessage m s) = lp_applied s @ map fst (commandOf m))"
  by (cases m) (auto simp: receiveCommand_def enqueueCommand_def completeCommand_def appendFailed_def failPending_def sendReply_def
      flushPending_def flushWAL_def flushError_def answerFlush_def Let_def split: option.splits prod.splits sum.splits if_splits)

lemma shstep_applied:
  assumes "shstep s t" and "subseq (lp_applied s) (map fst (lp_received s))"
  shows "subseq (lp_applied t) (map fst (lp_received t))"
  using assms
proof (induction rule: shstep.induct)
  case (sh_receive s m)
  have "subseq (lp_applied s) (map fst (lp_received s @ commandOf m))"
    using list_emb_append_mono [OF sh_receive(2), of "[]" "map fst (commandOf m)"] by simp
  moreover have "subseq (lp_applied s @ map fst (commandOf m)) (map fst (lp_received s @ commandOf m))"
    using sh_receive(2) by (simp add: list_emb_append_mono)
  ultimately show ?case using receive_received [of m s] by auto
qed (auto dest: shwork_received)

lemma shsteps_applied: "shstep\<^sup>*\<^sup>* s t \<Longrightarrow> subseq (lp_applied s) (map fst (lp_received s)) \<Longrightarrow> subseq (lp_applied t) (map fst (lp_received t))"
  by (induction rule: rtranclp_induct) (auto intro: shstep_applied)

lemma completeNext_symbols [simp]: "lp_symbols (completeNext e s) = lp_symbols s"
  by (auto simp: completeNext_def completeCommand_def failPending_def sendReply_def Let_def split: list.split option.split)

lemma shwork_symbols: "shwork s t \<Longrightarrow> lp_symbols t = lp_symbols s"
  by (induction rule: shwork.induct)
    (auto simp: appendLogged_def appendFailed_def failPending_def sendReply_def flushError_def answerFlush_def endLoop_def Let_def)

lemma receive_symbols: "lp_symbols (receiveMessage m s) = lp_symbols s"
  by (cases m) (auto simp: receiveCommand_def enqueueCommand_def completeCommand_def appendFailed_def failPending_def sendReply_def
      flushPending_def flushWAL_def flushError_def answerFlush_def Let_def split: option.splits prod.splits sum.splits if_splits)

lemma shsteps_symbols: "shstep\<^sup>*\<^sup>* s t \<Longrightarrow> lp_symbols t = lp_symbols s"
proof (induction rule: rtranclp_induct)
  case (step t u)
  from step(2) have "lp_symbols u = lp_symbols t" by (cases rule: shstep.cases) (auto simp: shwork_symbols receive_symbols)
  then show ?case using step(3) by simp
qed simp

subsection \<open>What passes between the sequencer and the shards\<close>

definition sentTo :: "nat \<Rightarrow> (nat \<times> Routed) list \<Rightarrow> (Command \<times> nat) list" where
  "sentTo k ms = concat (map (\<lambda>m. if fst m = k then commandOf (snd m) else []) ms)"

definition coupled :: "Engine \<Rightarrow> bool" where
  "coupled e \<longleftrightarrow> length (sq_inboxes (en_sequencer e)) = length (en_shards e)
     \<and> (\<forall>k<length (en_shards e). lp_received (en_shards e ! k) @ concat (map commandOf (sq_inboxes (en_sequencer e) ! k))
          = sentTo k (sq_sent (en_sequencer e)))"

lemma coupled_quiet:
  assumes "coupled e" and "sq_inboxes (en_sequencer e') = sq_inboxes (en_sequencer e)" and "sq_sent (en_sequencer e') = sq_sent (en_sequencer e)"
    and "length (en_shards e') = length (en_shards e)" and "\<forall>k<length (en_shards e). lp_received (en_shards e' ! k) = lp_received (en_shards e ! k)"
  shows "coupled e'"
  using assms by (simp add: coupled_def)

lemma take_channels [simp]: "sq_inboxes (takeRequest req q) = sq_inboxes q" "sq_sent (takeRequest req q) = sq_sent q"
  by (cases req; auto simp: takeCommand_def replySeq_def observeSeq_def Let_def split: option.split)+

lemma end_channels [simp]: "sq_inboxes (endBroadcast req err q) = sq_inboxes q" "sq_sent (endBroadcast req err q) = sq_sent q"
  by (cases req; simp)+

lemma seqRun_channels:
  assumes "seqRun q = Some q'"
  shows "sq_inboxes q' = sq_inboxes q \<and> sq_sent q' = sq_sent q
    \<or> (\<exists>k m. sq_inboxes q' = (sq_inboxes q)[k := sq_inboxes q ! k @ [m]] \<and> sq_sent q' = sq_sent q @ [(k, m)])"
  using assms
  by (auto simp: seqRun_def sendInbox_def split: seqPoint.splits list.splits if_splits option.splits)

lemma coupled_run:
  assumes "coupled e" and "seqRun (en_sequencer e) = Some q"
  shows "coupled (onSequencer q e)"
  using seqRun_channels [OF assms(2)]
proof
  assume "\<exists>k m. sq_inboxes q = (sq_inboxes (en_sequencer e))[k := sq_inboxes (en_sequencer e) ! k @ [m]] \<and> sq_sent q = sq_sent (en_sequencer e) @ [(k, m)]"
  then show ?thesis using assms(1) by (auto simp: coupled_def sentTo_def nth_list_update)
qed (use assms(1) in \<open>auto intro: coupled_quiet\<close>)

lemma call_channels:
  "SubmitBlocking cmd reply q = Some (r, q') \<Longrightarrow> sq_inboxes q' = sq_inboxes q \<and> sq_sent q' = sq_sent q"
  "SubmitNonBlocking cmd reply q = (r, q') \<Longrightarrow> sq_inboxes q' = sq_inboxes q \<and> sq_sent q' = sq_sent q"
  "BarrierSend result q = Some (r, q') \<Longrightarrow> sq_inboxes q' = sq_inboxes q \<and> sq_sent q' = sq_sent q"
  "DrainSend result release q = Some (r, q') \<Longrightarrow> sq_inboxes q' = sq_inboxes q \<and> sq_sent q' = sq_sent q"
  "seqMarkClosed d q = (b, q') \<Longrightarrow> sq_inboxes q' = sq_inboxes q \<and> sq_sent q' = sq_sent q"
  "ShutdownSend d q = Some q' \<Longrightarrow> sq_inboxes q' = sq_inboxes q \<and> sq_sent q' = sq_sent q"
  "ShutdownCancel d q = (x, q') \<Longrightarrow> sq_inboxes q' = sq_inboxes q \<and> sq_sent q' = sq_sent q"
  by (auto simp: SubmitBlocking_def SubmitNonBlocking_def BarrierSend_def DrainSend_def seqMarkClosed_def ShutdownSend_def
      ShutdownCancel_def enqueue_def observeSeq_def Let_def split: if_splits)

lemma coupled_call:
  "coupled e \<Longrightarrow> sq_inboxes q = sq_inboxes (en_sequencer e) \<Longrightarrow> sq_sent q = sq_sent (en_sequencer e) \<Longrightarrow> coupled (onSequencer q e)"
  by (simp add: coupled_def)

lemma estep_coupled: "estep e e' \<Longrightarrow> coupled e \<Longrightarrow> coupled e'"
proof (induction rule: estep.induct)
  case (e_run e q)
  then show ?case by (blast intro: coupled_run)
next
  case (e_work k e s)
  then show ?case using shwork_received [OF e_work(2)] by - (rule coupled_quiet [of e], auto simp: nth_list_update)
next
  case (e_receive k e m ms)
  then show ?case using receive_received [of m "en_shards e ! k"] by (auto simp: coupled_def takeInbox_def nth_list_update)
next
  case (e_closed k e)
  then show ?case by - (rule coupled_quiet [of e], auto simp: nth_list_update)
next
  case (e_resume k e release)
  then show ?case by - (rule coupled_quiet [of e], auto simp: nth_list_update)
next
  case (e_returned reply latency e r e')
  then show ?case using SubmitReturn_fields [OF e_returned(1)] by (simp add: coupled_def)
next
  case (e_paused e d)
  then show ?case by (simp add: coupled_def)
qed (auto simp: closeRelease_def intro: coupled_call dest: call_channels)

lemma esteps_parts:
  assumes "estep\<^sup>*\<^sup>* e e'" and "coupled e"
  shows "coupled e' \<and> seqstep\<^sup>*\<^sup>* (en_sequencer e) (en_sequencer e')"
  using assms
proof (induction rule: rtranclp_induct)
  case (step t u)
  then have t: "coupled t" "seqstep\<^sup>*\<^sup>* (en_sequencer e) (en_sequencer t)" by simp_all
  have "seqstep\<^sup>*\<^sup>* (en_sequencer t) (en_sequencer u)" using estep_sequencer [OF step(2)] t(1) by (simp add: coupled_def)
  then show ?case using t(2) estep_coupled [OF step(2) t(1)] by (meson rtranclp_trans)
qed simp

end
