(* ===== verification/Engine_Crash.thy ===== *)
theory Engine_Crash
  imports Engine_Run
begin

text \<open>
  The engine from its start on the directories of an earlier run to a crash at any point: what each shard has applied, and
  what a restarted engine reads.
\<close>

subsection \<open>Directories\<close>

text \<open>
  All shards write to one directory.  The files of a shard are those with its prefix; after a crash, the files of every
  shard in the directory are what the crash left of its files.
\<close>

definition shardFiles :: "nat \<Rightarrow> wal_dir \<Rightarrow> wal_dir" where
  "shardFiles k dir = filter (\<lambda>f. globMatch (segmentPrefix k) ''.wal'' (fst f)) dir"

definition crashDir :: "nat \<Rightarrow> (nat \<Rightarrow> disk) \<Rightarrow> wal_dir \<Rightarrow> bool" where
  "crashDir n disks dir \<longleftrightarrow> (\<forall>k<n. \<exists>img. crash_image (disks k) img \<and> shardFiles k dir = shardFiles k img)"

definition walDisk :: "Engine \<Rightarrow> nat \<Rightarrow> disk" where
  "walDisk e k = w_disk (sp_wal (en_shards e ! k))"

lemma map_of_filter_key: "P name \<Longrightarrow> map_of (filter (\<lambda>f. P (fst f)) dir) name = map_of dir name"
  by (induction dir) auto

lemma readFiles_same:
  assumes "\<forall>name\<in>set names. map_of dir name = map_of dir' name"
  shows "readFiles dir engineID k n v names = readFiles dir' engineID k n v names"
  using assms by (induction names) simp_all

lemma read_shardFiles:
  assumes "shardFiles k dir = shardFiles k dir'"
  shows "ReadShardRecordsForEngine dir engineID k n = ReadShardRecordsForEngine dir' engineID k n"
proof -
  have g: "glob (segmentPrefix k) ''.wal'' (map fst d) = map fst (shardFiles k d)" for d :: wal_dir
    by (simp add: glob_def shardFiles_def filter_map o_def)
  have "map_of dir name = map_of dir' name" if "name \<in> set (map fst (shardFiles k dir'))" for name
  proof -
    have "globMatch (segmentPrefix k) ''.wal'' name" using that by (auto simp: shardFiles_def)
    then have "map_of (shardFiles k d) name = map_of d name" for d :: wal_dir
      unfolding shardFiles_def by (rule map_of_filter_key)
    then show ?thesis using assms by metis
  qed
  then show ?thesis using assms
    unfolding ReadShardRecordsForEngine_def readShardRecords_def g by (simp add: readFiles_same)
qed

subsection \<open>What the engine starts from\<close>

text \<open>The books of a shard and its log after a list of commands, from empty books.\<close>

definition servedBy :: "SymbolRegistry \<Rightarrow> nat \<Rightarrow> Command list \<Rightarrow> books \<Rightarrow> Record list \<Rightarrow> bool" where
  "servedBy registry k cs after log \<longleftrightarrow> (\<exists>start. openBooks Map.empty Map.empty (SymbolsForShard registry (int k)) = Some start
     \<and> serve (word_of_nat k) start cs = Some (after, log))"

text \<open>
  The logs of an earlier run: the records of the commands \<open>hist k\<close> that the books of each shard served from the start,
  in whole segments.
\<close>

definition logged :: "Config \<Rightarrow> SymbolRegistry \<Rightarrow> (nat \<Rightarrow> disk) \<Rightarrow> (nat \<Rightarrow> Record list list) \<Rightarrow> (nat \<Rightarrow> Command list) \<Rightarrow> bool" where
  "logged cfg registry disks recss hist \<longleftrightarrow> (\<forall>k<nat (cfg_ShardCount cfg). logBase (engineWriterConfig cfg k) (disks k) (recss k)
     \<and> (\<forall>c\<in>set (hist k). ShardFor registry (cmd_Symbol c) = Some (int k)) \<and> sorted_wrt (<) (0 # map cmd_Seq (hist k))
     \<and> (\<exists>after. servedBy registry k (hist k) after (concat (recss k))))"

text \<open>The latest snapshot, if there is one, was taken when each shard had served a prefix of the commands.\<close>

definition snapshotOf :: "gob_encoder \<Rightarrow> gob_decoder \<Rightarrow> snap_dir \<Rightarrow> Config \<Rightarrow> SymbolRegistry \<Rightarrow> (nat \<Rightarrow> Command list) \<Rightarrow> bool" where
  "snapshotOf genc gdec snapDir cfg registry hist \<longleftrightarrow> LoadLatest genc gdec snapDir = Inl SnapNotExist
     \<or> (\<exists>snap path pre mid. LoadLatest genc gdec snapDir = Inr (snap, path) \<and> snapshotTaken cfg registry pre mid snap
          \<and> (\<forall>k<nat (cfg_ShardCount cfg). prefix (pre k) (hist k) \<and> (\<exists>log. servedBy registry k (pre k) (mid k) log)))"

lemma shard_symbols:
  assumes "Config_Validate cfg = None" and "NewSymbolRegistry (cfg_Symbols cfg) (cfg_ShardCount cfg) = Some (Inr registry)"
    and "cfg_ShardCount cfg < 2 ^ 32" and "ShardFor registry s = Some (int k)"
  shows "s \<in> set (SymbolsForShard registry (int k)) \<and> k < nat (cfg_ShardCount cfg)"
  using assms(4) registry_laws(1) [OF assms(1-3), of k] registry_laws(2) [OF assms(1-3), of s] registry_laws(3) [OF assms(1-3), of s]
  by (cases "s \<in> set (cfg_Symbols cfg)") auto

lemma servedBy_refines:
  assumes "servedBy registry k cs after log" and "\<forall>c\<in>set cs. cmd_Symbol c \<in> set (SymbolsForShard registry (int k))"
  shows "log = abs_log (word_of_nat k) emptyBook cs" and "books_rep after (abs_serve emptyBook cs)"
    and "dom after = set (SymbolsForShard registry (int k))"
proof -
  obtain start where "openBooks Map.empty Map.empty (SymbolsForShard registry (int k)) = Some start"
    "serve (word_of_nat k) start cs = Some (after, log)" using assms(1) by (auto simp: servedBy_def)
  from shard_run_refines [OF this(1), of "[]" cs "word_of_nat k" start "[]" after log] this(2) assms(2)
  show "log = abs_log (word_of_nat k) emptyBook cs" and "books_rep after (abs_serve emptyBook cs)"
    and "dom after = set (SymbolsForShard registry (int k))" by simp_all
qed

lemma servedBy_total:
  assumes "\<forall>c\<in>set cs. cmd_Symbol c \<in> set (SymbolsForShard registry (int k))"
  shows "\<exists>after. servedBy registry k cs after (abs_log (word_of_nat k) emptyBook cs)"
proof -
  have "\<exists>start. openBooks Map.empty Map.empty (SymbolsForShard registry (int k)) = Some start \<and> books_rep start emptyBook
      \<and> dom start = dom (Map.empty :: books) \<union> set (SymbolsForShard registry (int k))"
    by (rule openBooks_rep) (simp_all add: books_rep_def)
  then obtain start where "openBooks Map.empty Map.empty (SymbolsForShard registry (int k)) = Some start" "books_rep start emptyBook"
    "dom start = set (SymbolsForShard registry (int k))" by auto
  then show ?thesis using serve_refines [of start emptyBook cs "word_of_nat k"] assms unfolding servedBy_def by metis
qed

text \<open>Recovery from a log of which a snapshot covers the first commands.\<close>

lemma recover_logged:
  assumes cfg: "Config_Validate cfg = None" "NewSymbolRegistry (cfg_Symbols cfg) (cfg_ShardCount cfg) = Some (Inr registry)"
      "cfg_ShardCount cfg < 2 ^ 32"
    and "snapshotOf genc gdec snapDir cfg registry hist"
    and "\<forall>k<nat (cfg_ShardCount cfg). \<forall>c\<in>set (hist k). ShardFor registry (cmd_Symbol c) = Some (int k)"
    and "\<forall>k<nat (cfg_ShardCount cfg). sorted_wrt (<) (0 # map cmd_Seq (hist k))"
    and "\<forall>k<nat (cfg_ShardCount cfg). ReadShardRecordsForEngine walDir (cfg_EngineID cfg) k (nat (cfg_ShardCount cfg))
           = Inr (abs_log (word_of_nat k) emptyBook (hist k))"
  shows "\<exists>out. recoverBooks genc gdec snapDir walDir cfg registry
      = Some (Inr (out, map (\<lambda>k. lastSeq 0 (hist k)) [0..<nat (cfg_ShardCount cfg)]))
    \<and> (\<forall>s\<in>set (cfg_Symbols cfg). \<forall>k. ShardFor registry s = Some (int k) \<longrightarrow> out s = Some (abs_snapshot (abs_serve emptyBook (hist k) s)))"
proof -
  let ?n = "nat (cfg_ShardCount cfg)"
  obtain pre mid where pre: "\<forall>k<?n. prefix (pre k) (hist k)"
    "\<forall>k<?n. \<forall>s b. mid k s = Some b \<longrightarrow> Snapshot b = Some (abs_snapshot (abs_serve emptyBook (pre k) s))"
    "(\<exists>snap path. LoadLatest genc gdec snapDir = Inr (snap, path) \<and> snapshotTaken cfg registry pre mid snap)
       \<or> LoadLatest genc gdec snapDir = Inl SnapNotExist \<and> (\<forall>k<?n. pre k = [])"
  proof (cases "LoadLatest genc gdec snapDir = Inl SnapNotExist")
    case True
    then show thesis by (intro that [of "\<lambda>_. []" "\<lambda>_. Map.empty"]) simp_all
  next
    case False
    then obtain snap path pre mid where s: "LoadLatest genc gdec snapDir = Inr (snap, path)" "snapshotTaken cfg registry pre mid snap"
      "\<forall>k<?n. prefix (pre k) (hist k) \<and> (\<exists>log. servedBy registry k (pre k) (mid k) log)"
      using assms(4) by (auto simp: snapshotOf_def)
    have "Snapshot b = Some (abs_snapshot (abs_serve emptyBook (pre k) s))" if k: "k < ?n" and m: "mid k s = Some b" for k s b
    proof -
      obtain log where "servedBy registry k (pre k) (mid k) log" using s(3) k by blast
      moreover have "\<forall>c\<in>set (pre k). cmd_Symbol c \<in> set (SymbolsForShard registry (int k))"
        using s(3) k assms(5) shard_symbols [OF cfg] by (meson set_mono_prefix subsetD)
      ultimately have "books_rep (mid k) (abs_serve emptyBook (pre k))" by (rule servedBy_refines(2))
      then show ?thesis using m Snapshot_refines(1) by (simp add: books_rep_def)
    qed
    then show thesis using s that [of pre mid] by blast
  qed
  define post where "post k = drop (length (pre k)) (hist k)" for k
  have h: "hist k = pre k @ post k" if "k < ?n" for k using pre(1) that by (auto simp: post_def prefix_def)
  have n: "0 < cfg_ShardCount cfg" using Config_ValidateD(4) [OF cfg(1)] .
  have "Snapshot b = Some (abs_snapshot (abs_serve emptyBook (pre k) s))"
    if "ShardFor registry s = Some (int k)" "mid k s = Some b" for k s b
    using pre(2) that shard_symbols [OF cfg that(1)] by blast
  from snapshot_or_empty [where A = "\<lambda>k. abs_serve emptyBook (pre k)", OF pre(3) n this] obtain restored where
    r: "loadSnapshot cfg registry (LoadLatest genc gdec snapDir) = Inr (map (\<lambda>k. lastSeq 0 (pre k)) [0..<?n], restored)"
    "\<forall>s\<in>set (cfg_Symbols cfg). \<forall>k. ShardFor registry s = Some (int k) \<longrightarrow>
         restored s = Some (abs_snapshot (abs_serve emptyBook (pre k) s)) \<or> (restored s = None \<and> pre k = [])"
    using shard_symbols [OF cfg] by blast
  obtain out where out: "recoverBooks genc gdec snapDir walDir cfg registry = Some (Inr (out, map (\<lambda>k. lastSeq 0 (pre k @ post k)) [0..<?n]))"
    "\<forall>s\<in>set (cfg_Symbols cfg). \<forall>k. ShardFor registry s = Some (int k) \<longrightarrow> out s = Some (abs_snapshot (abs_serve emptyBook (pre k @ post k) s))"
    using recoverBooks_refines [OF cfg _ _ _ r, of post walDir] assms(5-7) h by auto
  have "map (\<lambda>k. lastSeq 0 (pre k @ post k)) [0..<?n] = map (\<lambda>k. lastSeq 0 (hist k)) [0..<?n]" using h by simp
  then show ?thesis using out h shard_symbols [OF cfg] by (intro exI [of _ out]) auto
qed

subsection \<open>The start\<close>

lemma startShards_ok:
  assumes "startShards cfg registry recovered marks disks outs ks = Some (Inr ss)"
  shows "length ss = length ks \<and> (\<forall>i<length ks. \<exists>w l. NewWriter (engineWriterConfig cfg (ks ! i)) (disks (ks ! i)) (outs (ks ! i)) = Inr w
    \<and> newLoop (ks ! i) (SymbolsForShard registry (int (ks ! i))) True recovered = Some l \<and> ss ! i = startLoop l (marks ! (ks ! i)) w)"
  using assms
proof (induction ks arbitrary: ss)
  case (Cons k ks)
  obtain s ss' where s: "startShard cfg registry recovered (marks ! k) (disks k) (outs k) k = Some (Inr s)"
    "startShards cfg registry recovered marks disks outs ks = Some (Inr ss')" "ss = s # ss'"
    using Cons.prems by (auto split: bind_splits sum.splits)
  have "\<exists>w l. NewWriter (engineWriterConfig cfg k) (disks k) (outs k) = Inr w
      \<and> newLoop k (SymbolsForShard registry (int k)) True recovered = Some l \<and> s = startLoop l (marks ! k) w"
    using s(1) by (auto simp: startShard_def split: bind_splits sum.splits)
  then show ?case using Cons.IH [OF s(2)] s(3) by (auto simp: less_Suc_eq_0_disj)
qed simp

text \<open>A shard at its start, after the commands \<open>hist\<close> of the earlier run.\<close>

definition startsAt :: "Config \<Rightarrow> SymbolRegistry \<Rightarrow> disk \<Rightarrow> nat \<Rightarrow> Command list \<Rightarrow> books \<Rightarrow> wproc \<Rightarrow> shardProc \<Rightarrow> bool" where
  "startsAt cfg registry d k hist books0 w s \<longleftrightarrow> (\<exists>outs. NewWriter (engineWriterConfig cfg k) d outs = Inr w)
     \<and> shinv k books0 (lastSeq 0 hist) s \<and> lp_symbols s = SymbolsForShard registry (int k) \<and> sp_wal s = w \<and> lp_received s = [] \<and> lp_applied s = []
     \<and> lp_books s = books0 \<and> lp_lastAppliedSeq s = lastSeq 0 hist
     \<and> books_rep books0 (abs_serve emptyBook hist) \<and> dom books0 = set (SymbolsForShard registry (int k))"

lemma newLoop_recovered:
  assumes "\<forall>s\<in>set symbols. recovered s = Some (abs_snapshot (abs_serve emptyBook cs s))"
  shows "\<exists>l. newLoop k symbols True recovered = Some l \<and> books_rep (lp_books l) (abs_serve emptyBook cs) \<and> dom (lp_books l) = set symbols"
proof -
  have "\<exists>books'. openBooks recovered Map.empty symbols = Some books' \<and> books_rep books' (abs_serve emptyBook cs)
      \<and> dom books' = dom (Map.empty :: books) \<union> set symbols"
    using assms abs_serve_represented by (intro openBooks_rep) (auto simp: books_rep_def)
  then obtain books' where "openBooks recovered Map.empty symbols = Some books'" "books_rep books' (abs_serve emptyBook cs)"
    "dom books' = set symbols" by auto
  then show ?thesis by (simp add: newLoop_def)
qed

lemma start_recovers:
  assumes cfg: "Config_Validate cfg = None" "NewSymbolRegistry (cfg_Symbols cfg) (cfg_ShardCount cfg) = Some (Inr registry)"
      "cfg_ShardCount cfg < 2 ^ 32"
    and hist: "logged cfg registry disks recss hist" "snapshotOf genc gdec snapDir cfg registry hist"
      "crashDir (nat (cfg_ShardCount cfg)) disks walDir"
  shows "\<exists>out. recoverBooks genc gdec snapDir walDir cfg registry = Some (Inr (out, map (\<lambda>k. lastSeq 0 (hist k)) [0..<nat (cfg_ShardCount cfg)]))
    \<and> (\<forall>k<nat (cfg_ShardCount cfg). \<forall>s\<in>set (SymbolsForShard registry (int k)). out s = Some (abs_snapshot (abs_serve emptyBook (hist k) s)))"
proof -
  let ?n = "nat (cfg_ShardCount cfg)"
  have log: "ReadShardRecordsForEngine walDir (cfg_EngineID cfg) k ?n = Inr (abs_log (word_of_nat k) emptyBook (hist k))" if k: "k < ?n" for k
  proof -
    obtain after where s: "logBase (engineWriterConfig cfg k) (disks k) (recss k)" "servedBy registry k (hist k) after (concat (recss k))"
      using hist(1) k by (auto simp: logged_def)
    obtain img where img: "crash_image (disks k) img" "shardFiles k walDir = shardFiles k img" using hist(3) k by (auto simp: crashDir_def)
    have "ReadShardRecordsForEngine img (cfg_EngineID cfg) k ?n = Inr (map stored (concat (recss k)))"
      using base_reads [OF s(1)] img(1) by (auto simp: readsBack_def engineWriterConfig_def)
    moreover have "concat (recss k) = abs_log (word_of_nat k) emptyBook (hist k)"
      using hist(1) k shard_symbols [OF cfg] by (intro servedBy_refines(1) [OF s(2)]) (auto simp: logged_def)
    ultimately show ?thesis using read_shardFiles [OF img(2)] by (simp add: map_stored_abs_log)
  qed
  obtain out where out: "recoverBooks genc gdec snapDir walDir cfg registry = Some (Inr (out, map (\<lambda>k. lastSeq 0 (hist k)) [0..<?n]))"
    "\<forall>s\<in>set (cfg_Symbols cfg). \<forall>k. ShardFor registry s = Some (int k) \<longrightarrow> out s = Some (abs_snapshot (abs_serve emptyBook (hist k) s))"
    using recover_logged [OF cfg hist(2), of walDir] hist(1) log by (auto simp: logged_def)
  then show ?thesis using registry_laws(1) [OF cfg] by (intro exI [of _ out]) simp
qed

lemma engine_start:
  assumes cfg: "Config_Validate cfg = None" "NewSymbolRegistry (cfg_Symbols cfg) (cfg_ShardCount cfg) = Some (Inr registry)"
      "cfg_ShardCount cfg < 2 ^ 32"
    and hist: "logged cfg registry disks recss hist" "snapshotOf genc gdec snapDir cfg registry hist"
      "crashDir (nat (cfg_ShardCount cfg)) disks walDir"
    and new: "NewEngine genc gdec snapDir walDir disks outs cfg = Some (Inr e)"
  shows "\<exists>i. i \<noteq> 0 \<and> (\<forall>k<nat (cfg_ShardCount cfg). lastSeq 0 (hist k) < i) \<and> (\<exists>k<nat (cfg_ShardCount cfg). i = lastSeq 0 (hist k) + 1) \<and> en_registry e = registry \<and> en_engineID e = cfg_EngineID cfg
    \<and> length (en_shards e) = nat (cfg_ShardCount cfg)
    \<and> en_sequencer e = NewSequencer (nat (cfg_IngressQueueSize cfg)) i (nat (cfg_ShardCount cfg)) (nat (cfg_ShardQueueSize cfg)) (ShardFor registry)
    \<and> (\<forall>k<nat (cfg_ShardCount cfg). \<exists>books0 w. startsAt cfg registry (disks k) k (hist k) books0 w (en_shards e ! k))"
proof -
  let ?n = "nat (cfg_ShardCount cfg)"
  obtain out where out: "recoverBooks genc gdec snapDir walDir cfg registry = Some (Inr (out, map (\<lambda>k. lastSeq 0 (hist k)) [0..<?n]))"
    "\<forall>k<?n. \<forall>s\<in>set (SymbolsForShard registry (int k)). out s = Some (abs_snapshot (abs_serve emptyBook (hist k) s))"
    using start_recovers [OF cfg hist] by blast
  let ?marks = "map (\<lambda>k. lastSeq 0 (hist k)) [0..<?n]" and ?i = "nextSequence (map (\<lambda>k. lastSeq 0 (hist k)) [0..<?n])"
  obtain shards where sh: "?i \<noteq> 0" "startShards cfg registry out ?marks disks outs [0..<?n] = Some (Inr shards)"
    "e = \<lparr>en_registry = registry, en_sequencer = NewSequencer (nat (cfg_IngressQueueSize cfg)) ?i ?n (nat (cfg_ShardQueueSize cfg)) (ShardFor registry),
      en_shards = shards, en_engineID = cfg_EngineID cfg, en_metrics = []\<rparr>"
    using new cfg(2) out(1) by (auto simp: NewEngine_def Let_def split: bind_splits if_splits sum.splits)
  have "lastSeq 0 (hist k) < ?i" if "k < ?n" for k using nextSequence_above [OF sh(1)] that by simp
  moreover have "\<exists>k<?n. ?i = lastSeq 0 (hist k) + 1"
    using nextSequence_next [of ?marks] Config_ValidateD(4) [OF cfg(1)] by auto
  moreover have "\<exists>books0 w. startsAt cfg registry (disks k) k (hist k) books0 w (shards ! k)" if k: "k < ?n" for k
  proof -
    obtain w l where s: "NewWriter (engineWriterConfig cfg k) (disks k) (outs k) = Inr w"
      "newLoop k (SymbolsForShard registry (int k)) True out = Some l" "shards ! k = startLoop l (lastSeq 0 (hist k)) w"
      using startShards_ok [OF sh(2)] k by auto
    have "\<forall>s\<in>set (SymbolsForShard registry (int k)). out s = Some (abs_snapshot (abs_serve emptyBook (hist k) s))" using out(2) k by simp
    from newLoop_recovered [OF this, of k] s(2) have b: "books_rep (lp_books l) (abs_serve emptyBook (hist k))"
      "dom (lp_books l) = set (SymbolsForShard registry (int k))" by simp_all
    have "lp_received l = [] \<and> lp_applied l = [] \<and> lp_symbols l = SymbolsForShard registry (int k)" using s(2) by (auto simp: newLoop_def Option.bind_eq_Some_conv)
    then show ?thesis using s(1,3) b start_shinv_rep [OF s(2) b(1) s(1)]
      by (intro exI [of _ "lp_books l"] exI [of _ w]) (auto simp: startsAt_def startLoop_def Loop.extend_def)
  qed
  ultimately show ?thesis using sh startShards_ok [OF sh(2)]
    by (intro exI [of _ ?i]) simp
qed

text \<open>The shard goes on where the commands have ended: their watermark, and books with the snapshots of those that served them.\<close>

definition continues :: "SymbolRegistry \<Rightarrow> nat \<Rightarrow> Command list \<Rightarrow> shardProc \<Rightarrow> bool" where
  "continues registry k cs s \<longleftrightarrow> lastApplied s = lastSeq 0 cs \<and> (\<exists>after log. servedBy registry k cs after log
     \<and> dom (lp_books s) = dom after \<and> (\<forall>x b b'. lp_books s x = Some b \<and> after x = Some b' \<longrightarrow> Snapshot b = Snapshot b' \<and> Snapshot b \<noteq> None))"

lemma startsAt_continues:
  assumes "startsAt cfg registry d k cs books0 w s" and "\<forall>c\<in>set cs. cmd_Symbol c \<in> set (SymbolsForShard registry (int k))"
  shows "continues registry k cs s"
proof -
  have s: "books_rep (lp_books s) (abs_serve emptyBook cs)" "dom (lp_books s) = set (SymbolsForShard registry (int k))" "lastApplied s = lastSeq 0 cs"
    using assms(1) by (auto simp: startsAt_def lastApplied_def)
  obtain after log where a: "servedBy registry k cs after log" using servedBy_total [OF assms(2)] by blast
  note r = servedBy_refines(2,3) [OF a assms(2)]
  have "Snapshot b = Snapshot b' \<and> Snapshot b \<noteq> None" if "lp_books s x = Some b" "after x = Some b'" for x b b'
    using that s(1) r(1) Snapshot_refines(1) unfolding books_rep_def by (metis option.distinct(1))
  then show ?thesis using s(2,3) a r(2) unfolding continues_def by blast
qed

subsection \<open>The run\<close>

lemma sorted_wrt_subseq: "subseq xs ys \<Longrightarrow> sorted_wrt P ys \<Longrightarrow> sorted_wrt P xs"
proof (induction rule: list_emb.induct)
  case (list_emb_Cons2 x y xs ys)
  then show ?case by (auto dest: list_emb_set)
qed simp_all

lemma assign_origin:
  "(k, RoutedCommand c r) \<in> set (assign f n rs) \<Longrightarrow> \<exists>c0. RequestCommand c0 r \<in> set rs \<and> c = c0\<lparr>cmd_Seq := cmd_Seq c\<rparr>"
  by (induction f n rs rule: assign.induct) (fastforce split: option.splits if_splits)+

lemma refused_origin:
  "(r, Inr result) \<in> set (refused f n rs) \<Longrightarrow>
   \<exists>c. RequestCommand c r \<in> set rs \<and> f (cmd_Symbol c) = None \<and> result = invalidSymbolResult 0 (cmd_OrderID c)"
  by (induction f n rs rule: refused.induct) (fastforce split: option.splits if_splits)+

lemma commandOf_iff: "(c, r) \<in> set (commandOf m) \<longleftrightarrow> m = RoutedCommand c r"
  by (cases m) auto

lemma sentTo_append [simp]: "sentTo k (ms @ ms') = sentTo k ms @ sentTo k ms'"
  by (simp add: sentTo_def)

lemma sentTo_iff: "(c, r) \<in> set (sentTo k ms) \<longleftrightarrow> (k, RoutedCommand c r) \<in> set ms"
  by (force simp: sentTo_def commandOf_iff split: if_splits)

lemma sentTo_filter: "sentTo k (filter (\<lambda>m. isCommand (snd m)) ms) = sentTo k ms"
proof (induction ms)
  case (Cons m ms)
  then show ?case by (cases "snd m") (simp_all add: sentTo_def)
qed (simp add: sentTo_def)

lemma sentTo_sorted:
  "sorted_wrt (<) (map (\<lambda>m. routedSeq (snd m)) ms) \<Longrightarrow> sorted_wrt (<) (map (\<lambda>x. cmd_Seq (fst x)) (sentTo k ms))"
proof (induction ms)
  case (Cons m ms)
  have "cmd_Seq c < cmd_Seq (fst x)" if m: "commandOf (snd m) = [(c, r)]" and x: "x \<in> set (sentTo k ms)" for c r x
  proof -
    have "snd m = RoutedCommand c r" using m by (cases "snd m") auto
    moreover obtain c' r' where "x = (c', r')" "(k, RoutedCommand c' r') \<in> set ms" using x sentTo_iff by (metis surj_pair)
    ultimately show ?thesis using Cons.prems by force
  qed
  then show ?case using Cons by (cases "snd m") (auto simp: sentTo_def)
qed (simp add: sentTo_def)

text \<open>The commands a shard has received, as the sequencer has numbered and routed them.\<close>

definition routedTo :: "Engine \<Rightarrow> SymbolRegistry \<Rightarrow> uint64 \<Rightarrow> nat \<Rightarrow> bool" where
  "routedTo e registry i k \<longleftrightarrow> (let xs = lp_received (en_shards e ! k) in sorted_wrt (<) (map (\<lambda>x. cmd_Seq (fst x)) xs)
     \<and> (\<forall>(c, r)\<in>set xs. i \<le> cmd_Seq c \<and> ShardFor registry (cmd_Symbol c) = Some (int k)
          \<and> (\<exists>c0. RequestCommand c0 r \<in> set (sq_submitted (en_sequencer e)) \<and> c = c0\<lparr>cmd_Seq := cmd_Seq c\<rparr>)))"

lemma received_routed:
  assumes "reg.numbered symbols n i handled (en_sequencer e)" and "ShardFor registry = registryRoute symbols n" and "i \<noteq> 0"
    and "coupled e" and "k < length (en_shards e)"
  shows "routedTo e registry i k"
proof -
  let ?a = "assign (registryRoute symbols n) i handled" and ?q = "en_sequencer e"
  have q: "filter (\<lambda>m. isCommand (snd m)) (sq_sent ?q) @ inHand (sq_point ?q) = ?a" "sq_submitted ?q = handled @ sq_ingressQ ?q"
    using assms(1) by (simp_all add: reg.numbered_def)
  note a = assign_seqs [OF assms(3), of "registryRoute symbols n" handled]
  have "sentTo k ?a = sentTo k (sq_sent ?q) @ sentTo k (inHand (sq_point ?q))"
    unfolding q(1) [symmetric] by (simp add: sentTo_filter)
  then have p: "prefix (lp_received (en_shards e ! k)) (sentTo k ?a)"
    using assms(4,5) by (metis append.assoc coupled_def prefixI)
  have "sorted_wrt (<) (map (\<lambda>x. cmd_Seq (fst x)) (sentTo k ?a))" using a by (blast intro: sentTo_sorted)
  then have "sorted_wrt (<) (map (\<lambda>x. cmd_Seq (fst x)) (lp_received (en_shards e ! k)))"
    using p by (auto simp: prefix_def sorted_wrt_append)
  moreover have "i \<le> cmd_Seq c \<and> ShardFor registry (cmd_Symbol c) = Some (int k)
      \<and> (\<exists>c0. RequestCommand c0 r \<in> set (sq_submitted ?q) \<and> c = c0\<lparr>cmd_Seq := cmd_Seq c\<rparr>)"
    if "(c, r) \<in> set (lp_received (en_shards e ! k))" for c r
  proof -
    have m: "(k, RoutedCommand c r) \<in> set ?a" using that p sentTo_iff by (metis set_mono_prefix subsetD)
    then obtain k' where k': "i \<le> cmd_Seq c" "registryRoute symbols n (cmd_Symbol c) = Some k'" "k = nat k'" using a by force
    then have "ShardFor registry (cmd_Symbol c) = Some (int k)" using reg.shard_in_range [OF k'(2)] assms(2) by simp
    then show ?thesis using k'(1) assign_origin [OF m] q(2) by auto
  qed
  ultimately show ?thesis by (auto simp: routedTo_def)
qed

text \<open>A shard in a run.\<close>

definition runsFrom :: "Config \<Rightarrow> SymbolRegistry \<Rightarrow> disk \<Rightarrow> nat \<Rightarrow> Command list \<Rightarrow> books \<Rightarrow> wproc \<Rightarrow> shardProc \<Rightarrow> bool" where
  "runsFrom cfg registry d k hist books0 w s \<longleftrightarrow> (\<exists>outs. NewWriter (engineWriterConfig cfg k) d outs = Inr w)
     \<and> shinv k books0 (lastSeq 0 hist) s \<and> lp_symbols s = SymbolsForShard registry (int k) \<and> wstep\<^sup>*\<^sup>* w (sp_wal s) \<and> subseq (lp_applied s) (map fst (lp_received s))
     \<and> books_rep books0 (abs_serve emptyBook hist) \<and> dom books0 = set (SymbolsForShard registry (int k))"

lemma startsAt_runs:
  assumes "startsAt cfg registry d k hist books0 w s" and "shstep\<^sup>*\<^sup>* s t"
  shows "runsFrom cfg registry d k hist books0 w t"
  using assms shsteps_shinv [OF assms(2), of k books0 "lastSeq 0 hist"] shsteps_applied [OF assms(2)] shsteps_symbols [OF assms(2)]
  by (auto simp: startsAt_def runsFrom_def)

text \<open>The sequencer in a run: it has numbered the requests it has handled, and agrees with the shards on the commands sent.\<close>

lemma engine_parts:
  assumes cfg: "Config_Validate cfg = None" "NewSymbolRegistry (cfg_Symbols cfg) (cfg_ShardCount cfg) = Some (Inr registry)"
      "cfg_ShardCount cfg < 2 ^ 32"
    and hist: "logged cfg registry disks recss hist" "snapshotOf genc gdec snapDir cfg registry hist"
      "crashDir (nat (cfg_ShardCount cfg)) disks walDir"
    and new: "NewEngine genc gdec snapDir walDir disks outs cfg = Some (Inr e0)" and run: "estep\<^sup>*\<^sup>* e0 e"
  obtains i handled where "i \<noteq> 0" and "\<forall>k<nat (cfg_ShardCount cfg). lastSeq 0 (hist k) < i"
    and "reg.numbered (cfg_Symbols cfg) (cfg_ShardCount cfg) i handled (en_sequencer e)" and "coupled e"
    and "length (en_shards e) = nat (cfg_ShardCount cfg)"
    and "seqstep\<^sup>*\<^sup>* (NewSequencer (nat (cfg_IngressQueueSize cfg)) i (nat (cfg_ShardCount cfg)) (nat (cfg_ShardQueueSize cfg)) (ShardFor registry)) (en_sequencer e)"
    and "\<forall>k<nat (cfg_ShardCount cfg). \<exists>books0 w. runsFrom cfg registry (disks k) k (hist k) books0 w (en_shards e ! k)"
    and "en_registry e = registry" and "en_engineID e = cfg_EngineID cfg" and "ShardFor registry = registryRoute (cfg_Symbols cfg) (cfg_ShardCount cfg)"
proof -
  let ?n = "nat (cfg_ShardCount cfg)"
  let ?q = "nat (cfg_IngressQueueSize cfg)" and ?b = "nat (cfg_ShardQueueSize cfg)"
  obtain i where i: "i \<noteq> 0" "\<forall>k<?n. lastSeq 0 (hist k) < i" and f: "en_registry e0 = registry" "en_engineID e0 = cfg_EngineID cfg"
    "length (en_shards e0) = ?n" "en_sequencer e0 = NewSequencer ?q i ?n ?b (ShardFor registry)"
    "\<forall>k<?n. \<exists>books0 w. startsAt cfg registry (disks k) k (hist k) books0 w (en_shards e0 ! k)"
    using engine_start [OF cfg hist new] by blast
  have route: "ShardFor registry = registryRoute (cfg_Symbols cfg) (cfg_ShardCount cfg)"
    using cfg(2) by (simp add: registryRoute_def fun_eq_iff)
  have "coupled e0" using f by (auto simp: coupled_def NewSequencer_def sentTo_def startsAt_def)
  from esteps_parts [OF run this] esteps_shards [OF run] have p: "coupled e" "length (en_shards e) = ?n" "en_registry e = registry" "en_engineID e = cfg_EngineID cfg"
    "seqstep\<^sup>*\<^sup>* (NewSequencer ?q i ?n ?b (ShardFor registry)) (en_sequencer e)" "\<forall>k<?n. shstep\<^sup>*\<^sup>* (en_shards e0 ! k) (en_shards e ! k)"
    using f by simp_all
  from reg.numbered_steps [OF p(5) [unfolded route] reg.numbered_new [OF Config_ValidateD(4) [OF cfg(1)] i(1)]] obtain handled where
    h: "reg.numbered (cfg_Symbols cfg) (cfg_ShardCount cfg) i handled (en_sequencer e)" by blast
  have "\<exists>books0 w. runsFrom cfg registry (disks k) k (hist k) books0 w (en_shards e ! k)" if "k < ?n" for k
    using f(5) p(6) that startsAt_runs by blast
  then show thesis using that [OF i h p(1,2,5) _ p(3,4) route] by blast
qed

lemma engine_run:
  assumes cfg: "Config_Validate cfg = None" "NewSymbolRegistry (cfg_Symbols cfg) (cfg_ShardCount cfg) = Some (Inr registry)"
      "cfg_ShardCount cfg < 2 ^ 32"
    and hist: "logged cfg registry disks recss hist" "snapshotOf genc gdec snapDir cfg registry hist"
      "crashDir (nat (cfg_ShardCount cfg)) disks walDir"
    and new: "NewEngine genc gdec snapDir walDir disks outs cfg = Some (Inr e0)" and run: "estep\<^sup>*\<^sup>* e0 e"
  shows "\<exists>i. (\<forall>k<nat (cfg_ShardCount cfg). lastSeq 0 (hist k) < i \<and> routedTo e registry i k
        \<and> (\<exists>books0 w. runsFrom cfg registry (disks k) k (hist k) books0 w (en_shards e ! k)))
    \<and> en_registry e = registry \<and> en_engineID e = cfg_EngineID cfg \<and> length (en_shards e) = nat (cfg_ShardCount cfg)
    \<and> (\<forall>r result. (r, Inr result) \<in> set (sq_replies (en_sequencer e)) \<longrightarrow> (\<exists>c. RequestCommand c r \<in> set (sq_submitted (en_sequencer e))
          \<and> ShardFor registry (cmd_Symbol c) = None \<and> result = invalidSymbolResult 0 (cmd_OrderID c)))"
proof (rule engine_parts [OF assms])
  let ?n = "nat (cfg_ShardCount cfg)"
  fix i handled assume i: "i \<noteq> 0" "\<forall>k<?n. lastSeq 0 (hist k) < i"
    and h: "reg.numbered (cfg_Symbols cfg) (cfg_ShardCount cfg) i handled (en_sequencer e)" and p: "coupled e" "length (en_shards e) = ?n"
    and runs: "\<forall>k<?n. \<exists>books0 w. runsFrom cfg registry (disks k) k (hist k) books0 w (en_shards e ! k)"
    and f: "en_registry e = registry" "en_engineID e = cfg_EngineID cfg" and route: "ShardFor registry = registryRoute (cfg_Symbols cfg) (cfg_ShardCount cfg)"
  have "routedTo e registry i k" if "k < ?n" for k using received_routed [OF h route i(1) p(1)] that p(2) by simp
  moreover have "\<exists>c. RequestCommand c r \<in> set (sq_submitted (en_sequencer e)) \<and> ShardFor registry (cmd_Symbol c) = None
      \<and> result = invalidSymbolResult 0 (cmd_OrderID c)" if "(r, Inr result) \<in> set (sq_replies (en_sequencer e))" for r result
    using that h route refused_origin by (fastforce simp: reg.numbered_def)
  ultimately show ?thesis using i(2) p(2) runs f by blast
qed

end
