(* ===== verification/Engine_Recovery.thy ===== *)
theory Engine_Recovery
  imports Engine_Crash
begin

text \<open>From the start of the engine to a crash at any point, and the recovery after it.\<close>

subsection \<open>The log of a shard after a crash\<close>

lemma abs_log_take: "take n (abs_log shard A cs) = abs_log shard A (take n cs)"
  by (induction cs arbitrary: A n) (simp, case_tac n, simp_all)

text \<open>The limits of the file format: at most a million segments, and records that can be encoded.\<close>

definition withinLimits :: "wproc \<Rightarrow> bool" where
  "withinLimits w \<longleftrightarrow> ws_segmentIndex w < 10 ^ 6 \<and> (\<forall>c\<in>set (wp_appended w). encodable (snd c))"

lemma shard_after_crash:
  assumes run: "runsFrom cfg registry d k hist books0 w s" and base: "logBase (engineWriterConfig cfg k) d recss"
    and log: "concat recss = abs_log (word_of_nat k) emptyBook hist"
    and crash: "crash_image (w_disk (sp_wal s)) img" "withinLimits (sp_wal s)"
  shows "\<exists>m. length (ackedChans (sp_wal s)) \<le> m
    \<and> ReadShardRecordsForEngine img (cfg_EngineID cfg) k (nat (cfg_ShardCount cfg))
        = Inr (abs_log (word_of_nat k) emptyBook (hist @ take m (lp_applied s)))
    \<and> (\<forall>reply result. (reply, Inr result) \<in> set (lp_replies s) \<longrightarrow> (\<exists>cmd. (cmd, reply) \<in> set (lp_received s)
        \<and> (cmd_Symbol cmd \<notin> dom books0 \<or> logRecord (word_of_nat k) cmd result \<in> set (abs_log (word_of_nat k) emptyBook (hist @ take m (lp_applied s))))))"
proof -
  obtain outs where r: "NewWriter (engineWriterConfig cfg k) d outs = Inr w" "shinv k books0 (lastSeq 0 hist) s" "wstep\<^sup>*\<^sup>* w (sp_wal s)"
    "books_rep books0 (abs_serve emptyBook hist)" using run by (auto simp: runsFrom_def)
  have c: "wc_ShardID (engineWriterConfig cfg k) = int k" "wc_EngineID (engineWriterConfig cfg k) = cfg_EngineID cfg"
    "wc_ShardCount (engineWriterConfig cfg k) = cfg_ShardCount cfg" by (simp_all add: engineWriterConfig_def)
  have l: "ws_segmentIndex (sp_wal s) < 10 ^ 6" "\<forall>c\<in>set (wp_appended (sp_wal s)). encodable (snd c)"
    using crash(2) by (simp_all add: withinLimits_def)
  from shard_reads [OF base r(1,3,2) c(1) crash(1) l] obtain recs m where
    m: "serve (word_of_nat k) books0 (lp_applied s) = Some (lp_books s, recs)" "length (ackedChans (sp_wal s)) \<le> m"
    "ackedChans (sp_wal s) = take (length (ackedChans (sp_wal s))) (wp_appended (sp_wal s))"
    "take m recs = map snd (take m (wp_appended (sp_wal s)))"
    "ReadShardRecordsForEngine img (cfg_EngineID cfg) k (nat (cfg_ShardCount cfg)) = Inr (map stored (concat recss) @ take m recs)"
    unfolding c by blast
  have "\<forall>c\<in>set (lp_applied s). cmd_Symbol c \<in> dom books0" using r(2) by (simp add: shinv_def served_def)
  then have "recs = abs_log (word_of_nat k) (abs_serve emptyBook hist) (lp_applied s)"
    using serve_refines [OF r(4), of "lp_applied s" "word_of_nat k"] m(1) by auto
  then have a: "map stored (concat recss) @ take m recs = abs_log (word_of_nat k) emptyBook (hist @ take m (lp_applied s))"
    unfolding log by (simp add: abs_log_append abs_log_take map_stored_abs_log)
  then have "set (take m recs) \<subseteq> set (abs_log (word_of_nat k) emptyBook (hist @ take m (lp_applied s)))" by (metis Un_upper2 set_append)
  then show ?thesis using replied_logged [OF r(2) m(2-4)] m(2,5) a by (intro exI [of _ m]) fastforce
qed

text \<open>The commands of a shard after a run: those of the earlier run, and a part of what it has applied.\<close>

lemma applied_commands:
  assumes "routedTo e registry i k" and "subseq (lp_applied (en_shards e ! k)) (map fst (lp_received (en_shards e ! k)))"
    and "lastSeq 0 hist < i" and "sorted_wrt (<) (0 # map cmd_Seq hist)" and "\<forall>c\<in>set hist. ShardFor registry (cmd_Symbol c) = Some (int k)"
    and "cs = hist @ take m (lp_applied (en_shards e ! k))"
  shows "sorted_wrt (<) (0 # map cmd_Seq cs)" and "\<forall>c\<in>set cs. ShardFor registry (cmd_Symbol c) = Some (int k)"
proof -
  let ?a = "take m (lp_applied (en_shards e ! k))" and ?r = "lp_received (en_shards e ! k)"
  have sub: "subseq ?a (map fst ?r)"
    by (rule subseq_order.order_trans [OF prefix_imp_subseq [OF take_is_prefix] assms(2)])
  have set_subseq: "set ?a \<subseteq> set (map fst ?r)" using sub by (auto elim: list_emb_set)
  have r: "sorted_wrt (<) (map cmd_Seq (map fst ?r))" "\<forall>c\<in>set (map fst ?r). i \<le> cmd_Seq c \<and> ShardFor registry (cmd_Symbol c) = Some (int k)"
    using assms(1) by (auto simp: routedTo_def Let_def o_def)
  have "sorted_wrt (<) (map cmd_Seq ?a)" using sorted_wrt_subseq [OF subseq_map [OF sub, of cmd_Seq] r(1)] .
  moreover have in_r: "\<forall>c\<in>set ?a. i \<le> cmd_Seq c \<and> ShardFor registry (cmd_Symbol c) = Some (int k)"
    using r(2) set_subseq by auto
  ultimately show "\<forall>c\<in>set cs. ShardFor registry (cmd_Symbol c) = Some (int k)" using assms(5,6) by auto
  have "\<forall>c\<in>set hist. cmd_Seq c \<le> lastSeq 0 hist" using sorted_seqs_covered(1) [of 0 hist "[]"] assms(4) by simp
  moreover have "0 < i" using assms(3) by (metis le_less_trans word_zero_le)
  ultimately show "sorted_wrt (<) (0 # map cmd_Seq cs)"
    using assms(3,4,6) in_r \<open>sorted_wrt (<) (map cmd_Seq ?a)\<close> by (force simp: sorted_wrt_append)
qed

subsection \<open>Recovery after a crash\<close>

text \<open>
  What a restarted engine finds: recovery succeeds, with the books and the watermarks of the commands \<open>hist k\<close> of the earlier run
  and the first \<open>m k\<close> commands of those the shard has applied in this one; and every result that a
  caller has is the rejection of an unknown symbol or is in the log that was recovered, with the command of that caller.
\<close>

definition recoversRun :: "gob_encoder \<Rightarrow> gob_decoder \<Rightarrow> snap_dir \<Rightarrow> wal_dir \<Rightarrow> Config \<Rightarrow> SymbolRegistry \<Rightarrow> (nat \<Rightarrow> Command list) \<Rightarrow> Engine \<Rightarrow> bool" where
  "recoversRun genc gdec snapDir walDir cfg registry hist e \<longleftrightarrow> (\<exists>cs m after log out.
       (\<forall>k<nat (cfg_ShardCount cfg). cs k = hist k @ take (m k) (lp_applied (en_shards e ! k)) \<and> servedBy registry k (cs k) (after k) (log k))
     \<and> recoverBooks genc gdec snapDir walDir cfg registry = Some (Inr (out, map (\<lambda>k. lastSeq 0 (cs k)) [0..<nat (cfg_ShardCount cfg)]))
     \<and> (\<forall>s\<in>set (cfg_Symbols cfg). \<exists>k b. ShardFor registry s = Some (int k) \<and> after k s = Some b \<and> out s = Snapshot b)
     \<and> (\<forall>reply result. replyOn reply e = Some (Inr result) \<longrightarrow> (\<exists>cmd. RequestCommand cmd reply \<in> set (sq_submitted (en_sequencer e))
          \<and> (ShardFor registry (cmd_Symbol cmd) = None \<and> result = invalidSymbolResult 0 (cmd_OrderID cmd)
            \<or> (\<exists>k<nat (cfg_ShardCount cfg). \<exists>sequence. logRecord (word_of_nat k) (cmd\<lparr>cmd_Seq := sequence\<rparr>) result \<in> set (log k))))))"

lemma snapshotOf_mono:
  assumes "snapshotOf genc gdec snapDir cfg registry hist" and "\<forall>k<nat (cfg_ShardCount cfg). prefix (hist k) (hist' k)"
  shows "snapshotOf genc gdec snapDir cfg registry hist'"
  using assms unfolding snapshotOf_def by (meson prefix_order.trans)

lemma replyOn_source:
  assumes "replyOn reply e = Some (Inr result)"
  shows "(reply, Inr result) \<in> set (sq_replies (en_sequencer e)) \<or> (\<exists>k<length (en_shards e). (reply, Inr result) \<in> set (lp_replies (en_shards e ! k)))"
proof (cases "map_of (sq_replies (en_sequencer e)) reply")
  case None
  then have "map_of (concat (map lp_replies (en_shards e))) reply = Some (Inr result)"
    using assms by (auto simp: replyOn_def split: option.splits sum.splits)
  from map_of_SomeD [OF this] show ?thesis by (auto simp: in_set_conv_nth)
next
  case (Some r)
  then have "r = Inr result" using assms by (auto simp: replyOn_def split: sum.splits)
  then show ?thesis using map_of_SomeD [OF Some] by simp
qed

lemma replied_request:
  assumes "routedTo e registry i k" and "cmd_Symbol cmd \<in> dom books0 \<Longrightarrow> logRecord (word_of_nat k) cmd result \<in> set log"
    and "(cmd, reply) \<in> set (lp_received (en_shards e ! k))" and "\<And>s. ShardFor registry s = Some (int k) \<Longrightarrow> s \<in> dom books0"
  shows "\<exists>cmd. RequestCommand cmd reply \<in> set (sq_submitted (en_sequencer e))
    \<and> (\<exists>sequence. logRecord (word_of_nat k) (cmd\<lparr>cmd_Seq := sequence\<rparr>) result \<in> set log)"
proof -
  obtain c0 where "ShardFor registry (cmd_Symbol cmd) = Some (int k)" "RequestCommand c0 reply \<in> set (sq_submitted (en_sequencer e))"
    "cmd = c0\<lparr>cmd_Seq := cmd_Seq cmd\<rparr>" using assms(1,3) by (auto simp: routedTo_def Let_def)
  then show ?thesis using assms(2,4) by metis
qed

text \<open>The log of one shard in the directory after a crash, and the results its callers have.\<close>

definition shardLog :: "Config \<Rightarrow> Command list \<Rightarrow> Engine \<Rightarrow> wal_dir \<Rightarrow> nat \<Rightarrow> nat \<Rightarrow> bool" where
  "shardLog cfg hist e walDir k m \<longleftrightarrow> (let log = abs_log (word_of_nat k) emptyBook (hist @ take m (lp_applied (en_shards e ! k))) in
     ReadShardRecordsForEngine walDir (cfg_EngineID cfg) k (nat (cfg_ShardCount cfg)) = Inr log
     \<and> (\<forall>reply result. (reply, Inr result) \<in> set (lp_replies (en_shards e ! k)) \<longrightarrow> (\<exists>cmd. RequestCommand cmd reply \<in> set (sq_submitted (en_sequencer e))
          \<and> (\<exists>sequence. logRecord (word_of_nat k) (cmd\<lparr>cmd_Seq := sequence\<rparr>) result \<in> set log))))"

lemma shard_log:
  assumes cfg: "Config_Validate cfg = None" "NewSymbolRegistry (cfg_Symbols cfg) (cfg_ShardCount cfg) = Some (Inr registry)"
      "cfg_ShardCount cfg < 2 ^ 32"
    and hist: "logged cfg registry disks recss hist" and k: "k < nat (cfg_ShardCount cfg)"
    and run: "runsFrom cfg registry (disks k) k (hist k) books0 w (en_shards e ! k)" "routedTo e registry i k"
    and crash: "crashDir (nat (cfg_ShardCount cfg)) (walDisk e) walDir'" "withinLimits (sp_wal (en_shards e ! k))"
  shows "\<exists>m. length (ackedChans (sp_wal (en_shards e ! k))) \<le> m \<and> shardLog cfg (hist k) e walDir' k m"
proof -
  let ?s = "en_shards e ! k" and ?log = "\<lambda>m. abs_log (word_of_nat k) emptyBook (hist k @ take m (lp_applied (en_shards e ! k)))"
  obtain img where img: "crash_image (w_disk (sp_wal ?s)) img" "shardFiles k walDir' = shardFiles k img"
    using crash(1) k by (auto simp: crashDir_def walDisk_def)
  obtain after where l: "logBase (engineWriterConfig cfg k) (disks k) (recss k)" "servedBy registry k (hist k) after (concat (recss k))"
    "\<forall>c\<in>set (hist k). ShardFor registry (cmd_Symbol c) = Some (int k)" using hist k by (auto simp: logged_def)
  have "concat (recss k) = abs_log (word_of_nat k) emptyBook (hist k)"
    using l(3) shard_symbols [OF cfg] by (intro servedBy_refines(1) [OF l(2)]) blast
  from shard_after_crash [OF run(1) l(1) this img(1) crash(2)] obtain m where m: "length (ackedChans (sp_wal ?s)) \<le> m"
    "ReadShardRecordsForEngine img (cfg_EngineID cfg) k (nat (cfg_ShardCount cfg)) = Inr (?log m)"
    "\<forall>reply result. (reply, Inr result) \<in> set (lp_replies ?s) \<longrightarrow> (\<exists>cmd. (cmd, reply) \<in> set (lp_received ?s)
        \<and> (cmd_Symbol cmd \<notin> dom books0 \<or> logRecord (word_of_nat k) cmd result \<in> set (?log m)))" by blast
  have dom: "s \<in> dom books0" if "ShardFor registry s = Some (int k)" for s
    using run(1) that shard_symbols [OF cfg that] by (simp add: runsFrom_def)
  have "\<exists>cmd. RequestCommand cmd reply \<in> set (sq_submitted (en_sequencer e))
      \<and> (\<exists>sequence. logRecord (word_of_nat k) (cmd\<lparr>cmd_Seq := sequence\<rparr>) result \<in> set (?log m))"
    if reply: "(reply, Inr result) \<in> set (lp_replies ?s)" for reply result
  proof -
    obtain cmd where c: "(cmd, reply) \<in> set (lp_received ?s)" "cmd_Symbol cmd \<in> dom books0 \<Longrightarrow> logRecord (word_of_nat k) cmd result \<in> set (?log m)"
      using m(3) reply by blast
    show ?thesis by (rule replied_request [OF run(2) c(2,1) dom])
  qed
  then show ?thesis using m(1,2) read_shardFiles [OF img(2)] by (auto simp: shardLog_def Let_def)
qed

lemma recovered_books:
  assumes cfg: "Config_Validate cfg = None" "NewSymbolRegistry (cfg_Symbols cfg) (cfg_ShardCount cfg) = Some (Inr registry)"
      "cfg_ShardCount cfg < 2 ^ 32"
    and routed: "\<forall>k<nat (cfg_ShardCount cfg). \<forall>c\<in>set (cs k). ShardFor registry (cmd_Symbol c) = Some (int k)"
    and out: "\<forall>s\<in>set (cfg_Symbols cfg). \<forall>k. ShardFor registry s = Some (int k) \<longrightarrow> out s = Some (abs_snapshot (abs_serve emptyBook (cs k) s))"
  shows "\<exists>after. (\<forall>k<nat (cfg_ShardCount cfg). servedBy registry k (cs k) (after k) (abs_log (word_of_nat k) emptyBook (cs k)))
    \<and> (\<forall>s\<in>set (cfg_Symbols cfg). \<exists>k b. ShardFor registry s = Some (int k) \<and> after k s = Some b \<and> out s = Snapshot b)"
proof -
  let ?n = "nat (cfg_ShardCount cfg)"
  have known: "\<forall>c\<in>set (cs k). cmd_Symbol c \<in> set (SymbolsForShard registry (int k))" if "k < ?n" for k
    using routed that shard_symbols [OF cfg] by blast
  then have "\<forall>k. \<exists>after. k < ?n \<longrightarrow> servedBy registry k (cs k) after (abs_log (word_of_nat k) emptyBook (cs k))"
    using servedBy_total by blast
  from choice [OF this] obtain after where after: "\<forall>k<?n. servedBy registry k (cs k) (after k) (abs_log (word_of_nat k) emptyBook (cs k))" by blast
  have "\<exists>k b. ShardFor registry s = Some (int k) \<and> after k s = Some b \<and> out s = Snapshot b" if s: "s \<in> set (cfg_Symbols cfg)" for s
  proof -
    obtain k where k: "k < ?n" "ShardFor registry s = Some (int k)" using registry_laws(2) [OF cfg s] by blast
    have r: "books_rep (after k) (abs_serve emptyBook (cs k))" "dom (after k) = set (SymbolsForShard registry (int k))"
      using after k(1) servedBy_refines(2,3) known by blast+
    then obtain b where b: "after k s = Some b" using shard_symbols [OF cfg k(2)] by blast
    then have "Snapshot b = Some (abs_snapshot (abs_serve emptyBook (cs k) s))" using r(1) Snapshot_refines(1) by (simp add: books_rep_def)
    then show ?thesis using out s k(2) b by metis
  qed
  then show ?thesis using after by blast
qed

lemma engine_crash:
  assumes cfg: "Config_Validate cfg = None" "NewSymbolRegistry (cfg_Symbols cfg) (cfg_ShardCount cfg) = Some (Inr registry)"
      "cfg_ShardCount cfg < 2 ^ 32"
    and hist: "logged cfg registry disks recss hist" "snapshotOf genc gdec snapDir cfg registry hist"
      "crashDir (nat (cfg_ShardCount cfg)) disks walDir"
    and new: "NewEngine genc gdec snapDir walDir disks outs cfg = Some (Inr e0)" and run: "estep\<^sup>*\<^sup>* e0 e"
    and crash: "crashDir (nat (cfg_ShardCount cfg)) (walDisk e) walDir'" "\<forall>k<nat (cfg_ShardCount cfg). withinLimits (sp_wal (en_shards e ! k))"
    and snap: "snapshotOf genc gdec snapDir' cfg registry (\<lambda>k. hist k @ take (a k) (lp_applied (en_shards e ! k)))"
      "\<forall>k<nat (cfg_ShardCount cfg). a k \<le> length (ackedChans (sp_wal (en_shards e ! k)))"
  shows "recoversRun genc gdec snapDir' walDir' cfg registry hist e"
proof -
  let ?n = "nat (cfg_ShardCount cfg)" and ?s = "\<lambda>k. en_shards e ! k"
  obtain i where i: "\<forall>k<?n. lastSeq 0 (hist k) < i \<and> routedTo e registry i k"
    "\<forall>k<?n. \<exists>books0 w. runsFrom cfg registry (disks k) k (hist k) books0 w (?s k)" and len: "length (en_shards e) = ?n"
    and rej: "\<forall>r result. (r, Inr result) \<in> set (sq_replies (en_sequencer e)) \<longrightarrow> (\<exists>c. RequestCommand c r \<in> set (sq_submitted (en_sequencer e))
          \<and> ShardFor registry (cmd_Symbol c) = None \<and> result = invalidSymbolResult 0 (cmd_OrderID c))"
    using engine_run [OF cfg hist new run] by blast
  have "\<exists>m. a k \<le> m \<and> shardLog cfg (hist k) e walDir' k m" if k: "k < ?n" for k
    using shard_log [OF cfg hist(1) k _ _ crash(1), of _ _ i] i crash(2) snap(2) k by (meson order.trans)
  then have "\<forall>k. \<exists>m. k < ?n \<longrightarrow> a k \<le> m \<and> shardLog cfg (hist k) e walDir' k m" by blast
  from choice [OF this] obtain m where m: "\<forall>k<?n. a k \<le> m k" "\<forall>k<?n. shardLog cfg (hist k) e walDir' k (m k)" by blast
  define cs where "cs k = hist k @ take (m k) (lp_applied (?s k))" for k
  have "sorted_wrt (<) (0 # map cmd_Seq (cs k)) \<and> (\<forall>c\<in>set (cs k). ShardFor registry (cmd_Symbol c) = Some (int k))" if k: "k < ?n" for k
  proof -
    have "subseq (lp_applied (?s k)) (map fst (lp_received (?s k)))" using i(2) k by (auto simp: runsFrom_def)
    moreover have "lastSeq 0 (hist k) < i" "routedTo e registry i k" using i(1) k by simp_all
    moreover have "sorted_wrt (<) (0 # map cmd_Seq (hist k))" "\<forall>c\<in>set (hist k). ShardFor registry (cmd_Symbol c) = Some (int k)"
      using hist(1) k unfolding logged_def by blast+
    ultimately show ?thesis using applied_commands [OF _ _ _ _ _ cs_def] by blast
  qed
  then have seqs: "\<forall>k<?n. sorted_wrt (<) (0 # map cmd_Seq (cs k))" and routed: "\<forall>k<?n. \<forall>c\<in>set (cs k). ShardFor registry (cmd_Symbol c) = Some (int k)"
    by blast+
  have "prefix (take (a k) xs) (take (m k) xs)" if "k < ?n" for k and xs :: "Command list"
    using m(1) that take_is_prefix [of "a k" "take (m k) xs"] by (simp add: min_absorb1)
  then have "snapshotOf genc gdec snapDir' cfg registry cs" by (intro snapshotOf_mono [OF snap(1)]) (simp add: cs_def)
  from recover_logged [OF cfg this routed seqs, of walDir'] m(2) obtain out where
    out: "recoverBooks genc gdec snapDir' walDir' cfg registry = Some (Inr (out, map (\<lambda>k. lastSeq 0 (cs k)) [0..<?n]))"
    "\<forall>s\<in>set (cfg_Symbols cfg). \<forall>k. ShardFor registry s = Some (int k) \<longrightarrow> out s = Some (abs_snapshot (abs_serve emptyBook (cs k) s))"
    by (auto simp: shardLog_def cs_def Let_def)
  obtain after where after: "\<forall>k<?n. servedBy registry k (cs k) (after k) (abs_log (word_of_nat k) emptyBook (cs k))"
    "\<forall>s\<in>set (cfg_Symbols cfg). \<exists>k b. ShardFor registry s = Some (int k) \<and> after k s = Some b \<and> out s = Snapshot b"
    using recovered_books [OF cfg routed out(2)] by blast
  have "\<exists>cmd. RequestCommand cmd reply \<in> set (sq_submitted (en_sequencer e))
      \<and> (ShardFor registry (cmd_Symbol cmd) = None \<and> result = invalidSymbolResult 0 (cmd_OrderID cmd)
        \<or> (\<exists>k<?n. \<exists>sequence. logRecord (word_of_nat k) (cmd\<lparr>cmd_Seq := sequence\<rparr>) result \<in> set (abs_log (word_of_nat k) emptyBook (cs k))))"
    if "replyOn reply e = Some (Inr result)" for reply result
    using replyOn_source [OF that] rej m(2) len by (simp add: shardLog_def cs_def Let_def) blast
  then show ?thesis using after out(1) unfolding recoversRun_def
    by (intro exI [of _ cs] exI [of _ m] exI [of _ after] exI [of _ "\<lambda>k. abs_log (word_of_nat k) emptyBook (cs k)"] exI [of _ out])
      (simp add: cs_def)
qed

end
