(* ===== verification/Engine_Drain.thy ===== *)
theory Engine_Drain
  imports Engine_Crash
begin

text \<open>
  Barriers and drains between the sequencer and the shards.  The sequencer asks one shard after the other and waits for each
  answer, so at most one question is on its way; when a drain has been answered by all shards, all of them stand
  still until it is released.
\<close>

subsection \<open>Questions on their way\<close>

text \<open>A question is the channel for its answer and, for a drain, the channel of the release.\<close>

fun questionIn :: "Routed \<Rightarrow> (nat \<times> nat option) list" where
  "questionIn (RoutedCommand cmd reply) = []"
| "questionIn (RoutedBarrier ch) = [(ch, None)]"
| "questionIn (RoutedDrain ch release) = [(ch, Some release)]"

fun questionAt :: "loopPoint \<Rightarrow> (nat \<times> nat option) list" where
  "questionAt (FlushSending ch release) = [(ch, release)]"
| "questionAt (FlushWaiting d ch release) = [(ch, release)]"
| "questionAt (Completing ch release) = [(ch, release)]"
| "questionAt _ = []"

fun releaseOf :: "request \<Rightarrow> nat option" where
  "releaseOf (RequestDrain result release) = Some release"
| "releaseOf _ = None"

text \<open>A shard has answered a question: it goes on, or it is held, and after an answer without an error it has not failed.\<close>

definition answeredWith :: "nat \<Rightarrow> nat option \<Rightarrow> shardProc \<Rightarrow> shardProc \<Rightarrow> bool" where
  "answeredWith ch release s t \<longleftrightarrow> (\<exists>err. sp_answers t = sp_answers s @ [(ch, err)]
     \<and> sp_point t = (case release of None \<Rightarrow> Selecting | Some r \<Rightarrow> Held r) \<and> (err = None \<longrightarrow> lp_failedErr t = None))"

definition standsStill :: "shardProc \<Rightarrow> shardProc \<Rightarrow> bool" where
  "standsStill s t \<longleftrightarrow> sp_point t = sp_point s \<and> lp_failedErr t = lp_failedErr s \<and> lp_books t = lp_books s
     \<and> lp_symbols t = lp_symbols s \<and> lp_lastAppliedSeq t = lp_lastAppliedSeq s"

lemma completeNext_point [simp]: "sp_point (completeNext e s) = sp_point s" "sp_answers (completeNext e s) = sp_answers s"
  by (auto simp: completeNext_def completeCommand_def failPending_def sendReply_def Let_def split: list.split option.split)

lemma flushError_answers: "answeredWith ch release s (flushError ch release err s)"
  by (auto simp: answeredWith_def flushError_def answerFlush_def failPending_def)

lemma shwork_question:
  "shwork s t \<Longrightarrow> (questionAt (sp_point t) = questionAt (sp_point s) \<and> sp_answers t = sp_answers s \<and> (\<forall>r. sp_point s = Held r \<longrightarrow> standsStill s t))
     \<or> (\<exists>ch release. questionAt (sp_point s) = [(ch, release)] \<and> answeredWith ch release s t)"
proof (induction rule: shwork.induct)
  case (sh_completed s ch release)
  then show ?case by (auto simp: answeredWith_def answerFlush_def)
qed (auto simp: standsStill_def endLoop_def appendLogged_def appendFailed_def failPending_def sendReply_def Let_def flushError_answers)

lemma receiveCommand_question:
  assumes "sp_point s = Selecting"
  shows "questionAt (sp_point (receiveCommand cmd reply s)) = [] \<and> sp_answers (receiveCommand cmd reply s) = sp_answers s"
  using assms by (auto simp: receiveCommand_def enqueueCommand_def completeCommand_def appendFailed_def failPending_def sendReply_def Let_def
      split: option.splits prod.splits sum.splits if_splits)

lemma receive_question:
  assumes "sp_point s = Selecting"
  shows "(questionAt (sp_point (receiveMessage m s)) = questionIn m \<and> sp_answers (receiveMessage m s) = sp_answers s)
     \<or> (\<exists>ch release. questionIn m = [(ch, release)] \<and> answeredWith ch release s (receiveMessage m s))"
  using receiveCommand_question [OF assms] flushError_answers
  by (cases m) (auto simp: flushPending_def split: sum.splits)

subsection \<open>The invariant\<close>

definition question :: "Engine \<Rightarrow> nat \<Rightarrow> (nat \<times> nat option) list" where
  "question e k = concat (map questionIn (sq_inboxes (en_sequencer e) ! k)) @ questionAt (sp_point (en_shards e ! k))"

definition asked :: "loop_err Sequencer \<Rightarrow> nat \<Rightarrow> (nat \<times> nat option) list" where
  "asked q k = (case sq_point q of
       AwaitAnswer req j err ch \<Rightarrow> if j = k \<and> map_of (sq_answers q) ch = None then [(ch, releaseOf req)] else []
     | _ \<Rightarrow> [])"

text \<open>A shard is held by a drain that is not released, and has not failed if it has said so.\<close>

definition heldBy :: "nat \<Rightarrow> loop_err option \<Rightarrow> Engine \<Rightarrow> nat \<Rightarrow> bool" where
  "heldBy release err e k \<longleftrightarrow> release \<notin> set (sq_released (en_sequencer e)) \<longrightarrow>
     sp_point (en_shards e ! k) = Held release \<and> (err = None \<longrightarrow> lp_failedErr (en_shards e ! k) = None)"

definition heldSoFar :: "Engine \<Rightarrow> bool" where
  "heldSoFar e \<longleftrightarrow> (case sq_point (en_sequencer e) of
       Broadcasting (RequestDrain result release) k err \<Rightarrow> (\<forall>j<k. j < length (en_shards e) \<longrightarrow> heldBy release err e j)
     | AwaitAnswer (RequestDrain result release) k err ch \<Rightarrow> (\<forall>j<k. j < length (en_shards e) \<longrightarrow> heldBy release err e j)
         \<and> (\<forall>a. map_of (sq_answers (en_sequencer e)) ch = Some a \<longrightarrow> k < length (en_shards e) \<longrightarrow> heldBy release a e k)
     | AwaitRelease release \<Rightarrow> (\<forall>j<length (en_shards e). heldBy release (snd (last (sq_results (en_sequencer e)))) e j)
     | _ \<Rightarrow> True)"

definition questions :: "Engine \<Rightarrow> bool" where
  "questions e \<longleftrightarrow> length (sq_inboxes (en_sequencer e)) = length (en_shards e)
     \<and> (\<forall>k<length (en_shards e). question e k = asked (en_sequencer e) k)
     \<and> (\<forall>a\<in>set (sq_answers (en_sequencer e)). fst a < sq_nextChan (en_sequencer e))
     \<and> (\<forall>req j err ch. sq_point (en_sequencer e) = AwaitAnswer req j err ch \<longrightarrow> ch < sq_nextChan (en_sequencer e))
     \<and> (\<forall>k m. sq_point (en_sequencer e) = Sending k m \<longrightarrow> isCommand m)"

subsection \<open>A step of a shard\<close>

text \<open>Nothing is asked or answered, or the question of the shard is answered.\<close>

definition quietMove :: "Engine \<Rightarrow> nat \<Rightarrow> Routed list \<Rightarrow> shardProc \<Rightarrow> bool" where
  "quietMove e k ms t \<longleftrightarrow> concat (map questionIn ms) @ questionAt (sp_point t) = question e k
     \<and> (\<forall>r. sp_point (en_shards e ! k) = Held r \<longrightarrow> r \<notin> set (sq_released (en_sequencer e)) \<longrightarrow>
          sp_point t = Held r \<and> lp_failedErr t = lp_failedErr (en_shards e ! k))"

definition answerMove :: "Engine \<Rightarrow> nat \<Rightarrow> Routed list \<Rightarrow> shardProc \<Rightarrow> (nat \<times> loop_err option) \<Rightarrow> bool" where
  "answerMove e k ms t a \<longleftrightarrow> (\<exists>release. question e k = [(fst a, release)] \<and> concat (map questionIn ms) = []
     \<and> sp_point t = (case release of None \<Rightarrow> Selecting | Some r \<Rightarrow> Held r) \<and> (snd a = None \<longrightarrow> lp_failedErr t = None))"

text \<open>The state after a shard has moved, with a new inbox and new answers.\<close>

definition movedTo :: "Engine \<Rightarrow> nat \<Rightarrow> Routed list \<Rightarrow> shardProc \<Rightarrow> (nat \<times> loop_err option) list \<Rightarrow> Engine \<Rightarrow> bool" where
  "movedTo e k ms t as e' \<longleftrightarrow> (let q = en_sequencer e; q' = en_sequencer e' in en_shards e' = (en_shards e)[k := t] \<and> sq_point q' = sq_point q
     \<and> sq_inboxes q' = (sq_inboxes q)[k := ms] \<and> sq_answers q' = sq_answers q @ as \<and> sq_nextChan q' = sq_nextChan q
     \<and> sq_results q' = sq_results q \<and> sq_released q' = sq_released q)"

lemma asked_unanswered: "asked q k = [(ch, release)] \<longleftrightarrow> (\<exists>req err. sq_point q = AwaitAnswer req k err ch \<and> map_of (sq_answers q) ch = None \<and> release = releaseOf req)"
  by (auto simp: asked_def split: seqPoint.splits if_splits)

lemma heldBy_moved:
  assumes "movedTo e k ms t as e'" and "heldBy release err e j" and "j < length (en_shards e)" and "j = k \<Longrightarrow> quietMove e k ms t"
  shows "heldBy release err e' j"
  using assms by (cases "j = k") (auto simp: heldBy_def movedTo_def quietMove_def Let_def)

lemma quiet_moved:
  assumes "questions e" and "heldSoFar e" and "k < length (en_shards e)" and m: "movedTo e k ms t [] e'" and "quietMove e k ms t"
  shows "questions e' \<and> heldSoFar e'"
proof -
  have "question e' j = question e j" if "j < length (en_shards e)" for j
    using assms that by (cases "j = k") (auto simp: question_def movedTo_def quietMove_def Let_def questions_def)
  then have "questions e'" using assms(1) m by (auto simp: questions_def movedTo_def Let_def asked_def split: seqPoint.splits)
  moreover have "heldSoFar e'"
    using assms(2) m heldBy_moved [OF m] assms(5) unfolding heldSoFar_def by (auto simp: movedTo_def Let_def split: seqPoint.splits request.splits)
  ultimately show ?thesis by blast
qed

lemma answer_moved:
  assumes "questions e" and "heldSoFar e" and k: "k < length (en_shards e)" and m: "movedTo e k ms t [a] e'" and "answerMove e k ms t a"
  shows "questions e' \<and> heldSoFar e'"
proof -
  let ?q = "en_sequencer e" and ?q' = "en_sequencer e'"
  obtain release where a: "question e k = [(fst a, release)]" "concat (map questionIn ms) = []"
    "sp_point t = (case release of None \<Rightarrow> Selecting | Some r \<Rightarrow> Held r)" "snd a = None \<longrightarrow> lp_failedErr t = None"
    using assms(5) by (auto simp: answerMove_def)
  have "asked ?q k = [(fst a, release)]" using assms(1) k a(1) by (simp add: questions_def)
  then obtain req err where p: "sq_point ?q = AwaitAnswer req k err (fst a)" "map_of (sq_answers ?q) (fst a) = None" "release = releaseOf req"
    unfolding asked_unanswered by blast
  have p': "sq_point ?q' = AwaitAnswer req k err (fst a)" "map_of (sq_answers ?q') (fst a) = Some (snd a)"
    using p m by (auto simp: movedTo_def Let_def map_add_def split: prod.splits)
  have "question e' j = []" if "j < length (en_shards e)" for j
  proof (cases "j = k")
    case True
    have "questionAt (sp_point t) = []" using a(3) by (auto split: option.splits)
    then show ?thesis using True a(2) m k assms(1) by (simp add: question_def movedTo_def Let_def questions_def)
  next
    case False
    then have "question e j = []" using assms(1) that p(1) by (simp add: questions_def asked_def)
    then show ?thesis using False m by (simp add: question_def movedTo_def Let_def)
  qed
  moreover have "asked ?q' j = []" for j using p' by (simp add: asked_def)
  ultimately have "questions e'" using assms(1) m p p' by (auto simp: questions_def movedTo_def Let_def)
  moreover have "heldSoFar e'"
  proof (cases req)
    case (RequestDrain result r)
    have old: "\<forall>j<k. j < length (en_shards e) \<longrightarrow> heldBy r err e j" using assms(2) p(1) RequestDrain by (simp add: heldSoFar_def)
    have "\<forall>j<k. j < length (en_shards e') \<longrightarrow> heldBy r err e' j" using old heldBy_moved [OF m] m by (auto simp: movedTo_def Let_def)
    moreover have "heldBy r (snd a) e' k" using a(3,4) p(3) RequestDrain m k by (auto simp: heldBy_def movedTo_def Let_def)
    ultimately show ?thesis using p' RequestDrain by (simp add: heldSoFar_def)
  qed (use p' in \<open>simp_all add: heldSoFar_def\<close>)
  ultimately show ?thesis by blast
qed

lemma one_question: "questions e \<Longrightarrow> k < length (en_shards e) \<Longrightarrow> length (question e k) \<le> 1"
  by (simp add: questions_def asked_def split: seqPoint.split)

lemma work_moved:
  assumes "questions e" and "heldSoFar e" and k: "k < length (en_shards e)" and "shwork (en_shards e ! k) t"
  shows "questions (shardStep k t e) \<and> heldSoFar (shardStep k t e)"
proof -
  let ?s = "en_shards e ! k" and ?ms = "sq_inboxes (en_sequencer e) ! k"
  from shwork_question [OF assms(4)] show ?thesis
  proof (elim disjE conjE exE)
    assume a: "questionAt (sp_point t) = questionAt (sp_point ?s)" "sp_answers t = sp_answers ?s" "\<forall>r. sp_point ?s = Held r \<longrightarrow> standsStill ?s t"
    then have "movedTo e k ?ms t [] (shardStep k t e)" "quietMove e k ?ms t"
      by (auto simp: movedTo_def quietMove_def question_def standsStill_def)
    then show ?thesis using quiet_moved [OF assms(1,2) k] by blast
  next
    fix ch release assume a: "questionAt (sp_point ?s) = [(ch, release)]" "answeredWith ch release ?s t"
    then obtain err where t: "sp_answers t = sp_answers ?s @ [(ch, err)]" "sp_point t = (case release of None \<Rightarrow> Selecting | Some r \<Rightarrow> Held r)"
      "err = None \<longrightarrow> lp_failedErr t = None" by (auto simp: answeredWith_def)
    have "concat (map questionIn ?ms) = []" using one_question [OF assms(1) k] a(1) by (simp add: question_def)
    then have "movedTo e k ?ms t [(ch, err)] (shardStep k t e)" "answerMove e k ?ms t (ch, err)"
      using t a(1) by (auto simp: movedTo_def answerMove_def question_def)
    then show ?thesis using answer_moved [OF assms(1,2) k] by blast
  qed
qed

lemma receive_moved:
  assumes "questions e" and "heldSoFar e" and k: "k < length (en_shards e)" and "canReceive (en_shards e ! k)"
    and ms: "sq_inboxes (en_sequencer e) ! k = m # ms"
  shows "questions (shardStep k (receiveMessage m (en_shards e ! k)) (onSequencer (takeInbox k (en_sequencer e)) e))
    \<and> heldSoFar (shardStep k (receiveMessage m (en_shards e ! k)) (onSequencer (takeInbox k (en_sequencer e)) e))"
    (is "questions ?e \<and> heldSoFar ?e")
proof -
  let ?s = "en_shards e ! k" and ?t = "receiveMessage m (en_shards e ! k)"
  have sel: "sp_point ?s = Selecting" using assms(4) by (simp add: canReceive_def)
  have qk: "question e k = questionIn m @ concat (map questionIn ms)" using ms sel by (simp add: question_def)
  have one: "questionIn m = [] \<or> concat (map questionIn ms) = []" using one_question [OF assms(1) k] qk by (cases "questionIn m") simp_all
  have comm: "concat (map questionIn ms) @ questionIn m = questionIn m @ concat (map questionIn ms)"
    using one by (metis append_Nil append_Nil2)
  from receive_question [OF sel, of m] show ?thesis
  proof (elim disjE conjE exE)
    assume "questionAt (sp_point ?t) = questionIn m" "sp_answers ?t = sp_answers ?s"
    then have "movedTo e k ms ?t [] ?e" "quietMove e k ms ?t"
      using ms sel qk comm by (auto simp: movedTo_def quietMove_def takeInbox_def simp del: concat_eq_Nil_conv)
    then show ?thesis using quiet_moved [OF assms(1,2) k] by blast
  next
    fix ch release assume a: "questionIn m = [(ch, release)]" "answeredWith ch release ?s ?t"
    then obtain err where t: "sp_answers ?t = sp_answers ?s @ [(ch, err)]" "sp_point ?t = (case release of None \<Rightarrow> Selecting | Some r \<Rightarrow> Held r)"
      "err = None \<longrightarrow> lp_failedErr ?t = None" by (auto simp: answeredWith_def)
    then have "movedTo e k ms ?t [(ch, err)] ?e" "answerMove e k ms ?t (ch, err)"
      using ms qk one a(1) by (auto simp: movedTo_def answerMove_def takeInbox_def)
    then show ?thesis using answer_moved [OF assms(1,2) k] by blast
  qed
qed

subsection \<open>A step of the sequencer\<close>

text \<open>What the invariant reads of the sequencer.\<close>

definition seqView :: "loop_err Sequencer \<Rightarrow> _" where
  "seqView q = (sq_point q, sq_inboxes q, sq_answers q, sq_nextChan q, sq_results q)"

lemma same_view:
  assumes "seqView (en_sequencer e') = seqView (en_sequencer e)" and "set (sq_released (en_sequencer e)) \<subseteq> set (sq_released (en_sequencer e'))"
    and "en_shards e' = en_shards e" and "questions e" and "heldSoFar e"
  shows "questions e' \<and> heldSoFar e'"
proof -
  have "heldBy release err e k \<Longrightarrow> heldBy release err e' k" for release err k using assms(2,3) by (auto simp: heldBy_def)
  then have "heldSoFar e'" using assms(1,3,5)
    by (auto simp: heldSoFar_def seqView_def split: seqPoint.splits request.splits)
  moreover have "asked (en_sequencer e') = asked (en_sequencer e)" using assms(1) by (simp add: fun_eq_iff seqView_def asked_def split: seqPoint.split)
  then have "questions e'" using assms(1,3,4) by (simp add: questions_def seqView_def question_def)
  ultimately show ?thesis by blast
qed

lemma call_view:
  "SubmitBlocking cmd reply q = Some (r, q') \<Longrightarrow> seqView q' = seqView q \<and> sq_released q' = sq_released q"
  "SubmitNonBlocking cmd reply q = (r, q') \<Longrightarrow> seqView q' = seqView q \<and> sq_released q' = sq_released q"
  "BarrierSend result q = Some (r, q') \<Longrightarrow> seqView q' = seqView q \<and> sq_released q' = sq_released q"
  "DrainSend result release q = Some (r, q') \<Longrightarrow> seqView q' = seqView q \<and> sq_released q' = sq_released q"
  "seqMarkClosed d q = (b, q') \<Longrightarrow> seqView q' = seqView q \<and> sq_released q' = sq_released q"
  "ShutdownSend d q = Some q' \<Longrightarrow> seqView q' = seqView q \<and> sq_released q' = sq_released q"
  "ShutdownCancel d q = (x, q') \<Longrightarrow> seqView q' = seqView q \<and> sq_released q' = sq_released q"
  by (auto simp: SubmitBlocking_def SubmitNonBlocking_def BarrierSend_def DrainSend_def seqMarkClosed_def ShutdownSend_def
      ShutdownCancel_def enqueue_def observeSeq_def seqView_def Let_def split: if_splits)

lemma release_view [simp]: "seqView (closeRelease d q) = seqView q" "sq_released (closeRelease d q) = d # sq_released q"
  by (simp_all add: seqView_def closeRelease_def)

lemma take_asks:
  assumes "sq_point q = AtQueue"
  shows "(\<forall>k. asked (takeRequest req q) k = []) \<and> sq_inboxes (takeRequest req q) = sq_inboxes q \<and> sq_answers (takeRequest req q) = sq_answers q
    \<and> sq_nextChan (takeRequest req q) = sq_nextChan q \<and> (\<forall>r j err ch. sq_point (takeRequest req q) \<noteq> AwaitAnswer r j err ch)
    \<and> (\<forall>r. sq_point (takeRequest req q) \<noteq> AwaitRelease r) \<and> (\<forall>r j err. sq_point (takeRequest req q) = Broadcasting r j err \<longrightarrow> j = 0)
    \<and> (\<forall>k m. sq_point (takeRequest req q) = Sending k m \<longrightarrow> isCommand m)"
  using assms by (cases req) (auto simp: asked_def takeCommand_def replySeq_def observeSeq_def Let_def split: option.splits if_splits)

lemma questions_silent:
  assumes "questions e" and "\<forall>k<length (en_shards e). question e k = []" and "sq_inboxes q = sq_inboxes (en_sequencer e)"
    and "sq_answers q = sq_answers (en_sequencer e)" and "sq_nextChan q = sq_nextChan (en_sequencer e)"
    and "\<forall>req j err ch. sq_point q \<noteq> AwaitAnswer req j err ch" and "\<forall>k m. sq_point q = Sending k m \<longrightarrow> isCommand m"
  shows "questions (onSequencer q e)"
proof -
  have "question (onSequencer q e) k = question e k" for k using assms(3) by (simp add: question_def)
  moreover have "asked q k = []" for k using assms(6) by (auto simp: asked_def split: seqPoint.split)
  ultimately show ?thesis using assms by (simp add: questions_def)
qed

lemma no_question:
  assumes "questions e" and "\<forall>req j err ch. sq_point (en_sequencer e) = AwaitAnswer req j err ch \<longrightarrow> map_of (sq_answers (en_sequencer e)) ch \<noteq> None"
  shows "\<forall>k<length (en_shards e). question e k = []"
  using assms by (auto simp: questions_def asked_def split: seqPoint.split)

lemma take_moved:
  assumes "questions e" and "sq_point (en_sequencer e) = AtQueue"
  shows "questions (onSequencer (takeRequest req ((en_sequencer e)\<lparr>sq_ingressQ := reqs\<rparr>)) e)
    \<and> heldSoFar (onSequencer (takeRequest req ((en_sequencer e)\<lparr>sq_ingressQ := reqs\<rparr>)) e)"
proof -
  let ?q = "takeRequest req ((en_sequencer e)\<lparr>sq_ingressQ := reqs\<rparr>)"
  have t: "\<forall>k. asked ?q k = []" "sq_inboxes ?q = sq_inboxes (en_sequencer e)" "sq_answers ?q = sq_answers (en_sequencer e)"
    "sq_nextChan ?q = sq_nextChan (en_sequencer e)" "\<forall>r j err ch. sq_point ?q \<noteq> AwaitAnswer r j err ch" "\<forall>r. sq_point ?q \<noteq> AwaitRelease r"
    "\<forall>r j err. sq_point ?q = Broadcasting r j err \<longrightarrow> j = 0" "\<forall>k m. sq_point ?q = Sending k m \<longrightarrow> isCommand m"
    using take_asks [of "(en_sequencer e)\<lparr>sq_ingressQ := reqs\<rparr>" req] assms(2) by simp_all
  have "questions (onSequencer ?q e)" by (rule questions_silent [OF assms(1) no_question [OF assms(1)]]) (use t assms(2) in simp_all)
  moreover have "heldSoFar (onSequencer ?q e)" using t(5-7) by (auto simp: heldSoFar_def split: seqPoint.splits request.splits)
  ultimately show ?thesis by blast
qed

lemma ask_moved:
  assumes "questions e" and "heldSoFar e" and p: "sq_point (en_sequencer e) = Broadcasting req k err" and k: "k < length (en_shards e)"
    and q: "q = (sendInbox k (broadcastMessage req (sq_nextChan (en_sequencer e))) (en_sequencer e))
       \<lparr>sq_nextChan := sq_nextChan (en_sequencer e) + 1, sq_point := AwaitAnswer req k err (sq_nextChan (en_sequencer e))\<rparr>"
  shows "questions (onSequencer q e) \<and> heldSoFar (onSequencer q e)"
proof -
  let ?ch = "sq_nextChan (en_sequencer e)"
  have fresh: "map_of (sq_answers (en_sequencer e)) ?ch = None" using assms(1) by (fastforce simp: questions_def map_of_eq_None_iff)
  have ask: "questionIn (broadcastMessage req ?ch) = [(?ch, releaseOf req)]" by (cases req) simp_all
  have l: "length (sq_inboxes (en_sequencer e)) = length (en_shards e)" using assms(1) by (simp add: questions_def)
  have none: "\<forall>j<length (en_shards e). question e j = []" using assms(1) p by (simp add: questions_def asked_def)
  have "question (onSequencer q e) j = asked q j" if "j < length (en_shards e)" for j
    using none that ask fresh l k by (cases "j = k") (auto simp: q question_def asked_def sendInbox_def)
  then have "questions (onSequencer q e)" using assms(1) by (auto simp: questions_def q sendInbox_def dest: less_SucI)
  moreover have "heldSoFar (onSequencer q e)"
    using assms(2) p fresh by (cases req) (auto simp: heldSoFar_def heldBy_def q sendInbox_def)
  ultimately show ?thesis by blast
qed

lemma next_moved:
  assumes "questions e" and "heldSoFar e" and p: "sq_point (en_sequencer e) = AwaitAnswer req k err ch" and a: "map_of (sq_answers (en_sequencer e)) ch = Some a"
    and q: "q = (en_sequencer e)\<lparr>sq_point := Broadcasting req (k + 1) (if a \<noteq> None \<and> err = None then a else err)\<rparr>"
  shows "questions (onSequencer q e) \<and> heldSoFar (onSequencer q e)"
proof -
  have "questions (onSequencer q e)" by (rule questions_silent [OF assms(1) no_question [OF assms(1)]]) (use p a in \<open>simp_all add: q\<close>)
  moreover have "heldSoFar (onSequencer q e)"
    using assms(2) p a by (cases req) (auto simp: heldSoFar_def heldBy_def q less_Suc_eq)
  ultimately show ?thesis by blast
qed

lemma end_moved:
  assumes "questions e" and "heldSoFar e" and p: "sq_point (en_sequencer e) = Broadcasting req k err" and k: "length (en_shards e) \<le> k"
  shows "questions (onSequencer (endBroadcast req err (en_sequencer e)) e) \<and> heldSoFar (onSequencer (endBroadcast req err (en_sequencer e)) e)"
proof -
  have "questions (onSequencer (endBroadcast req err (en_sequencer e)) e)"
    by (rule questions_silent [OF assms(1) no_question [OF assms(1)]]; cases req) (use p in simp_all)
  moreover have "heldSoFar (onSequencer (endBroadcast req err (en_sequencer e)) e)"
    using assms(2) p k by (cases req) (auto simp: heldSoFar_def heldBy_def)
  ultimately show ?thesis by blast
qed

lemma run_moved:
  assumes "questions e" and "heldSoFar e" and "seqRun (en_sequencer e) = Some q"
  shows "questions (onSequencer q e) \<and> heldSoFar (onSequencer q e)"
proof (cases "sq_point (en_sequencer e)")
  case AtQueue
  then show ?thesis using assms(3) take_moved [OF assms(1) AtQueue] by (auto simp: seqRun_def split: list.splits)
next
  case (Sending k m)
  then have m: "isCommand m" and q: "q = (sendInbox k m (en_sequencer e))\<lparr>sq_point := AtQueue\<rparr>"
    using assms(1,3) by (auto simp: seqRun_def questions_def split: if_splits)
  have "questionIn m = []" using m by (cases m) simp_all
  then have "question (onSequencer q e) j = question e j" if "j < length (en_shards e)" for j
    using that assms(1) by (cases "j = k") (auto simp: question_def q sendInbox_def questions_def)
  then have "questions (onSequencer q e)" using assms(1) Sending by (auto simp: questions_def q sendInbox_def asked_def)
  then show ?thesis by (simp add: heldSoFar_def q)
next
  case (Broadcasting req k err)
  have l: "length (sq_inboxes (en_sequencer e)) = length (en_shards e)" using assms(1) by (simp add: questions_def)
  show ?thesis using assms(3) Broadcasting l end_moved [OF assms(1,2) Broadcasting] ask_moved [OF assms(1,2) Broadcasting]
    by (auto simp: seqRun_def split: if_splits)
next
  case (AwaitAnswer req k err ch)
  then show ?thesis using assms(3) next_moved [OF assms(1,2) AwaitAnswer] by (auto simp: seqRun_def split: option.splits)
next
  case (AwaitRelease release)
  then have q: "q = (en_sequencer e)\<lparr>sq_point := AtQueue\<rparr>" using assms(3) by (auto simp: seqRun_def split: if_splits)
  have "questions (onSequencer q e)" by (rule questions_silent [OF assms(1) no_question [OF assms(1)]]) (use AwaitRelease in \<open>simp_all add: q\<close>)
  then show ?thesis by (simp add: heldSoFar_def q)
qed (use assms(3) in \<open>simp_all add: seqRun_def\<close>)

lemma held_call:
  assumes "questions e" and "heldSoFar e" and "seqView q = seqView (en_sequencer e) \<and> sq_released q = sq_released (en_sequencer e)"
  shows "questions (onSequencer q e) \<and> heldSoFar (onSequencer q e)"
  using assms by (intro same_view [of "onSequencer q e" e]) simp_all

lemma estep_held: "estep e e' \<Longrightarrow> questions e \<Longrightarrow> heldSoFar e \<Longrightarrow> questions e' \<and> heldSoFar e'"
proof (induction rule: estep.induct)
  case (e_run e q)
  then show ?case by (intro run_moved)
next
  case (e_work k e s)
  then show ?case by (intro work_moved)
next
  case (e_receive k e m ms)
  then show ?case by (intro receive_moved)
next
  case (e_closed k e)
  then show ?case using list_update_id [of "sq_inboxes (en_sequencer e)" k]
    by (intro quiet_moved [of e k "sq_inboxes (en_sequencer e) ! k" "(en_shards e ! k)\<lparr>sp_receiving := False\<rparr>"])
      (auto simp: movedTo_def quietMove_def question_def)
next
  case (e_resume k e release)
  then show ?case
    by (intro quiet_moved [of e k "sq_inboxes (en_sequencer e) ! k" "(en_shards e ! k)\<lparr>sp_point := Selecting\<rparr>"])
      (auto simp: movedTo_def quietMove_def question_def)
next
  case (e_release e release)
  then show ?case by (intro same_view [of "onSequencer (closeRelease release (en_sequencer e)) e" e]) auto
next
  case (e_returned reply latency e r e')
  then show ?case using SubmitReturn_fields [OF e_returned(1)] by (intro same_view [of e' e]) simp_all
next
  case (e_paused e d)
  then show ?case by (intro same_view [of "snapshotPause d e" e]) simp_all
qed (rule held_call, assumption, assumption, erule call_view)+

lemma esteps_held: "estep\<^sup>*\<^sup>* e e' \<Longrightarrow> questions e \<Longrightarrow> heldSoFar e \<Longrightarrow> questions e' \<and> heldSoFar e'"
  by (induction rule: rtranclp_induct) (auto dest: estep_held)

lemma new_shards:
  assumes "NewEngine genc gdec snapDir walDir disks outs cfg = Some (Inr e)"
  obtains i where "en_sequencer e = NewSequencer (nat (cfg_IngressQueueSize cfg)) i (nat (cfg_ShardCount cfg)) (nat (cfg_ShardQueueSize cfg)) (ShardFor (en_registry e))"
    and "length (en_shards e) = nat (cfg_ShardCount cfg)" and "\<forall>k<nat (cfg_ShardCount cfg). sp_point (en_shards e ! k) = Selecting"
proof -
  obtain registry recovered marks shards i where s: "startShards cfg registry recovered marks disks outs [0..<nat (cfg_ShardCount cfg)] = Some (Inr shards)"
    "e = \<lparr>en_registry = registry, en_sequencer = NewSequencer (nat (cfg_IngressQueueSize cfg)) i (nat (cfg_ShardCount cfg)) (nat (cfg_ShardQueueSize cfg)) (ShardFor registry),
      en_shards = shards, en_engineID = cfg_EngineID cfg, en_metrics = []\<rparr>"
    using assms by (auto simp: NewEngine_def Let_def split: bind_splits if_splits sum.splits prod.splits)
  have "length shards = nat (cfg_ShardCount cfg)" using startShards_ok [OF s(1)] by simp
  moreover have "\<forall>k<nat (cfg_ShardCount cfg). sp_point (shards ! k) = Selecting"
    using startShards_ok [OF s(1)] by (auto simp: startLoop_def Loop.extend_def)
  ultimately show thesis using that [of i] by (simp add: s(2))
qed

lemma new_held:
  assumes "NewEngine genc gdec snapDir walDir disks outs cfg = Some (Inr e)"
  shows "questions e \<and> heldSoFar e \<and> length (en_shards e) = nat (cfg_ShardCount cfg)"
proof (rule new_shards [OF assms])
  fix i assume "en_sequencer e = NewSequencer (nat (cfg_IngressQueueSize cfg)) i (nat (cfg_ShardCount cfg)) (nat (cfg_ShardQueueSize cfg)) (ShardFor (en_registry e))"
    and "length (en_shards e) = nat (cfg_ShardCount cfg)" and "\<forall>k<nat (cfg_ShardCount cfg). sp_point (en_shards e ! k) = Selecting"
  then show ?thesis by (simp add: questions_def heldSoFar_def question_def asked_def NewSequencer_def)
qed

subsection \<open>While a drain lasts\<close>

text \<open>The sequencer waits for the release, and all shards are held.\<close>

definition drainedAt :: "nat \<Rightarrow> Engine \<Rightarrow> bool" where
  "drainedAt release e \<longleftrightarrow> sq_point (en_sequencer e) = AwaitRelease release \<and> release \<notin> set (sq_released (en_sequencer e))
     \<and> (\<forall>k<length (en_shards e). sp_point (en_shards e ! k) = Held release)"

lemma shardSnapshots_same:
  assumes "length ss = length ts" and "\<forall>k<length ss. standsStill (ss ! k) (ts ! k)"
  shows "shardSnapshots ts = shardSnapshots ss"
  using assms
proof (induction ss ts rule: list_induct2)
  case (Cons s ss t ts)
  then have "standsStill s t" "\<forall>k<length ss. standsStill (ss ! k) (ts ! k)" by auto
  then show ?case using Cons.IH by (simp add: standsStill_def loopSnapshots_def lastApplied_def)
qed simp

lemma engineSnapshot_same:
  assumes "length (en_shards e') = length (en_shards e)" and "en_engineID e' = en_engineID e"
    and "\<forall>k<length (en_shards e). standsStill (en_shards e ! k) (en_shards e' ! k)"
  shows "engineSnapshot e' = engineSnapshot e"
  using shardSnapshots_same [of "en_shards e" "en_shards e'"] assms by (simp add: engineSnapshot_def)

lemma held_work: "shwork s t \<Longrightarrow> sp_point s = Held r \<Longrightarrow> standsStill s t"
  using shwork_question [of s t] by auto

lemma standsStill_refl [simp]: "standsStill s s"
  by (simp add: standsStill_def)

lemma estep_drained:
  assumes "estep e e'" and "drainedAt release e" and "release \<notin> set (sq_released (en_sequencer e'))"
  shows "drainedAt release e' \<and> (\<forall>k<length (en_shards e). standsStill (en_shards e ! k) (en_shards e' ! k))"
  using assms
proof (induction rule: estep.induct)
  case (e_run e q)
  then show ?case by (auto simp: seqRun_def drainedAt_def split: if_splits)
next
  case (e_work k e s)
  then have "standsStill (en_shards e ! k) s" using held_work by (auto simp: drainedAt_def)
  then show ?case using e_work(1,3) by (auto simp: drainedAt_def nth_list_update standsStill_def)
next
  case (e_returned reply latency e r e')
  then show ?case using SubmitReturn_fields [OF e_returned(1)] by (simp add: drainedAt_def)
qed (auto simp: drainedAt_def canReceive_def seqView_def closeRelease_def dest: call_view)

end
