(* ===== verification/Engine_Snapshot.thy ===== *)
theory Engine_Snapshot
  imports Engine_Recovery Engine_Drain
begin

text \<open>
  The snapshot that \<open>CreateSnapshot\<close> takes of a drained engine: it has the books of all shards after the commands they have
  applied, and the log has the records of all these commands, so a later recovery can start from it.
\<close>

subsection \<open>The books of a shard\<close>

lemma collectSnapshots_rep:
  assumes "books_rep books A" and "set symbols \<subseteq> dom books"
  shows "collectSnapshots books symbols = Some (map (\<lambda>s. abs_snapshot (A s)) symbols)"
  using assms(2)
proof (induction symbols)
  case (Cons s symbols)
  then obtain b where b: "books s = Some b" by auto
  then have "Snapshot b = Some (abs_snapshot (A s))" using assms(1) Snapshot_refines(1) by (simp add: books_rep_def)
  then show ?case using Cons b by simp
qed simp

text \<open>The commands a shard has applied are never taken back, and its acknowledgements neither.\<close>

lemma shsteps_applied_prefix: "shstep\<^sup>*\<^sup>* s t \<Longrightarrow> prefix (lp_applied s) (lp_applied t)"
proof (induction rule: rtranclp_induct)
  case (step t u)
  from step(2) have "prefix (lp_applied t) (lp_applied u)"
  proof (cases rule: shstep.cases)
    case (sh_receive m)
    then show ?thesis using receive_received [of m t] by auto
  qed (auto dest: shwork_received)
  then show ?case using step(3) by (rule prefix_order.trans [rotated])
qed simp

lemma wstep_acks: "wstep p q \<Longrightarrow> prefix (wp_acks p) (wp_acks q)"
  by (induction rule: wstep.induct)
    (auto simp: exec_acks growsAcks_run appendEnter_def appendSend_def appendClosed_def appendCancel_def flushSend_def shutdownSend_def
      shutdownCancel_def markClosed_def reopen_def Let_def split: option.splits if_splits)

lemma wsteps_acked: "wstep\<^sup>*\<^sup>* p q \<Longrightarrow> length (ackedChans p) \<le> length (ackedChans q)"
proof (induction rule: rtranclp_induct)
  case (step q r)
  then have "length (ackedChans q) \<le> length (ackedChans r)" using wstep_acks [OF step(2)] by (auto simp: ackedChans_def prefix_def)
  then show ?case using step(3) by simp
qed simp

subsection \<open>The snapshot\<close>

abbreviation madeBy :: "(nat \<Rightarrow> Command list) \<Rightarrow> Engine \<Rightarrow> nat \<Rightarrow> Command list" where
  "madeBy hist e k \<equiv> hist k @ lp_applied (en_shards e ! k)"

lemma running_books:
  assumes "runsFrom cfg registry d k hist books0 w s"
  shows "loopSnapshots s = Some (map (\<lambda>x. abs_snapshot (abs_serve emptyBook (hist @ lp_applied s) x)) (sort (SymbolsForShard registry (int k))))"
proof -
  have r: "books_rep books0 (abs_serve emptyBook hist)" "dom books0 = set (SymbolsForShard registry (int k))" "lp_symbols s = SymbolsForShard registry (int k)"
    "shinv k books0 (lastSeq 0 hist) s" using assms by (auto simp: runsFrom_def)
  obtain recs where "serve (word_of_nat (lp_id s)) books0 (lp_applied s) = Some (lp_books s, recs)" "\<forall>c\<in>set (lp_applied s). cmd_Symbol c \<in> dom books0"
    using r(4) by (auto simp: shinv_def served_def)
  then have "books_rep (lp_books s) (abs_serve emptyBook (hist @ lp_applied s)) \<and> dom (lp_books s) = dom books0"
    using serve_refines [OF r(1), of "lp_applied s" "word_of_nat (lp_id s)"] by auto
  then show ?thesis using collectSnapshots_rep [of "lp_books s" _ "sort (SymbolsForShard registry (int k))"] r(2,3) by (simp add: loopSnapshots_def)
qed

lemma shardSnapshots_all:
  "\<forall>s\<in>set ss. loopSnapshots s = Some (g s) \<Longrightarrow> shardSnapshots ss = Some (concat (map g ss), map lastApplied ss)"
  by (induction ss) simp_all

lemma distinct_concat_map:
  "distinct xs \<Longrightarrow> \<forall>x\<in>set xs. distinct (f x) \<Longrightarrow> \<forall>x\<in>set xs. \<forall>y\<in>set xs. x \<noteq> y \<longrightarrow> set (f x) \<inter> set (f y) = {} \<Longrightarrow> distinct (concat (map f xs))"
  by (induction xs) fastforce+

text \<open>The books of all shards, each symbol once.\<close>

lemma all_books:
  assumes cfg: "Config_Validate cfg = None" "NewSymbolRegistry (cfg_Symbols cfg) (cfg_ShardCount cfg) = Some (Inr registry)"
      "cfg_ShardCount cfg < 2 ^ 32"
  shows "distinct (concat (map (\<lambda>k. sort (SymbolsForShard registry (int k))) [0..<nat (cfg_ShardCount cfg)]))"
    and "set (concat (map (\<lambda>k. sort (SymbolsForShard registry (int k))) [0..<nat (cfg_ShardCount cfg)])) = set (cfg_Symbols cfg)"
proof -
  note v = Config_ValidateD [OF cfg(1)] and reg = registry_laws [OF cfg]
  have "distinct (SymbolsForShard registry (int k))" for k
    using NewSymbolRegistry_ok [OF v(4) cfg(3) v(3,1,2)] cfg(2) v(1) by auto
  then show "distinct (concat (map (\<lambda>k. sort (SymbolsForShard registry (int k))) [0..<nat (cfg_ShardCount cfg)]))"
    by (intro distinct_concat_map) (auto simp: reg(1))
  show "set (concat (map (\<lambda>k. sort (SymbolsForShard registry (int k))) [0..<nat (cfg_ShardCount cfg)])) = set (cfg_Symbols cfg)"
    using reg(2) by (force simp: reg(1))
qed

lemma engine_snapshot:
  assumes cfg: "Config_Validate cfg = None" "NewSymbolRegistry (cfg_Symbols cfg) (cfg_ShardCount cfg) = Some (Inr registry)"
      "cfg_ShardCount cfg < 2 ^ 32"
    and len: "length (en_shards e) = nat (cfg_ShardCount cfg)" and eid: "en_engineID e = cfg_EngineID cfg"
    and runs: "\<forall>k<nat (cfg_ShardCount cfg). \<exists>books0 w. runsFrom cfg registry (disks k) k (hist k) books0 w (en_shards e ! k)"
    and marks: "\<forall>k<nat (cfg_ShardCount cfg). lastApplied (en_shards e ! k) = lastSeq 0 (madeBy hist e k)"
    and served: "\<forall>k<nat (cfg_ShardCount cfg). \<exists>log. servedBy registry k (madeBy hist e k) (mid k) log"
    and routed: "\<forall>k<nat (cfg_ShardCount cfg). \<forall>c\<in>set (madeBy hist e k). ShardFor registry (cmd_Symbol c) = Some (int k)"
  shows "\<exists>snap. engineSnapshot e = Some snap \<and> snapshotTaken cfg registry (madeBy hist e) mid snap"
proof -
  let ?n = "nat (cfg_ShardCount cfg)" and ?snap = "\<lambda>k s. abs_snapshot (abs_serve emptyBook (madeBy hist e k) s)"
  let ?books = "concat (map (\<lambda>k. map (?snap k) (sort (SymbolsForShard registry (int k)))) [0..<?n])"
  let ?s = "\<lparr>es_EngineID = cfg_EngineID cfg, es_ShardCount = cfg_ShardCount cfg,
      es_LastAppliedByShard = map (\<lambda>k. lastSeq 0 (madeBy hist e k)) [0..<?n], es_Books = sort_key bs_Symbol ?books\<rparr>"
  have n: "0 < cfg_ShardCount cfg" using Config_ValidateD(4) [OF cfg(1)] .
  have l: "loopSnapshots (en_shards e ! k) = Some (map (?snap k) (sort (SymbolsForShard registry (int k))))" if "k < ?n" for k
    using runs that running_books by blast
  then have "shardSnapshots (en_shards e) = Some (concat (map (\<lambda>s. the (loopSnapshots s)) (en_shards e)), map lastApplied (en_shards e))"
    using len by (intro shardSnapshots_all) (auto simp: in_set_conv_nth)
  also have "map (\<lambda>s. the (loopSnapshots s)) (en_shards e) = map (\<lambda>k. map (?snap k) (sort (SymbolsForShard registry (int k)))) [0..<?n]"
    using len l by (intro nth_equalityI) simp_all
  also have "map lastApplied (en_shards e) = map (\<lambda>k. lastSeq 0 (madeBy hist e k)) [0..<?n]" 
    using len marks by (intro nth_equalityI) simp_all
  finally have s: "engineSnapshot e = Some ?s"
    using len eid n by (simp add: engineSnapshot_def)
  have sym: "bs_Symbol (?snap k x) = x" for k x using abs_serve_symbol [of emptyBook "madeBy hist e k" x] by (simp add: abs_snapshot_def emptyBook_def)
  then have syms: "map bs_Symbol ?books = concat (map (\<lambda>k. sort (SymbolsForShard registry (int k))) [0..<?n])"
    by (simp add: map_concat o_def)
  have srt: "distinct (map f (sort_key f xs)) = distinct (map f xs)" for f :: "BookSnapshot \<Rightarrow> string" and xs
    by (simp add: distinct_map)
  have "distinct (map bs_Symbol (sort_key bs_Symbol ?books))" "bs_Symbol ` set ?books = set (cfg_Symbols cfg)"
    unfolding srt set_map [symmetric] syms by (rule all_books [OF cfg])+
  moreover have "\<exists>k b. ShardFor registry (bs_Symbol bs) = Some (int k) \<and> mid k (bs_Symbol bs) = Some b \<and> Snapshot b = Some bs"
    if bs: "bs \<in> set ?books" for bs
  proof -
    obtain k x where k: "k < ?n" "x \<in> set (SymbolsForShard registry (int k))" "bs = ?snap k x" using bs by auto
    then have f: "ShardFor registry x = Some (int k)" using registry_laws(1) [OF cfg, of k] by simp
    have known: "\<forall>c\<in>set (madeBy hist e k). cmd_Symbol c \<in> set (SymbolsForShard registry (int k))"
      using routed k(1) shard_symbols [OF cfg] by blast
    obtain log where "servedBy registry k (madeBy hist e k) (mid k) log" using served k(1) by blast
    note m = servedBy_refines(2,3) [OF this known]
    then obtain b where b: "mid k x = Some b" using k(2) by blast
    then have "Snapshot b = Some bs" using m(1) Snapshot_refines(1) k(3) by (simp add: books_rep_def)
    then show ?thesis using f b k(3) sym by metis
  qed
  ultimately have "snapshotTaken cfg registry (madeBy hist e) mid ?s" unfolding snapshotTaken_def EngineSnapshot.simps set_sort by blast
  then show ?thesis using s by blast
qed

lemma drained_shards:
  assumes "NewEngine genc gdec snapDir walDir disks outs cfg = Some (Inr e0)" and "estep\<^sup>*\<^sup>* e0 e"
    and "sq_point (en_sequencer e) = AwaitRelease release" and "release \<notin> set (sq_released (en_sequencer e))" and "k < nat (cfg_ShardCount cfg)"
  shows "sp_point (en_shards e ! k) = Held release \<and> (snd (last (sq_results (en_sequencer e))) = None \<longrightarrow> lp_failedErr (en_shards e ! k) = None)"
proof -
  have n: "questions e0" "heldSoFar e0" "length (en_shards e0) = nat (cfg_ShardCount cfg)" using new_held [OF assms(1)] by simp_all
  have "length (en_shards e) = length (en_shards e0)" using esteps_shards [OF assms(2)] by simp
  moreover have "heldSoFar e" using esteps_held [OF assms(2) n(1,2)] by simp
  ultimately show ?thesis using assms(3-5) n(3) by (simp add: heldSoFar_def heldBy_def)
qed

text \<open>A shard that waits for the release of a drain has no command pending, whether or not the drain was answered with an error.\<close>

definition heldDone :: "shardProc \<Rightarrow> bool" where
  "heldDone s \<longleftrightarrow> (\<forall>release. sp_point s = Held release \<longrightarrow> lp_pending s = [])"

lemma shwork_heldDone: "shwork s t \<Longrightarrow> heldDone s \<Longrightarrow> heldDone t"
  by (induction rule: shwork.induct)
    (auto simp: heldDone_def completeNext_point appendLogged_def appendFailed_def sendReply_def failPending_def flushError_def answerFlush_def endLoop_def Let_def)

lemma shstep_heldDone: "shstep s t \<Longrightarrow> heldDone s \<Longrightarrow> heldDone t"
proof (induction rule: shstep.induct)
  case (sh_receive s m)
  then have s: "sp_point s = Selecting" by (simp add: canReceive_def)
  show ?case
  proof (cases m)
    case (RoutedCommand cmd reply)
    have "sp_point (receiveCommand cmd reply s) \<noteq> Held release" for release using s
      by (auto simp: receiveCommand_def enqueueCommand_def appendFailed_def completeCommand_def sendReply_def failPending_def Let_def
          split: option.split enqueued.split sum.split prod.split if_splits)
    then show ?thesis using RoutedCommand by (simp add: heldDone_def)
  qed (auto simp: flushPending_def flushError_def answerFlush_def failPending_def heldDone_def split: sum.split)
qed (auto simp: heldDone_def dest: shwork_heldDone)

lemma drained_pending:
  assumes "NewEngine genc gdec snapDir walDir disks outs cfg = Some (Inr e0)" and "estep\<^sup>*\<^sup>* e0 e" and "k < nat (cfg_ShardCount cfg)"
    and "sp_point (en_shards e ! k) = Held release"
  shows "lp_pending (en_shards e ! k) = []"
proof -
  have k: "k < length (en_shards e0)" "sp_point (en_shards e0 ! k) = Selecting" using new_shards [OF assms(1)] assms(3) by metis+
  have "shstep\<^sup>*\<^sup>* s t \<Longrightarrow> heldDone s \<Longrightarrow> heldDone t" for s t by (induction rule: rtranclp_induct) (auto dest: shstep_heldDone)
  moreover have "shstep\<^sup>*\<^sup>* (en_shards e0 ! k) (en_shards e ! k)" using esteps_shards [OF assms(2)] k(1) by simp
  moreover have "heldDone (en_shards e0 ! k)" using k(2) by (simp add: heldDone_def)
  ultimately show ?thesis using assms(4) by (simp add: heldDone_def)
qed

lemma drained_snapshot:
  assumes cfg: "Config_Validate cfg = None" "NewSymbolRegistry (cfg_Symbols cfg) (cfg_ShardCount cfg) = Some (Inr registry)"
      "cfg_ShardCount cfg < 2 ^ 32"
    and hist: "logged cfg registry disks recss hist" "snapshotOf genc gdec snapDir cfg registry hist"
      "crashDir (nat (cfg_ShardCount cfg)) disks walDir"
    and new: "NewEngine genc gdec snapDir walDir disks outs cfg = Some (Inr e0)" and run: "estep\<^sup>*\<^sup>* e0 e"
    and drain: "sq_point (en_sequencer e) = AwaitRelease release" "release \<notin> set (sq_released (en_sequencer e))"
      "snd (last (sq_results (en_sequencer e))) = None"
  shows "\<exists>snap mid. engineSnapshot e = Some snap \<and> snapshotTaken cfg registry (madeBy hist e) mid snap
    \<and> (\<forall>k<nat (cfg_ShardCount cfg). (\<exists>log. servedBy registry k (madeBy hist e k) (mid k) log) \<and> sorted_wrt (<) (0 # map cmd_Seq (madeBy hist e k))
          \<and> length (lp_applied (en_shards e ! k)) \<le> length (ackedChans (sp_wal (en_shards e ! k))))"
proof -
  let ?n = "nat (cfg_ShardCount cfg)" and ?s = "\<lambda>k. en_shards e ! k"
  obtain i where i: "\<forall>k<?n. lastSeq 0 (hist k) < i \<and> routedTo e registry i k"
    "\<forall>k<?n. \<exists>books0 w. runsFrom cfg registry (disks k) k (hist k) books0 w (?s k)"
    "length (en_shards e) = ?n" "en_engineID e = cfg_EngineID cfg" using engine_run [OF cfg hist new run] by blast
  have d: "lastApplied (?s k) = lastSeq 0 (madeBy hist e k) \<and> length (lp_applied (?s k)) \<le> length (ackedChans (sp_wal (?s k)))" if k: "k < ?n" for k
  proof -
    obtain books0 w outs where r: "NewWriter (engineWriterConfig cfg k) (disks k) outs = Inr w" "wstep\<^sup>*\<^sup>* w (sp_wal (?s k))"
      "shinv k books0 (lastSeq 0 (hist k)) (?s k)" using i(2) k by (auto simp: runsFrom_def)
    have h: "sp_point (?s k) = Held release" "lp_failedErr (?s k) = None" using drained_shards [OF new run drain(1,2) k] drain(3) by simp_all
    show ?thesis using drained_acked(2,3) [OF r h] by simp
  qed
  have routed: "sorted_wrt (<) (0 # map cmd_Seq (madeBy hist e k)) \<and> (\<forall>c\<in>set (madeBy hist e k). ShardFor registry (cmd_Symbol c) = Some (int k))"
    if k: "k < ?n" for k
  proof -
    have "subseq (lp_applied (?s k)) (map fst (lp_received (?s k)))" using i(2) k by (auto simp: runsFrom_def)
    moreover have "sorted_wrt (<) (0 # map cmd_Seq (hist k))" "\<forall>c\<in>set (hist k). ShardFor registry (cmd_Symbol c) = Some (int k)"
      using hist(1) k unfolding logged_def by blast+
    ultimately show ?thesis using applied_commands [where m = "length (lp_applied (?s k))", OF _ _ _ _ _ refl] i(1) k by (metis order_refl take_all)
  qed
  have "\<exists>after. k < ?n \<longrightarrow> servedBy registry k (madeBy hist e k) after (abs_log (word_of_nat k) emptyBook (madeBy hist e k))" for k
    using servedBy_total routed shard_symbols [OF cfg] by blast
  then obtain mid where mid: "\<forall>k<?n. servedBy registry k (madeBy hist e k) (mid k) (abs_log (word_of_nat k) emptyBook (madeBy hist e k))" by metis
  then show ?thesis using engine_snapshot [OF cfg i(3,4,2), of mid] d routed by blast
qed

subsection \<open>After a drain\<close>

lemma drained_at:
  assumes "NewEngine genc gdec snapDir walDir disks outs cfg = Some (Inr e0)" and "estep\<^sup>*\<^sup>* e0 e"
    and "sq_point (en_sequencer e) = AwaitRelease release" and "release \<notin> set (sq_released (en_sequencer e))"
  shows "drainedAt release e"
proof -
  have "length (en_shards e) = length (en_shards e0)" using esteps_shards [OF assms(2)] by simp
  then show ?thesis using drained_shards [OF assms] new_held [OF assms(1)] assms(3,4) by (simp add: drainedAt_def)
qed

lemma take_released: "sq_released (takeRequest req q) = sq_released q"
  by (cases req) (auto simp: takeCommand_def replySeq_def observeSeq_def Let_def split: option.split)

lemma end_released: "sq_released (endBroadcast req err q) = sq_released q"
  by (cases req) simp_all

lemma released_grow:
  assumes "estep e e'"
  shows "set (sq_released (en_sequencer e)) \<subseteq> set (sq_released (en_sequencer e'))"
  using assms
proof (induction rule: estep.induct)
  case (e_run e q)
  then show ?case
    by (auto simp: seqRun_def sendInbox_def take_released end_released split: seqPoint.splits list.splits if_splits option.splits)
next
  case (e_returned reply latency e r e')
  then show ?case using SubmitReturn_fields [OF e_returned(1)] by simp
qed (auto simp: takeInbox_def dest: call_view)

lemma drained_steps:
  assumes "estep\<^sup>*\<^sup>* e e'" and "drainedAt release e" and "release \<notin> set (sq_released (en_sequencer e'))"
  shows "drainedAt release e' \<and> engineSnapshot e' = engineSnapshot e"
  using assms
proof (induction rule: rtranclp_induct)
  case (step t u)
  then have t: "drainedAt release t" "engineSnapshot t = engineSnapshot e" using released_grow [OF step(2)] by auto
  note d = estep_drained [OF step(2) t(1) step(5)]
  then have "engineSnapshot u = engineSnapshot t" using estep_shards [OF step(2)] by (intro engineSnapshot_same) simp_all
  then show ?case using d t(2) by simp
qed simp

lemma applied_later:
  assumes cfg: "Config_Validate cfg = None" "NewSymbolRegistry (cfg_Symbols cfg) (cfg_ShardCount cfg) = Some (Inr registry)"
      "cfg_ShardCount cfg < 2 ^ 32"
    and hist: "logged cfg registry disks recss hist" "snapshotOf genc gdec snapDir cfg registry hist"
      "crashDir (nat (cfg_ShardCount cfg)) disks walDir"
    and new: "NewEngine genc gdec snapDir walDir disks outs cfg = Some (Inr e0)" and run: "estep\<^sup>*\<^sup>* e0 e1" "estep\<^sup>*\<^sup>* e1 e"
  shows "\<forall>k<nat (cfg_ShardCount cfg). prefix (lp_applied (en_shards e1 ! k)) (lp_applied (en_shards e ! k))
    \<and> length (ackedChans (sp_wal (en_shards e1 ! k))) \<le> length (ackedChans (sp_wal (en_shards e ! k)))"
proof (intro allI impI)
  fix k assume k: "k < nat (cfg_ShardCount cfg)"
  obtain books0 w where r: "length (en_shards e1) = nat (cfg_ShardCount cfg)" "runsFrom cfg registry (disks k) k (hist k) books0 w (en_shards e1 ! k)"
    using engine_run [OF cfg hist new run(1)] k by blast
  have s: "shstep\<^sup>*\<^sup>* (en_shards e1 ! k) (en_shards e ! k)" using esteps_shards [OF run(2)] r(1) k by simp
  have "shinv k books0 (lastSeq 0 (hist k)) (en_shards e1 ! k)" using r(2) by (simp add: runsFrom_def)
  from shsteps_shinv [OF s this] show "prefix (lp_applied (en_shards e1 ! k)) (lp_applied (en_shards e ! k))
      \<and> length (ackedChans (sp_wal (en_shards e1 ! k))) \<le> length (ackedChans (sp_wal (en_shards e ! k)))"
    using shsteps_applied_prefix [OF s] wsteps_acked by blast
qed

end
