(* ===== verification/Engine_Save.thy ===== *)
theory Engine_Save
  imports Engine_Snapshot Snapshot_Save
begin

text \<open>
  The file of a snapshot of a drained engine: its name is the greatest one in the directory, so it is the latest snapshot
  once it is there, and whatever happens while it is saved, a later recovery finds a snapshot that it can start from.
\<close>

subsection \<open>The name of a later snapshot\<close>

lemma maxSeqFrom_mono: "list_all2 (\<le>) xs ys \<Longrightarrow> m \<le> n \<Longrightarrow> maxSeqFrom m xs \<le> maxSeqFrom n ys"
proof (induction arbitrary: m n rule: list_all2_induct)
  case (Cons x xs y ys)
  then show ?case by (auto intro!: Cons.IH)
qed simp

lemma snapshotName_mono:
  assumes "maxSeq (es_LastAppliedByShard s) \<le> maxSeq (es_LastAppliedByShard t)"
  shows "snapshotName s \<le> snapshotName t"
proof -
  let ?n = "\<lambda>s. unat (maxSeq (es_LastAppliedByShard s))"
  have b: "?n s < 10 ^ 20" for s :: EngineSnapshot using unsigned_less [of "maxSeq (es_LastAppliedByShard s)", where ?'a = nat] by simp
  have l: "length (padded 20 (?n t)) = length (padded 20 (?n s))" using padded_length [OF b] by simp
  have "snapshotName t < snapshotName s \<longleftrightarrow> ?n t < ?n s"
    unfolding snapshotName_def prepend_less_iff append_less_iff [OF l] by (rule padded_less_iff [OF b b]) simp
  then show ?thesis using assms by (simp add: not_less [symmetric] word_less_nat_alt)
qed

lemma lastSeq_prefix:
  assumes "prefix xs ys" and "sorted_wrt (<) (0 # map cmd_Seq ys)"
  shows "lastSeq 0 xs \<le> lastSeq 0 ys"
proof -
  obtain zs where ys: "ys = xs @ zs" using assms(1) by (auto simp: prefix_def)
  have "sorted_wrt (<) (lastSeq 0 xs # map cmd_Seq zs)" using assms(2) unfolding ys by (rule sorted_seqs_covered(2))
  then show ?thesis by (cases zs rule: rev_cases) (auto simp: ys lastSeq_def)
qed

text \<open>The snapshots in the directory come from earlier in the same history.\<close>

lemma earlier_names:
  assumes "snapshotOf genc gdec dir cfg registry hist" and "\<forall>snap path. LoadLatest genc gdec dir = Inr (snap, path) \<longrightarrow> path = snapshotName snap"
    and "snapshotTaken cfg registry made mid new" and "\<forall>k<nat (cfg_ShardCount cfg). prefix (hist k) (made k) \<and> sorted_wrt (<) (0 # map cmd_Seq (made k))"
  shows "\<forall>n\<in>snapNames dir. n \<le> snapshotName new"
proof (cases "LoadLatest genc gdec dir = Inl SnapNotExist")
  case True
  then have "snapNames dir = {}"
    by (auto simp: LoadLatest_Max Let_def openPayload_def ebind_def split: if_splits option.splits sum.splits)
  then show ?thesis by simp
next
  case False
  then obtain snap path pre old where l: "LoadLatest genc gdec dir = Inr (snap, path)" "snapshotTaken cfg registry pre old snap"
    "\<forall>k<nat (cfg_ShardCount cfg). prefix (pre k) (hist k)" using assms(1) unfolding snapshotOf_def by blast
  have "lastSeq 0 (pre k) \<le> lastSeq 0 (made k)" if "k < nat (cfg_ShardCount cfg)" for k
    using assms(4) l(3) that by (intro lastSeq_prefix) (auto intro: prefix_order.trans)
  then have "list_all2 (\<le>) (es_LastAppliedByShard snap) (es_LastAppliedByShard new)"
    using l(2) assms(3) by (auto simp: snapshotTaken_def list_all2_conv_all_nth)
  then have "snapshotName snap \<le> snapshotName new" by (intro snapshotName_mono) (simp add: maxSeq_def maxSeqFrom_mono)
  moreover have "Max (snapNames dir) = path"
    using l(1) by (auto simp: LoadLatest_Max Let_def ebind_Inr_iff split: if_splits option.splits)
  then have "\<forall>n\<in>snapNames dir. n \<le> path" by (metis Max_ge finite_snapNames)
  ultimately show ?thesis using assms(2) l(1) by (metis order.trans)
qed

subsection \<open>The directory\<close>

text \<open>
  A snapshot directory in which, whatever a crash leaves of it, the latest snapshot was taken when each shard had served a
  prefix of the commands, and has the name that \<open>SaveAtomically\<close> gives it.
\<close>

definition snapshotsOf :: "gob_encoder \<Rightarrow> gob_decoder \<Rightarrow> disk \<Rightarrow> Config \<Rightarrow> SymbolRegistry \<Rightarrow> (nat \<Rightarrow> Command list) \<Rightarrow> bool" where
  "snapshotsOf genc gdec d cfg registry hist \<longleftrightarrow> tidy d \<and> (\<forall>img. crash_image d img \<longrightarrow> snapshotOf genc gdec img cfg registry hist
     \<and> (\<forall>snap path. LoadLatest genc gdec img = Inr (snap, path) \<longrightarrow> path = snapshotName snap))"

lemma snapshotsOf_mono:
  assumes "snapshotsOf genc gdec d cfg registry hist" and "\<forall>k<nat (cfg_ShardCount cfg). prefix (hist k) (hist' k)"
  shows "snapshotsOf genc gdec d cfg registry hist'"
  using assms snapshotOf_mono unfolding snapshotsOf_def by blast

text \<open>The directory as a restarted program finds it.\<close>

lemma snapshotsOf_settled:
  assumes "settled d" and "snapshotOf genc gdec (contents d) cfg registry hist"
    and "\<forall>snap path. LoadLatest genc gdec (contents d) = Inr (snap, path) \<longrightarrow> path = snapshotName snap"
  shows "snapshotsOf genc gdec d cfg registry hist"
proof -
  have "LoadLatest genc gdec img = LoadLatest genc gdec (contents d)" if "crash_image d img" for img
    using load_unchanged(1) [OF settled_image [OF assms(1) that]] .
  then show ?thesis using assms settled_tidy by (simp add: snapshotsOf_def snapshotOf_def)
qed

text \<open>A save keeps this, whatever its calls return.\<close>

lemma save_snapshotsOf:
  assumes d0: "snapshotsOf genc gdec d0 cfg registry made" and snap: "snapshotTaken cfg registry made mid snap"
      "\<forall>k<nat (cfg_ShardCount cfg). \<exists>log. servedBy registry k (made k) (mid k) log" "\<forall>k<nat (cfg_ShardCount cfg). sorted_wrt (<) (0 # map cmd_Seq (made k))"
    and save: "gob_ok genc gdec" "SaveAtomically genc snap \<lparr>w_disk = d0, w_outs = outs\<rparr> = (r, w)"
  shows "snapshotsOf genc gdec (w_disk w) cfg registry made"
    and "crash_image (w_disk w) img \<Longrightarrow> r = Ret path \<Longrightarrow> LoadLatest genc gdec img = Inr (snap, path)"
proof -
  have t: "tidy d0" using d0 by (simp add: snapshotsOf_def)
  have names: "\<forall>img0. crash_image d0 img0 \<longrightarrow> (\<forall>n\<in>snapNames img0. n \<le> snapshotName snap)"
    using d0 earlier_names [OF _ _ snap(1)] snap(3) unfolding snapshotsOf_def by (meson prefix_order.refl)
  note l = save_loads [OF t save(1) names save(2)]
  then show "LoadLatest genc gdec img = Inr (snap, path)" if "crash_image (w_disk w) img" "r = Ret path" using that by blast
  have new: "snapshotOf genc gdec img cfg registry made" if "LoadLatest genc gdec img = Inr (snap, path)" for img path
    using that snap(1,2) unfolding snapshotOf_def by blast
  have "snapshotOf genc gdec img cfg registry made \<and> (\<forall>s path. LoadLatest genc gdec img = Inr (s, path) \<longrightarrow> path = snapshotName s)"
    if img: "crash_image (w_disk w) img" for img
  proof (cases "LoadLatest genc gdec img = Inr (snap, snapshotName snap)")
    case False
    then obtain img0 where "crash_image d0 img0" "LoadLatest genc gdec img = LoadLatest genc gdec img0" using l [OF img] by blast
    then show ?thesis using d0 by (simp add: snapshotsOf_def snapshotOf_def)
  qed (use new in auto)
  then show "snapshotsOf genc gdec (w_disk w) cfg registry made" using save_tidy [OF t save(2)] by (simp add: snapshotsOf_def)
qed

subsection \<open>Recovery\<close>

text \<open>A snapshot of what the shards had applied at a drain serves as a start, also later.\<close>

lemma snapshot_recovers:
  assumes cfg: "Config_Validate cfg = None" "NewSymbolRegistry (cfg_Symbols cfg) (cfg_ShardCount cfg) = Some (Inr registry)"
      "cfg_ShardCount cfg < 2 ^ 32"
    and hist: "logged cfg registry disks recss hist" "snapshotOf genc gdec snapDir cfg registry hist"
      "crashDir (nat (cfg_ShardCount cfg)) disks walDir"
    and new: "NewEngine genc gdec snapDir walDir disks outs cfg = Some (Inr e0)" and run: "estep\<^sup>*\<^sup>* e0 e1"
    and snap: "snapshotOf genc gdec snapDir' cfg registry (madeBy hist e1)"
      "\<forall>k<nat (cfg_ShardCount cfg). length (lp_applied (en_shards e1 ! k)) \<le> length (ackedChans (sp_wal (en_shards e1 ! k)))"
    and later: "estep\<^sup>*\<^sup>* e1 e" "crashDir (nat (cfg_ShardCount cfg)) (walDisk e) walDir'" "\<forall>k<nat (cfg_ShardCount cfg). withinLimits (sp_wal (en_shards e ! k))"
  shows "recoversRun genc gdec snapDir' walDir' cfg registry hist e"
proof -
  note applied = applied_later [OF cfg hist new run later(1)]
  have "prefix (madeBy hist e1 k) (hist k @ take (length (lp_applied (en_shards e1 ! k))) (lp_applied (en_shards e ! k)))"
    if "k < nat (cfg_ShardCount cfg)" for k using applied that by (auto simp: prefix_def)
  then have "snapshotOf genc gdec snapDir' cfg registry (\<lambda>k. hist k @ take (length (lp_applied (en_shards e1 ! k))) (lp_applied (en_shards e ! k)))"
    by (intro snapshotOf_mono [OF snap(1)]) simp
  then show ?thesis using applied snap(2)
    by (intro engine_crash [OF cfg hist new rtranclp_trans [OF run later(1)] later(2,3)]) (auto intro: order.trans)
qed

text \<open>The steps of the engine that \<open>CreateSnapshot\<close> makes in the end.\<close>

lemma CreateSnapshot_steps:
  assumes "CreateSnapshot genc release d e w = Some (r, e', w')"
  shows "estep\<^sup>*\<^sup>* e e' \<and> release \<in> set (sq_released (en_sequencer e'))"
proof -
  define p where "p = (case r of Ret path \<Rightarrow> snapshotPause d e | _ \<Rightarrow> e)"
  have "estep\<^sup>*\<^sup>* e p" by (auto simp: p_def intro: e_paused split: io_res.split)
  moreover obtain snap where "engineSnapshot e = Some snap" using assms by (auto simp: CreateSnapshot_def Option.bind_eq_Some_conv)
  then have e': "e' = onSequencer (closeRelease release (en_sequencer p)) p"
    using assms by (cases "SaveAtomically genc snap w") (auto simp: CreateSnapshot_def p_def Let_def)
  ultimately have "estep\<^sup>*\<^sup>* e e'" using e_release [of p release] by simp
  then show ?thesis by (simp add: e' closeRelease_def)
qed

end
