(* ===== verification/Engine_Sample.thy ===== *)
theory Engine_Sample
  imports Engine_Save
begin

text \<open>A small engine with one shard, on the log of an earlier run with one command, up to a drain.\<close>

subsection \<open>The directories\<close>

definition engineConfig :: Config where
  "engineConfig = \<lparr>cfg_EngineID = ''engine-1'', cfg_Symbols = [''BTC''], cfg_ShardCount = 1,
     cfg_IngressQueueSize = 8, cfg_ShardQueueSize = 8, cfg_WALDir = ''wal'', cfg_SnapshotDir = ''snap'',
     cfg_MaxBatchCommands = 1, cfg_MaxBatchBytes = 4096, cfg_MaxBatchDelayMicros = 100,
     cfg_EnableMetrics = False, cfg_MetricsReportMillis = 0\<rparr>"

definition engineRegistry :: SymbolRegistry where
  "engineRegistry = \<lparr>reg_shardCount = 1, reg_bySymbol = [''BTC'' \<mapsto> 0], reg_symbolsByShard = (\<lambda>_. [])(0 := [''BTC''])\<rparr>"

definition earlierRecord :: Record where
  "earlierRecord = logRecord 0 sampleCommand sampleResult"

abbreviation writer0 :: WriterConfig where
  "writer0 \<equiv> engineWriterConfig engineConfig 0"

definition engineDisk :: disk where
  "engineDisk = \<lparr>dk_files = [wholeFile (segmentHeader writer0) [earlierRecord]],
     dk_dir = [(segmentName 0 0, 0)], dk_durable = [(segmentName 0 0, 0)]\<rparr>"

definition engineDir :: wal_dir where
  "engineDir = [(segmentName 0 0, Some (segmentBytes (segmentHeader writer0) [earlierRecord]))]"

lemma engine_config: "Config_Validate engineConfig = None" "cfg_ShardCount engineConfig = 1" "cfg_Symbols engineConfig = [''BTC'']"
  "cfg_IngressQueueSize engineConfig = 8" "cfg_ShardQueueSize engineConfig = 8" "cfg_EngineID engineConfig = ''engine-1''"
  by (simp_all add: engineConfig_def Config_Validate_def)

lemma engine_registry: "NewSymbolRegistry (cfg_Symbols engineConfig) (cfg_ShardCount engineConfig) = Some (Inr engineRegistry)"
proof -
  have "stableShardID ''BTC'' 1 = Some 0" by code_simp
  then show ?thesis by (simp add: engine_config NewSymbolRegistry_def engineRegistry_def)
qed

lemma engine_routes: "ShardFor engineRegistry ''BTC'' = Some 0" "SymbolsForShard engineRegistry 0 = [''BTC'']"
  by (simp_all add: engineRegistry_def ShardFor_def SymbolsForShard_def)

lemma writer0_fields: "wc_ShardID writer0 = 0" "wc_ShardCount writer0 = 1" "wc_EngineID writer0 = ''engine-1''" "wc_QueueSize writer0 = 8"
  "wc_MaxBatchCommands writer0 = 1" "wc_MaxBatchBytes writer0 = 4096" "wc_SegmentMaxBytes writer0 = 67108864" "wc_Dir writer0 = ''wal''"
  "wc_MaxBatchDelay writer0 = 100000"
  by (simp_all add: engineWriterConfig_def engineConfig_def batchDelay_def)

lemma engine_base: "logBase writer0 engineDisk [[earlierRecord]]"
proof -
  have "loggable 0 earlierRecord"
    by (simp add: loggable_def earlierRecord_def logRecord_def encodable_def payloadSize_def sampleRecord_def sampleResult_def sampleCommand_def
        payloadFixedSize_def eventEncodedSize_def)
  then show ?thesis
    by (auto simp: logBase_def shard_log_def settled_def hasSegments_def engineDisk_def writer0_fields wholeFile_def contents_def
        segmentHeader_def segmentBytes_def)
qed

lemma engine_logged: "logged engineConfig engineRegistry (\<lambda>_. engineDisk) (\<lambda>_. [[earlierRecord]]) (\<lambda>_. [sampleCommand])"
proof -
  have "servedBy engineRegistry 0 [sampleCommand] [''BTC'' \<mapsto> restedBook] [earlierRecord]"
    by (simp add: servedBy_def engine_routes sample_symbol rested_Apply earlierRecord_def)
  then show ?thesis using engine_base by (auto simp: logged_def engine_config sample_symbol engine_routes)
qed

lemma engine_no_snapshot: "LoadLatest genc gdec [] = Inl SnapNotExist"
  by (simp add: LoadLatest_def glob_def)

lemma engine_dir: "crashDir (nat (cfg_ShardCount engineConfig)) (\<lambda>_. engineDisk) engineDir"
proof -
  have "crash_image engineDisk engineDir"
    by (auto simp: crash_image_def entry_after_def leftOf_def engineDisk_def engineDir_def wholeFile_def)
  then show ?thesis by (auto simp: crashDir_def engine_config)
qed

subsection \<open>The start\<close>

definition engineWriter :: wproc where
  "engineWriter = initWriter writer0 engineDisk (replicate 7 IoOk)"

definition engineAt :: "loop_err Sequencer \<Rightarrow> shardProc \<Rightarrow> Engine" where
  "engineAt q s = \<lparr>en_registry = engineRegistry, en_sequencer = q, en_shards = [s], en_engineID = ''engine-1'', en_metrics = []\<rparr>"

definition startSequencer :: "loop_err Sequencer" where
  "startSequencer = NewSequencer 8 8 1 8 (ShardFor engineRegistry)"

abbreviation startSample :: "gob_encoder \<Rightarrow> gob_decoder \<Rightarrow> (engine_err + Engine) option" where
  "startSample genc gdec \<equiv> NewEngine genc gdec [] engineDir (\<lambda>_. engineDisk) (\<lambda>_. replicate 8 IoOk) engineConfig"

lemma engine_NewWriter: "NewWriter writer0 engineDisk (replicate 8 IoOk) = Inr engineWriter"
  by (simp add: NewWriter_def validateWriterConfig_def writer0_fields makeDir_def osCall_def andThen_def nextOutcome_def
      modify_def onDisk_def engineWriter_def numeral_eq_Suc)

lemma engine_started:
  "\<exists>l. (\<forall>genc gdec. startSample genc gdec = Some (Inr (engineAt startSequencer (startLoop l 7 engineWriter))))
     \<and> lp_failedErr l = None \<and> lp_hasWAL l \<and> lp_pending l = [] \<and> lp_applied l = [] \<and> lp_replies l = []"
proof -
  have snap: "snapshotOf genc gdec [] engineConfig engineRegistry (\<lambda>_. [sampleCommand])" for genc gdec
    by (simp add: snapshotOf_def engine_no_snapshot)
  have "cfg_ShardCount engineConfig < 2 ^ 32" by (simp add: engine_config)
  from start_recovers [OF engine_config(1) engine_registry this engine_logged snap engine_dir, of "\<lambda>_. Inl []" "\<lambda>_. Inl []"]
  obtain out where out: "recoverBooks (\<lambda>_. Inl []) (\<lambda>_. Inl []) [] engineDir engineConfig engineRegistry = Some (Inr (out, [7]))"
    "out ''BTC'' = Some (abs_snapshot (abs_serve emptyBook [sampleCommand] ''BTC''))"
    by (auto simp: engine_config engine_routes sample_symbol lastSeq_def)
  have r: "recoverBooks genc gdec [] engineDir engineConfig engineRegistry = Some (Inr (out, [7]))" for genc gdec
    using out(1) by (simp add: recoverBooks_def engine_no_snapshot)
  obtain l where l: "newLoop 0 [''BTC''] True out = Some l"
    using newLoop_recovered [of "[''BTC'']" out "[sampleCommand]" 0] out(2) by auto
  then have f: "lp_failedErr l = None" "lp_hasWAL l" "lp_pending l = []" "lp_applied l = []" "lp_replies l = []" by (auto simp: newLoop_def Option.bind_eq_Some_conv)
  have "nextSequence [7] = 8" by (simp add: nextSequence_def)
  then have "startSample genc gdec = Some (Inr (engineAt startSequencer (startLoop l 7 engineWriter)))" for genc gdec
    by (simp add: NewEngine_def engine_registry [unfolded engine_config(2,3)] r engine_config startShard_def engine_routes engine_NewWriter l engineAt_def startSequencer_def Let_def)
  then show ?thesis using f by blast
qed

subsection \<open>The log writer at a flush\<close>

definition openedDisk :: disk where
  "openedDisk = \<lparr>dk_files = [wholeFile (segmentHeader writer0) [earlierRecord], wholeFile (segmentHeader writer0) []],
     dk_dir = [(segmentName 0 0, 0), (segmentName 0 1, 1)], dk_durable = [(segmentName 0 0, 0), (segmentName 0 1, 1)]\<rparr>"

definition flushingWriter :: wproc where
  "flushingWriter = engineWriter\<lparr>wp_requests := [ReqFlush 0], wp_nextChan := 1\<rparr>"

definition openedWriter :: wproc where
  "openedWriter = flushingWriter\<lparr>w_disk := openedDisk, w_outs := [IoOk, IoOk], ws_segmentIndex := 2, ws_currentFile := Some 1,
     ws_currentSize := int (length (segmentBytes (segmentHeader writer0) [])), wp_phase := Running\<rparr>"

definition flushedWriter :: wproc where
  "flushedWriter = openedWriter\<lparr>wp_requests := [], wp_closedDones := [0]\<rparr>"

lemma segment_names: "segmentName 0 1 \<noteq> segmentName 0 0"
  by code_simp

lemma writer_flushing: "flushSend engineWriter = (0, flushingWriter)"
  by (simp add: flushSend_def flushingWriter_def engineWriter_def initWriter_def)

lemma writer_opened: "exec runStart flushingWriter = openedWriter"
proof -
  have "nextSegmentIndex (map fst (dk_dir engineDisk)) 0 = Inr (int 1)"
    using engine_base by (intro nextSegmentIndex_segments) (simp_all add: logBase_def shard_log_def settled_def writer0_fields)
  then have n: "nextSegmentIndex [segmentName 0 0] 0 = Inr 1" by (simp add: engineDisk_def)
  have h: "EncodeSegmentHeader (segmentHeader writer0) = Inr (segmentBytes (segmentHeader writer0) [])"
    using logBase_header [OF engine_base] by metis
  show ?thesis using segment_names
    by (simp add: exec_def runStart_def openNextSegment_def chooseIndex_def closeSegment_def createSegment_def
        writeHeader_def h io_simps flushingWriter_def openedWriter_def openedDisk_def engineWriter_def initWriter_def engineDisk_def n
        wholeFile_def writer0_fields Let_def numeral_eq_Suc)
qed

lemma writer_flushed: "exec runRequest openedWriter = flushedWriter"
  by (simp add: flushedWriter_def openedWriter_def flushingWriter_def engineWriter_def initWriter_def exec_def runRequest_def
      flush_def endIteration_def closeDone_def io_simps)

subsection \<open>A drain\<close>

definition sampleShard :: "Loop \<Rightarrow> wproc \<Rightarrow> loopPoint \<Rightarrow> (nat \<times> loop_err option) list \<Rightarrow> shardProc" where
  "sampleShard l w pt as = (startLoop l 7 engineWriter)\<lparr>sp_wal := w, sp_point := pt, sp_answers := as\<rparr>"

definition askedSequencer :: "loop_err seqPoint \<Rightarrow> Routed list \<Rightarrow> (nat \<times> loop_err option) list \<Rightarrow> (nat \<times> loop_err option) list \<Rightarrow> loop_err Sequencer" where
  "askedSequencer pt ms as rs = startSequencer\<lparr>sq_submitted := [RequestDrain 0 0], sq_nextChan := 1, sq_sent := [(0, RoutedDrain 0 0)],
     sq_point := pt, sq_inboxes := [ms], sq_answers := as, sq_results := rs\<rparr>"

definition drainedSample :: "Loop \<Rightarrow> Engine" where
  "drainedSample l = engineAt (askedSequencer (AwaitRelease 0) [] [(0, None)] [(0, None)]) (sampleShard l flushedWriter (Held 0) [(0, None)])"

lemma sampleShard_fields [simp]:
  "sp_wal (sampleShard l w pt as) = w" "sp_point (sampleShard l w pt as) = pt" "sp_answers (sampleShard l w pt as) = as"
  "sp_receiving (sampleShard l w pt as)" "lp_failedErr (sampleShard l w pt as) = lp_failedErr l" "lp_hasWAL (sampleShard l w pt as) = lp_hasWAL l"
  "lp_pending (sampleShard l w pt as) = lp_pending l" "lp_applied (sampleShard l w pt as) = lp_applied l"
  "(sampleShard l w pt as)\<lparr>sp_wal := w'\<rparr> = sampleShard l w' pt as" "(sampleShard l w pt as)\<lparr>sp_point := pt'\<rparr> = sampleShard l w pt' as"
  "(sampleShard l w pt as)\<lparr>sp_wal := w', sp_point := pt'\<rparr> = sampleShard l w' pt' as"
  "(sampleShard l w pt as)\<lparr>sp_answers := as', sp_point := pt'\<rparr> = sampleShard l w pt' as'"
  by (simp_all add: sampleShard_def startLoop_def Loop.extend_def)

lemma asked_sequencer:
  "estep\<^sup>*\<^sup>* (engineAt startSequencer s) (engineAt (askedSequencer (AwaitAnswer (RequestDrain 0 0) 0 None 0) [RoutedDrain 0 0] [] []) s)"
proof -
  let ?q1 = "enqueue (RequestDrain 0 0) startSequencer"
  let ?q2 = "startSequencer\<lparr>sq_submitted := [RequestDrain 0 0], sq_point := Broadcasting (RequestDrain 0 0) 0 None\<rparr>"
  let ?q3 = "askedSequencer (AwaitAnswer (RequestDrain 0 0) 0 None 0) [RoutedDrain 0 0] [] []"
  have "DrainSend 0 0 startSequencer = Some (None, ?q1)" by (simp add: DrainSend_def startSequencer_def NewSequencer_def queueRoom_def)
  then have a: "estep (engineAt startSequencer s) (engineAt ?q1 s)"
    using e_drain [of 0 0 "engineAt startSequencer s"] by (simp add: engineAt_def onSequencer_def)
  have "seqRun ?q1 = Some ?q2" by (simp add: seqRun_def enqueue_def startSequencer_def NewSequencer_def)
  then have b: "estep (engineAt ?q1 s) (engineAt ?q2 s)" using e_run [of "engineAt ?q1 s"] by (simp add: engineAt_def onSequencer_def)
  have "seqRun ?q2 = Some ?q3"
    by (simp add: seqRun_def askedSequencer_def startSequencer_def NewSequencer_def inboxRoom_def sendInbox_def)
  then have c: "estep (engineAt ?q2 s) (engineAt ?q3 s)" using e_run [of "engineAt ?q2 s"] by (simp add: engineAt_def onSequencer_def)
  from a b c show ?thesis by (meson rtranclp.rtrancl_into_rtrancl rtranclp.rtrancl_refl)
qed

lemma sample_work:
  assumes "shwork s t" and "sp_answers t = sp_answers s @ as"
  shows "estep (engineAt (askedSequencer pt ms bs rs) s) (engineAt (askedSequencer pt ms (bs @ as) rs) t)"
  using e_work [of 0 "engineAt (askedSequencer pt ms bs rs) s" t] assms
  by (simp add: engineAt_def shardStep_def setShard_def askedSequencer_def startSequencer_def NewSequencer_def)

lemma answered_shard:
  assumes l: "lp_failedErr l = None" "lp_hasWAL l" "lp_pending l = []"
  shows "estep\<^sup>*\<^sup>* (engineAt (askedSequencer pt [RoutedDrain 0 0] [] []) (sampleShard l engineWriter Selecting []))
    (engineAt (askedSequencer pt [] [(0, None)] []) (sampleShard l flushedWriter (Held 0) [(0, None)]))"
proof -
  let ?E = "\<lambda>w p. engineAt (askedSequencer pt [] [] []) (sampleShard l w p [])"
  have "flushEnter engineWriter = None" by (simp add: flushEnter_def engineWriter_def initWriter_def)
  then have "receiveMessage (RoutedDrain 0 0) (sampleShard l engineWriter Selecting []) = sampleShard l engineWriter (FlushSending 0 (Some 0)) []"
    using l by (simp add: flushPending_def flushWAL_def)
  then have a: "estep (engineAt (askedSequencer pt [RoutedDrain 0 0] [] []) (sampleShard l engineWriter Selecting [])) (?E engineWriter (FlushSending 0 (Some 0)))"
    using e_receive [of 0 "engineAt (askedSequencer pt [RoutedDrain 0 0] [] []) (sampleShard l engineWriter Selecting [])" "RoutedDrain 0 0" "[]"] l(3)
    by (simp add: engineAt_def shardStep_def setShard_def onSequencer_def takeInbox_def askedSequencer_def canReceive_def maxPendingCommands_def
        startSequencer_def NewSequencer_def)
  have room: "roomInQueue engineWriter" by (simp add: roomInQueue_def engineWriter_def initWriter_def writer0_fields)
  have b: "estep (?E engineWriter (FlushSending 0 (Some 0))) (?E flushingWriter (FlushWaiting 0 0 (Some 0)))"
    using sample_work [OF sh_flush_sent [of "sampleShard l engineWriter (FlushSending 0 (Some 0)) []"], of 0 "Some 0" 0 flushingWriter "[]"] room writer_flushing by simp
  have c: "estep (?E flushingWriter (FlushWaiting 0 0 (Some 0))) (?E openedWriter (FlushWaiting 0 0 (Some 0)))"
    using sample_work [OF sh_wal_start [of "sampleShard l flushingWriter (FlushWaiting 0 0 (Some 0)) []"], of "[]"]
    by (simp add: writer_opened) (simp add: flushingWriter_def engineWriter_def initWriter_def)
  have d: "estep (?E openedWriter (FlushWaiting 0 0 (Some 0))) (?E flushedWriter (FlushWaiting 0 0 (Some 0)))"
    using sample_work [OF sh_wal_request [of "sampleShard l openedWriter (FlushWaiting 0 0 (Some 0)) []"], of "[]"]
    by (simp add: writer_flushed) (simp add: openedWriter_def flushingWriter_def)
  have "flushReturn 0 flushedWriter = Some None"
    by (simp add: flushReturn_def flushedWriter_def openedWriter_def flushingWriter_def engineWriter_def initWriter_def)
  then have e: "estep (?E flushedWriter (FlushWaiting 0 0 (Some 0))) (?E flushedWriter (Completing 0 (Some 0)))"
    using sample_work [OF sh_flushed [of "sampleShard l flushedWriter (FlushWaiting 0 0 (Some 0)) []"], of 0 0 "Some 0" "[]"] by simp
  have f: "estep (?E flushedWriter (Completing 0 (Some 0)))
      (engineAt (askedSequencer pt [] [(0, None)] []) (sampleShard l flushedWriter (Held 0) [(0, None)]))"
    using sample_work [OF sh_completed [of "sampleShard l flushedWriter (Completing 0 (Some 0)) []"], of 0 "Some 0" "[(0, None)]" pt "[]" "[]" "[]"] l
    by (simp add: answerFlush_def)
  from a b c d e f show ?thesis by (meson rtranclp.rtrancl_into_rtrancl rtranclp.rtrancl_refl)
qed

lemma drained_sequencer:
  "estep\<^sup>*\<^sup>* (engineAt (askedSequencer (AwaitAnswer (RequestDrain 0 0) 0 None 0) [] [(0, None)] []) s)
     (engineAt (askedSequencer (AwaitRelease 0) [] [(0, None)] [(0, None)]) s)"
proof -
  let ?q1 = "askedSequencer (AwaitAnswer (RequestDrain 0 0) 0 None 0) [] [(0, None)] []"
  let ?q2 = "askedSequencer (Broadcasting (RequestDrain 0 0) 1 None) [] [(0, None)] []"
  let ?q3 = "askedSequencer (AwaitRelease 0) [] [(0, None)] [(0, None)]"
  have "seqRun ?q1 = Some ?q2" "seqRun ?q2 = Some ?q3" by (simp_all add: seqRun_def askedSequencer_def startSequencer_def NewSequencer_def)
  then have "estep (engineAt ?q1 s) (engineAt ?q2 s)" "estep (engineAt ?q2 s) (engineAt ?q3 s)"
    using e_run [of "engineAt ?q1 s"] e_run [of "engineAt ?q2 s"] by (simp_all add: engineAt_def onSequencer_def)
  then show ?thesis by (meson rtranclp.rtrancl_into_rtrancl rtranclp.rtrancl_refl)
qed

lemma sample_engine_drained:
  assumes "lp_failedErr l = None" "lp_hasWAL l" "lp_pending l = []"
  shows "estep\<^sup>*\<^sup>* (engineAt startSequencer (startLoop l 7 engineWriter)) (drainedSample l)"
proof -
  have "startLoop l 7 engineWriter = sampleShard l engineWriter Selecting []" by (simp add: sampleShard_def startLoop_def Loop.extend_def)
  then show ?thesis using asked_sequencer answered_shard [OF assms] drained_sequencer unfolding drainedSample_def by (metis rtranclp_trans)
qed

text \<open>The crash right after the drain.\<close>

definition drainedDir :: wal_dir where
  "drainedDir = [(segmentName 0 0, Some (segmentBytes (segmentHeader writer0) [earlierRecord])),
     (segmentName 0 1, Some (segmentBytes (segmentHeader writer0) []))]"

lemma drained_dir: "crashDir (nat (cfg_ShardCount engineConfig)) (walDisk (drainedSample l)) drainedDir"
proof -
  have "crash_image openedDisk drainedDir" using segment_names
    by (auto simp: crash_image_def entry_after_def leftOf_def openedDisk_def drainedDir_def wholeFile_def)
  then show ?thesis by (auto simp: crashDir_def engine_config walDisk_def drainedSample_def engineAt_def flushedWriter_def openedWriter_def)
qed

lemma drained_sample_fields:
  "sq_point (en_sequencer (drainedSample l)) = AwaitRelease 0" "sq_released (en_sequencer (drainedSample l)) = []"
  "sq_results (en_sequencer (drainedSample l)) = [(0, None)]" "lp_applied (en_shards (drainedSample l) ! 0) = lp_applied l"
  "withinLimits (sp_wal (en_shards (drainedSample l) ! 0))"
  by (simp_all add: drainedSample_def engineAt_def askedSequencer_def startSequencer_def NewSequencer_def flushedWriter_def openedWriter_def
      flushingWriter_def engineWriter_def initWriter_def withinLimits_def)

lemma sample_run:
  "\<exists>l. (\<forall>genc gdec. startSample genc gdec = Some (Inr (engineAt startSequencer (startLoop l 7 engineWriter))))
     \<and> estep\<^sup>*\<^sup>* (engineAt startSequencer (startLoop l 7 engineWriter)) (drainedSample l) \<and> lp_applied l = []"
  using engine_started sample_engine_drained by blast

lemma sample_snapshot: "snapshotOf genc gdec [] engineConfig engineRegistry (\<lambda>_. [sampleCommand])"
  by (simp add: snapshotOf_def engine_no_snapshot)

lemma sample_served_by:
  "servedBy engineRegistry 0 [sampleCommand] after log \<Longrightarrow> after = [''BTC'' \<mapsto> restedBook]"
  by (auto simp: servedBy_def engine_routes sample_symbol rested_Apply)

text \<open>What recovery gives when no command has been applied since the start.\<close>

lemma sample_recovers:
  assumes "recoversRun genc gdec snapDir walDir engineConfig engineRegistry (\<lambda>_. [sampleCommand]) e" and "lp_applied (en_shards e ! 0) = []"
  shows "\<exists>out. recoverBooks genc gdec snapDir walDir engineConfig engineRegistry = Some (Inr (out, [7])) \<and> out ''BTC'' = Snapshot restedBook"
proof -
  obtain cs m after log out where r: "cs 0 = [sampleCommand] @ take (m 0) (lp_applied (en_shards e ! 0))" "servedBy engineRegistry 0 (cs 0) (after 0) (log 0)"
    "recoverBooks genc gdec snapDir walDir engineConfig engineRegistry = Some (Inr (out, map (\<lambda>k. lastSeq 0 (cs k)) [0..<1]))"
    "\<exists>k b. ShardFor engineRegistry ''BTC'' = Some (int k) \<and> after k ''BTC'' = Some b \<and> out ''BTC'' = Snapshot b"
    using assms(1) unfolding recoversRun_def engine_config by auto
  have c: "cs 0 = [sampleCommand]" using r(1) assms(2) by simp
  then have "after 0 = [''BTC'' \<mapsto> restedBook]" using r(2) sample_served_by by simp
  then show ?thesis using r(3,4) c by (auto simp: engine_routes sample_symbol)
qed

end
