(* ===== verification/Engine_Properties.thy ===== *)
theory Engine_Properties
  imports Engine_Sample
begin

text \<open>
  The properties of the engine: it starts on what an earlier run has left, a crash loses nothing that a caller was told, a
  drain holds every shard, and a snapshot taken under it is a sound start for a recovery.
\<close>

subsection \<open>The start succeeds\<close>

lemma startShards_total:
  assumes "\<forall>k\<in>set ks. \<exists>l. newLoop k (SymbolsForShard registry (int k)) True recovered = Some l"
  shows "\<exists>r. startShards cfg registry recovered marks disks outs ks = Some r
    \<and> (\<forall>err. r = Inl err \<longrightarrow> (\<exists>k\<in>set ks. \<exists>e. NewWriter (engineWriterConfig cfg k) (disks k) (outs k) = Inl e \<and> err = EngWriter e))"
  using assms
proof (induction ks)
  case (Cons k ks)
  then obtain l r where l: "newLoop k (SymbolsForShard registry (int k)) True recovered = Some l"
    "startShards cfg registry recovered marks disks outs ks = Some r"
    "\<forall>err. r = Inl err \<longrightarrow> (\<exists>k\<in>set ks. \<exists>e. NewWriter (engineWriterConfig cfg k) (disks k) (outs k) = Inl e \<and> err = EngWriter e)" by auto
  show ?case
  proof (cases "NewWriter (engineWriterConfig cfg k) (disks k) (outs k)")
    case (Inr w)
    then show ?thesis using l by (cases r) (auto simp: startShard_def)
  qed (use l in \<open>simp add: startShard_def\<close>)
qed simp

lemma engine_starts:
  assumes cfg: "Config_Validate cfg = None" "NewSymbolRegistry (cfg_Symbols cfg) (cfg_ShardCount cfg) = Some (Inr registry)"
      "cfg_ShardCount cfg < 2 ^ 32"
    and hist: "logged cfg registry disks recss hist" "snapshotOf genc gdec snapDir cfg registry hist"
      "crashDir (nat (cfg_ShardCount cfg)) disks walDir"
  shows "\<exists>r. NewEngine genc gdec snapDir walDir disks outs cfg = Some r
    \<and> (\<forall>err. r = Inl err \<longrightarrow> err = EngExhausted \<and> (\<exists>k<nat (cfg_ShardCount cfg). lastSeq 0 (hist k) = - 1)
        \<or> (\<exists>k<nat (cfg_ShardCount cfg). \<exists>e. NewWriter (engineWriterConfig cfg k) (disks k) (outs k) = Inl e \<and> err = EngWriter e))"
proof -
  let ?n = "nat (cfg_ShardCount cfg)" and ?marks = "map (\<lambda>k. lastSeq 0 (hist k)) [0..<nat (cfg_ShardCount cfg)]"
  obtain out where out: "recoverBooks genc gdec snapDir walDir cfg registry = Some (Inr (out, ?marks))"
    "\<forall>k<?n. \<forall>s\<in>set (SymbolsForShard registry (int k)). out s = Some (abs_snapshot (abs_serve emptyBook (hist k) s))"
    using start_recovers [OF cfg hist] by blast
  have "\<forall>k\<in>set [0..<?n]. \<exists>l. newLoop k (SymbolsForShard registry (int k)) True out = Some l"
    using out(2) newLoop_recovered by (metis atLeastLessThan_iff set_upt)
  from startShards_total [OF this] obtain r where r: "startShards cfg registry out ?marks disks outs [0..<?n] = Some r"
    "\<forall>err. r = Inl err \<longrightarrow> (\<exists>k\<in>set [0..<?n]. \<exists>e. NewWriter (engineWriterConfig cfg k) (disks k) (outs k) = Inl e \<and> err = EngWriter e)" by blast
  show ?thesis
  proof (cases "nextSequence ?marks = 0")
    case True
    then show ?thesis using cfg(2) out(1) nextSequence_zero [of ?marks] by (auto simp: NewEngine_def Let_def)
  next
    case False
    then show ?thesis using cfg(2) out(1) r by (cases r) (auto simp: NewEngine_def Let_def)
  qed
qed

subsection \<open>Properties\<close>

text \<open>
  C18: the engine starts on what it has written.  When the logs of all shards are those of commands that the books served from
  the start, in whole segments (no torn tail of a crash: the reader refuses one as soon as a newer segment follows it), and the
  latest snapshot, if there is one, was taken when each shard had served the first of
  them, then \<open>NewEngine\<close> finds no mismatch and does not panic: it returns an engine, or the error of a log
  writer that could not be opened, or that the sequence numbers are used up, and the last only if some shard has used the
  last one.  Each shard of the new engine goes on where its log ends: its watermark is the number of its last command, and its
  books are for its symbols and have the snapshots of the books that served the commands.  The sequence numbers go on as well:
  the next one is above those of all the logs, and is the one after the last of some log.
\<close>

theorem engine_starts_on_its_log:
  assumes "Config_Validate cfg = None" and "NewSymbolRegistry (cfg_Symbols cfg) (cfg_ShardCount cfg) = Some (Inr registry)"
    and "cfg_ShardCount cfg < 2 ^ 32" and "logged cfg registry disks recss hist" and "snapshotOf genc gdec snapDir cfg registry hist"
    and "crashDir (nat (cfg_ShardCount cfg)) disks walDir"
  shows "\<exists>r. NewEngine genc gdec snapDir walDir disks outs cfg = Some r
    \<and> (\<forall>err. r = Inl err \<longrightarrow> err = EngExhausted \<and> (\<exists>k<nat (cfg_ShardCount cfg). lastSeq 0 (hist k) = - 1)
        \<or> (\<exists>k<nat (cfg_ShardCount cfg). \<exists>e. NewWriter (engineWriterConfig cfg k) (disks k) (outs k) = Inl e \<and> err = EngWriter e))
    \<and> (\<forall>e. r = Inr e \<longrightarrow> length (en_shards e) = nat (cfg_ShardCount cfg)
        \<and> (\<forall>k<nat (cfg_ShardCount cfg). continues registry k (hist k) (en_shards e ! k) \<and> lastSeq 0 (hist k) < sq_nextSeq (en_sequencer e))
        \<and> (\<exists>k<nat (cfg_ShardCount cfg). sq_nextSeq (en_sequencer e) = lastSeq 0 (hist k) + 1))"
proof -
  let ?n = "nat (cfg_ShardCount cfg)"
  obtain r where r: "NewEngine genc gdec snapDir walDir disks outs cfg = Some r"
    "\<forall>err. r = Inl err \<longrightarrow> err = EngExhausted \<and> (\<exists>k<?n. lastSeq 0 (hist k) = - 1)
        \<or> (\<exists>k<?n. \<exists>e. NewWriter (engineWriterConfig cfg k) (disks k) (outs k) = Inl e \<and> err = EngWriter e)"
    using engine_starts [OF assms] by blast
  moreover have "length (en_shards e) = ?n \<and> (\<forall>k<?n. continues registry k (hist k) (en_shards e ! k) \<and> lastSeq 0 (hist k) < sq_nextSeq (en_sequencer e))
      \<and> (\<exists>k<?n. sq_nextSeq (en_sequencer e) = lastSeq 0 (hist k) + 1)" if "r = Inr e" for e
  proof -
    have "NewEngine genc gdec snapDir walDir disks outs cfg = Some (Inr e)" using r(1) that by simp
    from engine_start [OF assms this] obtain i where i: "i \<noteq> 0" "\<forall>k<?n. lastSeq 0 (hist k) < i" "\<exists>k<?n. i = lastSeq 0 (hist k) + 1"
      "length (en_shards e) = ?n" "\<forall>k<?n. \<exists>books0 w. startsAt cfg registry (disks k) k (hist k) books0 w (en_shards e ! k)"
      and q: "en_sequencer e = NewSequencer (nat (cfg_IngressQueueSize cfg)) i ?n (nat (cfg_ShardQueueSize cfg)) (ShardFor registry)" by blast
    have "sq_nextSeq (en_sequencer e) = i" using i(1) by (simp add: q NewSequencer_def)
    moreover have "\<forall>c\<in>set (hist k). cmd_Symbol c \<in> set (SymbolsForShard registry (int k))" if "k < ?n" for k
      using assms(4) that shard_symbols [OF assms(1-3)] unfolding logged_def by blast
    ultimately show ?thesis using i startsAt_continues by metis
  qed
  ultimately show ?thesis by blast
qed

theorem engine_starts_on_its_log_witness:
  "\<exists>e b. startSample (\<lambda>_. Inl []) (\<lambda>_. Inl []) = Some (Inr e) \<and> sq_nextSeq (en_sequencer e) = 8 \<and> lastApplied (en_shards e ! 0) = 7
     \<and> lp_books (en_shards e ! 0) ''BTC'' = Some b \<and> Snapshot b = Snapshot restedBook"
proof -
  have c: "cfg_ShardCount engineConfig < 2 ^ 32" by (simp add: engine_config)
  from engine_starts_on_its_log [OF engine_config(1) engine_registry c engine_logged sample_snapshot engine_dir, of "\<lambda>_. Inl []" "\<lambda>_. Inl []" "\<lambda>_. replicate 8 IoOk"]
  obtain r where r: "startSample (\<lambda>_. Inl []) (\<lambda>_. Inl []) = Some r" "\<nexists>err. r = Inl err"
    "\<forall>e. r = Inr e \<longrightarrow> sq_nextSeq (en_sequencer e) = 8 \<and> continues engineRegistry 0 [sampleCommand] (en_shards e ! 0)"
    by (auto simp: engine_config sample_symbol engine_NewWriter lastSeq_def)
  then obtain e where e: "r = Inr e" by (cases r) auto
  obtain after log where a: "servedBy engineRegistry 0 [sampleCommand] after log" "dom (lp_books (en_shards e ! 0)) = dom after"
    "\<forall>x b b'. lp_books (en_shards e ! 0) x = Some b \<and> after x = Some b' \<longrightarrow> Snapshot b = Snapshot b'" "lastApplied (en_shards e ! 0) = 7"
    using r(3) e by (auto simp: continues_def lastSeq_def sample_symbol)
  from sample_served_by [OF a(1)] have "after ''BTC'' = Some restedBook" by simp
  then obtain b where "lp_books (en_shards e ! 0) ''BTC'' = Some b" "Snapshot b = Snapshot restedBook" using a(2,3) by blast
  then show ?thesis using r(1,3) e a(4) by blast
qed

text \<open>
  C3: a crash loses nothing that a caller was told.  The engine starts on the logs of an earlier run, which are in whole segments (a
  log with a torn tail is readable once, but not after a run that has started on it, since the reader accepts a cut
  record in the last segment only), and then runs in any
  interleaving of callers, sequencer, shards and log writers, with failing calls and deadlines, and with fewer than a million segments for each
  shard; then the machine crashes and leaves of each file at least what was synced and at most a prefix of what was written.
  Then recovery from the directory succeeds without a mismatch
  and gives the books and watermarks of the earlier commands and a prefix of those applied since, for each shard; and
  every result that \<open>Submit\<close> or \<open>TrySubmit\<close> can return is the rejection of an unknown symbol, which the sequencer
  gives without a record, or is in the recovered log with the submitted command.
\<close>

theorem engine_recovers_after_crash:
  assumes "Config_Validate cfg = None" and "NewSymbolRegistry (cfg_Symbols cfg) (cfg_ShardCount cfg) = Some (Inr registry)"
    and "cfg_ShardCount cfg < 2 ^ 32" and "logged cfg registry disks recss hist" and "snapshotOf genc gdec snapDir cfg registry hist"
    and "crashDir (nat (cfg_ShardCount cfg)) disks walDir"
    and "NewEngine genc gdec snapDir walDir disks outs cfg = Some (Inr e0)" and "estep\<^sup>*\<^sup>* e0 e"
    and "crashDir (nat (cfg_ShardCount cfg)) (walDisk e) walDir'" and "\<forall>k<nat (cfg_ShardCount cfg). withinLimits (sp_wal (en_shards e ! k))"
  shows "recoversRun genc gdec snapDir walDir' cfg registry hist e"
  by (rule engine_crash [where a = "\<lambda>_. 0", OF assms]) (use assms(5) in simp_all)

theorem engine_recovers_after_crash_witness:
  "\<exists>out. recoverBooks (\<lambda>_. Inl []) (\<lambda>_. Inl []) [] drainedDir engineConfig engineRegistry = Some (Inr (out, [7])) \<and> out ''BTC'' = Snapshot restedBook"
proof -
  obtain l where l: "startSample (\<lambda>_. Inl []) (\<lambda>_. Inl []) = Some (Inr (engineAt startSequencer (startLoop l 7 engineWriter)))"
    "estep\<^sup>*\<^sup>* (engineAt startSequencer (startLoop l 7 engineWriter)) (drainedSample l)" "lp_applied l = []" using sample_run by blast
  have c: "cfg_ShardCount engineConfig < 2 ^ 32" by (simp add: engine_config)
  have w: "\<forall>k<nat (cfg_ShardCount engineConfig). withinLimits (sp_wal (en_shards (drainedSample l) ! k))"
    using drained_sample_fields(5) [of l] by (simp add: engine_config)
  have "recoversRun (\<lambda>_. Inl []) (\<lambda>_. Inl []) [] drainedDir engineConfig engineRegistry (\<lambda>_. [sampleCommand]) (drainedSample l)"
    by (rule engine_recovers_after_crash [OF engine_config(1) engine_registry c engine_logged sample_snapshot engine_dir l(1,2) drained_dir w])
  from sample_recovers [OF this] show ?thesis using drained_sample_fields(4) [of l] l(3) by simp
qed

text \<open>
  C17: a drain holds every shard.  When the sequencer waits for the release of a drain and the release has not been given, every
  shard waits for it too, has no command pending, and has not failed if the drain was answered without an error.  Until the release is given,
  whatever callers, log writers and the other parts do, all this stays so, and what \<open>CreateSnapshot\<close> reads from the shards does
  not change, so it may read them one after the other.
\<close>

theorem drained_engine_stands_still:
  assumes "NewEngine genc gdec snapDir walDir disks outs cfg = Some (Inr e0)" and "estep\<^sup>*\<^sup>* e0 e"
    and "sq_point (en_sequencer e) = AwaitRelease release" and "release \<notin> set (sq_released (en_sequencer e))"
  shows "(\<forall>k<nat (cfg_ShardCount cfg). snd (last (sq_results (en_sequencer e))) = None \<longrightarrow> lp_failedErr (en_shards e ! k) = None)
    \<and> (\<forall>e'. estep\<^sup>*\<^sup>* e e' \<and> release \<notin> set (sq_released (en_sequencer e')) \<longrightarrow> engineSnapshot e' = engineSnapshot e
        \<and> (\<forall>k<nat (cfg_ShardCount cfg). sp_point (en_shards e' ! k) = Held release \<and> lp_pending (en_shards e' ! k) = []))"
proof (intro conjI allI impI, goal_cases)
  case (2 e')
  then show ?case using drained_steps [OF _ drained_at [OF assms]] by blast
next
  case (3 e' k)
  then have "drainedAt release e'" using drained_steps [OF _ drained_at [OF assms]] by blast
  moreover have "length (en_shards e') = nat (cfg_ShardCount cfg)"
    using new_held [OF assms(1)] esteps_shards [OF rtranclp_trans [OF assms(2)], of e'] 3(1) by simp
  ultimately show ?case using 3(2) by (simp add: drainedAt_def)
next
  case (4 e' k)
  have "drainedAt release e'" using 4(1) drained_steps [OF _ drained_at [OF assms]] by blast
  moreover have "length (en_shards e') = nat (cfg_ShardCount cfg)"
    using new_held [OF assms(1)] esteps_shards [OF rtranclp_trans [OF assms(2)], of e'] 4(1) by simp
  ultimately show ?case using drained_pending [OF assms(1) rtranclp_trans [OF assms(2)] 4(2)] 4 by (simp add: drainedAt_def)
qed (use drained_shards [OF assms] in blast)

theorem drained_engine_stands_still_witness:
  "\<exists>e. sp_point (en_shards e ! 0) = Held 0 \<and> lp_pending (en_shards e ! 0) = [] \<and> lp_failedErr (en_shards e ! 0) = None
     \<and> engineSnapshot (onSequencer (enqueue (RequestBarrier 1) (en_sequencer e)) e) = engineSnapshot e"
proof -
  obtain l where l: "startSample (\<lambda>_. Inl []) (\<lambda>_. Inl []) = Some (Inr (engineAt startSequencer (startLoop l 7 engineWriter)))"
    "estep\<^sup>*\<^sup>* (engineAt startSequencer (startLoop l 7 engineWriter)) (drainedSample l)" using sample_run by blast
  let ?e = "drainedSample l"
  have q: "BarrierSend 1 (en_sequencer ?e) = Some (None, enqueue (RequestBarrier 1) (en_sequencer ?e))"
    by (simp add: BarrierSend_def drainedSample_def engineAt_def askedSequencer_def startSequencer_def NewSequencer_def queueRoom_def)
  then have "estep ?e (onSequencer (enqueue (RequestBarrier 1) (en_sequencer ?e)) ?e)" by (rule e_barrier)
  then have step: "estep\<^sup>*\<^sup>* ?e (onSequencer (enqueue (RequestBarrier 1) (en_sequencer ?e)) ?e)" by blast
  have r: "0 \<notin> set (sq_released (en_sequencer ?e))" "0 \<notin> set (sq_released (en_sequencer (onSequencer (enqueue (RequestBarrier 1) (en_sequencer ?e)) ?e)))"
    by (simp_all add: drained_sample_fields enqueue_def)
  note t = drained_engine_stands_still [OF l drained_sample_fields(1) r(1)]
  have "lp_failedErr (en_shards ?e ! 0) = None" using conjunct1 [OF t] by (simp add: engine_config drained_sample_fields(3))
  moreover have "sp_point (en_shards ?e ! 0) = Held 0 \<and> lp_pending (en_shards ?e ! 0) = []"
    using conjunct2 [OF t, THEN spec, of ?e] r(1) by (simp add: engine_config)
  moreover have "engineSnapshot (onSequencer (enqueue (RequestBarrier 1) (en_sequencer ?e)) ?e) = engineSnapshot ?e"
    using conjunct2 [OF t] step r(2) by blast
  ultimately show ?thesis by blast
qed

text \<open>
  C4: a snapshot of a drained engine is a sound start, whatever happens while it is saved.  The engine has started on the logs of an
  earlier run, in whole segments, and on any snapshot of that run.  The snapshot directory is as a restart or as earlier saves, also failed ones, have
  left it: what a crash leaves of it has as its latest snapshot, if any, one of a prefix of the commands the shards
  have applied, under the name \<open>SaveAtomically\<close> gives.  Under a drain that was answered without
  an error \<open>CreateSnapshot\<close> can read the books.  Any of its calls on the disk may fail, the machine may crash during them, and the
  engine may run on (with fewer than a million log segments for each shard) and crash at any later point: recovery from the snapshot directory and the logs as
  the crash has left them (prefixes of what was written) succeeds, and gives
  the same guarantee as recovery from the logs alone.  If \<open>CreateSnapshot\<close> has returned a path, recovery starts from the new snapshot.
  The directory is again as it was assumed, for whatever the engine has applied later, so all this holds of every
  later \<open>CreateSnapshot\<close> of the process as well.
\<close>

theorem snapshot_of_drained_engine_recovers:
  assumes "Config_Validate cfg = None" and "NewSymbolRegistry (cfg_Symbols cfg) (cfg_ShardCount cfg) = Some (Inr registry)"
    and "cfg_ShardCount cfg < 2 ^ 32" and "logged cfg registry disks recss hist" and "snapshotOf genc gdec snapDir cfg registry hist"
    and "crashDir (nat (cfg_ShardCount cfg)) disks walDir"
    and "NewEngine genc gdec snapDir walDir disks outs cfg = Some (Inr e0)" and "estep\<^sup>*\<^sup>* e0 e1"
    and "sq_point (en_sequencer e1) = AwaitRelease release" and "release \<notin> set (sq_released (en_sequencer e1))"
    and "snd (last (sq_results (en_sequencer e1))) = None"
    and "snapshotsOf genc gdec snapDisk cfg registry (madeBy hist e1)" and "gob_ok genc gdec"
  shows "\<exists>snap r e2 w. engineSnapshot e1 = Some snap
    \<and> CreateSnapshot genc release pause e1 \<lparr>w_disk = snapDisk, w_outs = saveOuts\<rparr> = Some (r, e2, w) \<and> estep\<^sup>*\<^sup>* e1 e2
    \<and> (\<forall>e. estep\<^sup>*\<^sup>* e1 e \<longrightarrow> snapshotsOf genc gdec (w_disk w) cfg registry (madeBy hist e))
    \<and> (\<forall>img. crash_image (w_disk w) img \<longrightarrow> (\<forall>path. r = Ret path \<longrightarrow> LoadLatest genc gdec img = Inr (snap, path))
      \<and> (\<forall>e walDir'. estep\<^sup>*\<^sup>* e1 e \<and> crashDir (nat (cfg_ShardCount cfg)) (walDisk e) walDir'
            \<and> (\<forall>k<nat (cfg_ShardCount cfg). withinLimits (sp_wal (en_shards e ! k)))
          \<longrightarrow> recoversRun genc gdec img walDir' cfg registry hist e))"
proof -
  let ?n = "nat (cfg_ShardCount cfg)"
  obtain snap mid where s: "engineSnapshot e1 = Some snap" "snapshotTaken cfg registry (madeBy hist e1) mid snap"
    "\<forall>k<?n. \<exists>log. servedBy registry k (madeBy hist e1 k) (mid k) log" "\<forall>k<?n. sorted_wrt (<) (0 # map cmd_Seq (madeBy hist e1 k))"
    "\<forall>k<?n. length (lp_applied (en_shards e1 ! k)) \<le> length (ackedChans (sp_wal (en_shards e1 ! k)))"
    using drained_snapshot [OF assms(1-11)] by blast
  obtain r w where save: "SaveAtomically genc snap \<lparr>w_disk = snapDisk, w_outs = saveOuts\<rparr> = (r, w)" by (cases "SaveAtomically genc snap \<lparr>w_disk = snapDisk, w_outs = saveOuts\<rparr>")
  then obtain e2 where c: "CreateSnapshot genc release pause e1 \<lparr>w_disk = snapDisk, w_outs = saveOuts\<rparr> = Some (r, e2, w)"
    using s(1) by (simp add: CreateSnapshot_def Let_def)
  note saved = save_snapshotsOf [OF assms(12) s(2-4) assms(13) save]
  have "snapshotsOf genc gdec (w_disk w) cfg registry (madeBy hist e)" if "estep\<^sup>*\<^sup>* e1 e" for e
    using applied_later [OF assms(1-8) that] by (intro snapshotsOf_mono [OF saved(1)]) simp
  moreover have "recoversRun genc gdec img walDir' cfg registry hist e"
    if "crash_image (w_disk w) img" "estep\<^sup>*\<^sup>* e1 e" "crashDir ?n (walDisk e) walDir'" "\<forall>k<?n. withinLimits (sp_wal (en_shards e ! k))" for img e walDir'
    using saved(1) that(1) by (intro snapshot_recovers [OF assms(1-8) _ s(5) that(2-4)]) (simp add: snapshotsOf_def)
  ultimately show ?thesis using s(1) c CreateSnapshot_steps [OF c] saved(2) by blast
qed

theorem snapshot_of_drained_engine_recovers_witness:
  "\<exists>snap out genc gdec. LoadLatest genc gdec [(snapshotName snap, Some [2])] = Inr (snap, snapshotName snap)
     \<and> recoverBooks genc gdec [(snapshotName snap, Some [2])] drainedDir engineConfig engineRegistry = Some (Inr (out, [7])) \<and> out ''BTC'' = Snapshot restedBook"
proof -
  obtain l where l: "\<And>genc gdec. startSample genc gdec = Some (Inr (engineAt startSequencer (startLoop l 7 engineWriter)))"
    "estep\<^sup>*\<^sup>* (engineAt startSequencer (startLoop l 7 engineWriter)) (drainedSample l)" "lp_applied l = []" using sample_run by blast
  have c: "cfg_ShardCount engineConfig < 2 ^ 32" by (simp add: engine_config)
  have w: "\<forall>k<nat (cfg_ShardCount engineConfig). withinLimits (sp_wal (en_shards (drainedSample l) ! k))"
    using drained_sample_fields(5) [of l] by (simp add: engine_config)
  have d: "0 \<notin> set (sq_released (en_sequencer (drainedSample l)))" "snd (last (sq_results (en_sequencer (drainedSample l)))) = None"
    by (simp_all add: drained_sample_fields)
  have empty: "contents emptyDisk = []" "settled emptyDisk" by (simp_all add: contents_def emptyDisk_def settled_def)
  have "snapshotsOf genc gdec emptyDisk engineConfig engineRegistry (madeBy (\<lambda>_. [sampleCommand]) (drainedSample l))" for genc gdec
    by (rule snapshotsOf_settled [OF empty(2)]) (simp_all add: empty(1) engine_no_snapshot snapshotOf_def)
  note t = snapshot_of_drained_engine_recovers [OF engine_config(1) engine_registry c engine_logged
      sample_snapshot engine_dir l(1,2) drained_sample_fields(1) d this sample_gob_ok]
  obtain snap where s: "engineSnapshot (drainedSample l) = Some snap" using t by blast
  let ?dir = "[(snapshotName snap, Some [2 :: byte])]" and ?e = "sampleGobEncode snap" and ?d = "sampleGobDecode snap"
  have "recoversRun ?e ?d ?dir drainedDir engineConfig engineRegistry (\<lambda>_. [sampleCommand]) (drainedSample l) \<and> LoadLatest ?e ?d ?dir = Inr (snap, snapshotName snap)"
    using t [of snap 0 "replicate 8 IoOk"] sample_save [of snap] sample_image [of snap] drained_dir [of l] w
    by (auto simp: s CreateSnapshot_def Let_def)
  with sample_recovers [of ?e ?d ?dir drainedDir "drainedSample l"] show ?thesis using drained_sample_fields(4) [of l] l(3) by auto
qed

end
