(* ===== verification/Shard_Progress.thy ===== *)
theory Shard_Progress
  imports Shard_Properties
begin

text \<open>
  Progress of a shard.  The moves of its two goroutines that do not wait for a deadline always come to an end, and when no such
  move is left, every command the shard has received has been answered, unless the machine has crashed or the log writer has
  failed.  So a shard cannot get stuck with a command, however the loop and the writer are scheduled.
\<close>

subsection \<open>The writer moves\<close>

text \<open>The timer is armed exactly when there is a batch; the done channels that are closed or will be when their request is taken.\<close>

definition armedOk :: "wproc \<Rightarrow> bool" where
  "armedOk p \<longleftrightarrow> (wp_timerArmed p \<longleftrightarrow> wp_pendingAcks p \<noteq> [])"

fun reqDones :: "writerRequest \<Rightarrow> nat set" where
  "reqDones (ReqAppend c) = {}"
| "reqDones (ReqFlush d) = {d}"
| "reqDones (ReqShutdown d) = {d}"

definition tracked :: "wproc \<Rightarrow> nat set" where
  "tracked p = set (wp_closedDones p) \<union> (\<Union>r\<in>set (wp_requests p). reqDones r)"

text \<open>How far the writer is from having nothing to do.\<close>

definition walLeft :: "wproc \<Rightarrow> nat" where
  "walLeft p = (if wp_phase p = Starting then 1 else 0) + 2 * length (wp_requests p)
     + (if wp_phase p = Running \<and> wp_timerArmed p then 1 else 0)"

text \<open>A step of the goroutine gets closer, and loses no done channel unless the machine crashes.\<close>

definition moved :: "wproc \<Rightarrow> wproc \<Rightarrow> bool" where
  "moved p q \<longleftrightarrow> wp_closed q = wp_closed p \<and> wp_cfg q = wp_cfg p \<and> walLeft q < walLeft p
     \<and> (wp_phase q = Crashed \<or> tracked p \<subseteq> tracked q \<and> (wp_phase q = Running \<and> armedOk q \<or> wp_phase q = Stopped \<and> wp_done q))"

lemma tracked_upd [simp]: "tracked (p\<lparr>wp_done := b\<rparr>) = tracked p" "tracked (p\<lparr>wp_phase := ph\<rparr>) = tracked p"
  by (simp_all add: tracked_def)

lemma same_rest:
  assumes "writerState.more q = writerState.more (p :: wproc)"
  shows "wp_timerArmed q = wp_timerArmed p" and "wp_closedDones q = wp_closedDones p" and "wp_closed q = wp_closed p" and "wp_done q = wp_done p"
  using assms by (cases p; cases q; simp)+

text \<open>The three outcomes of a flush, and the two of the end of the loop.\<close>

lemma flush_result:
  assumes "wp_pendingAcks p \<noteq> []"
  obtains q where "writerState.more q = writerState.more p"
    and "flush p = (Ret True, flushDone q) \<or> (\<exists>e. flush p = (Ret False, flushFailed e q)) \<or> flush p = (Crash, q)"
proof -
  obtain x q where w: "writeBatch (wp_cfg p) (wp_pendingBytes p) p = (x, q)" by (cases "writeBatch (wp_cfg p) (wp_pendingBytes p) p")
  have "writerState.more q = writerState.more p" using keepsMore_writeBatch [of "wp_cfg p" "wp_pendingBytes p"] w by (metis keeps_def snd_conv)
  moreover have "flush p = (Ret True, flushDone q) \<or> (\<exists>e. flush p = (Ret False, flushFailed e q)) \<or> flush p = (Crash, q)"
    using assms w by (cases x) (auto simp: flush_def andThen_def gets_def ret_def attempt_def modify_def)
  ultimately show thesis by (rule that)
qed

lemma stopLoop_result:
  obtains q where "writerState.more q = writerState.more p"
    and "stopLoop p = (Ret (), q\<lparr>wp_done := True, wp_phase := Stopped\<rparr>) \<or> stopLoop p = (Crash, q)"
proof -
  obtain x q where w: "closeCurrent p = (x, q)" by (cases "closeCurrent p")
  have "writerState.more q = writerState.more p" using keepsMore_closeCurrent w by (metis keeps_def snd_conv)
  moreover have "x \<noteq> Fail e" for e
    using w by (auto simp: closeCurrent_def andThen_def gets_def ret_def attempt_def split: option.splits prod.splits io_res.splits)
  ultimately show thesis using that [of q] w by (cases x) (auto simp: stopLoop_def andThen_def modify_def)
qed

lemma rejectRemaining_progress:
  "wp_requests (rejectRemaining e p) = [] \<and> tracked p \<subseteq> tracked (rejectRemaining e p) \<and> wp_closed (rejectRemaining e p) = wp_closed p"
proof -
  have "wp_requests (fold (rejectRequest e) rs q) = wp_requests q \<and> wp_closed (fold (rejectRequest e) rs q) = wp_closed q
      \<and> set (wp_closedDones (fold (rejectRequest e) rs q)) = set (wp_closedDones q) \<union> (\<Union>r\<in>set rs. reqDones r)" for rs q
  proof (induction rs arbitrary: q)
    case (Cons r rs)
    have "wp_requests (rejectRequest e r q) = wp_requests q \<and> wp_closed (rejectRequest e r q) = wp_closed q
      \<and> set (wp_closedDones (rejectRequest e r q)) = set (wp_closedDones q) \<union> reqDones r" by (cases r) (simp_all add: sendAcks_def closeDone_def)
    then show ?case using Cons by auto
  qed simp
  then show ?thesis by (simp add: rejectRemaining_def tracked_def)
qed

lemma flushFailed_progress:
  assumes "writerState.more q = writerState.more p"
  shows "wp_requests (flushFailed e q) = []" and "tracked p \<subseteq> tracked (flushFailed e q)" and "wp_closed (flushFailed e q) = wp_closed p"
    and "wp_cfg (flushFailed e q) = wp_cfg p"
proof -
  let ?q = "sendAcks (Some e) (wp_pendingAcks q) (setTerminalError e q)"
  have "tracked ?q = tracked p" "wp_closed ?q = wp_closed p" "wp_cfg ?q = wp_cfg p"
    using same_more [OF assms] same_rest [OF assms] by (simp_all add: tracked_def sendAcks_def setTerminalError_def)
  then show "wp_requests (flushFailed e q) = []" and "tracked p \<subseteq> tracked (flushFailed e q)" and "wp_closed (flushFailed e q) = wp_closed p"
    and "wp_cfg (flushFailed e q) = wp_cfg p"
    using rejectRemaining_progress [of e ?q] rejectRemaining_fields [of e ?q] by (simp_all add: flushFailed_def)
qed

lemma flushDone_progress:
  assumes "writerState.more q = writerState.more p"
  shows "wp_requests (flushDone q) = wp_requests p" and "tracked (flushDone q) = tracked p" and "wp_closed (flushDone q) = wp_closed p"
    and "wp_cfg (flushDone q) = wp_cfg p" and "armedOk (flushDone q)" and "wp_phase (flushDone q) = wp_phase p" and "\<not> wp_timerArmed (flushDone q)"
  using same_more [OF assms] same_rest [OF assms] by (simp_all add: flushDone_def sendAcks_def tracked_def armedOk_def)

text \<open>The end of an iteration of the loop.\<close>

lemma iteration_result:
  assumes "m p = (r, q)"
  shows "r = Ret True \<Longrightarrow> exec (andThen m endIteration) p = q"
    and "r = Crash \<Longrightarrow> exec (andThen m endIteration) p = q\<lparr>wp_phase := Crashed\<rparr>"
    and "r = Ret False \<Longrightarrow> \<exists>q'. writerState.more q' = writerState.more q
      \<and> (exec (andThen m endIteration) p = q'\<lparr>wp_done := True, wp_phase := Stopped\<rparr> \<or> exec (andThen m endIteration) p = q'\<lparr>wp_phase := Crashed\<rparr>)"
proof -
  show "r = Ret True \<Longrightarrow> exec (andThen m endIteration) p = q" "r = Crash \<Longrightarrow> exec (andThen m endIteration) p = q\<lparr>wp_phase := Crashed\<rparr>"
    using assms by (simp_all add: exec_def andThen_def endIteration_def ret_def)
  obtain q' where "writerState.more q' = writerState.more q"
    "stopLoop q = (Ret (), q'\<lparr>wp_done := True, wp_phase := Stopped\<rparr>) \<or> stopLoop q = (Crash, q')" by (rule stopLoop_result)
  then show "r = Ret False \<Longrightarrow> \<exists>q'. writerState.more q' = writerState.more q
      \<and> (exec (andThen m endIteration) p = q'\<lparr>wp_done := True, wp_phase := Stopped\<rparr> \<or> exec (andThen m endIteration) p = q'\<lparr>wp_phase := Crashed\<rparr>)"
    using assms by (intro exI [of _ q']) (auto simp: exec_def andThen_def endIteration_def)
qed

text \<open>What the body of an iteration, run from \<open>p1\<close>, has to do so that the whole step from \<open>p\<close> is a move; it keeps track of the channels \<open>T\<close>.\<close>

definition advances :: "wproc \<Rightarrow> nat set \<Rightarrow> (wal_err, bool) io_res \<times> wproc \<Rightarrow> bool" where
  "advances p T rq \<longleftrightarrow> (case rq of (r, q) \<Rightarrow> wp_closed q = wp_closed p \<and> wp_cfg q = wp_cfg p \<and> 2 * length (wp_requests q) < walLeft p
     \<and> (case r of
          Ret True \<Rightarrow> wp_phase q = Running \<and> armedOk q \<and> T \<subseteq> tracked q \<and> walLeft q < walLeft p
        | Ret False \<Rightarrow> T \<subseteq> tracked q
        | Fail e \<Rightarrow> False
        | Crash \<Rightarrow> True))"

lemma advances_moved:
  assumes "advances p (tracked p) (m p1)"
  shows "moved p (exec (andThen m endIteration) p1)"
proof -
  obtain r q where m: "m p1 = (r, q)" by (cases "m p1")
  note it = iteration_result [of m p1 r q, OF m]
  have a: "wp_closed q = wp_closed p" "wp_cfg q = wp_cfg p" "2 * length (wp_requests q) < walLeft p"
    using assms m by (simp_all add: advances_def)
  consider "r = Ret True" | "r = Ret False" | "r = Crash" using assms m by (cases r) (auto simp: advances_def)
  then show ?thesis
  proof cases
    case 1
    then show ?thesis using it(1) assms m by (simp add: moved_def advances_def)
  next
    case 2
    then have t: "tracked p \<subseteq> tracked q" using assms m by (simp add: advances_def)
    obtain q' where q': "writerState.more q' = writerState.more q" "exec (andThen m endIteration) p1 = q'\<lparr>wp_done := True, wp_phase := Stopped\<rparr>
        \<or> exec (andThen m endIteration) p1 = q'\<lparr>wp_phase := Crashed\<rparr>" using it(3) [OF 2] by blast
    note f = same_more [OF q'(1)] same_rest [OF q'(1)]
    have "tracked q' = tracked q" using f by (simp add: tracked_def)
    with q'(2) show ?thesis using a t f(1-2,9-12) by (elim disjE) (simp_all add: moved_def walLeft_def)
  next
    case 3
    then show ?thesis using it(2) a by (simp add: moved_def walLeft_def)
  qed
qed

lemma flush_advances:
  assumes "wp_phase p1 = Running" and "armedOk p1" and "wp_closed p1 = wp_closed p" and "wp_cfg p1 = wp_cfg p" and "T \<subseteq> tracked p1"
    and "2 * length (wp_requests p1) < walLeft p"
  shows "advances p T (flush p1)"
proof (cases "wp_pendingAcks p1 = []")
  case True
  then have "flush p1 = (Ret True, p1)" by (simp add: flush_def andThen_def gets_def ret_def)
  then show ?thesis using assms True by (simp add: advances_def walLeft_def armedOk_def)
next
  case False
  then obtain q where q: "writerState.more q = writerState.more p1"
    "flush p1 = (Ret True, flushDone q) \<or> (\<exists>e. flush p1 = (Ret False, flushFailed e q)) \<or> flush p1 = (Crash, q)" by (rule flush_result)
  note f = flushDone_progress [OF q(1)] flushFailed_progress [OF q(1)] same_more [OF q(1)] same_rest [OF q(1)]
  from q(2) show ?thesis
  proof (elim disjE exE)
    assume "flush p1 = (Ret True, flushDone q)"
    then show ?thesis using f assms by (simp add: advances_def walLeft_def)
  next
    fix e assume "flush p1 = (Ret False, flushFailed e q)"
    then show ?thesis using f(8-11) [of e] assms by (auto simp: advances_def)
  next
    assume "flush p1 = (Crash, q)"
    then show ?thesis using f assms by (simp add: advances_def)
  qed
qed

lemma runTimer_moved:
  assumes "wp_phase p = Running" and "armedOk p" and "wp_timerArmed p"
  shows "moved p (exec runTimer p)"
  unfolding runTimer_def by (rule advances_moved, rule flush_advances) (use assms in \<open>simp_all add: walLeft_def\<close>)

lemma tracked_closeDone: "tracked (closeDone d p) = insert d (tracked p)"
  by (simp add: tracked_def closeDone_def)

lemma closeDone_fields: "wp_closed (closeDone d p) = wp_closed p" "wp_cfg (closeDone d p) = wp_cfg p" "wp_requests (closeDone d p) = wp_requests p"
  "wp_phase (closeDone d p) = wp_phase p" "armedOk (closeDone d p) = armedOk p" "walLeft (closeDone d p) = walLeft p"
  by (simp_all add: closeDone_def armedOk_def walLeft_def)

lemma handleRequest_advances:
  assumes "wp_phase p = Running" and "armedOk p" and "wp_requests p = req # reqs"
  shows "advances p (tracked p) (handleRequest req (p\<lparr>wp_requests := reqs\<rparr>))"
proof -
  let ?p1 = "p\<lparr>wp_requests := reqs\<rparr>"
  have fl: "advances p (tracked ?p1) (flush ?p1)" by (rule flush_advances) (use assms in \<open>simp_all add: armedOk_def walLeft_def\<close>)
  obtain r q where f: "flush ?p1 = (r, q)" by (cases "flush ?p1")
  have t: "tracked p = reqDones req \<union> tracked ?p1" using assms(3) by (auto simp: tracked_def)
  show ?thesis
  proof (cases req)
    case (ReqAppend c)
    let ?f = "\<lambda>bs. ?p1\<lparr>wp_pendingBytes := bs, wp_pendingAcks := wp_pendingAcks p @ [c], wp_timerArmed := True\<rparr>"
    have "advances p (tracked p) ((if batchFull (?f bs) then flush else ret True) (?f bs))" for bs
    proof (cases "batchFull (?f bs)")
      case True
      have "advances p (tracked p) (flush (?f bs))"
        by (rule flush_advances) (use assms t ReqAppend in \<open>simp_all add: armedOk_def walLeft_def tracked_def\<close>)
      then show ?thesis using True by simp
    next
      case False
      then show ?thesis using assms t ReqAppend by (simp add: advances_def ret_def armedOk_def walLeft_def tracked_def)
    qed
    note full = this
    show ?thesis
    proof (cases "appendEncodedRecord (wp_pendingBytes p) (snd c)")
      case (Inl err)
      then have "handleRequest req ?p1 = (Ret True, sendAcks (Some (WalEncode err)) [c] ?p1)"
        using ReqAppend by (simp add: andThen_def gets_def modify_def ret_def)
      then show ?thesis using assms t ReqAppend by (simp add: advances_def sendAcks_def armedOk_def walLeft_def tracked_def)
    next
      case (Inr bs)
      then have "handleRequest req ?p1 = (if batchFull (?f bs) then flush else ret True) (?f bs)"
        using ReqAppend by (simp add: andThen_def gets_def modify_def)
      then show ?thesis using full by simp
    qed
  next
    case (ReqFlush d)
    then show ?thesis using fl f t
      by (cases r) (auto simp: andThen_def modify_def ret_def advances_def tracked_closeDone closeDone_fields split: bool.splits)
  next
    case (ReqShutdown d)
    then show ?thesis using fl f t
      by (cases r) (auto simp: andThen_def modify_def ret_def advances_def tracked_closeDone closeDone_fields split: bool.splits)
  qed
qed

lemma runRequest_moved:
  assumes "wp_phase p = Running" and "armedOk p" and "wp_requests p \<noteq> []"
  shows "moved p (exec runRequest p)"
proof -
  obtain req reqs where r: "wp_requests p = req # reqs" using assms(3) by (cases "wp_requests p") auto
  have "exec runRequest p = exec (andThen (handleRequest req) endIteration) (p\<lparr>wp_requests := reqs\<rparr>)"
    by (simp add: exec_def runRequest_def andThen_def gets_def modify_def r)
  then show ?thesis using advances_moved [of p "handleRequest req" "p\<lparr>wp_requests := reqs\<rparr>", OF handleRequest_advances [OF assms(1,2) r]] by simp
qed

lemma runStart_moved:
  assumes "wp_phase p = Starting" and "armedOk p" and "wp_pendingAcks p = []"
  shows "moved p (exec runStart p)"
proof -
  obtain x q where w: "openNextSegment (wp_cfg p) p = (x, q)" by (cases "openNextSegment (wp_cfg p) p")
  have "writerState.more q = writerState.more p" using keepsMore_openNextSegment [of "wp_cfg p"] w by (metis keeps_def snd_conv)
  note f = same_more [OF this] same_rest [OF this]
  have e: "exec runStart p = (case x of Ret _ \<Rightarrow> q\<lparr>wp_phase := Running\<rparr>
      | Fail e \<Rightarrow> (rejectRemaining e (setTerminalError e q))\<lparr>wp_done := True, wp_phase := Stopped\<rparr> | Crash \<Rightarrow> q\<lparr>wp_phase := Crashed\<rparr>)"
    using w by (cases x) (simp_all add: exec_def runStart_def andThen_def gets_def attempt_def modify_def)
  show ?thesis
  proof (cases x)
    case (Fail er)
    let ?q = "setTerminalError er q"
    have "tracked ?q = tracked p" "wp_closed ?q = wp_closed p" "wp_cfg ?q = wp_cfg p" using f by (simp_all add: tracked_def setTerminalError_def)
    then show ?thesis using e Fail assms rejectRemaining_progress [of er ?q] rejectRemaining_fields [of er ?q]
      by (simp add: moved_def walLeft_def)
  qed (use e f assms in \<open>simp_all add: moved_def walLeft_def armedOk_def tracked_def\<close>)
qed

subsection \<open>The moves of a shard\<close>

text \<open>
  What the goroutines can do next without a message from outside and without the end of a deadline: the steps of
  \<open>shwork\<close> except the timeouts.
\<close>

definition walMoves :: "shardProc \<Rightarrow> shardProc list" where
  "walMoves s = (let w = sp_wal s in map (\<lambda>w'. s\<lparr>sp_wal := w'\<rparr>)
     ((if wp_phase w = Starting then [exec runStart w] else [])
      @ (if wp_phase w = Running \<and> wp_requests w \<noteq> [] then [exec runRequest w] else [])
      @ (if wp_phase w = Running \<and> wp_timerArmed w then [exec runTimer w] else [])))"

definition ackMoves :: "shardProc \<Rightarrow> shardProc list" where
  "ackMoves s = (case nextAck s of None \<Rightarrow> [] | Some err \<Rightarrow> [completeNext err s])"

definition loopMoves :: "shardProc \<Rightarrow> shardProc list" where
  "loopMoves s = (let w = sp_wal s in case sp_point s of
       Selecting \<Rightarrow> ackMoves s @ (if \<not> sp_receiving s \<and> lp_pending s = [] then [s\<lparr>sp_point := if lp_hasWAL s then ShuttingDown else LoopEnded\<rparr>] else [])
     | Appending cmd reply result c \<Rightarrow>
         (if roomInQueue w then [appendLogged cmd reply result c (s\<lparr>sp_wal := appendSend c w, sp_point := Selecting\<rparr>)] else [])
         @ (if wp_done w then [appendFailed (fst (appendClosed c w)) reply (s\<lparr>sp_wal := snd (appendClosed c w), sp_point := Selecting\<rparr>)] else [])
     | FlushSending ch release \<Rightarrow>
         if roomInQueue w then [s\<lparr>sp_wal := snd (flushSend w), sp_point := FlushWaiting (fst (flushSend w)) ch release\<rparr>] else []
     | FlushWaiting d ch release \<Rightarrow> (case flushReturn d w of
           None \<Rightarrow> []
         | Some None \<Rightarrow> [s\<lparr>sp_point := Completing ch release\<rparr>]
         | Some (Some err) \<Rightarrow> [flushError ch release (LoopFlush (lp_id s) err) s])
     | Completing ch release \<Rightarrow> ackMoves s @ (if lp_pending s = [] then [answerFlush ch release (lp_failedErr s) s] else [])
     | ShuttingDown \<Rightarrow> if wp_callers w = [] \<and> \<not> wp_closed w
         then (if roomInQueue w then [s\<lparr>sp_wal := shutdownSend w, sp_point := ShutdownWaiting (wp_nextChan w)\<rparr>] else [])
           @ (if wp_done w then [endLoop (wp_failedErr w) (s\<lparr>sp_wal := snd (markClosed w)\<rparr>)] else [])
         else []
     | ShutdownWaiting d \<Rightarrow> (case flushReturn d w of None \<Rightarrow> [] | Some err \<Rightarrow> [endLoop err s])
     | _ \<Rightarrow> [])"

definition moves :: "shardProc \<Rightarrow> shardProc list" where
  "moves s = walMoves s @ loopMoves s"

lemma walMoves_work: "t \<in> set (walMoves s) \<Longrightarrow> shwork s t"
  by (auto simp: walMoves_def Let_def intro: shwork.intros split: if_splits)

lemma ackMoves_work: "t \<in> set (ackMoves s) \<Longrightarrow> sp_point s = Selecting \<or> sp_point s = Completing ch release \<Longrightarrow> shwork s t"
  by (auto simp: ackMoves_def intro: sh_ack sh_complete split: option.splits)

lemma loopMoves_work:
  assumes "t \<in> set (loopMoves s)"
  shows "shwork s t"
proof (cases "sp_point s")
  case (Appending cmd reply result c)
  then show ?thesis using assms sh_append_sent [OF Appending] sh_append_closed [OF Appending]
    by (auto simp: loopMoves_def Let_def split: if_splits)
next
  case Selecting
  then show ?thesis using assms sh_exit [OF Selecting] by (auto simp: loopMoves_def Let_def intro: ackMoves_work split: if_splits)
next
  case (FlushWaiting d ch release)
  show ?thesis
  proof (cases "flushReturn d (sp_wal s)")
    case (Some r)
    then show ?thesis using assms FlushWaiting sh_flushed [OF FlushWaiting] sh_flush_failed [OF FlushWaiting]
      by (cases r) (auto simp: loopMoves_def Let_def)
  qed (use assms FlushWaiting in \<open>simp add: loopMoves_def Let_def\<close>)
next
  case (FlushSending ch release)
  then show ?thesis using assms sh_flush_sent [OF FlushSending] by (auto simp: loopMoves_def Let_def split: if_splits)
qed (use assms in \<open>auto simp: loopMoves_def Let_def intro: shwork.intros ackMoves_work split: if_splits option.splits\<close>)

lemma moves_work: "t \<in> set (moves s) \<Longrightarrow> shwork s t"
  using walMoves_work loopMoves_work by (auto simp: moves_def)

subsection \<open>Moves come to an end\<close>

text \<open>What else is known of a shard: of its writer, of the done channel it waits for, and that only the loop at its end closes the writer.\<close>

fun waitsFor :: "loopPoint \<Rightarrow> nat set" where
  "waitsFor (FlushWaiting d ch release) = {d}"
| "waitsFor (ShutdownWaiting d) = {d}"
| "waitsFor _ = {}"

fun closing :: "loopPoint \<Rightarrow> bool" where
  "closing (ShutdownWaiting d) = True"
| "closing LoopEnded = True"
| "closing _ = False"

definition walOk :: "wproc \<Rightarrow> bool" where
  "walOk w \<longleftrightarrow> 0 < wc_QueueSize (wp_cfg w) \<and> (case wp_phase w of
       Starting \<Rightarrow> armedOk w \<and> wp_pendingAcks w = [] | Running \<Rightarrow> armedOk w | Stopped \<Rightarrow> wp_done w | Crashed \<Rightarrow> True)"

definition progressOk :: "shardProc \<Rightarrow> bool" where
  "progressOk s \<longleftrightarrow> walOk (sp_wal s) \<and> (wp_phase (sp_wal s) \<noteq> Crashed \<longrightarrow> waitsFor (sp_point s) \<subseteq> tracked (sp_wal s))
     \<and> (wp_closed (sp_wal s) \<longrightarrow> closing (sp_point s))"

text \<open>How far a shard is from rest.\<close>

fun pointLeft :: "loopPoint \<Rightarrow> nat" where
  "pointLeft Selecting = 5"
| "pointLeft (Appending cmd reply result c) = 9"
| "pointLeft (FlushSending ch release) = 10"
| "pointLeft (FlushWaiting d ch release) = 7"
| "pointLeft (Completing ch release) = 6"
| "pointLeft (Held release) = 5"
| "pointLeft ShuttingDown = 4"
| "pointLeft (ShutdownWaiting d) = 1"
| "pointLeft LoopEnded = 0"
| "pointLeft LoopPanic = 0"

definition left :: "shardProc \<Rightarrow> nat" where
  "left s = walLeft (sp_wal s) + length (lp_pending s) + pointLeft (sp_point s)"

lemma walMoves_moved:
  assumes "t \<in> set (walMoves s)" and "walOk (sp_wal s)"
  obtains w where "t = s\<lparr>sp_wal := w\<rparr>" and "moved (sp_wal s) w"
proof -
  let ?w = "sp_wal s"
  consider "wp_phase ?w = Starting" "t = s\<lparr>sp_wal := exec runStart ?w\<rparr>"
    | "wp_phase ?w = Running" "wp_requests ?w \<noteq> []" "t = s\<lparr>sp_wal := exec runRequest ?w\<rparr>"
    | "wp_phase ?w = Running" "wp_timerArmed ?w" "t = s\<lparr>sp_wal := exec runTimer ?w\<rparr>"
    using assms(1) unfolding walMoves_def Let_def by (auto split: if_splits)
  then show thesis
  proof cases
    case 1
    then show thesis using assms(2) by (intro that [OF 1(2)] runStart_moved) (simp_all add: walOk_def)
  next
    case 2
    then show thesis using assms(2) by (intro that [OF 2(3)] runRequest_moved) (simp_all add: walOk_def)
  next
    case 3
    then show thesis using assms(2) by (intro that [OF 3(3)] runTimer_moved) (simp_all add: walOk_def)
  qed
qed

lemma moved_walOk: "moved p q \<Longrightarrow> walOk p \<Longrightarrow> walOk q"
  by (auto simp: moved_def walOk_def split: phase.splits)

lemma completeNext_left:
  assumes "nextAck s = Some err"
  shows "sp_wal (completeNext err s) = sp_wal s" and "sp_point (completeNext err s) = sp_point s"
    and "length (lp_pending (completeNext err s)) < length (lp_pending s)"
  using assms by (auto simp: nextAck_def completeNext_def completeCommand_def failPending_def sendReply_def Let_def split: list.splits option.splits)

lemma walLeft_calls:
  "walLeft (appendSend c w) = walLeft w + 2" "walLeft (snd (appendClosed c w)) = walLeft w" "walLeft (snd (flushSend w)) = walLeft w + 2"
  "walLeft (shutdownSend w) = walLeft w + 2" "walLeft (snd (markClosed w)) = walLeft w"
  by (auto simp: walLeft_def appendSend_def appendClosed_def flushSend_def shutdownSend_def markClosed_def Let_def)

lemma loop_fields:
  "sp_wal (appendLogged cmd reply result c s) = sp_wal s" "sp_point (appendLogged cmd reply result c s) = sp_point s"
  "length (lp_pending (appendLogged cmd reply result c s)) = Suc (length (lp_pending s))"
  "sp_wal (appendFailed err reply s) = sp_wal s" "sp_point (appendFailed err reply s) = sp_point s" "lp_pending (appendFailed err reply s) = []"
  "sp_wal (flushError ch release e s) = sp_wal s" "lp_pending (flushError ch release e s) = []"
  "sp_wal (answerFlush ch release er s) = sp_wal s" "lp_pending (answerFlush ch release er s) = lp_pending s"
  by (simp_all add: appendLogged_def appendFailed_def failPending_def sendReply_def flushError_def answerFlush_def Let_def)

lemma answer_points: "pointLeft (sp_point (flushError ch release e s)) = 5" "pointLeft (sp_point (answerFlush ch release er s)) = 5"
  by (simp_all add: flushError_def answerFlush_def split: option.split)

lemma moves_left:
  assumes "t \<in> set (moves s)" and "walOk (sp_wal s)"
  shows "left t < left s"
proof (cases "t \<in> set (walMoves s)")
  case True
  then obtain w where "t = s\<lparr>sp_wal := w\<rparr>" "moved (sp_wal s) w" using assms(2) by (rule walMoves_moved)
  then show ?thesis by (simp add: left_def moved_def)
next
  case False
  then have l: "t \<in> set (loopMoves s)" using assms(1) by (simp add: moves_def)
  have ack: "left t < left s" if "t \<in> set (ackMoves s)"
    using that completeNext_left [of s] by (auto simp: ackMoves_def left_def split: option.splits)
  show ?thesis
  proof (cases "sp_point s")
    case Selecting
    then show ?thesis using l ack by (auto simp: loopMoves_def Let_def left_def split: if_splits)
  next
    case (Completing ch release)
    then show ?thesis using l ack by (auto simp: loopMoves_def Let_def left_def loop_fields answer_points split: if_splits)
  qed (use l in \<open>auto simp: loopMoves_def Let_def left_def loop_fields answer_points walLeft_calls split: if_splits option.splits\<close>)
qed

subsection \<open>The invariant\<close>

lemma walOk_cong:
  assumes "wp_cfg v = wp_cfg w" and "wp_phase v = wp_phase w" and "wp_timerArmed v = wp_timerArmed w" and "wp_pendingAcks v = wp_pendingAcks w"
    and "wp_done v = wp_done w"
  shows "walOk v = walOk w"
  unfolding walOk_def armedOk_def assms ..

lemma walOk_calls [simp]:
  "walOk (snd (appendEnter rec w)) = walOk w" "walOk (appendSend c w) = walOk w" "walOk (snd (appendClosed c w)) = walOk w"
  "walOk (snd (appendCancel c w)) = walOk w" "walOk (snd (flushSend w)) = walOk w" "walOk (shutdownSend w) = walOk w"
  "walOk (snd (markClosed w)) = walOk w" "walOk (shutdownCancel w) = walOk w"
  by (rule walOk_cong;
      simp add: appendEnter_def appendSend_def appendClosed_def appendCancel_def flushSend_def shutdownSend_def markClosed_def shutdownCancel_def reopen_def
        Let_def split: option.split)+

lemma closed_calls [simp]:
  "wp_closed (snd (appendEnter rec w)) = wp_closed w" "wp_closed (appendSend c w) = wp_closed w" "wp_closed (snd (appendClosed c w)) = wp_closed w"
  "wp_closed (snd (appendCancel c w)) = wp_closed w" "wp_closed (snd (flushSend w)) = wp_closed w" "\<not> wp_closed (shutdownCancel w)"
  by (auto simp: appendEnter_def appendSend_def appendClosed_def appendCancel_def flushSend_def shutdownCancel_def markClosed_def reopen_def Let_def
      split: option.split)

lemma call_pairs:
  "appendClosed c w = (err, v) \<Longrightarrow> walOk v = walOk w \<and> wp_closed v = wp_closed w"
  "appendCancel c w = (err, v) \<Longrightarrow> walOk v = walOk w \<and> wp_closed v = wp_closed w"
  "flushSend w = (d, v) \<Longrightarrow> walOk v = walOk w \<and> wp_closed v = wp_closed w"
  "appendEnter rec w = (r, v) \<Longrightarrow> walOk v = walOk w \<and> wp_closed v = wp_closed w"
  using walOk_calls(1,3,4,5) closed_calls(1,3,4,5) by (metis snd_conv)+

lemma tracked_sends: "fst (flushSend w) \<in> tracked (snd (flushSend w))" "wp_nextChan w \<in> tracked (shutdownSend w)"
  by (auto simp: tracked_def flushSend_def shutdownSend_def markClosed_def Let_def)

lemma progressOk_wal:
  assumes "progressOk s" and "moved (sp_wal s) w" and "wp_phase (sp_wal s) \<noteq> Crashed"
  shows "progressOk (s\<lparr>sp_wal := w\<rparr>)"
  using assms moved_walOk by (auto simp: progressOk_def moved_def)

lemma progressOk_plain:
  assumes "walOk w" and "waitsFor pt = {}" and "\<not> wp_closed w \<or> closing pt" and "sp_wal t = w" and "sp_point t = pt"
  shows "progressOk t"
  using assms by (simp add: progressOk_def)

lemma answered_point: "waitsFor (sp_point (flushError ch release e s)) = {}" "waitsFor (sp_point (answerFlush ch release er s)) = {}"
  by (simp_all add: flushError_def answerFlush_def split: option.split)

lemma progressOk_receive:
  assumes "progressOk s" and "sp_point s = Selecting"
  shows "progressOk (receiveMessage m s)"
proof -
  have w: "walOk (sp_wal s)" "\<not> wp_closed (sp_wal s)" using assms by (simp_all add: progressOk_def)
  have fl: "progressOk (flushPending ch release s)" for ch release
  proof (cases "flushWAL s")
    case (Inl err)
    then show ?thesis using w by (intro progressOk_plain [OF w(1) _ _ _ refl]) (simp_all add: flushPending_def loop_fields answered_point)
  qed (use w in \<open>simp add: flushPending_def progressOk_def\<close>)
  have "progressOk (receiveCommand cmd reply s)" for cmd reply
  proof -
    let ?t = "receiveCommand cmd reply s"
    have "walOk (sp_wal ?t) \<and> \<not> wp_closed (sp_wal ?t) \<and> waitsFor (sp_point ?t) = {}"
    proof (cases "enqueueCommand cmd reply (s\<lparr>lp_received := lp_received s @ [(cmd, reply)]\<rparr>)")
      case (EnqueueDone t)
      then have "sp_wal t = sp_wal s \<and> sp_point t = sp_point s"
        by (auto simp: enqueueCommand_def sendReply_def completeCommand_def Let_def split: option.splits if_splits prod.splits)
      then show ?thesis using EnqueueDone w assms(2) by (simp add: receiveCommand_def)
    next
      case (EnqueueAppend rec result t)
      then have t: "sp_wal t = sp_wal s \<and> sp_point t = sp_point s"
        by (auto simp: enqueueCommand_def sendReply_def completeCommand_def Let_def split: option.splits if_splits prod.splits)
      obtain r v where v: "appendEnter rec (sp_wal t) = (r, v)" by (cases "appendEnter rec (sp_wal t)")
      have "walOk v" "\<not> wp_closed v" using call_pairs(4) [OF v] t w by simp_all
      then show ?thesis using EnqueueAppend v t assms(2) by (cases r) (simp_all add: receiveCommand_def loop_fields)
    qed (use w in \<open>simp add: receiveCommand_def\<close>)
    then show ?thesis by (simp add: progressOk_def)
  qed
  with fl show ?thesis by (cases m) simp_all
qed

lemma progressOk_work:
  assumes "shwork s t" and "progressOk s"
  shows "progressOk t"
proof -
  have w: "walOk (sp_wal s)" "wp_closed (sp_wal s) \<longrightarrow> closing (sp_point s)" using assms(2) by (simp_all add: progressOk_def)
  from assms(1) show ?thesis
  proof (cases rule: shwork.cases)
    case sh_wal_start
    then show ?thesis using progressOk_wal [OF assms(2) runStart_moved] w by (auto simp: walOk_def)
  next
    case sh_wal_request
    then show ?thesis using progressOk_wal [OF assms(2) runRequest_moved] w by (auto simp: walOk_def)
  next
    case sh_wal_timer
    then show ?thesis using progressOk_wal [OF assms(2) runTimer_moved] w by (auto simp: walOk_def)
  next
    case (sh_append_sent cmd reply result c)
    then show ?thesis using w by (simp add: progressOk_def loop_fields)
  next
    case (sh_append_closed cmd reply result c err v)
    then show ?thesis using call_pairs(1) w by (fastforce simp: progressOk_def loop_fields)
  next
    case (sh_append_timeout cmd reply result c err v)
    then show ?thesis using call_pairs(2) w by (fastforce simp: progressOk_def loop_fields)
  next
    case (sh_ack err)
    then show ?thesis using assms(2) completeNext_left [of s err] by (simp add: progressOk_def)
  next
    case (sh_complete ch release err)
    then show ?thesis using assms(2) completeNext_left [of s err] by (simp add: progressOk_def)
  next
    case (sh_flush_sent ch release d v)
    then show ?thesis using call_pairs(3) w tracked_sends(1) [of "sp_wal s"] by (auto simp: progressOk_def)
  next
    case (sh_shutdown_sent)
    then show ?thesis using w tracked_sends(2) by (simp add: progressOk_def)
  qed (use w in \<open>auto simp: progressOk_def loop_fields answered_point endLoop_def\<close>)
qed

lemma progressOk_step:
  assumes "shstep s t" and "progressOk s"
  shows "progressOk t"
  using assms(1)
proof cases
  case sh_work
  then show ?thesis using progressOk_work assms(2) by blast
next
  case (sh_receive m)
  then show ?thesis using progressOk_receive [OF assms(2)] by (simp add: canReceive_def)
qed (use assms(2) in \<open>auto simp: progressOk_def canReceive_def\<close>)

subsection \<open>At rest\<close>

text \<open>A writer that waits, has not failed and was not closed has answered every request.\<close>

lemma resting_writer:
  assumes "ainv w" and "walOk w" and "walMoves s = []" and "sp_wal s = w" and "wp_phase w \<noteq> Crashed" and "wp_failedErr w = None" and "\<not> wp_closed w"
  shows "wp_requests w = []" and "roomInQueue w" and "\<forall>c\<in>set (wp_appended w). map_of (wp_acks w) c \<noteq> None"
proof -
  have run: "wp_phase w = Running"
    using assms by (cases "wp_phase w") (auto simp: walMoves_def Let_def ainv_def ended_def shut_def)
  then show r: "wp_requests w = []" using assms(3,4) by (auto simp: walMoves_def Let_def split: if_splits)
  then show "roomInQueue w" using assms(2) by (simp add: roomInQueue_def walOk_def)
  have "wp_pendingAcks w = []" using run assms(2,3,4) by (auto simp: walMoves_def Let_def walOk_def armedOk_def split: if_splits)
  then have "mset (wp_appended w) = mset (map fst (wp_acks w))" using run assms(1) r by (simp add: ainv_def looping_def accounted_def answered_def)
  then have "set (wp_appended w) = set (map fst (wp_acks w))" by (metis set_mset_mset)
  then show "\<forall>c\<in>set (wp_appended w). map_of (wp_acks w) c \<noteq> None" by (simp add: map_of_eq_None_iff)
qed

lemma resting_shard:
  assumes inv: "shinv k books0 m0 s" and "ainv (sp_wal s)" and ok: "progressOk s" and still: "moves s = []"
    and up: "wp_phase (sp_wal s) \<noteq> Crashed" "wp_failedErr (sp_wal s) = None"
  shows "lp_pending s = [] \<and> handReplies (sp_point s) = []"
proof (cases "closing (sp_point s)")
  case True
  then show ?thesis using inv by (cases "sp_point s") (simp_all add: shinv_def)
next
  case False
  have w: "walOk (sp_wal s)" "\<not> wp_closed (sp_wal s)" and l: "walMoves s = []" "loopMoves s = []"
    using ok still False by (auto simp: progressOk_def moves_def)
  note wal = resting_writer [OF assms(2) w(1) l(1) refl up w(2)]
  have acked: "ackMoves s \<noteq> []" if ne: "lp_pending s \<noteq> []"
  proof -
    obtain pc pcs where p: "lp_pending s = pc # pcs" using ne by (cases "lp_pending s") auto
    then have "completed m0 s" using inv by (auto simp: shinv_def)
    then have "pc_ack pc \<in> set (wp_appended (sp_wal s))" using p by (auto simp: completed_def)
    then have "nextAck s \<noteq> None" using wal(3) p by (simp add: nextAck_def)
    then show ?thesis by (auto simp: ackMoves_def)
  qed
  show ?thesis
  proof (cases "sp_point s")
    case (FlushWaiting d ch release)
    then have "d \<in> set (wp_closedDones (sp_wal s))" using ok up(1) wal(1) by (simp add: progressOk_def tracked_def)
    then have "loopMoves s \<noteq> []" using FlushWaiting by (simp add: loopMoves_def flushReturn_def Let_def split: option.split)
    then show ?thesis using l(2) by simp
  qed (use l(2) wal(2) acked inv in \<open>auto simp: loopMoves_def Let_def shinv_def\<close>)
qed

text \<open>One move, and the commands it leaves alone.\<close>

definition goes :: "shardProc \<Rightarrow> shardProc \<Rightarrow> bool" where
  "goes s t \<longleftrightarrow> t \<in> set (moves s)"

lemma work_received: "shwork s t \<Longrightarrow> lp_received t = lp_received s"
  by (induction rule: shwork.induct)
    (auto simp: appendLogged_def appendFailed_def failPending_def sendReply_def completeNext_def completeCommand_def flushError_def answerFlush_def endLoop_def
      Let_def split: list.splits option.splits)

lemma goes_steps:
  assumes "goes\<^sup>*\<^sup>* s t"
  shows "shstep\<^sup>*\<^sup>* s t" and "lp_received t = lp_received s"
proof -
  have "shstep\<^sup>*\<^sup>* s t \<and> lp_received t = lp_received s" using assms
  proof (induction rule: rtranclp_induct)
    case (step t u)
    then have "shwork t u" using moves_work by (simp add: goes_def)
    then show ?case using step(3) sh_work [of t u] work_received [of t u] by (auto intro: rtranclp.rtrancl_into_rtrancl)
  qed simp
  then show "shstep\<^sup>*\<^sup>* s t" and "lp_received t = lp_received s" by simp_all
qed

lemma goes_left:
  assumes "(goes ^^ n) s t" and "progressOk s"
  shows "n + left t \<le> left s \<and> progressOk t"
  using assms
proof (induction n arbitrary: t)
  case (Suc n)
  then obtain u where u: "(goes ^^ n) s u" "goes u t" by auto
  then have i: "n + left u \<le> left s" "progressOk u" using Suc by auto
  have "left t < left u" using u(2) i(2) moves_left by (simp add: goes_def progressOk_def)
  moreover have "progressOk t" using u(2) i(2) moves_work progressOk_work by (auto simp: goes_def)
  ultimately show ?case using i(1) by simp
qed simp

lemma start_progressOk:
  assumes "NewWriter cfg d0 outs = Inr w0"
  shows "progressOk (startLoop l m0 w0)"
proof -
  have "0 < wc_QueueSize cfg" using assms by (auto simp: NewWriter_def validateWriterConfig_def split: if_splits)
  then show ?thesis using assms
    by (auto simp: NewWriter_def initWriter_def progressOk_def startLoop_def Loop.extend_def walOk_def armedOk_def
        split: option.splits prod.splits io_res.splits)
qed

lemma progressOk_steps: "shstep\<^sup>*\<^sup>* s t \<Longrightarrow> progressOk s \<Longrightarrow> progressOk t"
  by (induction rule: rtranclp_induct) (auto intro: progressOk_step)

subsection \<open>Properties\<close>

text \<open>
  C31: a shard does not get stuck.  From every state it can reach, its goroutines, left to themselves and scheduled in any
  order, make at most \<open>left s\<close> moves, none of which waits for a deadline; and when they have come to rest, every command
  that the shard has received has been answered, exactly once, unless the machine has crashed or the log writer has
  failed.
\<close>

theorem shard_answers_every_command:
  assumes "NewWriter cfg d0 outs = Inr w0" and "newLoop k symbols True snapshots = Some l" and "genuine snapshots"
    and "shstep\<^sup>*\<^sup>* (startLoop l m0 w0) s"
  shows "(\<forall>n t. (goes ^^ n) s t \<longrightarrow> n \<le> left s)
    \<and> (\<forall>t. goes\<^sup>*\<^sup>* s t \<and> moves t = [] \<and> wp_phase (sp_wal t) \<noteq> Crashed \<and> wp_failedErr (sp_wal t) = None
        \<longrightarrow> mset (map snd (lp_received s)) = mset (map fst (lp_replies t)))"
proof (intro conjI allI impI)
  have start: "progressOk (startLoop l m0 w0)" by (rule start_progressOk [OF assms(1)])
  fix n t assume "(goes ^^ n) s t"
  from goes_left [OF this progressOk_steps [OF assms(4) start]] show "n \<le> left s" by simp
next
  fix t assume t: "goes\<^sup>*\<^sup>* s t \<and> moves t = [] \<and> wp_phase (sp_wal t) \<noteq> Crashed \<and> wp_failedErr (sp_wal t) = None"
  note g = goes_steps [of s t]
  have run: "shstep\<^sup>*\<^sup>* (startLoop l m0 w0) t" using assms(4) g(1) t by (metis rtranclp_trans)
  have w: "sp_wal (startLoop l m0 w0) = w0" by (simp add: startLoop_def Loop.extend_def)
  have inv: "shinv k (lp_books l) m0 t" "wstep\<^sup>*\<^sup>* w0 (sp_wal t)"
    using shsteps_shinv [OF run start_shinv [OF assms(2,3,1)]] w by simp_all
  have "ainv (sp_wal t)" by (rule wsteps_ainv [OF inv(2) NewWriter_ainv [OF assms(1)]])
  then have "lp_pending t = [] \<and> handReplies (sp_point t) = []"
    by (rule resting_shard [OF inv(1) _ progressOk_steps [OF run start_progressOk [OF assms(1)]]]) (use t in simp_all)
  then show "mset (map snd (lp_received s)) = mset (map fst (lp_replies t))" using inv(1) g(2) t by (simp add: shinv_def repliedOnce_def)
qed

text \<open>A shard whose record has been written makes one more move, which answers the command.\<close>

definition writtenShard :: shardProc where
  "writtenShard = shardAt walWritten Selecting [samplePending]"

definition restingShard :: shardProc where
  "restingShard = completeNext None writtenShard"

lemma walWritten_fields: "wp_phase walWritten = Running" "wp_requests walWritten = []" "\<not> wp_timerArmed walWritten" "wp_failedErr walWritten = None"
  "wp_acks walWritten = [(walChan, None)]"
  by (simp_all add: wal_written wal_started initWriter_def)

lemma resting_fields: "sp_wal restingShard = walWritten" "sp_point restingShard = Selecting" "lp_pending restingShard = []" "sp_receiving restingShard"
  by (simp_all add: restingShard_def writtenShard_def completeNext_def completeCommand_def sendReply_def shardAt_def)

theorem shard_answers_every_command_witness:
  "goes writtenShard restingShard \<and> moves restingShard = [] \<and> lp_pending writtenShard = [samplePending] \<and> mset (map fst (lp_replies restingShard)) = {#0#}"
proof -
  have m: "moves restingShard = []"
    by (simp add: moves_def walMoves_def loopMoves_def ackMoves_def nextAck_def resting_fields walWritten_fields)
  have "nextAck writtenShard = Some None" by (simp add: nextAck_def writtenShard_def samplePending_def walWritten_fields)
  then have "ackMoves writtenShard = [restingShard]" by (simp add: ackMoves_def restingShard_def)
  moreover have "sp_point writtenShard = Selecting" by (simp add: writtenShard_def)
  ultimately have g: "goes writtenShard restingShard" by (simp add: goes_def moves_def loopMoves_def)
  have run: "shstep\<^sup>*\<^sup>* (startLoop sampleLoop 0 sampleWriter) writtenShard"
    unfolding writtenShard_def using sample_appended sample_written by (rule rtranclp_trans)
  have "mset (map snd (lp_received writtenShard)) = mset (map fst (lp_replies restingShard))"
    using shard_answers_every_command [OF sample_NewWriter sample_newLoop sample_genuine run] g m by (auto simp: resting_fields walWritten_fields)
  then show ?thesis using g m by (simp add: writtenShard_def) (simp add: shardAt_def)
qed

end
