(* ===== verification/Sequencer_Shutdown.thy ===== *)
theory Sequencer_Shutdown
  imports Sequencer
begin

text \<open>
  What a shutdown of the sequencer means: when the goroutine has ended, every request that was accepted has been
  taken from the channel, and the inboxes of the shards are closed, so that the loops can end.
\<close>

fun isShutdown :: "request \<Rightarrow> bool" where
  "isShutdown (RequestShutdown ch) = True"
| "isShutdown _ = False"

text \<open>The calls and requests for a shutdown: there is at most one, it comes after \<open>markClosed\<close>, and its request is the last in the channel.\<close>

definition shutdowns :: "'e Sequencer \<Rightarrow> nat" where
  "shutdowns s = length (sq_closers s) + length (filter isShutdown (sq_ingressQ s)) + (if sq_point s = SeqEnded then 1 else 0)"

definition endsOnce :: "'e Sequencer \<Rightarrow> bool" where
  "endsOnce s \<longleftrightarrow> shutdowns s \<le> (if sq_closed s then 1 else 0) \<and> list_all (\<lambda>r. \<not> isShutdown r) (butlast (sq_ingressQ s))
     \<and> (sq_point s = SeqEnded \<longrightarrow> sq_ingressQ s = []) \<and> (sq_point s = SeqEnded \<longleftrightarrow> sq_inboxesClosed s) \<and> (sq_point s = SeqEnded \<longleftrightarrow> sq_done s)
     \<and> (sq_closedDones s \<noteq> [] \<longrightarrow> sq_point s = SeqEnded)"

lemmas endsOnce_defs = endsOnce_def shutdowns_def

lemma endsOnce_enqueue:
  assumes "endsOnce s" and "\<not> sq_closed s" and "\<not> isShutdown req"
  shows "endsOnce (enqueue req s)"
  using assms by (auto simp: endsOnce_defs enqueue_def list_all_iff filter_empty_conv)

lemma endsOnce_observe [simp]: "endsOnce (observeSeq m s) = endsOnce s" "endsOnce (replySeq reply out s) = endsOnce s"
  by (simp_all add: endsOnce_defs observeSeq_def replySeq_def)

text \<open>Steps that touch none of the fields.\<close>

lemma endsOnce_cong:
  assumes "endsOnce s" and "sq_closers s' = sq_closers s" and "sq_ingressQ s' = sq_ingressQ s" and "sq_point s' = sq_point s"
    and "sq_closed s' = sq_closed s" and "sq_inboxesClosed s' = sq_inboxesClosed s" and "sq_done s' = sq_done s" and "sq_closedDones s' = sq_closedDones s"
  shows "endsOnce s'"
  using assms(1) unfolding endsOnce_defs assms(2-8) .

lemma endsOnce_point:
  assumes "endsOnce s" and "sq_point s \<noteq> SeqEnded" and "pt \<noteq> SeqEnded"
  shows "endsOnce (s\<lparr>sq_point := pt\<rparr>)"
  using assms by (simp add: endsOnce_defs)

lemma endsOnce_shutdown:
  assumes "endsOnce s" and "ch \<in> set (sq_closers s)" and "ShutdownSend ch s = Some s'"
  shows "endsOnce s'"
proof -
  have c: "sq_closed s" "sq_closers s = [ch]" "filter isShutdown (sq_ingressQ s) = []" "sq_point s \<noteq> SeqEnded"
    using assms(1,2) by (cases "sq_closers s"; auto simp: endsOnce_defs split: if_splits)+
  show ?thesis using assms(1,3) c by (auto simp: ShutdownSend_def enqueue_def endsOnce_defs filter_empty_conv list_all_iff split: if_splits)
qed

lemma endsOnce_drop:
  assumes "endsOnce s" and "sq_ingressQ s = req # reqs" and "\<not> isShutdown req"
  shows "endsOnce (s\<lparr>sq_ingressQ := reqs\<rparr>)"
proof -
  have "sq_point s \<noteq> SeqEnded" "list_all (\<lambda>r. \<not> isShutdown r) (butlast reqs)" using assms(1,2) by (auto simp: endsOnce_def split: if_splits)
  then show ?thesis using assms by (simp add: endsOnce_defs)
qed

lemma endsOnce_command:
  assumes "endsOnce s" and "sq_point s = AtQueue"
  shows "endsOnce (takeCommand cmd reply s)"
proof -
  have "endsOnce (s\<lparr>sq_nextSeq := n, sq_point := pt\<rparr>)" if "pt \<noteq> SeqEnded" for n pt
    by (rule endsOnce_cong [OF endsOnce_point [OF assms(1), of pt]]) (use that assms(2) in simp_all)
  moreover have "observeSeq m (s\<lparr>sq_nextSeq := n\<rparr>)\<lparr>sq_point := pt\<rparr> = observeSeq m (s\<lparr>sq_nextSeq := n, sq_point := pt\<rparr>)" for m n pt
    by (simp add: observeSeq_def)
  ultimately show ?thesis using assms(1) by (simp add: takeCommand_def Let_def split: option.split)
qed

lemma endsOnce_take:
  assumes inv: "endsOnce s" and pt: "sq_point s = AtQueue" and q: "sq_ingressQ s = req # reqs"
  shows "endsOnce (takeRequest req (s\<lparr>sq_ingressQ := reqs\<rparr>))"
proof (cases "isShutdown req")
  case True
  then obtain ch where r: "req = RequestShutdown ch" by (cases req) simp_all
  then have "reqs = []" "sq_closers s = []" "sq_closed s" using inv q by (auto simp: endsOnce_defs split: if_splits)
  then show ?thesis by (simp add: r endsOnce_defs)
next
  case False
  note drop = endsOnce_drop [OF inv q False]
  show ?thesis using endsOnce_command [OF drop] endsOnce_point [OF drop] pt False by (cases req) simp_all
qed

lemma endsOnce_run:
  assumes inv: "endsOnce s" and run: "seqRun s = Some s'"
  shows "endsOnce s'"
proof (cases "sq_point s = AtQueue")
  case True
  then show ?thesis using assms endsOnce_take by (auto simp: seqRun_def split: list.splits)
next
  case False
  then have "sq_point s \<noteq> SeqEnded \<and> sq_point s' \<noteq> SeqEnded \<and> sq_closers s' = sq_closers s \<and> sq_ingressQ s' = sq_ingressQ s \<and> sq_closed s' = sq_closed s
      \<and> sq_inboxesClosed s' = sq_inboxesClosed s \<and> sq_done s' = sq_done s \<and> sq_closedDones s' = sq_closedDones s"
  proof (cases "sq_point s")
    case (Broadcasting req k err)
    then show ?thesis using run by (cases req) (auto simp: seqRun_def sendInbox_def split: if_splits)
  qed (use run in \<open>auto simp: seqRun_def sendInbox_def split: if_splits option.splits\<close>)
  then show ?thesis by (intro endsOnce_cong [OF endsOnce_point [OF inv, of "sq_point s'"]]) simp_all
qed

lemma endsOnce_step:
  assumes "seqstep s s'" and "endsOnce s"
  shows "endsOnce s'"
  using assms
proof (cases rule: seqstep.cases)
  case (seq_run) then show ?thesis using assms(2) endsOnce_run by blast
next
  case (seq_submit) then show ?thesis using assms(2) by (auto simp: endsOnce_enqueue SubmitBlocking_def Let_def split: if_splits)
next
  case (seq_try) then show ?thesis using assms(2) by (auto simp: endsOnce_enqueue SubmitNonBlocking_def Let_def split: if_splits)
next
  case (seq_barrier) then show ?thesis using assms(2) by (auto simp: endsOnce_enqueue BarrierSend_def split: if_splits)
next
  case (seq_drain) then show ?thesis using assms(2) by (auto simp: endsOnce_enqueue DrainSend_def split: if_splits)
next
  case (seq_mark) then show ?thesis using assms(2) by (auto simp: seqMarkClosed_def endsOnce_defs split: if_splits)
next
  case (seq_shutdown) then show ?thesis using assms(2) endsOnce_shutdown by blast
next
  case (seq_shutdown_cancel ch)
  then have "length (remove1 ch (sq_closers s)) \<le> length (sq_closers s)" by (simp add: length_remove1)
  with seq_shutdown_cancel show ?thesis using assms(2) by (auto simp: ShutdownCancel_def endsOnce_defs split: if_splits)
qed (use assms(2) in \<open>auto simp: closeRelease_def takeInbox_def answerSeq_def elim!: endsOnce_cong\<close>)

lemma endsOnce_steps: "seqstep\<^sup>*\<^sup>* (NewSequencer queueSize i shards inboxSize f) s \<Longrightarrow> endsOnce s"
proof (induction rule: rtranclp_induct)
  case base
  show ?case by (simp add: endsOnce_defs NewSequencer_def)
qed (rule endsOnce_step)

text \<open>
  When \<open>Shutdown\<close> has returned without an error, every request that was accepted has been taken, the inboxes are closed, and no
  further call is accepted.
\<close>

lemma shutdown_returned:
  assumes "seqstep\<^sup>*\<^sup>* (NewSequencer queueSize i shards inboxSize f) s" and "seqShutdownReturn ch s = Some None \<or> seqShutdownAgain s = Some None"
  shows "sq_point s = SeqEnded \<and> sq_ingressQ s = [] \<and> sq_inboxesClosed s \<and> SubmitBlocking cmd reply s = Some (Some ErrSequencerClosed, s)"
proof -
  note inv = endsOnce_steps [OF assms(1)]
  have ended: "sq_point s = SeqEnded" using inv assms(2) by (auto simp: seqShutdownReturn_def seqShutdownAgain_def endsOnce_defs split: if_splits)
  moreover have "sq_closed s" using inv ended by (auto simp: endsOnce_defs split: if_splits)
  ultimately show ?thesis using inv by (simp add: endsOnce_defs SubmitBlocking_def)
qed

end
