(* ===== verification/Engine_Progress.thy ===== *)
theory Engine_Progress
  imports Engine_Sample Shard_Progress Sequencer_Shutdown
begin

text \<open>
  Progress of the engine.  When neither the sequencer nor a shard nor a log writer can move, although no drain is held and no
  writer has failed, every command that was accepted has been answered: the goroutines and the channels between them
  cannot deadlock.
\<close>

subsection \<open>Who is held\<close>

text \<open>A shard that is held by a drain that is not released: the sequencer is busy with this drain, and has already asked the shard.\<close>

definition holding :: "loop_err Sequencer \<Rightarrow> nat \<Rightarrow> nat \<Rightarrow> bool" where
  "holding q j r \<longleftrightarrow> (case sq_point q of
       Broadcasting req k err \<Rightarrow> releaseOf req = Some r \<and> j < k
     | AwaitAnswer req k err ch \<Rightarrow> releaseOf req = Some r \<and> (j < k \<or> j = k \<and> map_of (sq_answers q) ch \<noteq> None)
     | AwaitRelease r' \<Rightarrow> r' = r
     | _ \<Rightarrow> False)"

definition holders :: "Engine \<Rightarrow> bool" where
  "holders e \<longleftrightarrow> (\<forall>j<length (en_shards e). \<forall>r. sp_point (en_shards e ! j) = Held r \<longrightarrow> r \<notin> set (sq_released (en_sequencer e)) \<longrightarrow> holding (en_sequencer e) j r)"

lemma holding_answers: "holding q j r \<Longrightarrow> holding (q\<lparr>sq_answers := sq_answers q @ as\<rparr>) j r"
  by (auto simp: holding_def map_add_def split: seqPoint.splits option.splits)

lemma holding_view: "seqView q' = seqView q \<Longrightarrow> holding q' j r = holding q j r"
  by (simp add: holding_def seqView_def split: seqPoint.split)

text \<open>A shard comes to be held only by an answer.\<close>

lemma shwork_held:
  "shwork s t \<Longrightarrow> sp_point t = Held r \<Longrightarrow> sp_point s = Held r
     \<or> (\<exists>ch err. questionAt (sp_point s) = [(ch, Some r)] \<and> sp_answers t = sp_answers s @ [(ch, err)])"
proof (induction rule: shwork.induct)
  case (sh_completed s ch release)
  then show ?case by (auto simp: answerFlush_def split: option.splits)
qed (auto simp: endLoop_def appendLogged_def appendFailed_def failPending_def sendReply_def Let_def flushError_def answerFlush_def
      split: option.splits if_splits)

lemma receive_held:
  assumes "sp_point s = Selecting" and "sp_point (receiveMessage m s) = Held r"
  shows "\<exists>ch err. questionIn m = [(ch, Some r)] \<and> sp_answers (receiveMessage m s) = sp_answers s @ [(ch, err)]"
proof (cases m)
  case (RoutedCommand cmd reply)
  have "sp_point (receiveCommand cmd reply s) \<noteq> Held r" using assms(1)
    by (auto simp: receiveCommand_def enqueueCommand_def completeCommand_def appendFailed_def failPending_def sendReply_def Let_def
        split: option.splits prod.splits sum.splits if_splits)
  then show ?thesis using RoutedCommand assms(2) by simp
qed (use assms in \<open>auto simp: flushPending_def flushError_def answerFlush_def failPending_def split: sum.splits if_splits option.splits\<close>)

lemma holders_answered:
  assumes "questions e" and "k < length (en_shards e)" and "question e k = [(ch, Some r)]"
  shows "holding ((en_sequencer e)\<lparr>sq_answers := sq_answers (en_sequencer e) @ [(ch, err)]\<rparr>) k r"
proof -
  have "asked (en_sequencer e) k = [(ch, Some r)]" using assms by (simp add: questions_def)
  then obtain req er where "sq_point (en_sequencer e) = AwaitAnswer req k er ch" "Some r = releaseOf req" unfolding asked_unanswered by blast
  then show ?thesis by (simp add: holding_def map_add_def split: option.split)
qed

lemma holders_shard:
  assumes "holders e" and "k < length (en_shards e)" and "en_shards e' = (en_shards e)[k := t]"
    and "sq_released (en_sequencer e') = sq_released (en_sequencer e)" and "\<And>j r. holding (en_sequencer e) j r \<Longrightarrow> holding (en_sequencer e') j r"
    and "\<And>r. sp_point t = Held r \<Longrightarrow> sp_point (en_shards e ! k) = Held r \<or> holding (en_sequencer e') k r"
  shows "holders e'"
  unfolding holders_def
proof (intro allI impI)
  fix j r
  assume j: "j < length (en_shards e')" and h: "sp_point (en_shards e' ! j) = Held r" "r \<notin> set (sq_released (en_sequencer e'))"
  show "holding (en_sequencer e') j r"
  proof (cases "j = k \<and> sp_point (en_shards e ! k) \<noteq> Held r")
    case True
    then show ?thesis using h(1) assms(2,3,6) by auto
  next
    case False
    then have "sp_point (en_shards e ! j) = Held r" using h(1) assms(3) j by (cases "j = k") auto
    then show ?thesis using assms(1,3,4,5) h(2) j by (simp add: holders_def)
  qed
qed

lemma work_holders:
  assumes "holders e" and "questions e" and "k < length (en_shards e)" and "shwork (en_shards e ! k) t"
  shows "holders (shardStep k t e)"
proof (rule holders_shard [OF assms(1,3)])
  fix r assume t: "sp_point t = Held r"
  from shwork_held [OF assms(4) t] show "sp_point (en_shards e ! k) = Held r \<or> holding (en_sequencer (shardStep k t e)) k r"
  proof (elim disjE exE conjE)
    fix ch err assume a: "questionAt (sp_point (en_shards e ! k)) = [(ch, Some r)]" "sp_answers t = sp_answers (en_shards e ! k) @ [(ch, err)]"
    then have "question e k = [(ch, Some r)]" using one_question [OF assms(2,3)] by (auto simp: question_def)
    then show ?thesis using holders_answered [OF assms(2,3)] a(2) by simp
  qed simp
qed (simp_all add: holding_answers)

lemma receive_holders:
  assumes "holders e" and "questions e" and k: "k < length (en_shards e)" and "canReceive (en_shards e ! k)"
    and ms: "sq_inboxes (en_sequencer e) ! k = m # ms"
  shows "holders (shardStep k (receiveMessage m (en_shards e ! k)) (onSequencer (takeInbox k (en_sequencer e)) e))"
proof (rule holders_shard [OF assms(1,3)])
  let ?q = "takeInbox k (en_sequencer e)"
  have view: "holding (?q\<lparr>sq_answers := as\<rparr>) j r = holding ((en_sequencer e)\<lparr>sq_answers := as\<rparr>) j r" for as j r
    by (simp add: holding_def takeInbox_def split: seqPoint.split)
  have sel: "sp_point (en_shards e ! k) = Selecting" using assms(4) by (simp add: canReceive_def)
  fix r assume t: "sp_point (receiveMessage m (en_shards e ! k)) = Held r"
  from receive_held [OF sel t] obtain ch err where a: "questionIn m = [(ch, Some r)]"
    "sp_answers (receiveMessage m (en_shards e ! k)) = sp_answers (en_shards e ! k) @ [(ch, err)]" by blast
  then have "question e k = [(ch, Some r)]" using one_question [OF assms(2) k] ms by (auto simp: question_def)
  then show "sp_point (en_shards e ! k) = Held r
      \<or> holding (en_sequencer (shardStep k (receiveMessage m (en_shards e ! k)) (onSequencer ?q e))) k r"
    using holders_answered [OF assms(2) k] a(2) view by (simp add: takeInbox_def)
next
  fix j r assume "holding (en_sequencer e) j r"
  then show "holding (en_sequencer (shardStep k (receiveMessage m (en_shards e ! k)) (onSequencer (takeInbox k (en_sequencer e)) e))) j r"
    by (auto simp: holding_def takeInbox_def map_add_def split: seqPoint.splits option.splits)
qed (simp_all add: takeInbox_def)

lemma run_holders:
  assumes "holders e" and "questions e" and "seqRun (en_sequencer e) = Some q"
  shows "holders (onSequencer q e)"
proof -
  have l: "length (sq_inboxes (en_sequencer e)) = length (en_shards e)" using assms(2) by (simp add: questions_def)
  have free: "holders (onSequencer q e)" if "sq_point (en_sequencer e) = AtQueue \<or> (\<exists>k m. sq_point (en_sequencer e) = Sending k m)" "sq_released q = sq_released (en_sequencer e)"
    using assms(1) that by (auto simp: holders_def holding_def)
  have take: "sq_released (takeRequest req q) = sq_released q" for req and q :: "loop_err Sequencer"
    by (cases req) (auto simp: takeCommand_def replySeq_def observeSeq_def Let_def split: option.split)
  show ?thesis
  proof (cases "sq_point (en_sequencer e)")
    case AtQueue
    then show ?thesis using assms(3) by (intro free) (auto simp: seqRun_def take split: list.splits)
  next
    case (Sending k m)
    then show ?thesis using assms(3) by (intro free) (auto simp: seqRun_def sendInbox_def split: if_splits)
  next
    case (Broadcasting req k err)
    then show ?thesis using assms(1,3) l
      by (cases req) (auto simp: seqRun_def holders_def holding_def sendInbox_def split: if_splits)
  next
    case (AwaitAnswer req k err ch)
    then show ?thesis using assms(1,3) by (auto simp: seqRun_def holders_def holding_def less_Suc_eq split: option.splits)
  next
    case (AwaitRelease release)
    then show ?thesis using assms(1,3) by (auto simp: seqRun_def holders_def holding_def split: if_splits)
  qed (use assms(3) in \<open>simp_all add: seqRun_def\<close>)
qed

lemma call_holders:
  assumes "holders e" and "en_shards e' = en_shards e" and "seqView (en_sequencer e') = seqView (en_sequencer e)"
    and "set (sq_released (en_sequencer e)) \<subseteq> set (sq_released (en_sequencer e'))"
  shows "holders e'"
  using assms(1,4) unfolding holders_def assms(2) holding_view [OF assms(3)] by blast

lemma call_onSequencer:
  assumes "holders e" and "seqView q = seqView (en_sequencer e) \<and> sq_released q = sq_released (en_sequencer e)"
  shows "holders (onSequencer q e)"
  by (rule call_holders [OF assms(1)]) (use assms(2) in simp_all)

lemma estep_holders: "estep e e' \<Longrightarrow> holders e \<Longrightarrow> questions e \<Longrightarrow> holders e'"
proof (induction rule: estep.induct)
  case (e_run e q)
  then show ?case by (intro run_holders)
next
  case (e_work k e s)
  then show ?case by (intro work_holders)
next
  case (e_receive k e m ms)
  then show ?case by (intro receive_holders)
next
  case (e_closed k e)
  show ?case by (rule holders_shard [OF e_closed(5,1), where t = "(en_shards e ! k)\<lparr>sp_receiving := False\<rparr>"]) simp_all
next
  case (e_resume k e release)
  show ?case by (rule holders_shard [OF e_resume(4,1), where t = "(en_shards e ! k)\<lparr>sp_point := Selecting\<rparr>"]) simp_all
next
  case (e_release e release)
  then show ?case by (auto intro: call_holders [of e])
next
  case (e_returned reply latency e r e')
  show ?case by (rule call_holders [OF e_returned(2)]) (use SubmitReturn_fields [OF e_returned(1)] in simp_all)
next
  case (e_paused e d)
  show ?case by (rule call_holders [OF e_paused(1)]) simp_all
qed (rule call_onSequencer, assumption, erule call_view)+

subsection \<open>Who still receives\<close>

text \<open>A loop leaves only when it no longer receives; it receives until its inbox is closed and empty.\<close>

fun leaving :: "loopPoint \<Rightarrow> bool" where
  "leaving ShuttingDown = True"
| "leaving (ShutdownWaiting d) = True"
| "leaving LoopEnded = True"
| "leaving _ = False"

definition receivers :: "Engine \<Rightarrow> bool" where
  "receivers e \<longleftrightarrow> (\<forall>k<length (en_shards e). (leaving (sp_point (en_shards e ! k)) \<longrightarrow> \<not> sp_receiving (en_shards e ! k))
     \<and> (\<not> sp_receiving (en_shards e ! k) \<longrightarrow> sq_inboxesClosed (en_sequencer e) \<and> sq_inboxes (en_sequencer e) ! k = []))"

lemma shwork_receiving:
  "shwork s t \<Longrightarrow> sp_receiving t = sp_receiving s \<and> (leaving (sp_point t) \<longrightarrow> leaving (sp_point s) \<or> \<not> sp_receiving s)"
  by (induction rule: shwork.induct)
    (auto simp: endLoop_def appendLogged_def appendFailed_def failPending_def sendReply_def Let_def flushError_def answerFlush_def
      completeNext_def completeCommand_def split: option.splits list.splits)

lemma receive_receiving:
  assumes "sp_point s = Selecting"
  shows "sp_receiving (receiveMessage m s) = sp_receiving s \<and> \<not> leaving (sp_point (receiveMessage m s))"
  using assms by (cases m) (auto simp: receiveCommand_def enqueueCommand_def completeCommand_def appendFailed_def failPending_def sendReply_def
      flushPending_def flushError_def answerFlush_def Let_def split: option.splits prod.splits sum.splits if_splits)

lemma run_closed:
  assumes "endsOnce q" and "seqRun q = Some q'" and "sq_inboxesClosed q"
  shows "False"
  using assms by (simp add: endsOnce_def seqRun_def)

lemma receivers_shard:
  assumes "receivers e" and "k < length (en_shards e)" and "en_shards e' = (en_shards e)[k := t]"
    and "sq_inboxesClosed (en_sequencer e') = sq_inboxesClosed (en_sequencer e)"
    and "\<forall>j. j \<noteq> k \<longrightarrow> sq_inboxes (en_sequencer e') ! j = sq_inboxes (en_sequencer e) ! j"
    and "leaving (sp_point t) \<longrightarrow> \<not> sp_receiving t"
    and "\<not> sp_receiving t \<longrightarrow> sq_inboxesClosed (en_sequencer e) \<and> sq_inboxes (en_sequencer e') ! k = []"
  shows "receivers e'"
  using assms by (auto simp: receivers_def nth_list_update)

lemma call_receivers:
  assumes "receivers e" and "en_shards e' = en_shards e" and "sq_inboxesClosed (en_sequencer e') = sq_inboxesClosed (en_sequencer e)"
    and "sq_inboxes (en_sequencer e') = sq_inboxes (en_sequencer e)"
  shows "receivers e'"
  using assms(1) unfolding receivers_def assms(2-4) .

lemma call_closed:
  "SubmitBlocking cmd reply q = Some (r, q') \<Longrightarrow> sq_inboxesClosed q' = sq_inboxesClosed q \<and> sq_inboxes q' = sq_inboxes q"
  "SubmitNonBlocking cmd reply q = (r, q') \<Longrightarrow> sq_inboxesClosed q' = sq_inboxesClosed q \<and> sq_inboxes q' = sq_inboxes q"
  "BarrierSend result q = Some (r, q') \<Longrightarrow> sq_inboxesClosed q' = sq_inboxesClosed q \<and> sq_inboxes q' = sq_inboxes q"
  "DrainSend result release q = Some (r, q') \<Longrightarrow> sq_inboxesClosed q' = sq_inboxesClosed q \<and> sq_inboxes q' = sq_inboxes q"
  "seqMarkClosed d q = (b, q') \<Longrightarrow> sq_inboxesClosed q' = sq_inboxesClosed q \<and> sq_inboxes q' = sq_inboxes q"
  "ShutdownSend d q = Some q' \<Longrightarrow> sq_inboxesClosed q' = sq_inboxesClosed q \<and> sq_inboxes q' = sq_inboxes q"
  "ShutdownCancel d q = (x, q') \<Longrightarrow> sq_inboxesClosed q' = sq_inboxesClosed q \<and> sq_inboxes q' = sq_inboxes q"
  by (auto simp: SubmitBlocking_def SubmitNonBlocking_def BarrierSend_def DrainSend_def seqMarkClosed_def ShutdownSend_def
      ShutdownCancel_def enqueue_def observeSeq_def Let_def split: if_splits)

lemma receivers_onSequencer:
  "receivers e \<Longrightarrow> sq_inboxesClosed q = sq_inboxesClosed (en_sequencer e) \<and> sq_inboxes q = sq_inboxes (en_sequencer e) \<Longrightarrow> receivers (onSequencer q e)"
  by (rule call_receivers) simp_all

lemma estep_receivers: "estep e e' \<Longrightarrow> receivers e \<Longrightarrow> endsOnce (en_sequencer e) \<Longrightarrow> receivers e'"
proof (induction rule: estep.induct)
  case (e_run e q)
  then have "\<forall>k<length (en_shards e). sp_receiving (en_shards e ! k)" using run_closed by (auto simp: receivers_def)
  then show ?case using e_run(2) by (simp add: receivers_def)
next
  case (e_work k e s)
  show ?case by (rule receivers_shard [OF e_work(3,1), where t = s]) (use e_work shwork_receiving [OF e_work(2)] in \<open>auto simp: receivers_def\<close>)
next
  case (e_receive k e m ms)
  have "sp_point (en_shards e ! k) = Selecting" "sp_receiving (en_shards e ! k)" using e_receive(2) by (simp_all add: canReceive_def)
  then show ?case using receive_receiving [of "en_shards e ! k" m]
    by (intro receivers_shard [OF e_receive(4,1), where t = "receiveMessage m (en_shards e ! k)"]) (auto simp: takeInbox_def)
next
  case (e_closed k e)
  then show ?case
    by (intro receivers_shard [OF e_closed(5,1), where t = "(en_shards e ! k)\<lparr>sp_receiving := False\<rparr>"]) (auto simp: canReceive_def)
next
  case (e_resume k e release)
  then show ?case
    by (intro receivers_shard [OF e_resume(4,1), where t = "(en_shards e ! k)\<lparr>sp_point := Selecting\<rparr>"]) (auto simp: receivers_def)
next
  case (e_release e release)
  then show ?case by (intro receivers_onSequencer) (simp_all add: closeRelease_def)
next
  case (e_returned reply latency e r e')
  show ?case by (rule call_receivers [OF e_returned(2)]) (use SubmitReturn_fields [OF e_returned(1)] in simp_all)
next
  case (e_paused e d)
  show ?case by (rule call_receivers [OF e_paused(1)]) simp_all
qed (rule receivers_onSequencer, assumption, erule call_closed)+

subsection \<open>The engine at rest\<close>

text \<open>No part can move without a caller or the end of a deadline.\<close>

definition shardRests :: "nat \<Rightarrow> Engine \<Rightarrow> bool" where
  "shardRests k e \<longleftrightarrow> (let s = en_shards e ! k; q = en_sequencer e in moves s = []
     \<and> \<not> (canReceive s \<and> (sq_inboxes q ! k \<noteq> [] \<or> sq_inboxesClosed q))
     \<and> (case sp_point s of Held release \<Rightarrow> release \<notin> set (sq_released q) | _ \<Rightarrow> True))"

definition atRest :: "Engine \<Rightarrow> bool" where
  "atRest e \<longleftrightarrow> seqRun (en_sequencer e) = None \<and> (\<forall>k<length (en_shards e). shardRests k e)"

text \<open>The steps the parts make on their own: those of the sequencer, the shards and the writers, without callers and deadlines.\<close>

inductive egoes :: "Engine \<Rightarrow> Engine \<Rightarrow> bool" where
  eg_run: "seqRun (en_sequencer e) = Some q \<Longrightarrow> egoes e (onSequencer q e)"
| eg_work: "k < length (en_shards e) \<Longrightarrow> t \<in> set (moves (en_shards e ! k)) \<Longrightarrow> egoes e (shardStep k t e)"
| eg_receive: "k < length (en_shards e) \<Longrightarrow> canReceive (en_shards e ! k) \<Longrightarrow> sq_inboxes (en_sequencer e) ! k = m # ms
    \<Longrightarrow> egoes e (shardStep k (receiveMessage m (en_shards e ! k)) (onSequencer (takeInbox k (en_sequencer e)) e))"
| eg_closed: "k < length (en_shards e) \<Longrightarrow> canReceive (en_shards e ! k) \<Longrightarrow> sq_inboxes (en_sequencer e) ! k = []
    \<Longrightarrow> sq_inboxesClosed (en_sequencer e) \<Longrightarrow> egoes e (setShard k ((en_shards e ! k)\<lparr>sp_receiving := False\<rparr>) e)"
| eg_resume: "k < length (en_shards e) \<Longrightarrow> sp_point (en_shards e ! k) = Held release \<Longrightarrow> release \<in> set (sq_released (en_sequencer e))
    \<Longrightarrow> egoes e (setShard k ((en_shards e ! k)\<lparr>sp_point := Selecting\<rparr>) e)"

lemma egoes_estep: "egoes e e' \<Longrightarrow> estep e e'"
  by (induction rule: egoes.induct) (auto intro: estep.intros moves_work)

lemma restless_step:
  assumes "\<not> atRest e"
  shows "\<exists>e'. egoes e e'"
proof (cases "seqRun (en_sequencer e)")
  case None
  then obtain k where k: "k < length (en_shards e)" "\<not> shardRests k e" using assms by (auto simp: atRest_def)
  let ?s = "en_shards e ! k" and ?q = "en_sequencer e"
  consider t where "t \<in> set (moves ?s)" | m ms where "canReceive ?s" "sq_inboxes ?q ! k = m # ms"
    | "canReceive ?s" "sq_inboxes ?q ! k = []" "sq_inboxesClosed ?q" | release where "sp_point ?s = Held release" "release \<in> set (sq_released ?q)"
    using k(2) by (cases "moves ?s"; cases "sq_inboxes ?q ! k") (auto simp: shardRests_def Let_def split: loopPoint.splits)
  then show ?thesis using eg_work [OF k(1)] eg_receive [OF k(1)] eg_closed [OF k(1)] eg_resume [OF k(1)] by cases blast+
qed (blast intro: eg_run)

lemma atRest_iff: "atRest e \<longleftrightarrow> (\<nexists>e'. egoes e e')"
proof
  assume r: "atRest e"
  show "\<nexists>e'. egoes e e'"
  proof
    assume "\<exists>e'. egoes e e'"
    then show False using r by (auto elim!: egoes.cases simp: atRest_def shardRests_def Let_def)
  qed
qed (use restless_step in blast)

text \<open>The inboxes keep their size, and the sequencer asks only shards there are, and only for a barrier or a drain.\<close>

fun asksAll :: "request \<Rightarrow> bool" where
  "asksAll (RequestBarrier result) = True"
| "asksAll (RequestDrain result release) = True"
| "asksAll _ = False"

definition channelsOk :: "nat \<Rightarrow> 'e Sequencer \<Rightarrow> bool" where
  "channelsOk n q \<longleftrightarrow> sq_inboxSize q = n \<and> (\<forall>req k err ch. sq_point q = AwaitAnswer req k err ch \<longrightarrow> k < length (sq_inboxes q) \<and> asksAll req)
     \<and> (\<forall>req k err. sq_point q = Broadcasting req k err \<longrightarrow> asksAll req)"

lemma take_channelsOk: "sq_point q = AtQueue \<Longrightarrow> channelsOk n q \<Longrightarrow> channelsOk n (takeRequest req q)"
  by (cases req) (auto simp: channelsOk_def takeCommand_def replySeq_def observeSeq_def Let_def split: option.splits)

lemma run_channelsOk:
  assumes "seqRun q = Some q'" and "channelsOk n q"
  shows "channelsOk n q'"
proof (cases "sq_point q")
  case AtQueue
  have "channelsOk n (q\<lparr>sq_ingressQ := reqs\<rparr>)" for reqs using assms(2) by (simp add: channelsOk_def)
  then have "channelsOk n (takeRequest req (q\<lparr>sq_ingressQ := reqs\<rparr>))" for req reqs using AtQueue by (intro take_channelsOk) simp_all
  then show ?thesis using assms(1) AtQueue by (auto simp: seqRun_def split: list.splits)
next
  case (Broadcasting req k err)
  then show ?thesis using assms by (cases req) (auto simp: seqRun_def channelsOk_def sendInbox_def split: if_splits)
qed (use assms in \<open>auto simp: seqRun_def channelsOk_def sendInbox_def split: if_splits option.splits\<close>)

lemma seqstep_channelsOk: "seqstep q q' \<Longrightarrow> channelsOk n q \<Longrightarrow> channelsOk n q'"
  by (induction rule: seqstep.induct) (auto intro: run_channelsOk, auto simp: channelsOk_def SubmitBlocking_def SubmitNonBlocking_def BarrierSend_def
      DrainSend_def seqMarkClosed_def ShutdownSend_def ShutdownCancel_def enqueue_def observeSeq_def closeRelease_def takeInbox_def answerSeq_def Let_def split: if_splits)

lemma seqsteps_channelsOk: "seqstep\<^sup>*\<^sup>* q q' \<Longrightarrow> channelsOk n q \<Longrightarrow> channelsOk n q'"
  by (induction rule: rtranclp_induct) (auto intro: seqstep_channelsOk)

subsection \<open>The engine comes to rest\<close>

text \<open>How far the engine is from rest.  A message in an inbox costs 12 at most, a request that goes to all \<open>n\<close> shards \<open>14 * n + 2\<close>.\<close>

definition shardLeft :: "shardProc \<Rightarrow> nat" where
  "shardLeft s = 2 * left s + (case sp_point s of Held release \<Rightarrow> 1 | _ \<Rightarrow> 0) + (if sp_receiving s then 1 else 0)"

definition pointCost :: "nat \<Rightarrow> 'e seqPoint \<Rightarrow> nat" where
  "pointCost n pt = (case pt of Sending k m \<Rightarrow> 13 | Broadcasting req k err \<Rightarrow> 14 * (n - k) + 2 | AwaitAnswer req k err ch \<Rightarrow> 14 * (n - Suc k) + 3
     | AwaitRelease release \<Rightarrow> 1 | _ \<Rightarrow> 0)"

definition seqLeft :: "'e Sequencer \<Rightarrow> nat" where
  "seqLeft q = (let n = length (sq_inboxes q) in length (sq_ingressQ q) * (14 * n + 18) + 12 * sum_list (map length (sq_inboxes q)) + pointCost n (sq_point q))"

definition engineLeft :: "Engine \<Rightarrow> nat" where
  "engineLeft e = seqLeft (en_sequencer e) + sum_list (map shardLeft (en_shards e))"

lemma inboxes_sent: "sum_list (map length (xss[k := xss ! k @ [x]])) \<le> Suc (sum_list (map length xss))"
  by (cases "k < length xss") (simp_all add: map_update sum_list_update list_update_beyond)

lemma take_left:
  assumes "sq_point q = AtQueue"
  shows "seqLeft (takeRequest req q) < seqLeft q + 14 * length (sq_inboxes q) + 18"
proof -
  have "sq_ingressQ (takeRequest req q) = sq_ingressQ q" by (cases req) (auto simp: takeCommand_def replySeq_def observeSeq_def Let_def split: option.split)
  moreover have "pointCost (length (sq_inboxes q)) (sq_point (takeRequest req q)) < 14 * length (sq_inboxes q) + 18"
    using assms by (cases req) (auto simp: pointCost_def takeCommand_def replySeq_def observeSeq_def Let_def split: option.split)
  ultimately show ?thesis by (simp add: seqLeft_def Let_def)
qed

lemma run_left:
  assumes "seqRun q = Some q'" and "channelsOk n q"
  shows "seqLeft q' < seqLeft q"
proof (cases "sq_point q")
  case AtQueue
  then obtain req reqs where "sq_ingressQ q = req # reqs" "q' = takeRequest req (q\<lparr>sq_ingressQ := reqs\<rparr>)" using assms by (auto simp: seqRun_def split: list.splits)
  then show ?thesis using take_left [of "q\<lparr>sq_ingressQ := reqs\<rparr>" req] AtQueue by (simp add: seqLeft_def Let_def)
next
  case (Sending k m)
  then show ?thesis using assms inboxes_sent [of "sq_inboxes q" k m]
    by (auto simp: seqRun_def seqLeft_def pointCost_def sendInbox_def Let_def split: if_splits)
next
  case (Broadcasting req k err)
  show ?thesis
  proof (cases "length (sq_inboxes q) \<le> k")
    case True
    then show ?thesis using assms Broadcasting by (cases req) (auto simp: channelsOk_def seqRun_def seqLeft_def pointCost_def Let_def)
  next
    case False
    then show ?thesis using assms Broadcasting inboxes_sent [of "sq_inboxes q" k "broadcastMessage req (sq_nextChan q)"]
      by (auto simp: seqRun_def seqLeft_def pointCost_def sendInbox_def Let_def split: if_splits)
  qed
qed (use assms in \<open>auto simp: seqRun_def seqLeft_def pointCost_def Let_def split: if_splits option.splits\<close>)

lemma shards_left:
  assumes "k < length ss"
  shows "sum_list (map shardLeft (ss[k := t])) + shardLeft (ss ! k) = sum_list (map shardLeft ss) + shardLeft t"
  using assms member_le_sum_list [of "shardLeft (ss ! k)" "map shardLeft ss"] by (simp add: map_update sum_list_update)

lemma receiveCommand_left:
  assumes "sp_point s = Selecting"
  shows "left (receiveCommand cmd reply s) \<le> left s + 4 \<and> (\<forall>r. sp_point (receiveCommand cmd reply s) \<noteq> Held r)
    \<and> sp_receiving (receiveCommand cmd reply s) = sp_receiving s"
proof (cases "enqueueCommand cmd reply (s\<lparr>lp_received := lp_received s @ [(cmd, reply)]\<rparr>)")
  case (EnqueueDone t)
  then have "sp_wal t = sp_wal s \<and> sp_point t = sp_point s \<and> sp_receiving t = sp_receiving s \<and> length (lp_pending t) = length (lp_pending s)"
    by (auto simp: enqueueCommand_def sendReply_def completeCommand_def Let_def split: option.splits if_splits prod.splits)
  then show ?thesis using EnqueueDone assms by (simp add: receiveCommand_def left_def)
next
  case (EnqueueAppend rec result t)
  then have t: "sp_wal t = sp_wal s \<and> sp_point t = sp_point s \<and> sp_receiving t = sp_receiving s \<and> lp_pending t = lp_pending s"
    by (auto simp: enqueueCommand_def sendReply_def completeCommand_def Let_def split: option.splits if_splits prod.splits)
  obtain r v where v: "appendEnter rec (sp_wal t) = (r, v)" by (cases "appendEnter rec (sp_wal t)")
  have "walLeft v = walLeft (sp_wal t)" using v by (auto simp: appendEnter_def walLeft_def Let_def split: option.splits if_splits)
  moreover have "sp_receiving (appendFailed err reply u) = sp_receiving u" for err and u :: shardProc by (simp add: appendFailed_def failPending_def sendReply_def Let_def)
  ultimately show ?thesis using EnqueueAppend v t assms by (cases r) (simp_all add: receiveCommand_def loop_fields left_def)
qed (use assms in \<open>simp add: receiveCommand_def left_def\<close>)

lemma receive_left:
  assumes "sp_point s = Selecting"
  shows "shardLeft (receiveMessage m s) \<le> shardLeft s + 11"
proof -
  have "shardLeft (flushPending ch release s) \<le> shardLeft s + 11" for ch release
    using assms by (auto simp: flushPending_def flushError_def answerFlush_def failPending_def shardLeft_def left_def split: sum.split option.split)
  moreover have "shardLeft (receiveCommand cmd reply s) \<le> shardLeft s + 11" for cmd reply
    using receiveCommand_left [OF assms, of cmd reply] assms by (auto simp: shardLeft_def split: loopPoint.split)
  ultimately show ?thesis by (cases m) simp_all
qed

lemma answered_left: "seqLeft (q\<lparr>sq_answers := as\<rparr>) = seqLeft q"
  by (simp add: seqLeft_def)

lemma egoes_left:
  assumes "egoes e e'" and "channelsOk n (en_sequencer e)" and "\<forall>k<length (en_shards e). walOk (sp_wal (en_shards e ! k))"
    and "length (sq_inboxes (en_sequencer e)) = length (en_shards e)"
  shows "engineLeft e' < engineLeft e"
  using assms(1)
proof cases
  case (eg_run q)
  then show ?thesis using run_left [OF eg_run(2) assms(2)] by (simp add: engineLeft_def)
next
  case (eg_work k t)
  have "left t < left (en_shards e ! k)" using eg_work assms(3) moves_left by simp
  moreover have "sp_receiving t = sp_receiving (en_shards e ! k)" using shwork_receiving [OF moves_work [OF eg_work(3)]] by simp
  ultimately have "shardLeft t < shardLeft (en_shards e ! k)" by (simp add: shardLeft_def split: loopPoint.split)
  then show ?thesis using shards_left [OF eg_work(2), of t] eg_work(1) by (simp add: engineLeft_def answered_left)
next
  case (eg_receive k m ms)
  let ?q = "takeInbox k (en_sequencer e)" and ?t = "receiveMessage m (en_shards e ! k)"
  have "Suc (sum_list (map length (sq_inboxes ?q))) = sum_list (map length (sq_inboxes (en_sequencer e)))"
    using eg_receive(2,4) assms(4) elem_le_sum_list [of k "map length (sq_inboxes (en_sequencer e))"]
    by (simp add: takeInbox_def map_update sum_list_update)
  then have "seqLeft ?q + 12 = seqLeft (en_sequencer e)" by (simp add: seqLeft_def takeInbox_def Let_def)
  moreover have "shardLeft ?t \<le> shardLeft (en_shards e ! k) + 11" using eg_receive(3) by (intro receive_left) (simp add: canReceive_def)
  ultimately show ?thesis using shards_left [OF eg_receive(2), of ?t] eg_receive(1) by (simp add: engineLeft_def answered_left)
next
  case (eg_closed k)
  then have "shardLeft ((en_shards e ! k)\<lparr>sp_receiving := False\<rparr>) < shardLeft (en_shards e ! k)" by (simp add: shardLeft_def left_def canReceive_def)
  then show ?thesis using shards_left [OF eg_closed(2), of "(en_shards e ! k)\<lparr>sp_receiving := False\<rparr>"] eg_closed(1) by (simp add: engineLeft_def)
next
  case (eg_resume k release)
  then have "shardLeft ((en_shards e ! k)\<lparr>sp_point := Selecting\<rparr>) < shardLeft (en_shards e ! k)" by (simp add: shardLeft_def left_def)
  then show ?thesis using shards_left [OF eg_resume(2), of "(en_shards e ! k)\<lparr>sp_point := Selecting\<rparr>"] eg_resume(1) by (simp add: engineLeft_def)
qed

text \<open>What a shard at rest waits for.\<close>

lemma resting_point:
  assumes inv: "shinv k books0 m0 s" and "ainv (sp_wal s)" and ok: "progressOk s" and still: "moves s = []"
    and up: "wp_phase (sp_wal s) \<noteq> Crashed" "wp_failedErr (sp_wal s) = None"
  shows "sp_point s = Selecting \<and> sp_receiving s \<or> (\<exists>release. sp_point s = Held release) \<or> leaving (sp_point s)"
proof (cases "closing (sp_point s)")
  case False
  have w: "walOk (sp_wal s)" "\<not> wp_closed (sp_wal s)" and l: "walMoves s = []" "loopMoves s = []"
    using ok still False by (auto simp: progressOk_def moves_def)
  note wal = resting_writer [OF assms(2) w(1) l(1) refl up w(2)]
  have p: "lp_pending s = []" "handReplies (sp_point s) = []" using resting_shard [OF assms] by simp_all
  show ?thesis
  proof (cases "sp_point s")
    case (FlushWaiting d ch release)
    then have "d \<in> set (wp_closedDones (sp_wal s))" using ok up(1) wal(1) by (simp add: progressOk_def tracked_def)
    then have "loopMoves s \<noteq> []" using FlushWaiting by (simp add: loopMoves_def flushReturn_def Let_def split: option.split)
    then show ?thesis using l(2) by simp
  qed (use l(2) wal(2) p inv in \<open>auto simp: loopMoves_def Let_def shinv_def split: if_splits\<close>)
qed (cases "sp_point s"; simp)

text \<open>The sequencer is at rest only at its queue, at its end, or before the release of a drain.\<close>

definition shardWaits :: "nat \<Rightarrow> Engine \<Rightarrow> bool" where
  "shardWaits k e \<longleftrightarrow> (let s = en_shards e ! k in sp_point s = Selecting \<and> sp_receiving s \<and> lp_pending s = []
     \<or> (\<exists>release. sp_point s = Held release) \<or> leaving (sp_point s))"

lemma inbox_empty:
  assumes "receivers e" and "holders e" and "k < length (en_shards e)" and "shardRests k e" and "shardWaits k e" and "\<forall>release. \<not> holding (en_sequencer e) k release"
  shows "sq_inboxes (en_sequencer e) ! k = [] \<and> questionAt (sp_point (en_shards e ! k)) = []"
proof -
  let ?s = "en_shards e ! k"
  have "sp_point ?s \<noteq> Held release" for release using assms(2-4,6) by (auto simp: holders_def shardRests_def Let_def)
  then consider "sp_point ?s = Selecting" "sp_receiving ?s" "lp_pending ?s = []" | "leaving (sp_point ?s)" using assms(5) by (auto simp: shardWaits_def Let_def)
  then show ?thesis
  proof cases
    case 1
    then have "canReceive ?s" by (simp add: canReceive_def maxPendingCommands_def)
    then show ?thesis using assms(4) 1(1) by (simp add: shardRests_def Let_def)
  next
    case 2
    then show ?thesis using assms(1,3) by (cases "sp_point ?s") (auto simp: receivers_def)
  qed
qed

lemma resting_sequencer:
  assumes "receivers e" and "holders e" and q: "questions e" and "atRest e" and "\<forall>k<length (en_shards e). shardWaits k e"
    and "endsOnce (en_sequencer e)" and "sq_point (en_sequencer e) \<noteq> SeqPanic" and size: "channelsOk n (en_sequencer e)" "0 < n"
    and sending: "\<forall>k m. sq_point (en_sequencer e) = Sending k m \<longrightarrow> k < length (en_shards e)"
  shows "(\<exists>release. sq_point (en_sequencer e) = AwaitRelease release \<and> release \<notin> set (sq_released (en_sequencer e)))
    \<or> sq_ingressQ (en_sequencer e) = [] \<and> inHand (sq_point (en_sequencer e)) = [] \<and> (\<forall>k<length (en_shards e). sq_inboxes (en_sequencer e) ! k = [])"
proof -
  let ?q = "en_sequencer e"
  have run: "seqRun ?q = None" and empty: "\<And>k. k < length (en_shards e) \<Longrightarrow> \<forall>release. \<not> holding ?q k release
      \<Longrightarrow> sq_inboxes ?q ! k = [] \<and> questionAt (sp_point (en_shards e ! k)) = []"
    using assms(4,5) inbox_empty [OF assms(1,2)] by (auto simp: atRest_def)
  have l: "length (sq_inboxes ?q) = length (en_shards e)" using q by (simp add: questions_def)
  show ?thesis
  proof (cases "sq_point ?q")
    case AtQueue
    then show ?thesis using run empty by (auto simp: seqRun_def holding_def split: list.splits)
  next
    case (Sending k m)
    then show ?thesis using run empty [of k] sending size by (auto simp: channelsOk_def seqRun_def holding_def inboxRoom_def split: if_splits)
  next
    case (Broadcasting req k err)
    then show ?thesis using run empty [of k] size l by (auto simp: channelsOk_def seqRun_def holding_def inboxRoom_def split: if_splits)
  next
    case (AwaitAnswer req k err ch)
    then have none: "map_of (sq_answers ?q) ch = None" using run by (simp add: seqRun_def split: option.splits)
    have a: "asked ?q k = [(ch, releaseOf req)]" using AwaitAnswer none asked_unanswered by blast
    have k: "k < length (en_shards e)" using size(1) AwaitAnswer l by (simp add: channelsOk_def)
    then have "question e k = []" using empty [OF k] AwaitAnswer none by (simp add: holding_def question_def)
    then show ?thesis using q k a by (simp add: questions_def)
  next
    case (AwaitRelease release)
    then show ?thesis using run by (auto simp: seqRun_def split: if_splits)
  next
    case SeqEnded
    then show ?thesis using empty assms(6) by (auto simp: holding_def endsOnce_def)
  qed (use assms(7) in simp_all)
qed

subsection \<open>Every request comes to an end\<close>

lemma handled_command:
  "RequestCommand cmd reply \<in> set rs \<Longrightarrow> reply \<in> fst ` set (refused f n rs) \<or> (\<exists>k c. (k, RoutedCommand c reply) \<in> set (assign f n rs))"
  by (induction f n rs rule: assign.induct) (force split: option.splits if_splits)+

lemma replyOn_refused: "reply \<in> fst ` set (sq_replies (en_sequencer e)) \<Longrightarrow> replyOn reply e \<noteq> None"
  by (auto simp: replyOn_def map_of_eq_None_iff image_iff split: option.splits sum.splits)

lemma replyOn_shard:
  assumes "k < length (en_shards e)" and "reply \<in> fst ` set (lp_replies (en_shards e ! k))"
  shows "replyOn reply e \<noteq> None"
proof -
  have "reply \<in> fst ` set (concat (map lp_replies (en_shards e)))" using assms by (force simp: in_set_conv_nth)
  then have "map_of (concat (map lp_replies (en_shards e))) reply \<noteq> None" by (simp add: map_of_eq_None_iff)
  then show ?thesis by (auto simp: replyOn_def split: option.splits sum.splits)
qed

lemma idle_answered:
  assumes h: "reg.numbered symbols n i handled (en_sequencer e)" and "i \<noteq> 0" and "coupled e" and n: "length (en_shards e) = nat n"
    and idle: "sq_ingressQ (en_sequencer e) = []" "inHand (sq_point (en_sequencer e)) = []"
      "\<forall>k<length (en_shards e). sq_inboxes (en_sequencer e) ! k = []"
    and replied: "\<forall>k<length (en_shards e). mset (map snd (lp_received (en_shards e ! k))) = mset (map fst (lp_replies (en_shards e ! k)))"
    and "RequestCommand cmd reply \<in> set (sq_submitted (en_sequencer e))"
  shows "replyOn reply e \<noteq> None"
proof -
  let ?f = "registryRoute symbols n" and ?q = "en_sequencer e"
  have q: "filter (\<lambda>m. isCommand (snd m)) (sq_sent ?q) = assign ?f i handled" "sq_replies ?q = refused ?f i handled" "sq_submitted ?q = handled"
    using h idle by (simp_all add: reg.numbered_def)
  have "RequestCommand cmd reply \<in> set handled" using assms(9) q(3) by simp
  from handled_command [OF this, of ?f i] show ?thesis
  proof (elim disjE exE)
    assume "reply \<in> fst ` set (refused ?f i handled)"
    then show ?thesis using replyOn_refused q(2) by metis
  next
    fix k c assume c: "(k, RoutedCommand c reply) \<in> set (assign ?f i handled)"
    then obtain k' where "?f (cmd_Symbol c) = Some k'" "k = nat k'" using assign_seqs [OF assms(2), of ?f handled] by force
    then have k: "k < length (en_shards e)" using reg.shard_in_range n by fastforce
    have "(k, RoutedCommand c reply) \<in> set (sq_sent ?q)" using c unfolding q(1) [symmetric] by simp
    then have "(c, reply) \<in> set (sentTo k (sq_sent ?q))" by (simp add: sentTo_iff)
    then have "(c, reply) \<in> set (lp_received (en_shards e ! k))" using assms(3) k idle(3) by (simp add: coupled_def)
    then have "reply \<in> set (map fst (lp_replies (en_shards e ! k)))" using replied k by (metis image_eqI list.set_map set_mset_mset snd_conv)
    then show ?thesis using replyOn_shard [OF k] by simp
  qed
qed

text \<open>A run keeps all of this.\<close>

definition engineOk :: "Engine \<Rightarrow> bool" where
  "engineOk e \<longleftrightarrow> questions e \<and> heldSoFar e \<and> holders e \<and> receivers e \<and> endsOnce (en_sequencer e)
     \<and> channelsOk (sq_inboxSize (en_sequencer e)) (en_sequencer e) \<and> (\<forall>k<length (en_shards e). progressOk (en_shards e ! k))"

lemma seqsteps_endsOnce: "seqstep\<^sup>*\<^sup>* q q' \<Longrightarrow> endsOnce q \<Longrightarrow> endsOnce q'"
  by (induction rule: rtranclp_induct) (auto intro: endsOnce_step)

lemma estep_engineOk:
  assumes "estep e e'" and "engineOk e"
  shows "engineOk e'"
proof -
  have q: "questions e" "endsOnce (en_sequencer e)" using assms(2) by (simp_all add: engineOk_def)
  have steps: "seqstep\<^sup>*\<^sup>* (en_sequencer e) (en_sequencer e')" using estep_sequencer [OF assms(1)] q(1) by (simp add: questions_def)
  have "endsOnce (en_sequencer e')" using seqsteps_endsOnce [OF steps q(2)] .
  moreover have "channelsOk (sq_inboxSize (en_sequencer e)) (en_sequencer e')"
    by (rule seqsteps_channelsOk [OF steps]) (use assms(2) in \<open>unfold engineOk_def, blast\<close>)
  then have "channelsOk (sq_inboxSize (en_sequencer e')) (en_sequencer e')" unfolding channelsOk_def by metis
  moreover have "progressOk (en_shards e' ! k)" if "k < length (en_shards e')" for k
    using estep_shards [OF assms(1)] assms(2) that progressOk_steps by (auto simp: engineOk_def)
  ultimately show ?thesis
    using assms(2) estep_held [OF assms(1)] estep_holders [OF assms(1)] estep_receivers [OF assms(1)] by (simp add: engineOk_def)
qed

lemma esteps_engineOk: "estep\<^sup>*\<^sup>* e e' \<Longrightarrow> engineOk e \<Longrightarrow> engineOk e'"
  by (induction rule: rtranclp_induct) (auto intro: estep_engineOk)

lemma new_engineOk:
  assumes "NewEngine genc gdec snapDir walDir disks outs cfg = Some (Inr e)"
  shows "engineOk e"
proof -
  obtain registry recovered marks shards i where s: "startShards cfg registry recovered marks disks outs [0..<nat (cfg_ShardCount cfg)] = Some (Inr shards)"
    "e = \<lparr>en_registry = registry, en_sequencer = NewSequencer (nat (cfg_IngressQueueSize cfg)) i (nat (cfg_ShardCount cfg)) (nat (cfg_ShardQueueSize cfg)) (ShardFor registry),
      en_shards = shards, en_engineID = cfg_EngineID cfg, en_metrics = []\<rparr>"
    using assms by (auto simp: NewEngine_def Let_def split: bind_splits if_splits sum.splits prod.splits)
  have "length shards = nat (cfg_ShardCount cfg)" using startShards_ok [OF s(1)] by simp
  moreover have "sp_point (shards ! k) = Selecting \<and> sp_receiving (shards ! k) \<and> progressOk (shards ! k)" if "k < nat (cfg_ShardCount cfg)" for k
    using startShards_ok [OF s(1)] that start_progressOk by (auto simp: startLoop_def Loop.extend_def)
  ultimately show ?thesis using new_held [OF assms] by (simp add: s(2) engineOk_def holders_def receivers_def endsOnce_defs channelsOk_def NewSequencer_def)
qed

lemma numbered_sending:
  assumes "reg.numbered symbols n i handled q" and "i \<noteq> 0" and "sq_point q = Sending k m"
  shows "k < nat n"
proof -
  let ?f = "registryRoute symbols n"
  have "(k, m) \<in> set (assign ?f i handled)" using assms(1,3) unfolding reg.numbered_def by (metis in_set_conv_decomp inHand.simps(1) append_Nil2)
  then obtain k' where "?f (routedSymbol m) = Some k'" "k = nat k'" using assign_seqs [OF assms(2), of ?f handled] by force
  then show ?thesis using reg.shard_in_range by fastforce
qed

lemma engine_shard:
  assumes cfg: "Config_Validate cfg = None" "NewSymbolRegistry (cfg_Symbols cfg) (cfg_ShardCount cfg) = Some (Inr registry)"
      "cfg_ShardCount cfg < 2 ^ 32"
    and hist: "logged cfg registry disks recss hist" "snapshotOf genc gdec snapDir cfg registry hist"
      "crashDir (nat (cfg_ShardCount cfg)) disks walDir"
    and new: "NewEngine genc gdec snapDir walDir disks outs cfg = Some (Inr e0)" and run: "estep\<^sup>*\<^sup>* e0 e"
    and ok: "engineOk e" and k: "k < length (en_shards e)" and still: "shardRests k e"
    and up: "wp_phase (sp_wal (en_shards e ! k)) \<noteq> Crashed" "wp_failedErr (sp_wal (en_shards e ! k)) = None"
  shows "shardWaits k e \<and> mset (map snd (lp_received (en_shards e ! k))) = mset (map fst (lp_replies (en_shards e ! k)))"
proof -
  let ?s = "en_shards e ! k"
  have "k < nat (cfg_ShardCount cfg)" using engine_run [OF cfg hist new run] k by auto
  then obtain books0 w where r: "runsFrom cfg registry (disks k) k (hist k) books0 w ?s" using engine_run [OF cfg hist new run] by blast
  then obtain wouts where w: "NewWriter (engineWriterConfig cfg k) (disks k) wouts = Inr w" "wstep\<^sup>*\<^sup>* w (sp_wal ?s)"
    and inv: "shinv k books0 (lastSeq 0 (hist k)) ?s" by (auto simp: runsFrom_def)
  have a: "ainv (sp_wal ?s)" by (rule wsteps_ainv [OF w(2) NewWriter_ainv [OF w(1)]])
  have p: "progressOk ?s" "moves ?s = []" using ok k still by (simp_all add: engineOk_def shardRests_def Let_def)
  show ?thesis using resting_point [OF inv a p up] resting_shard [OF inv a p up] inv
    by (simp add: shardWaits_def Let_def shinv_def repliedOnce_def)
qed

text \<open>Left to itself the engine comes to rest.\<close>

lemma run_submitted:
  assumes "seqRun q = Some q'"
  shows "sq_submitted q' = sq_submitted q"
proof -
  have take: "sq_submitted (takeRequest req s) = sq_submitted s" for req and s :: "'a Sequencer"
    by (cases req) (auto simp: takeCommand_def replySeq_def observeSeq_def Let_def split: option.split)
  have finish: "sq_submitted (endBroadcast req err s) = sq_submitted s" for req err and s :: "'a Sequencer" by (cases req) simp_all
  show ?thesis using assms
    by (cases "sq_point q") (auto simp: seqRun_def sendInbox_def take finish split: list.splits option.splits if_splits)
qed

lemma egoes_submitted: "egoes e e' \<Longrightarrow> sq_submitted (en_sequencer e') = sq_submitted (en_sequencer e)"
  by (induction rule: egoes.induct) (simp_all add: run_submitted takeInbox_def)

lemma egoes_steps: "egoes\<^sup>*\<^sup>* e e' \<Longrightarrow> estep\<^sup>*\<^sup>* e e' \<and> sq_submitted (en_sequencer e') = sq_submitted (en_sequencer e)"
  by (induction rule: rtranclp_induct) (auto dest: egoes_submitted egoes_estep)

lemma egoes_bound:
  assumes "(egoes ^^ n) e e'" and "engineOk e"
  shows "n + engineLeft e' \<le> engineLeft e \<and> engineOk e'"
  using assms
proof (induction n arbitrary: e')
  case (Suc n)
  then obtain u where u: "(egoes ^^ n) e u" "egoes u e'" by auto
  then have i: "n + engineLeft u \<le> engineLeft e" "engineOk u" using Suc by auto
  have "engineLeft e' < engineLeft u" using i(2) by (intro egoes_left [OF u(2)]) (auto simp: engineOk_def progressOk_def questions_def)
  then show ?case using i(1) estep_engineOk [OF egoes_estep [OF u(2)] i(2)] by simp
qed simp

lemma comes_to_rest: "engineOk e \<Longrightarrow> \<exists>e'. egoes\<^sup>*\<^sup>* e e' \<and> atRest e'"
proof (induction "engineLeft e" arbitrary: e rule: less_induct)
  case less
  show ?case
  proof (cases "atRest e")
    case False
    then obtain u where u: "egoes e u" using restless_step by blast
    have "engineLeft u < engineLeft e" "engineOk u" using egoes_bound [of 1 e u] u less.prems by (auto simp: relcompp_apply)
    then show ?thesis using less.hyps u by (meson converse_rtranclp_into_rtranclp)
  qed blast
qed

text \<open>At rest.\<close>

lemma resting_engine:
  assumes cfg: "Config_Validate cfg = None" "NewSymbolRegistry (cfg_Symbols cfg) (cfg_ShardCount cfg) = Some (Inr registry)"
      "cfg_ShardCount cfg < 2 ^ 32"
    and hist: "logged cfg registry disks recss hist" "snapshotOf genc gdec snapDir cfg registry hist"
      "crashDir (nat (cfg_ShardCount cfg)) disks walDir"
    and new: "NewEngine genc gdec snapDir walDir disks outs cfg = Some (Inr e0)" and run: "estep\<^sup>*\<^sup>* e0 e"
    and at: "atRest e" "\<forall>k<length (en_shards e). wp_phase (sp_wal (en_shards e ! k)) \<noteq> Crashed \<and> wp_failedErr (sp_wal (en_shards e ! k)) = None"
  shows "(\<exists>release. sq_point (en_sequencer e) = AwaitRelease release \<and> release \<notin> set (sq_released (en_sequencer e)))
    \<or> (\<forall>cmd reply. RequestCommand cmd reply \<in> set (sq_submitted (en_sequencer e)) \<longrightarrow> replyOn reply e \<noteq> None)"
proof -
  let ?n = "nat (cfg_ShardCount cfg)" and ?q = "en_sequencer e"
  obtain i handled where h: "reg.numbered (cfg_Symbols cfg) (cfg_ShardCount cfg) i handled ?q" "i \<noteq> 0" "coupled e" "length (en_shards e) = ?n"
    and steps: "seqstep\<^sup>*\<^sup>* (NewSequencer (nat (cfg_IngressQueueSize cfg)) i ?n (nat (cfg_ShardQueueSize cfg)) (ShardFor registry)) ?q"
    by (rule engine_parts [OF cfg hist new run]) blast
  have size: "channelsOk (nat (cfg_ShardQueueSize cfg)) ?q" by (rule seqsteps_channelsOk [OF steps]) (simp add: channelsOk_def NewSequencer_def)
  have ok: "engineOk e" by (rule esteps_engineOk [OF run new_engineOk [OF new]])
  have shard: "shardWaits k e \<and> mset (map snd (lp_received (en_shards e ! k))) = mset (map fst (lp_replies (en_shards e ! k)))"
    if "k < length (en_shards e)" for k using engine_shard [OF cfg hist new run ok] at that by (simp add: atRest_def)
  have sending: "\<forall>k m. sq_point ?q = Sending k m \<longrightarrow> k < length (en_shards e)" using numbered_sending [OF h(1,2)] h(4) by simp
  have "0 < nat (cfg_ShardQueueSize cfg)" using Config_ValidateD(7) [OF cfg(1)] by simp
  from resting_sequencer [OF _ _ _ _ _ _ _ size this sending] ok at shard h(1)
  have "(\<exists>release. sq_point ?q = AwaitRelease release \<and> release \<notin> set (sq_released ?q))
    \<or> sq_ingressQ ?q = [] \<and> inHand (sq_point ?q) = [] \<and> (\<forall>k<length (en_shards e). sq_inboxes ?q ! k = [])"
    by (simp add: engineOk_def reg.numbered_def)
  then show ?thesis using idle_answered [OF h(1-4)] shard by blast
qed

subsection \<open>Properties\<close>

text \<open>
  C9: the engine does not deadlock.  From every state it can reach, the sequencer, the shards and the log writers, left to
  themselves and scheduled in any order, make at most \<open>engineLeft e\<close> steps, none of which waits for a caller or a deadline, and
  come to rest.  When they have, and no writer has failed or crashed, every command that was accepted has been answered, by
  the sequencer or by its shard, unless a drain is held whose caller has not released it.  This covers barriers,
  drains and a shutdown in any interleaving, and inboxes of any size that the configuration allows.
\<close>

theorem engine_answers_every_command:
  assumes cfg: "Config_Validate cfg = None" "NewSymbolRegistry (cfg_Symbols cfg) (cfg_ShardCount cfg) = Some (Inr registry)"
      "cfg_ShardCount cfg < 2 ^ 32"
    and hist: "logged cfg registry disks recss hist" "snapshotOf genc gdec snapDir cfg registry hist"
      "crashDir (nat (cfg_ShardCount cfg)) disks walDir"
    and new: "NewEngine genc gdec snapDir walDir disks outs cfg = Some (Inr e0)" and run: "estep\<^sup>*\<^sup>* e0 e"
  shows "(\<forall>n e'. (egoes ^^ n) e e' \<longrightarrow> n \<le> engineLeft e) \<and> (\<exists>e'. egoes\<^sup>*\<^sup>* e e' \<and> atRest e')
    \<and> (\<forall>e'. egoes\<^sup>*\<^sup>* e e' \<and> atRest e'
          \<and> (\<forall>k<length (en_shards e'). wp_phase (sp_wal (en_shards e' ! k)) \<noteq> Crashed \<and> wp_failedErr (sp_wal (en_shards e' ! k)) = None)
        \<longrightarrow> (\<exists>release. sq_point (en_sequencer e') = AwaitRelease release \<and> release \<notin> set (sq_released (en_sequencer e')))
          \<or> (\<forall>cmd reply. RequestCommand cmd reply \<in> set (sq_submitted (en_sequencer e)) \<longrightarrow> replyOn reply e' \<noteq> None))"
proof (intro conjI allI)
  have ok: "engineOk e" by (rule esteps_engineOk [OF run new_engineOk [OF new]])
  show "(egoes ^^ n) e e' \<longrightarrow> n \<le> engineLeft e" for n e' using egoes_bound [OF _ ok] by fastforce
  show "\<exists>e'. egoes\<^sup>*\<^sup>* e e' \<and> atRest e'" by (rule comes_to_rest [OF ok])
  fix e'
  have "egoes\<^sup>*\<^sup>* e e' \<Longrightarrow> estep\<^sup>*\<^sup>* e0 e' \<and> sq_submitted (en_sequencer e') = sq_submitted (en_sequencer e)" using egoes_steps run by (meson rtranclp_trans)
  then show "egoes\<^sup>*\<^sup>* e e' \<and> atRest e'
      \<and> (\<forall>k<length (en_shards e'). wp_phase (sp_wal (en_shards e' ! k)) \<noteq> Crashed \<and> wp_failedErr (sp_wal (en_shards e' ! k)) = None)
    \<longrightarrow> (\<exists>release. sq_point (en_sequencer e') = AwaitRelease release \<and> release \<notin> set (sq_released (en_sequencer e')))
      \<or> (\<forall>cmd reply. RequestCommand cmd reply \<in> set (sq_submitted (en_sequencer e)) \<longrightarrow> replyOn reply e' \<noteq> None)"
    using resting_engine [OF cfg hist new, of e'] by auto
qed

text \<open>A drain is released, and a command for a symbol that no shard has is accepted before the sequencer and the shard have noticed.\<close>

definition unknownCommand :: Command where
  "unknownCommand = sampleCommand\<lparr>cmd_Symbol := ''ETH''\<rparr>"

definition releasedSequencer :: "loop_err Sequencer" where
  "releasedSequencer = closeRelease 0 (askedSequencer (AwaitRelease 0) [] [(0, None)] [(0, None)])"

definition acceptedSequencer :: "loop_err Sequencer" where
  "acceptedSequencer = snd (SubmitNonBlocking unknownCommand 3 releasedSequencer)"

definition servedSequencer :: "loop_err Sequencer" where
  "servedSequencer = takeRequest (RequestCommand unknownCommand 3) (acceptedSequencer\<lparr>sq_point := AtQueue, sq_ingressQ := []\<rparr>)"

lemma accepted_fields: "sq_point acceptedSequencer = AwaitRelease 0" "sq_released acceptedSequencer = [0]" "sq_replies acceptedSequencer = []"
  "sq_ingressQ acceptedSequencer = [RequestCommand unknownCommand 3]" "RequestCommand unknownCommand 3 \<in> set (sq_submitted acceptedSequencer)"
  by (simp_all add: acceptedSequencer_def releasedSequencer_def askedSequencer_def closeRelease_def startSequencer_def NewSequencer_def SubmitNonBlocking_def
      queueRoom_def enqueue_def observeSeq_def Let_def)

lemma served_fields: "sq_point servedSequencer = AtQueue" "sq_ingressQ servedSequencer = []" "sq_inboxes servedSequencer = [[]]" "\<not> sq_inboxesClosed servedSequencer"
  by (simp_all add: servedSequencer_def acceptedSequencer_def releasedSequencer_def askedSequencer_def closeRelease_def startSequencer_def NewSequencer_def
      SubmitNonBlocking_def queueRoom_def enqueue_def observeSeq_def takeCommand_def replySeq_def unknownCommand_def ShardFor_def engineRegistry_def Let_def)

lemma sample_goes:
  "egoes\<^sup>*\<^sup>* (engineAt acceptedSequencer (sampleShard l flushedWriter (Held 0) [(0, None)])) (engineAt servedSequencer (sampleShard l flushedWriter Selecting [(0, None)]))"
proof -
  let ?h = "sampleShard l flushedWriter (Held 0) [(0, None)]" and ?s = "sampleShard l flushedWriter Selecting [(0, None)]"
  have a: "egoes (engineAt acceptedSequencer ?h) (engineAt acceptedSequencer ?s)"
    using eg_resume [of 0 "engineAt acceptedSequencer ?h" 0] by (simp add: engineAt_def setShard_def accepted_fields)
  let ?q = "acceptedSequencer\<lparr>sq_point := AtQueue\<rparr>"
  have "seqRun acceptedSequencer = Some ?q" "seqRun ?q = Some servedSequencer"
    by (simp_all add: seqRun_def accepted_fields servedSequencer_def)
  then have "egoes (engineAt acceptedSequencer ?s) (engineAt ?q ?s)" "egoes (engineAt ?q ?s) (engineAt servedSequencer ?s)"
    using eg_run [of "engineAt acceptedSequencer ?s"] eg_run [of "engineAt ?q ?s"] by (simp_all add: engineAt_def onSequencer_def)
  with a show ?thesis by (meson rtranclp.rtrancl_into_rtrancl rtranclp.rtrancl_refl)
qed

lemma sample_accepted: "estep\<^sup>*\<^sup>* (drainedSample l) (engineAt acceptedSequencer (sampleShard l flushedWriter (Held 0) [(0, None)]))"
proof -
  let ?h = "sampleShard l flushedWriter (Held 0) [(0, None)]"
  have "estep (drainedSample l) (engineAt releasedSequencer ?h)"
    using e_release [of "drainedSample l" 0] by (simp add: drainedSample_def engineAt_def onSequencer_def releasedSequencer_def)
  moreover have "estep (engineAt releasedSequencer ?h) (engineAt acceptedSequencer ?h)"
    using e_try [of unknownCommand 3 "engineAt releasedSequencer ?h" "fst (SubmitNonBlocking unknownCommand 3 releasedSequencer)" acceptedSequencer]
    by (simp add: engineAt_def onSequencer_def acceptedSequencer_def)
  ultimately show ?thesis by (meson rtranclp.rtrancl_into_rtrancl rtranclp.rtrancl_refl)
qed

lemma sample_rests:
  assumes "lp_pending l = []"
  shows "atRest (engineAt servedSequencer (sampleShard l flushedWriter Selecting [(0, None)]))"
proof -
  have w: "wp_phase flushedWriter = Running" "wp_requests flushedWriter = []" "\<not> wp_timerArmed flushedWriter"
    by (simp_all add: flushedWriter_def openedWriter_def flushingWriter_def engineWriter_def initWriter_def)
  have "walMoves (sampleShard l flushedWriter Selecting as) = []" for as using w by (simp add: walMoves_def)
  moreover have "loopMoves (sampleShard l flushedWriter Selecting as) = []" for as using assms by (simp add: loopMoves_def ackMoves_def nextAck_def)
  ultimately have "moves (sampleShard l flushedWriter Selecting as) = []" for as by (simp only: moves_def append_Nil)
  moreover have "seqRun servedSequencer = None" by (simp add: seqRun_def served_fields)
  ultimately show ?thesis by (simp add: atRest_def shardRests_def engineAt_def served_fields)
qed

theorem engine_answers_every_command_witness:
  "\<exists>e e'. replyOn 3 e = None \<and> egoes\<^sup>*\<^sup>* e e' \<and> atRest e' \<and> RequestCommand unknownCommand 3 \<in> set (sq_submitted (en_sequencer e)) \<and> replyOn 3 e' \<noteq> None"
proof -
  obtain l where l: "startSample (\<lambda>_. Inl []) (\<lambda>_. Inl []) = Some (Inr (engineAt startSequencer (startLoop l 7 engineWriter)))"
    "lp_failedErr l = None" "lp_hasWAL l" "lp_pending l = []" "lp_replies l = []" using engine_started by blast
  let ?e = "engineAt acceptedSequencer (sampleShard l flushedWriter (Held 0) [(0, None)])"
  let ?f = "engineAt servedSequencer (sampleShard l flushedWriter Selecting [(0, None)])"
  have c: "cfg_ShardCount engineConfig < 2 ^ 32" by (simp add: engine_config)
  have run: "estep\<^sup>*\<^sup>* (engineAt startSequencer (startLoop l 7 engineWriter)) ?e"
    using sample_engine_drained [OF l(2-4)] sample_accepted by (rule rtranclp_trans)
  have up: "\<forall>k<length (en_shards ?f). wp_phase (sp_wal (en_shards ?f ! k)) \<noteq> Crashed \<and> wp_failedErr (sp_wal (en_shards ?f ! k)) = None"
    by (simp add: engineAt_def flushedWriter_def openedWriter_def flushingWriter_def engineWriter_def initWriter_def)
  have q: "en_sequencer ?e = acceptedSequencer" "en_sequencer ?f = servedSequencer" by (simp_all add: engineAt_def)
  have "egoes\<^sup>*\<^sup>* ?e ?f \<and> atRest ?f \<and> (\<forall>k<length (en_shards ?f). wp_phase (sp_wal (en_shards ?f ! k)) \<noteq> Crashed \<and> wp_failedErr (sp_wal (en_shards ?f ! k)) = None)"
    by (intro conjI sample_goes sample_rests [OF l(4)] up)
  from mp [OF spec [OF conjunct2 [OF conjunct2 [OF engine_answers_every_command [OF engine_config(1) engine_registry c engine_logged
      sample_snapshot engine_dir l(1) run]]]] this]
  have "replyOn 3 ?f \<noteq> None" using accepted_fields(5) served_fields(1) unfolding q by (elim disjE exE) simp_all
  moreover have "replyOn 3 ?e = None" by (simp add: replyOn_def engineAt_def accepted_fields sampleShard_def startLoop_def Loop.extend_def l(5))
  ultimately show ?thesis using sample_goes sample_rests [OF l(4)] accepted_fields(5) q(1) by metis
qed

end
