(* ===== verification/Float64.thy ===== *)
theory Float64
  imports Complex_Main "HOL-Library.Log_Nat"
begin

text \<open>
  What the program uses of Go's \<open>float64\<close>: a finite double is the rational number it stands for, and an operation returns
  the exact result rounded to 53 significant bits, to the nearest and on a tie to the even one.  The numbers that
  occur are zero or far from the limits of the exponent, so overflow and subnormal numbers are left out.
\<close>

subsection \<open>Rounding\<close>

definition roundEven :: "rat \<Rightarrow> int" where
  "roundEven x = (let n = \<lfloor>x\<rfloor>; d = x - of_int n in if d < 1 / 2 \<or> d = 1 / 2 \<and> even n then n else n + 1)"

text \<open>The exponent of a positive number.\<close>

definition binade :: "rat \<Rightarrow> int" where
  "binade x = (if 1 \<le> x then int (floorlog 2 (nat \<lfloor>x\<rfloor>)) - 1 else - int (floorlog 2 (nat \<lceil>1 / x\<rceil> - 1)))"

definition roundPositive :: "rat \<Rightarrow> rat" where
  "roundPositive x = (let ulp = 2 powi (binade x - 52) in of_int (roundEven (x / ulp)) * ulp)"

definition float64 :: "rat \<Rightarrow> rat" where
  "float64 x = (if x = 0 then 0 else if x < 0 then - roundPositive (- x) else roundPositive x)"

definition fmul :: "rat \<Rightarrow> rat \<Rightarrow> rat" where
  "fmul x y = float64 (x * y)"

definition fdiv :: "rat \<Rightarrow> rat \<Rightarrow> rat" where
  "fdiv x y = float64 (x / y)"

text \<open>The conversion to an integer truncates.\<close>

definition truncInt :: "rat \<Rightarrow> int" where
  "truncInt x = (if x < 0 then \<lceil>x\<rceil> else \<lfloor>x\<rfloor>)"

subsection \<open>Rounding is monotone\<close>

lemma roundEven_bounds: "\<lfloor>x\<rfloor> \<le> roundEven x" "roundEven x \<le> \<lfloor>x\<rfloor> + 1"
  by (simp_all add: roundEven_def Let_def)

lemma roundEven_int [simp]: "roundEven (of_int n) = n"
  by (simp add: roundEven_def)

lemma roundEven_mono: "x \<le> y \<Longrightarrow> roundEven x \<le> roundEven y"
proof (cases "\<lfloor>x\<rfloor> = \<lfloor>y\<rfloor>")
  case False
  assume "x \<le> y"
  then have "\<lfloor>x\<rfloor> + 1 \<le> \<lfloor>y\<rfloor>" using False floor_mono [of x y] by simp
  then show ?thesis using roundEven_bounds [of x] roundEven_bounds [of y] by linarith
qed (auto simp: roundEven_def Let_def)

lemma binade_bounds:
  assumes "0 < x"
  shows "2 powi binade x \<le> x" and "x < 2 powi (binade x + 1)"
proof -
  have "2 powi binade x \<le> x \<and> x < 2 powi (binade x + 1)"
  proof (cases "1 \<le> x")
    case True
    let ?n = "nat \<lfloor>x\<rfloor>"
    have n: "0 < ?n" "of_nat ?n \<le> x" "x < of_nat ?n + 1" using True floor_correct [of x] by (simp_all add: le_floor_iff)
    have f: "2 ^ (floorlog 2 ?n - 1) \<le> ?n" "?n < 2 ^ floorlog 2 ?n" using floorlog_bounds [OF n(1), of 2] by linarith+
    have "0 < floorlog 2 ?n" using n(1) by (simp add: floorlog_def)
    then have b: "binade x = int (floorlog 2 ?n - 1)" "binade x + 1 = int (floorlog 2 ?n)" using True by (simp_all add: binade_def)
    have "(2 :: rat) ^ (floorlog 2 ?n - 1) \<le> of_nat ?n" "of_nat ?n + 1 \<le> (2 :: rat) ^ floorlog 2 ?n"
      using f by (metis of_nat_le_iff of_nat_numeral of_nat_power, metis Suc_leI of_nat_Suc of_nat_le_iff of_nat_numeral of_nat_power add.commute)
    moreover have "(2 :: rat) powi binade x = 2 ^ (floorlog 2 ?n - 1)" "(2 :: rat) powi (binade x + 1) = 2 ^ floorlog 2 ?n"
      unfolding b(2) unfolding b(1) by (simp_all only: power_int_of_nat)
    ultimately show ?thesis using n(2,3) by linarith
  next
    case False
    define m where "m = nat \<lceil>1 / x\<rceil>"
    have y: "1 < 1 / x" using False assms by (simp add: field_simps)
    then have m: "1 / x \<le> of_nat m" "of_nat m < 1 / x + 1" "1 < m" using ceiling_correct [of "1 / x"] unfolding m_def by (simp_all add: less_ceiling_iff of_nat_nat)
    let ?k = "floorlog 2 (m - 1)"
    have f: "2 ^ (?k - 1) \<le> m - 1" "m - 1 < 2 ^ ?k" using floorlog_bounds [of "m - 1" 2] m(3) by auto
    have k: "0 < ?k" using m(3) by (simp add: floorlog_def)
    have b: "binade x = - int ?k" "binade x + 1 = - int (?k - 1)" using False k by (simp_all add: binade_def m_def)
    have "m \<le> 2 ^ ?k" "2 ^ (?k - 1) + 1 \<le> m" using f m(3) by auto
    then have "of_nat m \<le> (of_nat (2 ^ ?k) :: rat)" "of_nat (2 ^ (?k - 1) + 1) \<le> (of_nat m :: rat)" by (simp_all only: of_nat_le_iff)
    then have "(of_nat m :: rat) \<le> 2 ^ ?k" "(2 :: rat) ^ (?k - 1) + 1 \<le> of_nat m" by (simp_all add: add.commute)
    then have "1 / x \<le> 2 ^ ?k" "2 ^ (?k - 1) < 1 / x" using m by linarith+
    then have "1 / 2 ^ ?k \<le> x" "x < 1 / 2 ^ (?k - 1)" using assms by (simp_all add: field_simps)
    moreover have "(2 :: rat) powi binade x = 1 / 2 ^ ?k" "(2 :: rat) powi (binade x + 1) = 1 / 2 ^ (?k - 1)"
      unfolding b(2) unfolding b(1) by (simp_all only: power_int_minus power_int_of_nat inverse_eq_divide)
    ultimately show ?thesis by (simp only:)
  qed
  then show "2 powi binade x \<le> x" "x < 2 powi (binade x + 1)" by simp_all
qed

lemma powi_mono: "m \<le> n \<Longrightarrow> (2 :: rat) powi m \<le> 2 powi n"
  by (rule power_int_increasing) simp_all

lemma powi_ulp: "(2 :: rat) powi (e + int n) / 2 powi e = of_int (2 ^ n)"
  by (simp add: power_int_add)

text \<open>A rounded number stays between the powers of two around it.\<close>

lemma roundPositive_bounds:
  assumes "0 < x"
  shows "2 powi binade x \<le> roundPositive x" and "roundPositive x \<le> 2 powi (binade x + 1)"
proof -
  let ?u = "2 powi (binade x - 52) :: rat"
  have u: "0 < ?u" by simp
  have p: "2 powi binade x / ?u = of_int (2 ^ 52)" "2 powi (binade x + 1) / ?u = of_int (2 ^ 53)"
    using powi_ulp [of "binade x - 52" 52] powi_ulp [of "binade x - 52" 53] by (simp_all add: add.commute)
  have "2 powi binade x / ?u \<le> x / ?u" "x / ?u \<le> 2 powi (binade x + 1) / ?u"
    using binade_bounds [OF assms] u by (simp_all add: divide_right_mono)
  then have "2 ^ 52 \<le> roundEven (x / ?u)" "roundEven (x / ?u) \<le> 2 ^ 53"
    unfolding p using roundEven_mono roundEven_int by metis+
  then have "of_int (2 ^ 52) * ?u \<le> of_int (roundEven (x / ?u)) * ?u" "of_int (roundEven (x / ?u)) * ?u \<le> of_int (2 ^ 53) * ?u"
    using u by (simp_all only: mult_right_mono less_imp_le of_int_le_iff)
  moreover have "of_int (2 ^ 52) * ?u = 2 powi binade x" "of_int (2 ^ 53) * ?u = 2 powi (binade x + 1)"
    unfolding p [symmetric] using u by simp_all
  ultimately show "2 powi binade x \<le> roundPositive x" "roundPositive x \<le> 2 powi (binade x + 1)"
    unfolding roundPositive_def Let_def by (simp_all only:)
qed

lemma binade_mono:
  assumes "0 < x" and "x \<le> y"
  shows "binade x \<le> binade y"
proof (rule ccontr)
  assume "\<not> binade x \<le> binade y"
  then have "(2 :: rat) powi (binade y + 1) \<le> 2 powi binade x" by (intro powi_mono) simp
  then show False using binade_bounds(1) [of x] binade_bounds(2) [of y] assms by linarith
qed

lemma roundPositive_mono:
  assumes "0 < x" and "x \<le> y"
  shows "roundPositive x \<le> roundPositive y"
proof (cases "binade x = binade y")
  case True
  have "roundEven (x / 2 powi (binade x - 52)) \<le> roundEven (y / 2 powi (binade x - 52))"
    using assms(2) by (intro roundEven_mono) (simp add: divide_right_mono)
  then show ?thesis unfolding roundPositive_def Let_def True by (intro mult_right_mono) (simp_all add: True)
next
  case False
  then have "binade x + 1 \<le> binade y" using binade_mono [OF assms] by simp
  then have "(2 :: rat) powi (binade x + 1) \<le> 2 powi binade y" by (rule powi_mono)
  then show ?thesis using roundPositive_bounds(2) [of x] roundPositive_bounds(1) [of y] assms by linarith
qed

lemma float64_nonneg: "0 \<le> x \<Longrightarrow> 0 \<le> float64 x"
  using roundPositive_bounds(1) [of x] by (auto simp: float64_def intro: order.trans [rotated])

lemma float64_mono:
  assumes "x \<le> y"
  shows "float64 x \<le> float64 y"
proof -
  have nonneg: "0 < z \<Longrightarrow> 0 \<le> roundPositive z" for z using float64_nonneg [of z] by (simp add: float64_def)
  show ?thesis using assms roundPositive_mono [of x y] roundPositive_mono [of "- y" "- x"] nonneg [of "- x"] nonneg [of y]
    by (auto simp: float64_def)
qed

text \<open>Fractions of a power of two with at most 53 bits are exact.\<close>

lemma float64_dyadic:
  assumes "n < 2 ^ 53"
  shows "float64 (of_nat n / 2 ^ k) = of_nat n / 2 ^ k"
proof (cases "n = 0")
  case False
  let ?x = "of_nat n / 2 ^ k :: rat"
  have pos: "0 < ?x" using False by simp
  have le: "binade ?x + int k \<le> 52"
  proof (rule ccontr)
    assume "\<not> binade ?x + int k \<le> 52"
    then have "(2 :: rat) powi 53 \<le> 2 powi (binade ?x + int k)" by (intro powi_mono) simp
    also have "\<dots> = 2 powi binade ?x * 2 ^ k" by (simp add: power_int_add)
    also have "\<dots> \<le> of_nat n" using mult_right_mono [OF binade_bounds(1) [OF pos], of "2 ^ k"] by simp
    finally have "of_nat (2 ^ 53) \<le> (of_nat n :: rat)" by simp
    then show False using assms unfolding of_nat_le_iff by simp
  qed
  define m where "m = nat (52 - binade ?x - int k)"
  have "binade ?x - 52 = - int (k + m)" using le by (simp add: m_def)
  then have e: "(2 :: rat) powi (binade ?x - 52) = inverse (2 ^ k * 2 ^ m)" by (simp only: power_int_minus power_int_of_nat power_add)
  have "?x / 2 powi (binade ?x - 52) = of_int (int n * 2 ^ m)" unfolding e by (simp add: divide_inverse)
  then have "roundPositive ?x = of_int (int n * 2 ^ m) * 2 powi (binade ?x - 52)" by (simp only: roundPositive_def Let_def roundEven_int)
  also have "\<dots> = ?x" unfolding e by (simp add: divide_inverse)
  finally show ?thesis using pos by (simp add: float64_def)
qed (simp add: float64_def)

text \<open>A number less than half a unit in the last place below an integer is rounded to it.\<close>

lemma binade_unique:
  assumes "2 powi e \<le> x" and "x < 2 powi (e + 1)"
  shows "binade x = e"
proof -
  have pos: "0 < x" by (rule less_le_trans [OF _ assms(1)]) simp
  have "\<not> binade x < e"
  proof
    assume "binade x < e"
    then have "(2 :: rat) powi (binade x + 1) \<le> 2 powi e" by (intro powi_mono) simp
    then show False using binade_bounds(2) [OF pos] assms(1) by linarith
  qed
  moreover have "\<not> e < binade x"
  proof
    assume "e < binade x"
    then have "(2 :: rat) powi (e + 1) \<le> 2 powi binade x" by (intro powi_mono) simp
    then show False using binade_bounds(1) [OF pos] assms(2) by linarith
  qed
  ultimately show ?thesis by simp
qed

lemma roundEven_near: "of_int n - 1 / 2 < x \<Longrightarrow> x < of_int n \<Longrightarrow> roundEven x = n"
proof -
  assume x: "of_int n - 1 / 2 < x" "x < of_int n"
  then have "\<lfloor>x\<rfloor> = n - 1" by (intro floor_unique) (auto simp: field_simps)
  then show ?thesis using x by (simp add: roundEven_def Let_def)
qed

lemma float64_just_below:
  assumes "e \<le> 52" and "2 ^ e \<le> x" and "x < of_nat n" and "n \<le> 2 ^ (e + 1)" and "of_nat n - x < 2 ^ e / 2 ^ 53"
  shows "float64 x = of_nat n"
proof -
  have pos: "0 < x" by (rule less_le_trans [OF _ assms(2)]) simp
  have n: "of_nat n \<le> (2 :: rat) ^ (e + 1)" using assms(4) by (metis of_nat_le_iff of_nat_numeral of_nat_power)
  have p: "(2 :: rat) powi int e = 2 ^ e" "(2 :: rat) powi (int e + 1) = 2 ^ (e + 1)" by (simp_all add: power_int_add)
  have b: "binade x = int e" by (rule binade_unique) (use assms(2,3) n p in simp_all)
  define k where "k = 52 - e"
  have k: "k + e = 52" using assms(1) by (simp add: k_def)
  have "int e - 52 = - int k" using k by simp
  then have u: "(2 :: rat) powi (binade x - 52) = inverse (2 ^ k)" unfolding b by (simp only: power_int_minus power_int_of_nat)
  have "(2 :: rat) ^ 53 = 2 * (2 ^ k * 2 ^ e)" using k by (simp flip: power_add power_Suc)
  then have h: "(2 :: rat) ^ e / 2 ^ 53 = 1 / (2 * 2 ^ k)" by (simp add: field_simps)
  have "(of_nat n - x) * 2 ^ k < (1 / (2 * 2 ^ k)) * 2 ^ k" using assms(5) unfolding h by (intro mult_strict_right_mono) simp_all
  then have near: "of_int (int n * 2 ^ k) - 1 / 2 < x * 2 ^ k" by (simp add: algebra_simps)
  have "x * 2 ^ k < of_int (int n * 2 ^ k)" using assms(3) by simp
  from roundEven_near [OF near this] have "roundEven (x / 2 powi (binade x - 52)) = int n * 2 ^ k" unfolding u by (simp add: divide_inverse)
  then have "roundPositive x = of_int (int n * 2 ^ k) * inverse (2 ^ k)" by (simp only: roundPositive_def Let_def u)
  then show ?thesis using pos by (simp add: float64_def)
qed

lemma float64_nat: "n < 2 ^ 53 \<Longrightarrow> float64 (of_nat n) = of_nat n"
  using float64_dyadic [of n 0] by simp

lemma fmul_mono: "0 \<le> x \<Longrightarrow> y \<le> z \<Longrightarrow> fmul x y \<le> fmul x z"
  unfolding fmul_def by (intro float64_mono mult_left_mono)

lemma fdiv_mono: "0 < z \<Longrightarrow> x \<le> y \<Longrightarrow> fdiv x z \<le> fdiv y z"
  unfolding fdiv_def by (intro float64_mono divide_right_mono) simp_all

end
