(* ===== verification/Metrics_Report.thy ===== *)
theory Metrics_Report
  imports Metrics Float64
begin

text \<open>
  The report of the collector (\<open>internal/metrics/metrics.go\<close>): counters, high-water marks, and percentiles of the latest
  latencies in milliseconds.  Percentiles are computed in floating point; their positions are proved to be exactly
  those of integer arithmetic.
\<close>

subsection \<open>Percentiles\<close>

text \<open>\<open>int(float64(n - 1) * q)\<close>, kept within the slice.\<close>

definition percentileIndex :: "nat \<Rightarrow> rat \<Rightarrow> int" where
  "percentileIndex n q = (let idx = truncInt (fmul (float64 (of_nat (n - 1))) q); idx = (if idx < 0 then 0 else idx) in
     if int n \<le> idx then int n - 1 else idx)"

definition percentileMicros :: "int64 list \<Rightarrow> rat \<Rightarrow> int64" where
  "percentileMicros values q = (if values = [] then 0 else sort_key sint values ! nat (percentileIndex (length values) q))"

definition microsToMillis :: "int64 \<Rightarrow> rat" where
  "microsToMillis us = fdiv (float64 (of_int (sint us))) 1000"

text \<open>The constants 0.50, 0.95 and 0.99 as \<open>float64\<close>.\<close>

definition percent :: "nat \<Rightarrow> rat" where
  "percent a = float64 (of_nat a / 100)"

record Stats =
  stats_Accepted :: uint64
  stats_Rejected :: uint64
  stats_Backpressure :: uint64
  stats_SubmitCount :: uint64
  stats_SubmitP50Ms :: rat
  stats_SubmitP95Ms :: rat
  stats_SubmitP99Ms :: rat
  stats_IngressQueueHWM :: uint64
  stats_ShardQueueHWM :: uint64
  stats_WALBatches :: uint64
  stats_WALBatchCommandsSum :: uint64
  stats_WALBatchBytesSum :: uint64
  stats_WALSyncCount :: uint64
  stats_WALSyncP50Ms :: rat
  stats_WALSyncP95Ms :: rat
  stats_WALSyncP99Ms :: rat
  stats_SnapshotCount :: uint64
  stats_SnapshotP50Ms :: rat
  stats_SnapshotP95Ms :: rat
  stats_SnapshotP99Ms :: rat

definition Collector_Snapshot :: "Collector \<Rightarrow> Stats" where
  "Collector_Snapshot c =
     (let (submits, submitValues) = reservoir_snapshot (co_submits c);
          (syncs, syncValues) = reservoir_snapshot (co_walSync c);
          (pauses, pauseValues) = reservoir_snapshot (co_snapshots c);
          ms = (\<lambda>values a. microsToMillis (percentileMicros values (percent a))) in
      \<lparr>stats_Accepted = co_accepted c, stats_Rejected = co_rejected c, stats_Backpressure = co_backpressure c,
       stats_SubmitCount = submits, stats_SubmitP50Ms = ms submitValues 50, stats_SubmitP95Ms = ms submitValues 95, stats_SubmitP99Ms = ms submitValues 99,
       stats_IngressQueueHWM = co_ingressHWM c, stats_ShardQueueHWM = co_shardHWM c,
       stats_WALBatches = co_walBatches c, stats_WALBatchCommandsSum = co_walBatchCommandsSum c, stats_WALBatchBytesSum = co_walBatchBytesSum c,
       stats_WALSyncCount = syncs, stats_WALSyncP50Ms = ms syncValues 50, stats_WALSyncP95Ms = ms syncValues 95, stats_WALSyncP99Ms = ms syncValues 99,
       stats_SnapshotCount = pauses, stats_SnapshotP50Ms = ms pauseValues 50, stats_SnapshotP95Ms = ms pauseValues 95, stats_SnapshotP99Ms = ms pauseValues 99\<rparr>)"

subsection \<open>The position of a percentile\<close>

text \<open>A percentage as a \<open>float64\<close> is within \<open>2^-20\<close> of the fraction.\<close>

lemma percent_bounds:
  assumes "a \<le> 100"
  shows "of_nat a / 100 - 1 / 2 ^ 20 \<le> percent a" and "percent a \<le> of_nat a / 100 + 1 / 2 ^ 20"
proof -
  let ?n = "a * 2 ^ 20 div 100"
  have n: "100 * ?n \<le> a * 2 ^ 20" "a * 2 ^ 20 < 100 * (?n + 1)" by simp_all
  have "of_nat (100 * ?n) \<le> (of_nat (a * 2 ^ 20) :: rat)" "(of_nat (a * 2 ^ 20) :: rat) < of_nat (100 * (?n + 1))"
    using n by (simp_all only: of_nat_le_iff of_nat_less_iff)
  then have r: "(of_nat ?n :: rat) / 2 ^ 20 \<le> of_nat a / 100" "of_nat a / 100 < (of_nat (?n + 1) :: rat) / 2 ^ 20"
    by (simp_all add: field_simps)
  have small: "?n + 1 < 2 ^ 53" using assms n(1) by simp
  have "float64 (of_nat ?n / 2 ^ 20) \<le> percent a" "percent a \<le> float64 (of_nat (?n + 1) / 2 ^ 20)"
    unfolding percent_def using r by (auto intro: float64_mono)
  then have "(of_nat ?n :: rat) / 2 ^ 20 \<le> percent a" "percent a \<le> (of_nat (?n + 1) :: rat) / 2 ^ 20"
    using float64_dyadic [of ?n 20] float64_dyadic [OF small, of 20] small by simp_all
  then show "of_nat a / 100 - 1 / 2 ^ 20 \<le> percent a" "percent a \<le> of_nat a / 100 + 1 / 2 ^ 20" using r by (simp_all add: field_simps)
qed

lemma percent_mono: "a \<le> b \<Longrightarrow> percent a \<le> percent b"
  unfolding percent_def by (intro float64_mono) (simp add: divide_right_mono)

lemma percent_range: "a \<le> 100 \<Longrightarrow> 0 \<le> percent a \<and> percent a \<le> 1"
  using float64_nat [of 1] percent_mono [of a 100] by (simp add: percent_def float64_nonneg)

text \<open>The index before it is kept within the slice, which has no effect.\<close>

lemma percentileIndex_floor:
  assumes "m < 2048" and "0 \<le> q" and "q \<le> 1"
  shows "percentileIndex (Suc m) q = \<lfloor>fmul (of_nat m) q\<rfloor>" and "0 \<le> percentileIndex (Suc m) q" and "percentileIndex (Suc m) q \<le> int m"
proof -
  have x: "float64 (of_nat m) = of_nat m" using assms(1) by (intro float64_nat) simp
  have "fmul (of_nat m) q \<le> fmul (of_nat m) 1" using assms(3) by (intro fmul_mono) simp_all
  then have "fmul (of_nat m) q \<le> of_nat m" using x by (simp add: fmul_def)
  moreover have nn: "0 \<le> fmul (of_nat m) q" using assms(2) by (simp add: fmul_def float64_nonneg)
  ultimately have "0 \<le> \<lfloor>fmul (of_nat m) q\<rfloor>" "\<lfloor>fmul (of_nat m) q\<rfloor> \<le> int m"
    using floor_mono [of "fmul (of_nat m) q" "of_nat m"] by simp_all
  then show "percentileIndex (Suc m) q = \<lfloor>fmul (of_nat m) q\<rfloor>" "0 \<le> percentileIndex (Suc m) q" "percentileIndex (Suc m) q \<le> int m"
    using nn by (simp_all add: percentileIndex_def x truncInt_def Let_def)
qed

lemma percent_product:
  assumes "m < 2048" and "a < 100"
  shows "of_nat (a * m) / 100 - 1 / 500 \<le> of_nat m * percent a" and "of_nat m * percent a \<le> of_nat (a * m) / 100 + 1 / 500"
proof -
  have m: "0 \<le> (of_nat m :: rat)" "of_nat m \<le> (2047 :: rat)" using assms(1) by simp_all
  have "of_nat m * (of_nat a / 100 - 1 / 2 ^ 20) \<le> of_nat m * percent a" "of_nat m * percent a \<le> of_nat m * (of_nat a / 100 + 1 / 2 ^ 20)"
    using percent_bounds [of a] assms(2) by (intro mult_left_mono, simp_all)+
  then have "of_nat (a * m) / 100 - of_nat m / 2 ^ 20 \<le> of_nat m * percent a" "of_nat m * percent a \<le> of_nat (a * m) / 100 + of_nat m / 2 ^ 20"
    by (simp_all add: algebra_simps)
  moreover have "of_nat m / 2 ^ 20 \<le> (1 / 500 :: rat)" using m(2) by simp
  ultimately show "of_nat (a * m) / 100 - 1 / 500 \<le> of_nat m * percent a" "of_nat m * percent a \<le> of_nat (a * m) / 100 + 1 / 500"
    by linarith+
qed

text \<open>
  The position is that of the exact product, or the one before it when the product is an integer and the rounding has
  made it smaller.
\<close>

lemma percentileIndex_rank:
  assumes "m < 2048" and "a < 100"
  shows "100 * percentileIndex (Suc m) (percent a) \<le> int (a * m)" and "int (a * m) \<le> 100 * (percentileIndex (Suc m) (percent a) + 1)"
proof -
  define y where "y = of_nat m * percent a"
  have r: "0 \<le> percent a" "percent a \<le> 1" using percent_range [of a] assms(2) by simp_all
  have idx: "percentileIndex (Suc m) (percent a) = \<lfloor>float64 y\<rfloor>" using percentileIndex_floor(1) [OF assms(1) r] by (simp add: fmul_def y_def)
  have nn: "0 \<le> \<lfloor>float64 y\<rfloor>" using percentileIndex_floor(2) [OF assms(1) r] unfolding idx .
  define t where "t = a * m"
  have y: "of_nat t / 100 - 1 / 500 \<le> y" "y \<le> of_nat t / 100 + 1 / 500" using percent_product [OF assms] by (simp_all add: y_def t_def)
  have t: "t \<le> 100 * 2047" using assms unfolding t_def by (intro mult_le_mono) simp_all
  define k where "k = t div 100"
  have "100 * k + t mod 100 = t" "t mod 100 < 100" by (simp_all add: k_def)
  then have k: "k < 2048" "t \<le> 100 * k + 99" "100 * k \<le> t" using t by linarith+
  from k(2) have "of_nat t \<le> (of_nat (100 * k + 99) :: rat)" by (simp only: of_nat_le_iff)
  then have "y \<le> of_nat (128 * k + 127) / 2 ^ 7" using y(2) by simp
  then have "float64 y \<le> float64 (of_nat (128 * k + 127) / 2 ^ 7)" by (rule float64_mono)
  also have "\<dots> = of_nat (128 * k + 127) / 2 ^ 7" using k(1) by (intro float64_dyadic) simp
  finally have "float64 y < of_int (int k + 1)" by simp
  then have "\<lfloor>float64 y\<rfloor> < int k + 1" unfolding floor_less_iff .
  then show "100 * percentileIndex (Suc m) (percent a) \<le> int (a * m)" using k(3) unfolding idx t_def [symmetric] by linarith
  show "int (a * m) \<le> 100 * (percentileIndex (Suc m) (percent a) + 1)"
  proof (cases "t = 0")
    case False
    define j where "j = (t - 1) div 100"
    have "100 * j + (t - 1) mod 100 = t - 1" "(t - 1) mod 100 < 100" by (simp_all add: j_def)
    moreover define r where "r = (t - 1) mod 100"
    ultimately have "100 * j + r + 1 = t" "r \<le> 99" using False by simp_all
    then have j: "100 * j + 1 \<le> t" "t \<le> 100 * j + 100" "j < 2048" using t by linarith+
    from j(1) have "of_nat (100 * j + 1) \<le> (of_nat t :: rat)" by (simp only: of_nat_le_iff)
    then have "of_nat j \<le> y" using y(1) by simp
    then have "float64 (of_nat j) \<le> float64 y" by (rule float64_mono)
    moreover have "float64 (of_nat j) = of_nat j" using j(3) by (intro float64_nat) simp
    ultimately have "int j \<le> \<lfloor>float64 y\<rfloor>" by (simp add: le_floor_iff)
    then have "100 * (int j + 1) \<le> 100 * (\<lfloor>float64 y\<rfloor> + 1)" by simp
    moreover have "int t \<le> 100 * (int j + 1)" using j(2) by simp
    ultimately show ?thesis unfolding idx t_def [symmetric] by (rule order.trans [rotated])
  qed (use nn in \<open>simp add: idx flip: t_def\<close>)
qed

text \<open>
  The three percentages that are reported: 0.50 is exact; 20 times 0.95 and 100 times 0.99 fall short of 19 and 99 by \<open>2^-50\<close>.  So a product that
  should be an integer falls short by less than half a unit in the last place, and its rounding restores the integer.
\<close>

lemma percents: "percent 50 = 1 / 2" "percent 95 = 4278419646001971 / 4503599627370496" "percent 99 = 4458563631096791 / 4503599627370496"
  by code_simp+

lemma rounded_up:
  assumes "0 < j" and "19 * j \<le> n" and "n \<le> 2048"
  shows "float64 (of_nat n - of_nat j / 2 ^ 50) = of_nat n"
proof -
  obtain e where e: "2 ^ e < n" "n \<le> 2 ^ (e + 1)" using ex_power_ivl2 [of 2 n] assms by auto
  have "(2 :: nat) ^ e < 2 ^ 11" using e(1) assms(3) by simp
  then have e11: "e < 11" by (rule power_less_imp_less_exp [rotated]) simp
  have j: "8 * j < 2 ^ e" "j \<le> 107" using assms e(2) by simp_all
  have r: "8 * of_nat j < (2 ^ e :: rat)" "of_nat j \<le> (107 :: rat)" "(2 ^ e :: rat) + 1 \<le> of_nat n"
    using j e(1) by (metis of_nat_less_iff of_nat_mult of_nat_numeral of_nat_power, simp, metis Suc_leI add.commute of_nat_Suc of_nat_le_iff of_nat_numeral of_nat_power)
  have "of_nat j / 2 ^ 50 < (2 ^ e / 2 ^ 53 :: rat)" "(of_nat j / 2 ^ 50 :: rat) \<le> 1" "0 < (of_nat j / 2 ^ 50 :: rat)" using r(1,2) assms(1) by simp_all
  then show ?thesis using r(3) e(2) e11 by (intro float64_just_below [of e]) linarith+
qed

lemma whole_product:
  assumes "m < 2048" and "a = 50 \<or> a = 95 \<or> a = 99" and "a * m = 100 * k"
  shows "float64 (of_nat m * percent a) = of_nat k"
proof (cases "m = 0")
  case False
  consider "a = 50" | "a = 95" | "a = 99" using assms(2) by blast
  then show ?thesis
  proof cases
    case 1
    then have "m = 2 * k" using assms(3) by simp
    then show ?thesis using float64_nat [of k] assms(1) 1 by (simp add: percents)
  next
    case 2
    then have m: "19 * m = 20 * k" using assms(3) by simp
    have "coprime 20 (19 :: nat)" by code_simp
    then have "20 dvd m" using dvd_triv_left [of 20 k] unfolding m [symmetric] by (simp add: coprime_dvd_mult_right_iff)
    then obtain j where j: "m = 20 * j" by blast
    have k: "k = 19 * j" using m j by simp
    have e: "of_nat m * percent a = of_nat k - of_nat j / 2 ^ 50" unfolding 2 percents j k by simp
    show ?thesis unfolding e by (rule rounded_up) (use False assms(1) j k in simp_all)
  next
    case 3
    then have m: "99 * m = 100 * k" using assms(3) by simp
    have "coprime 100 (99 :: nat)" by code_simp
    then have "100 dvd m" using dvd_triv_left [of 100 k] unfolding m [symmetric] by (simp add: coprime_dvd_mult_right_iff)
    then obtain j where j: "m = 100 * j" by blast
    have k: "k = 99 * j" using m j by simp
    have e: "of_nat m * percent a = of_nat k - of_nat j / 2 ^ 50" unfolding 3 percents j k by simp
    show ?thesis unfolding e by (rule rounded_up) (use False assms(1) j k in simp_all)
  qed
qed (use assms in \<open>simp add: float64_def\<close>)

lemma percentileIndex_exact:
  assumes "m < 2048" and "a = 50 \<or> a = 95 \<or> a = 99"
  shows "percentileIndex (Suc m) (percent a) = int (a * m div 100)"
proof -
  have a: "a < 100" using assms(2) by auto
  note r = percentileIndex_rank [OF assms(1) a] percent_range [of a]
  define i where "i = percentileIndex (Suc m) (percent a)"
  have le: "i \<le> int (a * m) div 100" using r(1) by (simp add: i_def)
  have "int (a * m) div 100 \<le> i"
  proof (cases "100 dvd a * m")
    case True
    then obtain k where k: "a * m = 100 * k" by blast
    have "fmul (of_nat m) (percent a) = of_nat k" using whole_product [OF assms k] by (simp add: fmul_def)
    then show ?thesis using percentileIndex_floor(1) [OF assms(1), of "percent a"] r(3) a unfolding i_def k by simp
  next
    case False
    then have "int (a * m) \<noteq> 100 * (i + 1)" by (metis dvd_triv_left int_dvd_int_iff of_nat_numeral)
    then have "int (a * m) < 100 * (i + 1)" using r(2) by (simp add: i_def)
    then show ?thesis by simp
  qed
  then show ?thesis using le by (simp add: i_def zdiv_int)
qed

subsection \<open>Reported percentiles\<close>

text \<open>
  The percentile \<open>a\<close> of a list of microseconds: zero for the empty list; otherwise the milliseconds of the value at position
  \<open>\<lfloor>a * (n - 1) / 100\<rfloor>\<close> of the \<open>n\<close> values in increasing order.
\<close>

definition percentileOf :: "nat \<Rightarrow> int64 list \<Rightarrow> rat" where
  "percentileOf a vs = (if vs = [] then 0 else microsToMillis (sort_key sint vs ! (a * (length vs - 1) div 100)))"

lemma microsToMillis_mono: "sint u \<le> sint v \<Longrightarrow> microsToMillis u \<le> microsToMillis v"
  unfolding microsToMillis_def by (intro fdiv_mono float64_mono) (simp_all only: of_int_le_iff zero_less_numeral)

lemma microsToMillis_zero [simp]: "microsToMillis 0 = 0"
  by (simp add: microsToMillis_def fdiv_def float64_def)

lemma percentileMicros_exact:
  assumes "length vs \<le> 2048" and "a = 50 \<or> a = 95 \<or> a = 99"
  shows "microsToMillis (percentileMicros vs (percent a)) = percentileOf a vs"
proof (cases vs)
  case (Cons v ws)
  then have "percentileIndex (length vs) (percent a) = int (a * length ws div 100)" using percentileIndex_exact [of "length ws" a] assms by simp
  then show ?thesis using Cons by (simp add: percentileOf_def percentileMicros_def)
qed (simp add: percentileOf_def percentileMicros_def)

lemma percentileMicros_mono:
  assumes "length vs \<le> 2048" and "a \<le> b" and "b \<le> 100"
  shows "microsToMillis (percentileMicros vs (percent a)) \<le> microsToMillis (percentileMicros vs (percent b))"
proof (cases vs)
  case (Cons v ws)
  let ?m = "length ws"
  have m: "?m < 2048" using Cons assms(1) by simp
  have r: "0 \<le> percent a" "percent a \<le> 1" "0 \<le> percent b" "percent b \<le> 1" using percent_range [of a] percent_range [of b] assms(2,3) by simp_all
  note fa = percentileIndex_floor [OF m r(1,2)] and fb = percentileIndex_floor [OF m r(3,4)]
  have "percentileIndex (Suc ?m) (percent a) \<le> percentileIndex (Suc ?m) (percent b)"
    unfolding fa(1) fb(1) using percent_mono [OF assms(2)] by (intro floor_mono fmul_mono) simp_all
  then have "nat (percentileIndex (Suc ?m) (percent a)) \<le> nat (percentileIndex (Suc ?m) (percent b))"
    "nat (percentileIndex (Suc ?m) (percent b)) < length vs" using fa(2) fb(2,3) Cons by (simp_all add: nat_mono nat_less_iff)
  then have "sint (sort_key sint vs ! nat (percentileIndex (Suc ?m) (percent a))) \<le> sint (sort_key sint vs ! nat (percentileIndex (Suc ?m) (percent b)))"
    using sorted_nth_mono [OF sorted_sort_key [of sint vs]] by simp
  then show ?thesis using Cons microsToMillis_mono by (simp add: percentileMicros_def)
qed (simp add: percentileMicros_def)

text \<open>The three percentiles of a reservoir with its count, for all values that were added.\<close>

definition reportsLatest :: "int64 list \<Rightarrow> uint64 \<Rightarrow> rat \<Rightarrow> rat \<Rightarrow> rat \<Rightarrow> bool" where
  "reportsLatest vs count p50 p95 p99 \<longleftrightarrow> (let latest = drop (length vs - 2048) vs in
     unat count = length vs \<and> p50 = percentileOf 50 latest \<and> p95 = percentileOf 95 latest \<and> p99 = percentileOf 99 latest \<and> p50 \<le> p95 \<and> p95 \<le> p99)"

lemma reports_latest:
  assumes "reservoir_snapshot r = (of_nat (length vs), drop (length vs - 2048) vs)" and "length vs < 2 ^ 64"
  shows "case reservoir_snapshot r of (count, values) \<Rightarrow> reportsLatest vs count
    (microsToMillis (percentileMicros values (percent 50))) (microsToMillis (percentileMicros values (percent 95))) (microsToMillis (percentileMicros values (percent 99)))"
proof -
  let ?vs = "drop (length vs - 2048) vs"
  have n: "length ?vs \<le> 2048" by simp
  note e = percentileMicros_exact [OF n, of 50] percentileMicros_exact [OF n, of 95] percentileMicros_exact [OF n, of 99]
  have "percentileOf 50 ?vs \<le> percentileOf 95 ?vs" "percentileOf 95 ?vs \<le> percentileOf 99 ?vs"
    using percentileMicros_mono [OF n, of 50 95] percentileMicros_mono [OF n, of 95 99] e by simp_all
  then show ?thesis using assms unat_small e by (simp add: reportsLatest_def Let_def)
qed

subsection \<open>Properties\<close>

text \<open>
  C39: what the collector reports.  After any list of fewer than 2^64 calls the counters of the report are the numbers of the calls, the
  high-water marks the largest depths, the sums those of the batches; and for each of the three reservoirs, whose
  arrays are overwritten in a circle, the count is the number of values reported, and the percentiles 50, 95 and 99 are exactly the values at position
  \<open>\<lfloor>a * (n - 1) / 100\<rfloor>\<close> of the latest \<open>n \<le> 2048\<close> values in increasing order, in milliseconds: the floating-point product from which the
  code takes the position is never off by one.
\<close>

theorem collector_reports_calls:
  assumes "length calls < 2 ^ 64"
  shows "let st = Collector_Snapshot (collected calls) in
    unat (stats_Accepted st) = length (filter (\<lambda>m. m = IncAccepted) calls)
    \<and> unat (stats_Rejected st) = length (filter (\<lambda>m. m = IncRejected) calls)
    \<and> unat (stats_Backpressure st) = length (filter (\<lambda>m. m = IncBackpressure) calls)
    \<and> stats_IngressQueueHWM st = Max (set (0 # ingressDepths calls)) \<and> stats_ShardQueueHWM st = Max (set (0 # shardDepths calls))
    \<and> stats_WALBatches st = of_nat (length (batchSizes calls)) \<and> stats_WALBatchCommandsSum st = sum_list (map fst (batchSizes calls))
    \<and> stats_WALBatchBytesSum st = sum_list (map snd (batchSizes calls))
    \<and> reportsLatest (submitLatencies calls) (stats_SubmitCount st) (stats_SubmitP50Ms st) (stats_SubmitP95Ms st) (stats_SubmitP99Ms st)
    \<and> reportsLatest (syncLatencies calls) (stats_WALSyncCount st) (stats_WALSyncP50Ms st) (stats_WALSyncP95Ms st) (stats_WALSyncP99Ms st)
    \<and> reportsLatest (snapshotPauses calls) (stats_SnapshotCount st) (stats_SnapshotP50Ms st) (stats_SnapshotP95Ms st) (stats_SnapshotP99Ms st)"
proof -
  note c = collected_calls [OF assms] and b = collected_batches [of calls]
  have few: "length (submitLatencies calls) < 2 ^ 64" "length (syncLatencies calls) < 2 ^ 64" "length (snapshotPauses calls) < 2 ^ 64"
    using few_values [of calls] assms by linarith+
  note r = reports_latest [OF _ few(1), of "co_submits (collected calls)"] reports_latest [OF _ few(2), of "co_walSync (collected calls)"]
    reports_latest [OF _ few(3), of "co_snapshots (collected calls)"]
  show ?thesis using c b r by (simp add: Collector_Snapshot_def Let_def split: prod.splits)
qed

text \<open>Three latencies of 7, 2.5 and 4 milliseconds; durations are in nanoseconds.\<close>

definition threeLatencies :: "metricCall list" where
  "threeLatencies = [IncAccepted, ObserveSubmitLatency 7000000, IncRejected, ObserveSubmitLatency 2500000, ObserveSubmitLatency 4000000]"

theorem collector_reports_calls_witness:
  "let st = Collector_Snapshot (collected threeLatencies) in unat (stats_Accepted st) = 1 \<and> unat (stats_SubmitCount st) = 3 \<and> stats_SubmitP50Ms st = 4"
proof -
  have "(microsToMillis 4000 :: rat) = 4" by (simp add: microsToMillis_def fdiv_def float64_nat [of 4000, simplified] float64_nat [of 4, simplified])
  then have p: "percentileOf 50 [7000, 2500, 4000] = 4" by (simp add: percentileOf_def)
  have s: "submitLatencies threeLatencies = [7000, 2500, 4000]" by code_simp
  have a: "length (filter (\<lambda>m. m = IncAccepted) threeLatencies) = 1" and l: "length threeLatencies < 2 ^ 64" by (simp_all add: threeLatencies_def)
  show ?thesis using collector_reports_calls [OF l] p unfolding Let_def reportsLatest_def s a by simp
qed

end
