(* ===== verification/Programs.thy ===== *)
theory Programs
  imports Engine_Recovery Metrics_Report
begin

text \<open>
  Loading the configuration (\<open>internal/config/config.go\<close>) and the programs \<open>cmd/engine\<close> and \<open>cmd/replay\<close>.  Files and the
  JSON decoder are parameters.
\<close>

subsection \<open>Configuration\<close>

text \<open>\<open>readFile\<close> opens and reads a file; \<open>json\<close> is the decoder that refuses unknown fields.\<close>

definition Load :: "(string \<Rightarrow> error + byte list) \<Rightarrow> (byte list \<Rightarrow> error + Config) \<Rightarrow> string \<Rightarrow> error + Config" where
  "Load readFile json path = ebind (readFile path) (\<lambda>data. ebind (json data) (\<lambda>cfg.
     case Config_Validate cfg of Some e \<Rightarrow> Inl e | None \<Rightarrow> Inr cfg))"

subsection \<open>The replay check and the start of the engine\<close>

datatype exit =
    LoadConfig error
  | CreateWALDir error
  | CreateSnapshotDir error
  | InitEngine engine_err
  | ReplayFailed recover_err
  | BadFlags
  | NotEmptyState error
  | ShutdownFailed "seq_err + loop_err"

text \<open>\<open>cmd/replay\<close>; \<open>Some (Inr ())\<close> is the message that the verification has passed.\<close>

definition replayMain :: "gob_encoder \<Rightarrow> gob_decoder \<Rightarrow> (string \<Rightarrow> snap_dir) \<Rightarrow> (string \<Rightarrow> wal_dir) \<Rightarrow> error + Config \<Rightarrow> (exit + unit) option" where
  "replayMain genc gdec snapDirs walDirs loaded = (case loaded of
       Inl e \<Rightarrow> Some (Inl (LoadConfig e))
     | Inr cfg \<Rightarrow> Option.bind (VerifyReplay genc gdec (snapDirs (cfg_SnapshotDir cfg)) (walDirs (cfg_WALDir cfg)) cfg) (\<lambda>r.
         case r of Some e \<Rightarrow> Some (Inl (ReplayFailed e)) | None \<Rightarrow> Some (Inr ())))"

text \<open>\<open>cmd/engine\<close> up to the wait for a signal; \<open>mkdir\<close> is \<open>os.MkdirAll\<close>.\<close>

definition engineMain :: "gob_encoder \<Rightarrow> gob_decoder \<Rightarrow> (string \<Rightarrow> snap_dir) \<Rightarrow> (string \<Rightarrow> wal_dir) \<Rightarrow> (nat \<Rightarrow> disk) \<Rightarrow> (nat \<Rightarrow> io_out list)
    \<Rightarrow> (string \<Rightarrow> error option) \<Rightarrow> error + Config \<Rightarrow> (exit + Engine) option" where
  "engineMain genc gdec snapDirs walDirs disks outs mkdir loaded = (case loaded of
       Inl e \<Rightarrow> Some (Inl (LoadConfig e))
     | Inr cfg \<Rightarrow> (case mkdir (cfg_WALDir cfg) of
         Some e \<Rightarrow> Some (Inl (CreateWALDir e))
       | None \<Rightarrow> (case mkdir (cfg_SnapshotDir cfg) of
           Some e \<Rightarrow> Some (Inl (CreateSnapshotDir e))
         | None \<Rightarrow> Option.bind (NewEngine genc gdec (snapDirs (cfg_SnapshotDir cfg)) (walDirs (cfg_WALDir cfg)) disks outs cfg) (\<lambda>r.
             case r of Inl e \<Rightarrow> Some (Inl (InitEngine e)) | Inr e \<Rightarrow> Some (Inr e)))))"

text \<open>\<open>MetricsSnapshot\<close>, which both programs print: the report of all calls on the sink, if the engine has a collector.\<close>

definition MetricsSnapshot :: "Config \<Rightarrow> metricCall list \<Rightarrow> Stats option" where
  "MetricsSnapshot cfg calls = (if cfg_EnableMetrics cfg then Some (Collector_Snapshot (collected calls)) else None)"

text \<open>How often \<open>cmd/engine\<close> prints its metrics, in nanoseconds, and how it exits after a signal.\<close>

definition reportEvery :: "Config \<Rightarrow> int" where
  "reportEvery cfg = (if cfg_MetricsReportMillis cfg > 0 then sint (word_of_int (cfg_MetricsReportMillis cfg * 1000000) :: int64) else 1000000000)"

definition engineExit :: "(seq_err + loop_err) option \<Rightarrow> exit + unit" where
  "engineExit err = (case err of Some e \<Rightarrow> Inl (ShutdownFailed e) | None \<Rightarrow> Inr ())"

text \<open>
  The numbers it prints, counters and milliseconds: at every tick of the reporter, and after the shutdown.  Without a
  collector nothing is printed.
\<close>

definition metricsLine :: "Stats \<Rightarrow> uint64 list \<times> rat list" where
  "metricsLine stats = ([stats_Accepted stats, stats_Rejected stats, stats_Backpressure stats, stats_IngressQueueHWM stats, stats_ShardQueueHWM stats,
      stats_WALBatches stats, stats_WALBatchCommandsSum stats, stats_WALBatchBytesSum stats],
     [stats_SubmitP99Ms stats, stats_WALSyncP99Ms stats, stats_SnapshotP99Ms stats])"

definition reportTick :: "Config \<Rightarrow> metricCall list \<Rightarrow> (uint64 list \<times> rat list) option" where
  "reportTick cfg calls = (case MetricsSnapshot cfg calls of None \<Rightarrow> None | Some stats \<Rightarrow> Some (metricsLine stats))"

definition finalMetrics :: "Config \<Rightarrow> metricCall list \<Rightarrow> uint64 list option" where
  "finalMetrics cfg calls = (case MetricsSnapshot cfg calls of
       Some stats \<Rightarrow> Some [stats_Accepted stats, stats_Rejected stats, stats_Backpressure stats, stats_SubmitCount stats,
         stats_WALSyncCount stats, stats_SnapshotCount stats]
     | None \<Rightarrow> None)"

text \<open>A configuration that was loaded is valid, and the replay check passes on what a crash of the engine has left.\<close>

lemma Load_valid: "Load readFile json path = Inr cfg \<Longrightarrow> Config_Validate cfg = None"
  by (auto simp: Load_def ebind_Inr_iff split: option.splits)

lemma replay_passes_after_crash:
  assumes "recoversRun genc gdec (snapDirs (cfg_SnapshotDir cfg)) (walDirs (cfg_WALDir cfg)) cfg registry hist e"
    and "NewSymbolRegistry (cfg_Symbols cfg) (cfg_ShardCount cfg) = Some (Inr registry)"
  shows "replayMain genc gdec snapDirs walDirs (Inr cfg) = Some (Inr ())"
  using assms by (auto simp: replayMain_def VerifyReplay_def recoversRun_def)

end
