(* ===== verification/Loadgen.thy ===== *)
theory Loadgen
  imports Programs
begin

text \<open>
  The load generator \<open>cmd/loadgen\<close>: its start, the commands it generates, the producers, which run side by side and share the
  counters, and the report.  The random source of \<open>math/rand\<close> is a parameter; the answers of the engine and the latencies that
  are measured may be any.
\<close>

subsection \<open>Commands\<close>

record orderRef =
  or_symbol :: string
  or_orderID :: uint64

text \<open>
  \<open>rng.Intn\<close> returns a number and the next state of the source; it panics if its argument is not positive.  An index out of range
  panics as well.
\<close>

type_synonym 'r intn = "'r \<Rightarrow> int \<Rightarrow> int \<times> 'r"

definition Intn :: "'r intn \<Rightarrow> int \<Rightarrow> 'r \<Rightarrow> (int \<times> 'r) option" where
  "Intn intn n rng = (if n \<le> 0 then None else Some (intn rng n))"

text \<open>\<open>symbols[rng.Intn(len(symbols))]\<close> and the choice of a side.\<close>

definition pickSymbol :: "'r intn \<Rightarrow> string list \<Rightarrow> 'r \<Rightarrow> (string \<times> 'r) option" where
  "pickSymbol intn symbols rng = Option.bind (Intn intn (int (length symbols)) rng) (\<lambda>(i, rng).
     if 0 \<le> i \<and> nat i < length symbols then Some (symbols ! nat i, rng) else None)"

definition pickSide :: "'r intn \<Rightarrow> 'r \<Rightarrow> (Side \<times> 'r) option" where
  "pickSide intn rng = Option.bind (Intn intn 2 rng) (\<lambda>(i, rng). Some (if i = 0 then SideSell else SideBuy, rng))"

definition blankCommand :: Command where
  "blankCommand = \<lparr>cmd_Seq = 0, cmd_Symbol = [], cmd_Type = 0, cmd_OrderID = 0, cmd_Side = 0, cmd_OrderType = 0, cmd_TimeInForce = 0,
     cmd_Price = 0, cmd_Quantity = 0, cmd_NewPrice = 0, cmd_NewLeavesQty = 0\<rparr>"

definition limitCommand :: "string \<Rightarrow> uint64 \<Rightarrow> Side \<Rightarrow> int64 \<Rightarrow> int64 \<Rightarrow> Command" where
  "limitCommand symbol orderID side price qty = blankCommand\<lparr>cmd_Symbol := symbol, cmd_Type := CommandNew, cmd_OrderID := orderID, cmd_Side := side,
     cmd_OrderType := OrderTypeLimit, cmd_TimeInForce := TIFGTC, cmd_Price := price, cmd_Quantity := qty\<rparr>"

definition marketCommand :: "string \<Rightarrow> uint64 \<Rightarrow> Side \<Rightarrow> int64 \<Rightarrow> Command" where
  "marketCommand symbol orderID side qty = blankCommand\<lparr>cmd_Symbol := symbol, cmd_Type := CommandNew, cmd_OrderID := orderID, cmd_Side := side,
     cmd_OrderType := OrderTypeMarket, cmd_TimeInForce := TIFIOC, cmd_Quantity := qty\<rparr>"

definition cancelCommand :: "orderRef \<Rightarrow> Command" where
  "cancelCommand ref = blankCommand\<lparr>cmd_Symbol := or_symbol ref, cmd_Type := CommandCancel, cmd_OrderID := or_orderID ref\<rparr>"

definition replaceCommand :: "orderRef \<Rightarrow> int64 \<Rightarrow> int64 \<Rightarrow> Command" where
  "replaceCommand ref price qty = blankCommand\<lparr>cmd_Symbol := or_symbol ref, cmd_Type := CommandReplace, cmd_OrderID := or_orderID ref,
     cmd_NewPrice := price, cmd_NewLeavesQty := qty\<rparr>"

text \<open>
  \<open>nextCommand\<close>: a resting order, a market order, a cancel or a replace.  The counter of order ids is shared by all
  producers; the random source and the list of orders belong to one of them.
\<close>

type_synonym 'r generated = "(Command \<times> 'r \<times> uint64 \<times> orderRef list) option"

definition newLimit :: "'r intn \<Rightarrow> string list \<Rightarrow> 'r \<Rightarrow> uint64 \<Rightarrow> orderRef list \<Rightarrow> int64 \<Rightarrow> int64 \<Rightarrow> 'r generated" where
  "newLimit intn symbols rng nextOrderID activeOrders price qty =
     Option.bind (pickSymbol intn symbols rng) (\<lambda>(symbol, rng). Option.bind (pickSide intn rng) (\<lambda>(side, rng).
       let orderID = nextOrderID + 1 in
       Some (limitCommand symbol orderID side price qty, rng, orderID, activeOrders @ [\<lparr>or_symbol = symbol, or_orderID = orderID\<rparr>])))"

definition newMarket :: "'r intn \<Rightarrow> string list \<Rightarrow> 'r \<Rightarrow> uint64 \<Rightarrow> orderRef list \<Rightarrow> int64 \<Rightarrow> 'r generated" where
  "newMarket intn symbols rng nextOrderID activeOrders qty =
     Option.bind (pickSide intn rng) (\<lambda>(side, rng). Option.bind (pickSymbol intn symbols rng) (\<lambda>(symbol, rng).
       let orderID = nextOrderID + 1 in
       Some (marketCommand symbol orderID side qty, rng, orderID, activeOrders)))"

definition amendOrder :: "'r intn \<Rightarrow> 'r \<Rightarrow> uint64 \<Rightarrow> orderRef list \<Rightarrow> int \<Rightarrow> int64 \<Rightarrow> int64 \<Rightarrow> 'r generated" where
  "amendOrder intn rng nextOrderID activeOrders roll price qty =
     Option.bind (Intn intn (int (length activeOrders)) rng) (\<lambda>(i, rng).
       let idx = nat i; ref = activeOrders ! idx in
       if i < 0 \<or> length activeOrders \<le> idx then None
       else if roll < 90 then Some (cancelCommand ref, rng, nextOrderID, butlast (activeOrders[idx := last activeOrders]))
       else Some (replaceCommand ref price qty, rng, nextOrderID, activeOrders))"

definition nextCommand :: "'r intn \<Rightarrow> string list \<Rightarrow> 'r \<Rightarrow> uint64 \<Rightarrow> orderRef list \<Rightarrow> 'r generated" where
  "nextCommand intn symbols rng nextOrderID activeOrders =
     Option.bind (Intn intn 100 rng) (\<lambda>(roll, rng). Option.bind (Intn intn 20 rng) (\<lambda>(p, rng). Option.bind (Intn intn 5 rng) (\<lambda>(v, rng).
       let price = word_of_int (100 + p); qty = word_of_int (1 + v) in
       if roll < 65 \<or> activeOrders = [] then newLimit intn symbols rng nextOrderID activeOrders price qty
       else if roll < 80 then newMarket intn symbols rng nextOrderID activeOrders qty
       else amendOrder intn rng nextOrderID activeOrders roll price qty)))"

definition resultRejected :: "Result \<Rightarrow> bool" where
  "resultRejected result \<longleftrightarrow> list_ex (\<lambda>event. ev_Type event = EventRejected) (res_Events result)"

text \<open>\<open>verifyEmptyState\<close>: a directory that does not exist is empty; another error of \<open>os.ReadDir\<close> is returned.\<close>

datatype dirEntries = DirNotExist | DirError error | DirEntries "string list"

fun verifyEmptyState :: "(string \<Rightarrow> dirEntries) \<Rightarrow> string list \<Rightarrow> error option" where
  "verifyEmptyState readDir [] = None"
| "verifyEmptyState readDir (dir # dirs) = (case readDir dir of
       DirNotExist \<Rightarrow> verifyEmptyState readDir dirs
     | DirError e \<Rightarrow> Some e
     | DirEntries entries \<Rightarrow> if entries \<noteq> [] then Some (dir @ '' is not empty'') else verifyEmptyState readDir dirs)"

text \<open>The rate of one producer and the period of its ticker in nanoseconds; integer division rounds towards zero.\<close>

definition maxInt :: "int \<Rightarrow> int \<Rightarrow> int" where
  "maxInt a b = (if a > b then a else b)"

definition perProducerRate :: "int \<Rightarrow> int \<Rightarrow> int" where
  "perProducerRate rate producers = (let r = rate div maxInt producers 1 in if r \<le> 0 then 1 else r)"

definition tickerPeriod :: "int \<Rightarrow> int" where
  "tickerPeriod perProducer = 1000000000 div perProducer"

text \<open>With a rate above one command per nanosecond the period is zero.\<close>

lemma perProducerRate_positive: "0 < perProducerRate rate producers"
  by (simp add: perProducerRate_def Let_def)

lemma tickerPeriod_positive_iff: "0 < perProducer \<Longrightarrow> 0 < tickerPeriod perProducer \<longleftrightarrow> perProducer \<le> 1000000000"
  by (simp add: tickerPeriod_def pos_imp_zdiv_pos_iff)

text \<open>The latencies of all producers, and the numbers that are printed of them; \<open>d\<close> is in nanoseconds.\<close>

definition allLatencies :: "int64 list list \<Rightarrow> int64 list" where
  "allLatencies batches = sort_key sint (concat batches)"

definition percentileMillis :: "int64 list \<Rightarrow> rat \<Rightarrow> rat" where
  "percentileMillis vs q = (if vs = [] then 0 else fdiv (float64 (of_int (sint (vs ! nat (percentileIndex (length vs) q))))) 1000)"

definition walAverage :: "uint64 \<Rightarrow> uint64 \<Rightarrow> rat" where
  "walAverage s batches = (if 0 < batches then fdiv (float64 (of_nat (unat s))) (float64 (of_nat (unat batches))) else 0)"

definition durationToSeconds :: "int64 \<Rightarrow> rat" where
  "durationToSeconds d = fdiv (float64 (of_int (sint d))) (float64 1000000000)"

text \<open>The percentiles that both programs print are computed in the same way.\<close>

lemma percentileMillis_eq: "percentileMillis (allLatencies batches) q = microsToMillis (percentileMicros (concat batches) q)"
proof (cases "concat batches = []")
  case True
  then show ?thesis unfolding percentileMillis_def allLatencies_def percentileMicros_def True by simp
next
  case False
  then have "allLatencies batches \<noteq> []" unfolding allLatencies_def by (metis length_0_conv length_sort)
  then show ?thesis using False unfolding percentileMillis_def percentileMicros_def microsToMillis_def allLatencies_def by (simp only: if_False length_sort)
qed

text \<open>The start of the load generator: its flags, the state it may require to be empty, and the engine.\<close>

definition loadgenMain :: "int \<Rightarrow> int \<Rightarrow> int \<Rightarrow> bool \<Rightarrow> (string \<Rightarrow> dirEntries) \<Rightarrow> gob_encoder \<Rightarrow> gob_decoder \<Rightarrow> (string \<Rightarrow> snap_dir) \<Rightarrow> (string \<Rightarrow> wal_dir)
    \<Rightarrow> (nat \<Rightarrow> disk) \<Rightarrow> (nat \<Rightarrow> io_out list) \<Rightarrow> (string \<Rightarrow> error option) \<Rightarrow> error + Config \<Rightarrow> (exit + Engine) option" where
  "loadgenMain duration producers rate requireEmpty readDir genc gdec snapDirs walDirs disks outs mkdir loaded =
     (if duration \<le> 0 \<or> producers \<le> 0 \<or> rate \<le> 0 then Some (Inl BadFlags)
      else case loaded of
          Inl e \<Rightarrow> Some (Inl (LoadConfig e))
        | Inr cfg \<Rightarrow> (case (if requireEmpty then verifyEmptyState readDir [cfg_WALDir cfg, cfg_SnapshotDir cfg] else None) of
            Some e \<Rightarrow> Some (Inl (NotEmptyState e))
          | None \<Rightarrow> engineMain genc gdec snapDirs walDirs disks outs mkdir loaded))"

subsection \<open>The producers\<close>

text \<open>The counters, which all producers share: an attempt, and the outcome of \<open>Submit\<close>.\<close>

record LoadStats =
  ls_attempted :: uint64
  ls_processed :: uint64
  ls_accepted :: uint64
  ls_rejected :: uint64
  ls_failed :: uint64

definition countAttempt :: "LoadStats \<Rightarrow> LoadStats" where
  "countAttempt s = s\<lparr>ls_attempted := ls_attempted s + 1\<rparr>"

definition countOutcome :: "(seq_err + loop_err) + Result \<Rightarrow> LoadStats \<Rightarrow> LoadStats" where
  "countOutcome outcome s = (case outcome of
       Inl err \<Rightarrow> s\<lparr>ls_failed := ls_failed s + 1\<rparr>
     | Inr result \<Rightarrow> (let s = s\<lparr>ls_processed := ls_processed s + 1\<rparr> in
         if resultRejected result then s\<lparr>ls_rejected := ls_rejected s + 1\<rparr> else s\<lparr>ls_accepted := ls_accepted s + 1\<rparr>))"

text \<open>
  A producer is about to create its ticker, waits for the ticker or the end of the run, or for the answer to a command, or has returned.
  The state of a run has the shared variables, the producers, the channel of latency batches, whether a producer has panicked, which
  ends the whole process, and, for the statements, the commands that were sent.
\<close>

datatype producerPoint = Entering | Ticking | Submitting | Returned

record 'r producer =
  pr_rng :: 'r
  pr_activeOrders :: "orderRef list"
  pr_latencies :: "int64 list"
  pr_point :: producerPoint

record 'r load =
  ld_stats :: LoadStats
  ld_nextOrderID :: uint64
  ld_producers :: "'r producer list"
  ld_latencyBatches :: "int64 list list"
  ld_panicked :: bool
  ld_sent :: "Command list"

text \<open>\<open>newSource\<close> is \<open>rand.NewSource\<close>; the seed of a producer wraps around.\<close>

definition newProducer :: "(int64 \<Rightarrow> 'r) \<Rightarrow> int64 \<Rightarrow> nat \<Rightarrow> 'r producer" where
  "newProducer newSource seed workerID = \<lparr>pr_rng = newSource (seed + word_of_nat workerID * 7919), pr_activeOrders = [], pr_latencies = [],
     pr_point = Entering\<rparr>"

definition startLoad :: "(int64 \<Rightarrow> 'r) \<Rightarrow> int64 \<Rightarrow> nat \<Rightarrow> 'r load" where
  "startLoad newSource seed producers = \<lparr>ld_stats = \<lparr>ls_attempted = 0, ls_processed = 0, ls_accepted = 0, ls_rejected = 0, ls_failed = 0\<rparr>,
     ld_nextOrderID = 0, ld_producers = map (newProducer newSource seed) [0..<producers], ld_latencyBatches = [], ld_panicked = False, ld_sent = []\<rparr>"

text \<open>\<open>time.NewTicker\<close>, which panics when the period is not positive.\<close>

definition producerEnter :: "int \<Rightarrow> nat \<Rightarrow> 'r load \<Rightarrow> 'r load" where
  "producerEnter perProducer i ld = (if tickerPeriod perProducer \<le> 0 then ld\<lparr>ld_panicked := True\<rparr>
     else ld\<lparr>ld_producers := (ld_producers ld)[i := (ld_producers ld ! i)\<lparr>pr_point := Ticking\<rparr>]\<rparr>)"

text \<open>
  A tick, up to the call of \<open>Submit\<close>; \<open>None\<close> is a panic.  The only shared variables are atomic counters, to which the producers
  only add, so a step may be taken as a whole.
\<close>

definition producerTick :: "'r intn \<Rightarrow> string list \<Rightarrow> nat \<Rightarrow> 'r load \<Rightarrow> 'r load option" where
  "producerTick intn symbols i ld = (let p = ld_producers ld ! i in
     Option.bind (nextCommand intn symbols (pr_rng p) (ld_nextOrderID ld) (pr_activeOrders p)) (\<lambda>(cmd, rng, nextOrderID, activeOrders).
       Some (ld\<lparr>ld_producers := (ld_producers ld)[i := p\<lparr>pr_rng := rng, pr_activeOrders := activeOrders, pr_point := Submitting\<rparr>],
         ld_nextOrderID := nextOrderID, ld_stats := countAttempt (ld_stats ld), ld_sent := ld_sent ld @ [cmd]\<rparr>)))"

text \<open>The answer to a command after \<open>micros\<close> microseconds, and the return, which sends the latencies on the channel.\<close>

definition producerAnswered :: "nat \<Rightarrow> (seq_err + loop_err) + Result \<Rightarrow> int64 \<Rightarrow> 'r load \<Rightarrow> 'r load" where
  "producerAnswered i outcome micros ld = (let p = ld_producers ld ! i;
     latencies = (case outcome of Inl err \<Rightarrow> pr_latencies p | Inr result \<Rightarrow> pr_latencies p @ [micros]) in
     ld\<lparr>ld_producers := (ld_producers ld)[i := p\<lparr>pr_latencies := latencies, pr_point := Ticking\<rparr>], ld_stats := countOutcome outcome (ld_stats ld)\<rparr>)"

definition producerReturned :: "nat \<Rightarrow> 'r load \<Rightarrow> 'r load" where
  "producerReturned i ld = (let p = ld_producers ld ! i in
     ld\<lparr>ld_producers := (ld_producers ld)[i := p\<lparr>pr_point := Returned\<rparr>], ld_latencyBatches := ld_latencyBatches ld @ [pr_latencies p]\<rparr>)"

inductive loadstep :: "'r intn \<Rightarrow> string list \<Rightarrow> int \<Rightarrow> 'r load \<Rightarrow> 'r load \<Rightarrow> bool" for intn symbols perProducer where
  ld_enter: "\<not> ld_panicked ld \<Longrightarrow> i < length (ld_producers ld) \<Longrightarrow> pr_point (ld_producers ld ! i) = Entering
    \<Longrightarrow> loadstep intn symbols perProducer ld (producerEnter perProducer i ld)"
| ld_tick: "\<not> ld_panicked ld \<Longrightarrow> i < length (ld_producers ld) \<Longrightarrow> pr_point (ld_producers ld ! i) = Ticking \<Longrightarrow> producerTick intn symbols i ld = Some ld'
    \<Longrightarrow> loadstep intn symbols perProducer ld ld'"
| ld_panic: "\<not> ld_panicked ld \<Longrightarrow> i < length (ld_producers ld) \<Longrightarrow> pr_point (ld_producers ld ! i) = Ticking \<Longrightarrow> producerTick intn symbols i ld = None
    \<Longrightarrow> loadstep intn symbols perProducer ld (ld\<lparr>ld_panicked := True\<rparr>)"
| ld_answer: "\<not> ld_panicked ld \<Longrightarrow> i < length (ld_producers ld) \<Longrightarrow> pr_point (ld_producers ld ! i) = Submitting
    \<Longrightarrow> loadstep intn symbols perProducer ld (producerAnswered i outcome micros ld)"
| ld_return: "\<not> ld_panicked ld \<Longrightarrow> i < length (ld_producers ld) \<Longrightarrow> pr_point (ld_producers ld ! i) = Ticking
    \<Longrightarrow> loadstep intn symbols perProducer ld (producerReturned i ld)"

inductive_cases loadstepE: "loadstep intn symbols perProducer ld ld'"

subsection \<open>The report\<close>

text \<open>What \<open>main\<close> prints when all producers have returned; \<open>elapsed\<close> is in nanoseconds, and \<open>stats\<close> those of the engine, or zeros.\<close>

record loadReport =
  lr_counters :: LoadStats
  lr_throughput :: rat
  lr_samples :: nat
  lr_percentiles :: "rat list"
  lr_walBatches :: uint64
  lr_walAverages :: "rat list"
  lr_walSync :: "rat list"

definition report :: "int64 \<Rightarrow> Stats \<Rightarrow> 'r load \<Rightarrow> loadReport" where
  "report elapsed stats ld = (let latencies = allLatencies (ld_latencyBatches ld) in
     \<lparr>lr_counters = ld_stats ld,
      lr_throughput = fdiv (float64 (of_nat (unat (ls_processed (ld_stats ld))))) (durationToSeconds elapsed),
      lr_samples = length latencies,
      lr_percentiles = map (percentileMillis latencies) [float64 (50 / 100), float64 (95 / 100), float64 (99 / 100), float64 (999 / 1000)],
      lr_walBatches = stats_WALBatches stats,
      lr_walAverages = [walAverage (stats_WALBatchCommandsSum stats) (stats_WALBatches stats), walAverage (stats_WALBatchBytesSum stats) (stats_WALBatches stats)],
      lr_walSync = [stats_WALSyncP50Ms stats, stats_WALSyncP95Ms stats, stats_WALSyncP99Ms stats]\<rparr>)"

subsection \<open>Generated commands\<close>

text \<open>What \<open>math/rand\<close> documents of \<open>Intn\<close>.\<close>

definition intn_ok :: "'r intn \<Rightarrow> bool" where
  "intn_ok intn \<longleftrightarrow> (\<forall>rng n. 0 < n \<longrightarrow> 0 \<le> fst (intn rng n) \<and> fst (intn rng n) < n)"

lemma Intn_returns:
  assumes "intn_ok intn" and "0 < n"
  obtains i rng' where "Intn intn n rng = Some (i, rng')" and "0 \<le> i" and "i < n"
proof (cases "intn rng n")
  case (Pair i rng')
  then show thesis using assms that [of i rng'] unfolding intn_ok_def Intn_def by (metis fst_conv not_le)
qed

lemma pickSymbol_returns:
  assumes "intn_ok intn" and "symbols \<noteq> []"
  obtains s rng' where "pickSymbol intn symbols rng = Some (s, rng')" and "s \<in> set symbols"
proof -
  have "0 < int (length symbols)" using assms(2) by simp
  then obtain i rng' where i: "Intn intn (int (length symbols)) rng = Some (i, rng')" "0 \<le> i" "i < int (length symbols)"
    by (rule Intn_returns [OF assms(1)])
  then show thesis using that [of "symbols ! nat i" rng'] by (simp add: pickSymbol_def)
qed

lemma pickSide_returns:
  assumes "intn_ok intn"
  obtains side rng' where "pickSide intn rng = Some (side, rng')" and "side = SideBuy \<or> side = SideSell"
proof -
  obtain i rng' where "Intn intn 2 rng = Some (i, rng')" by (rule Intn_returns [OF assms, of 2 rng]) simp_all
  then show thesis using that [of "if i = 0 then SideSell else SideBuy" rng'] by (simp add: pickSide_def)
qed

lemma small_positive: "0 < x \<Longrightarrow> x < 1000 \<Longrightarrow> \<not> (word_of_int x :: int64) \<le>s 0 \<and> \<not> (word_of_int x :: int64) <s 0"
proof -
  assume x: "0 < x" "x < 1000"
  then have "sint (word_of_int x :: int64) = x" by (simp add: signed_of_int signed_take_bit_int_eq_self)
  then show ?thesis using x by (simp add: word_sle_eq word_sless_alt)
qed

text \<open>
  The order that a command names.  A command that follows the rules: it is valid and for a configured symbol; a new order takes
  the next order id, and another command names an order of the list.
\<close>

definition cmdRef :: "Command \<Rightarrow> orderRef" where
  "cmdRef cmd = \<lparr>or_symbol = cmd_Symbol cmd, or_orderID = cmd_OrderID cmd\<rparr>"

definition refsOk :: "string list \<Rightarrow> orderRef list \<Rightarrow> bool" where
  "refsOk symbols refs \<longleftrightarrow> (\<forall>r\<in>set refs. or_symbol r \<in> set symbols \<and> or_orderID r \<noteq> 0)"

definition commandOk :: "string list \<Rightarrow> Command \<Rightarrow> bool" where
  "commandOk symbols cmd \<longleftrightarrow> ValidationRejectReason cmd = RejectNone \<and> cmd_Symbol cmd \<in> set symbols"

definition generates :: "string list \<Rightarrow> uint64 \<Rightarrow> orderRef list \<Rightarrow> 'r generated \<Rightarrow> bool" where
  "generates symbols n refs g \<longleftrightarrow> (\<exists>cmd rng n' refs'. g = Some (cmd, rng, n', refs') \<and> commandOk symbols cmd
     \<and> (if cmd_Type cmd = CommandNew then n' = n + 1 \<and> cmd_OrderID cmd = n' \<and> set refs' \<subseteq> insert (cmdRef cmd) (set refs)
         else n' = n \<and> cmdRef cmd \<in> set refs \<and> set refs' \<subseteq> set refs))"

lemma next_id: "n \<noteq> - 1 \<Longrightarrow> n + 1 \<noteq> (0 :: uint64)"
  by (simp add: eq_neg_iff_add_eq_0)

lemmas commandOk_defs = commandOk_def ValidationRejectReason_def blankCommand_def go_consts

lemma limit_ok:
  assumes "s \<in> set symbols" and "[] \<notin> set symbols" and "side = SideBuy \<or> side = SideSell" and "i \<noteq> 0" and "\<not> price \<le>s 0" and "\<not> qty \<le>s 0"
  shows "commandOk symbols (limitCommand s i side price qty)"
  using assms by (auto simp: limitCommand_def commandOk_defs)

lemma market_ok:
  assumes "s \<in> set symbols" and "[] \<notin> set symbols" and "side = SideBuy \<or> side = SideSell" and "i \<noteq> 0" and "\<not> qty \<le>s 0"
  shows "commandOk symbols (marketCommand s i side qty)"
  using assms by (auto simp: marketCommand_def commandOk_defs)

lemma cancel_ok: "or_symbol r \<in> set symbols \<and> or_orderID r \<noteq> 0 \<Longrightarrow> [] \<notin> set symbols \<Longrightarrow> commandOk symbols (cancelCommand r)"
  by (auto simp: cancelCommand_def commandOk_defs)

lemma replace_ok:
  assumes "or_symbol r \<in> set symbols \<and> or_orderID r \<noteq> 0" and "[] \<notin> set symbols" and "\<not> price <s 0" and "\<not> qty \<le>s 0"
  shows "commandOk symbols (replaceCommand r price qty)"
  using assms by (auto simp: replaceCommand_def commandOk_defs)

text \<open>The kind of each command and the order it names.\<close>

lemma limit_fields: "cmd_Type (limitCommand s i side price qty) = CommandNew" "cmd_OrderID (limitCommand s i side price qty) = i"
  "cmdRef (limitCommand s i side price qty) = \<lparr>or_symbol = s, or_orderID = i\<rparr>"
  by (simp_all add: limitCommand_def cmdRef_def)

lemma market_fields: "cmd_Type (marketCommand s i side qty) = CommandNew" "cmd_OrderID (marketCommand s i side qty) = i"
  by (simp_all add: marketCommand_def)

lemma amend_fields: "cmd_Type (cancelCommand r) \<noteq> CommandNew" "cmdRef (cancelCommand r) = r"
  "cmd_Type (replaceCommand r price qty) \<noteq> CommandNew" "cmdRef (replaceCommand r price qty) = r"
  by (simp_all add: cancelCommand_def replaceCommand_def cmdRef_def go_consts)

lemma butlast_update_subset: "refs \<noteq> [] \<Longrightarrow> set (butlast (refs[i := last refs])) \<subseteq> set refs"
proof -
  assume "refs \<noteq> []"
  have "set (butlast (refs[i := last refs])) \<subseteq> set (refs[i := last refs])" by (auto dest: in_set_butlastD)
  also have "\<dots> \<subseteq> insert (last refs) (set refs)" by (rule set_update_subset_insert)
  also have "\<dots> = set refs" using \<open>refs \<noteq> []\<close> by auto
  finally show ?thesis .
qed

lemma newLimit_ok:
  assumes "intn_ok intn" and "symbols \<noteq> []" and "[] \<notin> set symbols" and "n \<noteq> - 1" and "\<not> price \<le>s 0" and "\<not> qty \<le>s 0"
  shows "generates symbols n refs (newLimit intn symbols rng n refs price qty)"
proof -
  obtain s rng4 where s: "pickSymbol intn symbols rng = Some (s, rng4)" "s \<in> set symbols" by (rule pickSymbol_returns [OF assms(1,2)])
  obtain side rng5 where side: "pickSide intn rng4 = Some (side, rng5)" "side = SideBuy \<or> side = SideSell" by (rule pickSide_returns [OF assms(1)])
  show ?thesis using limit_ok [OF s(2) assms(3) side(2) next_id [OF assms(4)] assms(5,6)] s(1) side(1)
    by (simp add: newLimit_def generates_def Let_def limit_fields)
qed

lemma newMarket_ok:
  assumes "intn_ok intn" and "symbols \<noteq> []" and "[] \<notin> set symbols" and "n \<noteq> - 1" and "\<not> qty \<le>s 0"
  shows "generates symbols n refs (newMarket intn symbols rng n refs qty)"
proof -
  obtain side rng4 where side: "pickSide intn rng = Some (side, rng4)" "side = SideBuy \<or> side = SideSell" by (rule pickSide_returns [OF assms(1)])
  obtain s rng5 where s: "pickSymbol intn symbols rng4 = Some (s, rng5)" "s \<in> set symbols" by (rule pickSymbol_returns [OF assms(1,2)])
  show ?thesis using market_ok [OF s(2) assms(3) side(2) next_id [OF assms(4)] assms(5)] s(1) side(1)
    by (auto simp: newMarket_def generates_def Let_def market_fields)
qed

lemma amendOrder_ok:
  assumes "intn_ok intn" and "[] \<notin> set symbols" and "refs \<noteq> []" and "refsOk symbols refs" and "\<not> price <s 0" and "\<not> qty \<le>s 0"
  shows "generates symbols n refs (amendOrder intn rng n refs roll price qty)"
proof -
  have "0 < int (length refs)" using assms(3) by simp
  then obtain i rng4 where i: "Intn intn (int (length refs)) rng = Some (i, rng4)" "0 \<le> i" "i < int (length refs)"
    by (rule Intn_returns [OF assms(1)])
  then have idx: "nat i < length refs" by simp
  then have ref: "or_symbol (refs ! nat i) \<in> set symbols \<and> or_orderID (refs ! nat i) \<noteq> 0" using assms(4) by (simp add: refsOk_def)
  show ?thesis using i(1,2) idx cancel_ok [OF ref assms(2)] replace_ok [OF ref assms(2,5,6)] butlast_update_subset [OF assms(3)]
    by (simp add: amendOrder_def generates_def Let_def amend_fields)
qed

lemma nextCommand_ok:
  assumes "intn_ok intn" and "symbols \<noteq> []" and "[] \<notin> set symbols" and "n \<noteq> - 1" and "refsOk symbols refs"
  shows "generates symbols n refs (nextCommand intn symbols rng n refs)"
proof -
  obtain roll rng1 where roll: "Intn intn 100 rng = Some (roll, rng1)" by (rule Intn_returns [OF assms(1), of 100 rng]) simp_all
  obtain p rng2 where p: "Intn intn 20 rng1 = Some (p, rng2)" "0 \<le> p" "p < 20" by (rule Intn_returns [OF assms(1), of 20 rng1]) simp_all
  obtain v rng3 where v: "Intn intn 5 rng2 = Some (v, rng3)" "0 \<le> v" "v < 5" by (rule Intn_returns [OF assms(1), of 5 rng2]) simp_all
  have price: "\<not> (word_of_int (100 + p) :: int64) \<le>s 0" "\<not> (word_of_int (100 + p) :: int64) <s 0" and qty: "\<not> (word_of_int (1 + v) :: int64) \<le>s 0"
    using small_positive [of "100 + p"] small_positive [of "1 + v"] p v by simp_all
  show ?thesis
    using roll p(1) v(1) newLimit_ok [OF assms(1-4) price(1) qty] newMarket_ok [OF assms(1-4) qty] amendOrder_ok [OF assms(1,3) _ assms(5) price(2) qty]
    by (simp add: nextCommand_def Let_def)
qed

subsection \<open>A run of all producers\<close>

text \<open>The new orders of a list of commands.\<close>

definition news :: "Command list \<Rightarrow> Command list" where
  "news cs = filter (\<lambda>c. cmd_Type c = CommandNew) cs"

text \<open>Every command that is not a new order names one that was sent before.\<close>

definition amendsEarlier :: "Command list \<Rightarrow> bool" where
  "amendsEarlier cs \<longleftrightarrow> (\<forall>i<length cs. cmd_Type (cs ! i) \<noteq> CommandNew \<longrightarrow> cmdRef (cs ! i) \<in> cmdRef ` set (news (take i cs)))"

lemma news_simps [simp]: "news [] = []" "news (cs @ [c]) = (if cmd_Type c = CommandNew then news cs @ [c] else news cs)"
  by (simp_all add: news_def)

lemma news_length: "length (news cs) \<le> length cs"
  by (simp add: news_def)

lemma amendsEarlier_snoc:
  "amendsEarlier (cs @ [c]) \<longleftrightarrow> amendsEarlier cs \<and> (cmd_Type c \<noteq> CommandNew \<longrightarrow> cmdRef c \<in> cmdRef ` set (news cs))"
  unfolding amendsEarlier_def by (auto simp: less_Suc_eq nth_append)

text \<open>The order ids of the new orders are the numbers from one, and no producer has panicked.\<close>

definition sentOk :: "string list \<Rightarrow> 'r load \<Rightarrow> bool" where
  "sentOk symbols ld \<longleftrightarrow> \<not> ld_panicked ld \<and> (\<forall>c\<in>set (ld_sent ld). commandOk symbols c) \<and> amendsEarlier (ld_sent ld)
     \<and> map cmd_OrderID (news (ld_sent ld)) = map word_of_nat [1..<Suc (length (news (ld_sent ld)))]
     \<and> ld_nextOrderID ld = word_of_nat (length (news (ld_sent ld)))
     \<and> (\<forall>p\<in>set (ld_producers ld). set (pr_activeOrders p) \<subseteq> cmdRef ` set (news (ld_sent ld)))"

lemma word_small_neq: "n < 2 ^ 64 - 1 \<Longrightarrow> (word_of_nat n :: uint64) \<noteq> - 1"
proof
  assume n: "n < 2 ^ 64 - 1" and "(word_of_nat n :: uint64) = - 1"
  then have "(word_of_nat (Suc n) :: uint64) = 0" by simp
  then have "2 ^ 64 dvd Suc n" by (simp only: word_of_nat_eq_0_iff) simp
  then have "2 ^ 64 \<le> Suc n" by (rule dvd_imp_le) simp
  then show False using n by simp
qed

lemma ids_distinct:
  assumes "map cmd_OrderID cs = map (word_of_nat :: nat \<Rightarrow> uint64) [1..<Suc (length cs)]" and "length cs < 2 ^ 64"
  shows "distinct (map cmd_OrderID cs)" and "\<forall>c\<in>set cs. cmd_OrderID c \<noteq> 0"
proof -
  have u: "unat (word_of_nat i :: uint64) = i" if "i < Suc (length cs)" for i using that assms(2) by (simp add: unat_of_nat)
  have "inj_on (word_of_nat :: nat \<Rightarrow> uint64) (set [1..<Suc (length cs)])" by (rule inj_on_inverseI [of _ unat]) (use u in auto)
  then show "distinct (map cmd_OrderID cs)" unfolding assms(1) by (simp add: distinct_map)
  show "\<forall>c\<in>set cs. cmd_OrderID c \<noteq> 0"
  proof
    fix c assume "c \<in> set cs"
    then have "cmd_OrderID c \<in> set (map (word_of_nat :: nat \<Rightarrow> uint64) [1..<Suc (length cs)])" unfolding assms(1) [symmetric] by simp
    then obtain i where "cmd_OrderID c = word_of_nat i" "1 \<le> i" "i < Suc (length cs)" by auto
    then show "cmd_OrderID c \<noteq> 0" using u by fastforce
  qed
qed

lemma sentOk_refs:
  assumes "sentOk symbols ld" and "length (ld_sent ld) < 2 ^ 64 - 1" and "p \<in> set (ld_producers ld)"
  shows "refsOk symbols (pr_activeOrders p)" and "ld_nextOrderID ld \<noteq> - 1"
proof -
  have n: "length (news (ld_sent ld)) < 2 ^ 64 - 1" using news_length [of "ld_sent ld"] assms(2) by simp
  then show "ld_nextOrderID ld \<noteq> - 1" using assms(1) word_small_neq by (simp add: sentOk_def)
  have "\<forall>c\<in>set (news (ld_sent ld)). cmd_OrderID c \<noteq> 0" by (rule ids_distinct(2)) (use assms(1) n in \<open>auto simp: sentOk_def\<close>)
  moreover have "\<forall>c\<in>set (news (ld_sent ld)). cmd_Symbol c \<in> set symbols" using assms(1) by (auto simp: sentOk_def news_def commandOk_def)
  ultimately show "refsOk symbols (pr_activeOrders p)" using assms(1,3) by (fastforce simp: sentOk_def refsOk_def cmdRef_def)
qed

lemma produce_sentOk:
  assumes "intn_ok intn" and "symbols \<noteq> []" and "[] \<notin> set symbols" and inv: "sentOk symbols ld" and "length (ld_sent ld) < 2 ^ 64 - 1"
    and i: "i < length (ld_producers ld)"
  shows "\<exists>ld'. producerTick intn symbols i ld = Some ld' \<and> sentOk symbols ld' \<and> length (ld_sent ld') = Suc (length (ld_sent ld))"
proof -
  let ?p = "ld_producers ld ! i"
  note refs = sentOk_refs [OF inv assms(5) nth_mem [OF i]]
  obtain cmd rng n' refs' where g: "nextCommand intn symbols (pr_rng ?p) (ld_nextOrderID ld) (pr_activeOrders ?p) = Some (cmd, rng, n', refs')"
    "commandOk symbols cmd" "if cmd_Type cmd = CommandNew then n' = ld_nextOrderID ld + 1 \<and> cmd_OrderID cmd = n' \<and> set refs' \<subseteq> insert (cmdRef cmd) (set (pr_activeOrders ?p))
         else n' = ld_nextOrderID ld \<and> cmdRef cmd \<in> set (pr_activeOrders ?p) \<and> set refs' \<subseteq> set (pr_activeOrders ?p)"
    using nextCommand_ok [OF assms(1-3) refs(2,1), of "pr_rng ?p"] unfolding generates_def by blast
  define ld' where "ld' = ld\<lparr>ld_producers := (ld_producers ld)[i := ?p\<lparr>pr_rng := rng, pr_activeOrders := refs', pr_point := Submitting\<rparr>],
    ld_nextOrderID := n', ld_stats := countAttempt (ld_stats ld), ld_sent := ld_sent ld @ [cmd]\<rparr>"
  have own: "set (pr_activeOrders ?p) \<subseteq> cmdRef ` set (news (ld_sent ld))" using inv i by (simp add: sentOk_def)
  have ids: "map cmd_OrderID (news (ld_sent ld')) = map word_of_nat [1..<Suc (length (news (ld_sent ld')))]
    \<and> ld_nextOrderID ld' = word_of_nat (length (news (ld_sent ld')))"
    using inv g(3) by (auto simp: sentOk_def ld'_def add.commute)
  have "amendsEarlier (ld_sent ld')" using inv g(3) own by (auto simp: sentOk_def ld'_def amendsEarlier_snoc)
  moreover have "set (pr_activeOrders p) \<subseteq> cmdRef ` set (news (ld_sent ld'))" if "p \<in> set (ld_producers ld')" for p
  proof -
    have "p \<in> set (ld_producers ld) \<or> p = ?p\<lparr>pr_rng := rng, pr_activeOrders := refs', pr_point := Submitting\<rparr>"
      using that set_update_subset_insert [of "ld_producers ld" i] by (auto simp: ld'_def)
    then show ?thesis using inv own g(3) by (auto simp: sentOk_def ld'_def split: if_splits)
  qed
  ultimately have "sentOk symbols ld'" using inv g(2) ids by (auto simp: sentOk_def ld'_def)
  then show ?thesis using g(1) by (simp add: producerTick_def Let_def ld'_def)
qed

lemma sentOk_kept:
  assumes "sentOk symbols ld" and "ld_sent ld' = ld_sent ld" and "ld_nextOrderID ld' = ld_nextOrderID ld" and "ld_panicked ld' = ld_panicked ld"
    and "map pr_activeOrders (ld_producers ld') = map pr_activeOrders (ld_producers ld)"
  shows "sentOk symbols ld'"
proof -
  have "pr_activeOrders ` set (ld_producers ld') = pr_activeOrders ` set (ld_producers ld)" using assms(5) by (metis list.set_map)
  then show ?thesis using assms(1-4) unfolding sentOk_def by (metis (no_types, lifting) imageE imageI)
qed

lemma step_fields:
  "ld_sent (producerAnswered i outcome micros ld) = ld_sent ld" "ld_nextOrderID (producerAnswered i outcome micros ld) = ld_nextOrderID ld"
  "ld_sent (producerReturned i ld) = ld_sent ld" "ld_nextOrderID (producerReturned i ld) = ld_nextOrderID ld"
  "ld_sent (producerEnter perProducer i ld) = ld_sent ld" "ld_nextOrderID (producerEnter perProducer i ld) = ld_nextOrderID ld"
  "ld_panicked (producerAnswered i outcome micros ld) = ld_panicked ld" "ld_panicked (producerReturned i ld) = ld_panicked ld"
  by (simp_all add: producerAnswered_def producerReturned_def producerEnter_def Let_def)

text \<open>The ticker is created unless the rate is too high.\<close>

lemma enter_panics:
  "0 < perProducer \<Longrightarrow> ld_panicked (producerEnter perProducer i ld) \<longleftrightarrow> ld_panicked ld \<or> 1000000000 < perProducer"
  using tickerPeriod_positive_iff [of perProducer] by (auto simp: producerEnter_def)

lemma step_activeOrders:
  assumes "i < length (ld_producers ld)"
  shows "map pr_activeOrders (ld_producers (producerAnswered i outcome micros ld)) = map pr_activeOrders (ld_producers ld)"
    and "map pr_activeOrders (ld_producers (producerReturned i ld)) = map pr_activeOrders (ld_producers ld)"
    and "map pr_activeOrders (ld_producers (producerEnter perProducer i ld)) = map pr_activeOrders (ld_producers ld)"
  using assms by (simp_all add: producerAnswered_def producerReturned_def producerEnter_def Let_def map_update list_update_same_conv)

lemma loadstep_sentOk:
  assumes "loadstep intn symbols perProducer ld ld'" and "intn_ok intn" and "symbols \<noteq> []" and "[] \<notin> set symbols"
    and "0 < perProducer" and "perProducer \<le> 1000000000"
  shows "length (ld_sent ld) \<le> length (ld_sent ld') \<and> (sentOk symbols ld \<longrightarrow> length (ld_sent ld) < 2 ^ 64 - 1 \<longrightarrow> sentOk symbols ld')"
  using assms(1)
proof (rule loadstepE)
  fix i assume i: "i < length (ld_producers ld)" and l: "ld' = producerEnter perProducer i ld"
  have "ld_panicked ld' = ld_panicked ld" unfolding l using enter_panics [OF assms(5)] assms(6) by auto
  then show ?thesis using sentOk_kept step_fields step_activeOrders [OF i] unfolding l by (metis order_refl)
next
  fix i assume i: "i < length (ld_producers ld)" and p: "producerTick intn symbols i ld = Some ld'"
  have "length (ld_sent ld) \<le> length (ld_sent ld')" using p by (auto simp: producerTick_def Let_def split: bind_splits)
  then show ?thesis using produce_sentOk [OF assms(2-4) _ _ i] p by auto
next
  fix i assume i: "i < length (ld_producers ld)" and p: "producerTick intn symbols i ld = None" and l: "ld' = ld\<lparr>ld_panicked := True\<rparr>"
  show ?thesis using produce_sentOk [OF assms(2-4) _ _ i] p by (auto simp: l)
next
  fix i outcome micros assume i: "i < length (ld_producers ld)" and l: "ld' = producerAnswered i outcome micros ld"
  show ?thesis unfolding l using sentOk_kept step_fields step_activeOrders [OF i] by (metis order_refl)
next
  fix i assume i: "i < length (ld_producers ld)" and l: "ld' = producerReturned i ld"
  show ?thesis unfolding l using sentOk_kept step_fields step_activeOrders [OF i] by (metis order_refl)
qed

lemma loadsteps_sentOk:
  assumes "(loadstep intn symbols perProducer)\<^sup>*\<^sup>* (startLoad newSource seed producers) ld" and "intn_ok intn" and "symbols \<noteq> []" and "[] \<notin> set symbols"
    and "0 < perProducer" and "perProducer \<le> 1000000000" and "length (ld_sent ld) < 2 ^ 64 - 1"
  shows "sentOk symbols ld"
  using assms(1,7)
proof (induction rule: rtranclp_induct)
  case base
  show ?case by (auto simp: sentOk_def amendsEarlier_def startLoad_def newProducer_def)
next
  case (step ld ld')
  then show ?case using loadstep_sentOk [OF step(2) assms(2-6)] by auto
qed

text \<open>The counters, and the latencies: one for each command that was processed.\<close>

definition inFlight :: "'r producer \<Rightarrow> nat" where
  "inFlight p = (if pr_point p = Submitting then 1 else 0)"

definition batch :: "'r producer \<Rightarrow> int64 list multiset" where
  "batch p = (if pr_point p = Returned then {#pr_latencies p#} else {#})"

definition samples :: "'r producer \<Rightarrow> nat" where
  "samples p = length (pr_latencies p)"

definition balanced :: "LoadStats \<Rightarrow> nat \<Rightarrow> nat \<Rightarrow> nat \<Rightarrow> bool" where
  "balanced s sent flying handled \<longleftrightarrow> ls_attempted s = word_of_nat sent \<and> ls_processed s = word_of_nat handled
     \<and> word_of_nat handled + ls_failed s + word_of_nat flying = word_of_nat sent \<and> ls_accepted s + ls_rejected s = word_of_nat handled"

lemma balanced_attempt: "balanced s n f k \<Longrightarrow> balanced (countAttempt s) (Suc n) (Suc f) k"
  by (simp add: balanced_def countAttempt_def add.left_commute [of _ 1])

lemma balanced_outcome:
  "balanced s n (Suc f) k \<Longrightarrow> balanced (countOutcome (Inl err) s) n f k"
  "balanced s n (Suc f) k \<Longrightarrow> balanced (countOutcome (Inr result) s) n f (Suc k)"
  by (auto simp: balanced_def countOutcome_def Let_def algebra_simps)

definition countersOk :: "'r load \<Rightarrow> bool" where
  "countersOk ld \<longleftrightarrow> (let ps = ld_producers ld in
     balanced (ld_stats ld) (length (ld_sent ld)) (sum_list (map inFlight ps)) (sum_list (map samples ps))
     \<and> mset (ld_latencyBatches ld) = sum_list (map batch ps))"

lemma sum_list_update_add:
  fixes f :: "'a \<Rightarrow> 'b :: comm_monoid_add"
  assumes "i < length xs"
  shows "sum_list (map f (xs[i := x])) + f (xs ! i) = sum_list (map f xs) + f x"
  using assms
proof (induction xs arbitrary: i)
  case (Cons y ys)
  then show ?case by (cases i) (simp_all add: ac_simps)
qed simp

lemma produce_countersOk:
  assumes "producerTick intn symbols i ld = Some ld'" and "i < length (ld_producers ld)" and "pr_point (ld_producers ld ! i) = Ticking"
    and "countersOk ld"
  shows "countersOk ld'"
proof -
  let ?ps = "ld_producers ld"
  obtain cmd rng n refs where ld': "ld' = ld\<lparr>ld_producers := ?ps[i := (?ps ! i)\<lparr>pr_rng := rng, pr_activeOrders := refs, pr_point := Submitting\<rparr>],
      ld_nextOrderID := n, ld_stats := countAttempt (ld_stats ld), ld_sent := ld_sent ld @ [cmd]\<rparr>"
    using assms(1) by (auto simp: producerTick_def Let_def split: bind_splits)
  note upd = sum_list_update_add [OF assms(2), of _ "(?ps ! i)\<lparr>pr_rng := rng, pr_activeOrders := refs, pr_point := Submitting\<rparr>"]
  show ?thesis using assms(3,4) balanced_attempt upd [of inFlight] upd [of samples] upd [of batch]
    by (simp add: ld' countersOk_def Let_def inFlight_def samples_def batch_def)
qed

lemma answered_countersOk:
  assumes "i < length (ld_producers ld)" and "pr_point (ld_producers ld ! i) = Submitting" and "countersOk ld"
  shows "countersOk (producerAnswered i outcome micros ld)"
proof -
  let ?ps = "ld_producers ld"
  let ?q = "(?ps ! i)\<lparr>pr_latencies := (case outcome of Inl err \<Rightarrow> pr_latencies (?ps ! i) | Inr result \<Rightarrow> pr_latencies (?ps ! i) @ [micros]), pr_point := Ticking\<rparr>"
  note upd = sum_list_update_add [OF assms(1), of _ ?q]
  have flight: "sum_list (map inFlight ?ps) = Suc (sum_list (map inFlight (?ps[i := ?q])))"
    and batches: "sum_list (map batch (?ps[i := ?q])) = sum_list (map batch ?ps)"
    using upd [of inFlight] upd [of batch] assms(2) by (simp_all add: inFlight_def batch_def)
  show ?thesis using assms(3) flight batches upd [of samples]
    by (cases outcome) (simp_all add: producerAnswered_def countersOk_def balanced_outcome Let_def samples_def)
qed

lemma returned_countersOk:
  assumes "i < length (ld_producers ld)" and "pr_point (ld_producers ld ! i) = Ticking" and "countersOk ld"
  shows "countersOk (producerReturned i ld)"
proof -
  let ?ps = "ld_producers ld"
  note upd = sum_list_update_add [OF assms(1), of _ "(?ps ! i)\<lparr>pr_point := Returned\<rparr>"]
  show ?thesis using assms(2,3) upd [of inFlight] upd [of samples] upd [of batch]
    by (simp add: producerReturned_def countersOk_def Let_def inFlight_def samples_def batch_def)
qed

lemma entered_countersOk:
  assumes "i < length (ld_producers ld)" and "pr_point (ld_producers ld ! i) = Entering" and "countersOk ld"
  shows "countersOk (producerEnter perProducer i ld)"
proof -
  let ?ps = "ld_producers ld"
  note upd = sum_list_update_add [OF assms(1), of _ "(?ps ! i)\<lparr>pr_point := Ticking\<rparr>"]
  show ?thesis using assms(2,3) upd [of inFlight] upd [of samples] upd [of batch]
    by (simp add: producerEnter_def countersOk_def Let_def inFlight_def samples_def batch_def)
qed

lemma panicked_countersOk: "countersOk (ld\<lparr>ld_panicked := b\<rparr>) = countersOk ld"
  by (simp add: countersOk_def)

lemma loadsteps_countersOk:
  assumes "(loadstep intn symbols perProducer)\<^sup>*\<^sup>* (startLoad newSource seed producers) ld"
  shows "countersOk ld"
  using assms
proof (induction rule: rtranclp_induct)
  case base
  let ?p = "newProducer newSource seed"
  have z: "inFlight \<circ> ?p = (\<lambda>_. 0)" "samples \<circ> ?p = (\<lambda>_. 0)" "batch \<circ> ?p = (\<lambda>_. 0)"
    by (simp_all add: fun_eq_iff newProducer_def inFlight_def samples_def batch_def)
  show ?case by (simp add: countersOk_def balanced_def startLoad_def z)
next
  case (step ld ld')
  show ?case using step(2) by (rule loadstepE) (use step(3) entered_countersOk produce_countersOk panicked_countersOk answered_countersOk returned_countersOk in blast)+
qed

lemma countersOk_returned:
  assumes "countersOk ld" and "\<forall>p\<in>set (ld_producers ld). pr_point p = Returned"
  shows "sum_list (map inFlight (ld_producers ld)) = 0" and "length (concat (ld_latencyBatches ld)) = sum_list (map samples (ld_producers ld))"
proof -
  have f: "map inFlight (ld_producers ld) = map (\<lambda>_. 0) (ld_producers ld)"
    and b: "map batch (ld_producers ld) = map (\<lambda>p. {#pr_latencies p#}) (ld_producers ld)"
    using assms(2) by (simp_all add: inFlight_def batch_def)
  show "sum_list (map inFlight (ld_producers ld)) = 0" unfolding f by simp
  have "sum_list (map (\<lambda>p. {#pr_latencies p#}) ps) = mset (map pr_latencies ps)" for ps :: "'a producer list" by (induction ps) simp_all
  then have "mset (ld_latencyBatches ld) = mset (map pr_latencies (ld_producers ld))" using assms(1) by (simp add: countersOk_def Let_def b)
  then have "mset (map length (ld_latencyBatches ld)) = mset (map length (map pr_latencies (ld_producers ld)))" by (simp only: mset_map)
  from arg_cong [OF this, of sum_mset] show "length (concat (ld_latencyBatches ld)) = sum_list (map samples (ld_producers ld))"
    unfolding length_concat sum_mset_sum_list by (simp add: samples_def [abs_def] o_def)
qed

subsection \<open>A run of two producers\<close>

text \<open>A random source that reads its numbers from a list: each producer sends a limit order and the first of them then cancels its own.\<close>

fun listRandom :: "int list intn" where
  "listRandom [] n = (0, [])"
| "listRandom (x # xs) n = (x mod n, xs)"

definition twoProducers :: "int list load" where
  "twoProducers = startLoad (\<lambda>_. [10, 3, 2, 0, 1, 85, 4, 4, 0]) 7 2"

definition bothTicking :: "int list load" where
  "bothTicking = producerEnter 500 1 (producerEnter 500 0 twoProducers)"

definition bothSent :: "int list load" where
  "bothSent = the (producerTick listRandom [''BTC''] 1 (the (producerTick listRandom [''BTC''] 0 bothTicking)))"

definition rested :: "(seq_err + loop_err) + Result" where
  "rested = Inr \<lparr>res_CommandSeq = 1, res_Events = []\<rparr>"

definition canceled :: "int list load" where
  "canceled = the (producerTick listRandom [''BTC''] 0 (producerAnswered 0 rested 120 bothSent))"

definition allReturned :: "int list load" where
  "allReturned = producerReturned 1 (producerAnswered 1 (Inl (Inl ErrSequencerClosed)) 90 (producerReturned 0 (producerAnswered 0 rested 80 canceled)))"

lemma listRandom_ok: "intn_ok listRandom"
proof -
  have "0 < n \<Longrightarrow> 0 \<le> fst (listRandom xs n) \<and> fst (listRandom xs n) < n" for xs n by (cases xs) simp_all
  then show ?thesis by (simp add: intn_ok_def)
qed

abbreviation sampleStep :: "int list load \<Rightarrow> int list load \<Rightarrow> bool" where
  "sampleStep \<equiv> loadstep listRandom [''BTC''] 500"

lemma tick_runs:
  assumes "(loadstep intn symbols perProducer)\<^sup>*\<^sup>* ld0 ld" and "\<not> ld_panicked ld" and "i < length (ld_producers ld)" and "pr_point (ld_producers ld ! i) = Ticking"
    and "producerTick intn symbols i ld \<noteq> None"
  shows "(loadstep intn symbols perProducer)\<^sup>*\<^sup>* ld0 (the (producerTick intn symbols i ld))"
  using assms(1) ld_tick [OF assms(2-4), of intn symbols "the (producerTick intn symbols i ld)" perProducer] assms(5) by (auto intro: rtranclp.rtrancl_into_rtrancl)

lemma canceled_run: "sampleStep\<^sup>*\<^sup>* twoProducers canceled"
proof -
  let ?t = "producerTick listRandom [''BTC'']"
  have "sampleStep twoProducers (producerEnter 500 0 twoProducers)" by (rule ld_enter; code_simp)
  moreover have "sampleStep (producerEnter 500 0 twoProducers) bothTicking" unfolding bothTicking_def by (rule ld_enter; code_simp)
  ultimately have "sampleStep\<^sup>*\<^sup>* twoProducers bothTicking" by (meson rtranclp.rtrancl_into_rtrancl rtranclp.rtrancl_refl)
  from tick_runs [OF this] have "sampleStep\<^sup>*\<^sup>* twoProducers (the (?t 0 bothTicking))" by this code_simp+
  from tick_runs [OF this] have "sampleStep\<^sup>*\<^sup>* twoProducers bothSent" unfolding bothSent_def by this code_simp+
  moreover have "sampleStep bothSent (producerAnswered 0 rested 120 bothSent)" by (rule ld_answer; code_simp)
  ultimately have "sampleStep\<^sup>*\<^sup>* twoProducers (producerAnswered 0 rested 120 bothSent)" by (rule rtranclp.rtrancl_into_rtrancl)
  from tick_runs [OF this] show ?thesis unfolding canceled_def by this code_simp+
qed

lemma allReturned_run: "sampleStep\<^sup>*\<^sup>* twoProducers allReturned"
proof -
  let ?l1 = "producerAnswered 0 rested 80 canceled" and ?l2 = "producerReturned 0 (producerAnswered 0 rested 80 canceled)"
  have "sampleStep canceled ?l1" by (rule ld_answer; code_simp)
  moreover have "sampleStep ?l1 ?l2" by (rule ld_return; code_simp)
  moreover have "sampleStep ?l2 (producerAnswered 1 (Inl (Inl ErrSequencerClosed)) 90 ?l2)" by (rule ld_answer; code_simp)
  moreover have "sampleStep (producerAnswered 1 (Inl (Inl ErrSequencerClosed)) 90 ?l2) allReturned"
    unfolding allReturned_def by (rule ld_return; code_simp)
  ultimately show ?thesis using canceled_run by (meson rtranclp.rtrancl_into_rtrancl)
qed

subsection \<open>Properties\<close>

text \<open>
  C40: the producers send valid commands.  With a random source that returns numbers below its argument, configured symbols that
  are not empty, a rate of at most \<open>10^9\<close> commands per second and producer, and fewer than \<open>2^64 - 1\<close> commands, in any interleaving of the producers,
  whatever the engine answers: no producer panics, neither when it creates its ticker nor at a tick; every command passes the validation of
  the model and names a configured symbol; no two new orders, of whatever producers, have the same order id; and a cancel or a replace names a new
  order for the same symbol that was sent before.
\<close>

theorem producers_send_valid_commands:
  assumes "intn_ok intn" and "symbols \<noteq> []" and "[] \<notin> set symbols" and "perProducerRate rate (int producers) \<le> 1000000000"
    and "(loadstep intn symbols (perProducerRate rate (int producers)))\<^sup>*\<^sup>* (startLoad newSource seed producers) ld" and "length (ld_sent ld) < 2 ^ 64 - 1"
  shows "\<not> ld_panicked ld \<and> (\<forall>c\<in>set (ld_sent ld). ValidationRejectReason c = RejectNone \<and> cmd_Symbol c \<in> set symbols)
    \<and> distinct (map cmd_OrderID (filter (\<lambda>c. cmd_Type c = CommandNew) (ld_sent ld)))
    \<and> (\<forall>i<length (ld_sent ld). cmd_Type (ld_sent ld ! i) \<noteq> CommandNew \<longrightarrow> (\<exists>c\<in>set (take i (ld_sent ld)).
        cmd_Type c = CommandNew \<and> cmd_Symbol c = cmd_Symbol (ld_sent ld ! i) \<and> cmd_OrderID c = cmd_OrderID (ld_sent ld ! i)))"
proof -
  note inv = loadsteps_sentOk [OF assms(5,1-3) perProducerRate_positive assms(4,6)]
  have "length (news (ld_sent ld)) < 2 ^ 64" using news_length [of "ld_sent ld"] assms(6) by simp
  then have "distinct (map cmd_OrderID (news (ld_sent ld)))" by (rule ids_distinct(1) [rotated]) (use inv in \<open>simp add: sentOk_def\<close>)
  moreover have "\<exists>c\<in>set (take i (ld_sent ld)). cmd_Type c = CommandNew \<and> cmd_Symbol c = cmd_Symbol (ld_sent ld ! i) \<and> cmd_OrderID c = cmd_OrderID (ld_sent ld ! i)"
    if "i < length (ld_sent ld)" "cmd_Type (ld_sent ld ! i) \<noteq> CommandNew" for i
    using inv that by (fastforce simp: sentOk_def amendsEarlier_def news_def cmdRef_def)
  ultimately show ?thesis using inv unfolding sentOk_def commandOk_def news_def by blast
qed

theorem producers_send_valid_commands_witness:
  "\<not> ld_panicked canceled \<and> distinct (map cmd_OrderID (filter (\<lambda>c. cmd_Type c = CommandNew) (ld_sent canceled))) \<and> cmd_Type (ld_sent canceled ! 2) = CommandCancel
     \<and> (\<exists>c\<in>set (take 2 (ld_sent canceled)). cmd_Type c = CommandNew \<and> cmd_OrderID c = cmd_OrderID (ld_sent canceled ! 2))"
proof -
  have l: "length (ld_sent canceled) = 3" "cmd_Type (ld_sent canceled ! 2) = CommandCancel" by code_simp+
  have rate: "perProducerRate 1000 (int 2) = 500" by (simp add: perProducerRate_def maxInt_def)
  then have run: "(loadstep listRandom [''BTC''] (perProducerRate 1000 (int 2)))\<^sup>*\<^sup>* (startLoad (\<lambda>_. [10, 3, 2, 0, 1, 85, 4, 4, 0]) 7 2) canceled"
    using canceled_run by (simp only: twoProducers_def)
  have n: "cmd_Type (ld_sent canceled ! 2) \<noteq> CommandNew" unfolding l(2) by (simp add: go_consts)
  have v: "[''BTC''] \<noteq> []" "[] \<notin> set [''BTC'']" "perProducerRate 1000 (int 2) \<le> 1000000000" "length (ld_sent canceled) < 2 ^ 64 - 1" "2 < length (ld_sent canceled)"
    using l(1) rate by simp_all
  note ok = producers_send_valid_commands [OF listRandom_ok v(1-3) run v(4)]
  from ok n v(5) have "\<exists>c\<in>set (take 2 (ld_sent canceled)). cmd_Type c = CommandNew \<and> cmd_OrderID c = cmd_OrderID (ld_sent canceled ! 2)" by blast
  with ok l(2) show ?thesis by blast
qed

text \<open>Above that rate the first step of every producer ends the process.\<close>

lemma fast_producer_panics:
  assumes "1000000000 < perProducerRate rate producers"
  shows "ld_panicked (producerEnter (perProducerRate rate producers) i ld)"
  using enter_panics [OF perProducerRate_positive] assms by blast

text \<open>
  The report of the load generator adds up.  When all producers have returned, in any interleaving and whatever the
  engine has answered, the attempts are the commands sent (modulo \<open>2^64\<close>, as the counters are), each was processed or has failed, each processed one was
  accepted or rejected, and there is one latency sample for each processed one.
\<close>

lemma load_report_adds_up:
  assumes "(loadstep intn symbols perProducer)\<^sup>*\<^sup>* (startLoad newSource seed producers) ld" and "\<forall>p\<in>set (ld_producers ld). pr_point p = Returned"
  shows "let r = report elapsed stats ld; s = lr_counters r in ls_attempted s = word_of_nat (length (ld_sent ld))
    \<and> ls_attempted s = ls_processed s + ls_failed s \<and> ls_processed s = ls_accepted s + ls_rejected s \<and> ls_processed s = word_of_nat (lr_samples r)"
proof -
  note inv = loadsteps_countersOk [OF assms(1)]
  have "lr_counters (report elapsed stats ld) = ld_stats ld" "lr_samples (report elapsed stats ld) = length (concat (ld_latencyBatches ld))"
    unfolding report_def allLatencies_def by (simp_all only: Let_def loadReport.simps length_sort)
  then show ?thesis using inv countersOk_returned [OF inv assms(2)] by (simp add: Let_def countersOk_def balanced_def)
qed

lemma load_report_adds_up_witness:
  "let r = report 1000000000 (Collector_Snapshot (collected [])) allReturned; s = lr_counters r in ls_attempted s = 3 \<and> ls_attempted s = ls_processed s + ls_failed s
     \<and> ls_processed s = ls_accepted s + ls_rejected s \<and> ls_processed s = word_of_nat (lr_samples r)"
proof -
  have l: "length (ld_sent allReturned) = 3" "\<forall>p\<in>set (ld_producers allReturned). pr_point p = Returned" by code_simp+
  have run: "sampleStep\<^sup>*\<^sup>* (startLoad (\<lambda>_. [10, 3, 2, 0, 1, 85, 4, 4, 0]) 7 2) allReturned"
    using allReturned_run by (simp only: twoProducers_def)
  from load_report_adds_up [OF run l(2), of 1000000000 "Collector_Snapshot (collected [])"] show ?thesis unfolding l(1) by simp
qed

end
