(* ===== verification/Spec2Isabelle.thy ===== *)
theory Spec2Isabelle
  imports Book_Properties Snapshot_Save Sequencer_Order Recovery_Factory Engine_Properties Engine_Progress Loadgen
begin

text \<open>
  A verification development of the matching engine under \<open>src\<close>: a sharded order matching engine in Go with a
  write-ahead log, snapshots and deterministic recovery.

  \<^bold>\<open>The program.\<close>  A client submits commands (new order, cancel, replace) to the engine.  The sequencer
  (\<open>internal/ingress\<close>) numbers them in one goroutine and sends each to the shard of its symbol, which the symbol registry
  (\<open>internal/shard/registry.go\<close>) computes by a hash.  The loop of a shard (\<open>internal/shard/loop.go\<close>) applies the command to the
  book of the symbol (\<open>internal/book\<close>), hands the command and its result to the log writer of the shard
  (\<open>internal/journal\<close>), and answers the client when the writer has acknowledged the record.  The writer collects records
  in batches and syncs the file before it acknowledges.  A drain stops all shards, so that the engine
  (\<open>internal/shard/engine.go\<close>) can save a snapshot of all books (\<open>internal/snapshot\<close>).  On start the engine loads the latest snapshot,
  replays the log above it, compares every result with the one in the log, and continues the numbering.  The programs
  under \<open>cmd\<close> run the engine, check a replay, and generate load.

  \<^bold>\<open>Theories, in the order of the program.\<close>

  \<^item> \<open>Prelude\<close>: Go's integers as words (\<open>int64\<close>, \<open>uint64\<close>, signed comparisons), errors as the left side of a sum, shared
    lemmas and the collections \<open>go_consts\<close> and \<open>store_simps\<close>.  \<open>Byte_Codec\<close>: little-endian encoding and CRC-32C.
    \<open>File_Names\<close>: padded decimal names, \<open>Glob\<close>, \<open>Split\<close>, \<open>Atoi\<close>.  \<open>File_System\<close>: files and directories with the difference
    between what was written and what survives a crash; every call takes its outcome from a list.
  \<^item> \<open>Model_Types\<close> (\<open>internal/model/types.go\<close>): commands, events, results and both validators.
  \<^item> \<open>Book\<close> (\<open>internal/book/book.go\<close>): all functions on pointers, over an explicit store of orders and levels.
    \<open>Book_Spec\<close> is the specification, a book of two lists of orders.  \<open>Price_Index\<close> has the sorted price slice and the binary search,
    over the locale \<open>price_priority\<close>, interpreted on the two comparisons of \<open>before\<close>; \<open>Level_Queue\<close> has the linked queue of a level
    as an instance of the locale \<open>fifo_queue\<close>.  \<open>Book_Inv\<close> states the representation invariant, \<open>Book_Links\<close>,
    \<open>Book_Refine\<close>, \<open>Book_Commands\<close> and \<open>Book_Snapshot\<close> show that every function keeps it and implements the list book,
    \<open>Book_Values\<close>, \<open>Book_Laws\<close> and \<open>Book_Trades\<close> have the laws of the list book, and \<open>Book_Properties\<close> the claims about \<open>book.go\<close>.
  \<^item> \<open>Journal_Codec\<close> (\<open>codec.go\<close>), with the locale \<open>frame_codec\<close> for what a reader needs of a codec, interpreted on the
    record codec; \<open>Journal_Reader\<close> (\<open>reader.go\<close>).
  \<^item> \<open>Wal_Writer\<close> (\<open>writer.go\<close>): the configuration check, segments and batches as programs over the disk, the goroutine and the calls as the
    step relation \<open>wstep\<close>.  \<open>Wal_Log\<close> and \<open>Wal_Durable\<close> say what is on the disk, \<open>Wal_Process\<close> and \<open>Wal_Answers\<close> have the invariants of
    the goroutine, \<open>Wal_Properties\<close> the claims.  \<open>Wal_Interface\<close> is the interface \<open>walWriter\<close> of the shard: the locales \<open>append_channels\<close> and
    \<open>wal_writer\<close>, which extends it by durability, interpreted on the writer; the claims about shards rest on it.
  \<^item> \<open>Snapshot_File\<close> and \<open>Snapshot_Save\<close> (\<open>snapshot.go\<close>): what a save leaves of a directory in which earlier saves may have failed.
  \<^item> \<open>Registry\<close> (\<open>registry.go\<close>, \<open>Config.Validate\<close>); \<open>Metrics\<close> (the counters and reservoirs of \<open>metrics.go\<close>), \<open>Float64\<close> (rounding of rational
    numbers to 53 bits, with monotonicity and exactness on small integers) and \<open>Metrics_Report\<close> (the report with its percentiles).
  \<^item> \<open>Recovery\<close> (\<open>recoverBooks\<close>, \<open>VerifyReplay\<close> and \<open>nextSequence\<close> of \<open>engine.go\<close>, and \<open>recovery.go\<close>) and \<open>Replay\<close>, which shows that recovery
    reproduces the run.  \<open>Recovery_Factory\<close> states what \<open>recovery.go\<close> needs of a book as the locale \<open>replayed_book\<close>, interpreted on the
    books of \<open>book.go\<close>, and shows that both recoveries agree.
  \<^item> \<open>Sequencer\<close> (\<open>sequencer.go\<close>) as the step relation \<open>seqstep\<close>; \<open>Sequencer_Order\<close> shows that it implements a function
    of the list of requests, over the locale \<open>router\<close>, interpreted on the registry; \<open>Sequencer_Shutdown\<close> what a shutdown leaves behind.
  \<^item> \<open>Shard_Loop\<close> (\<open>loop.go\<close>) beside its log writer as the step relation \<open>shstep\<close>; \<open>Shard_Safety\<close> has its invariant,
    \<open>Shard_Properties\<close> the claims; \<open>Shard_Progress\<close> shows that a shard does not get stuck.
  \<^item> \<open>Engine\<close> (\<open>engine.go\<close>): \<open>NewEngine\<close>, the calls, \<open>CreateSnapshot\<close>, and \<open>estep\<close>, the steps of the sequencer and all shards in any
    interleaving.  \<open>Engine_Run\<close> projects a run on its parts; \<open>Engine_Crash\<close> and \<open>Engine_Recovery\<close> lead from the start of the engine over a crash to the
    recovery; \<open>Engine_Drain\<close> is the protocol of barriers and drains; \<open>Engine_Snapshot\<close> and \<open>Engine_Save\<close> are about
    snapshots of a drained engine and their files; \<open>Engine_Sample\<close> is a concrete run; \<open>Engine_Properties\<close> has the claims;
    \<open>Engine_Progress\<close> shows that the goroutines and channels of the engine cannot deadlock: \<open>engineLeft\<close> bounds the steps they make
    on their own until every accepted command is answered.
  \<^item> \<open>Programs\<close> (\<open>Config.Load\<close>, \<open>cmd/engine\<close>, \<open>cmd/replay\<close>) and \<open>Loadgen\<close> (\<open>cmd/loadgen\<close>), whose producers are the step
    relation \<open>loadstep\<close>.

  \<^bold>\<open>How state and operations correspond.\<close>  Structs are records with the fields of the source, prefixed; enumerations that the source can
  hold any number in are words with named constants; pointers are references into a store; a nil pointer or map miss that would
  panic is \<open>None\<close>.  Errors are values of a sum type.  A goroutine is a record with its program point, the contents of its channels and
  the history that the statements speak about (what was submitted, applied, acknowledged, replied); each step
  runs to the next operation on a channel.  A call of a client is split where it can block.  Contexts are modelled by
  the steps in which a call gives up.

  \<^bold>\<open>What is shown.\<close>
  \<^item> Books: the pointer book implements the list book, so trades are in price-time order, quantities are
    conserved, trades of new and replaced orders keep to the limit, fill-or-kill orders without a price or with a limit fill or change nothing, rejected commands have no effect, snapshots restore an equivalent book, the
    self-check passes, and every call returns.
  \<^item> Log: records decode to what was encoded, a changed byte is detected, the reader gives the records in order up to a torn tail; what the
    writer has acknowledged is read back after any crash; every append is answered once; a failed writer stays failed.
  \<^item> Sequencer and shards: numbers grow without gaps and wrap-around, commands go to the shard of their symbol, every command is answered once, a result
    that a caller has is in the log, a drained shard has everything in its log, and the goroutines of a shard come to rest only when every
    command has been answered, unless its writer has failed.
  \<^item> Engine: it starts on what it has written, with the books, watermarks and sequence numbers of its logs; after a run in any interleaving and a crash at any point recovery succeeds and gives
    the books of the commands up to a point after the last acknowledged one, with every result a caller has except rejections of unknown
    symbols, which are not logged; a drained engine stands still with nothing pending, and every
    \<open>CreateSnapshot\<close> leaves a directory that a recovery and a later \<open>CreateSnapshot\<close> can start from, whatever fails and whenever the machine crashes; and the engine cannot deadlock: left
    to itself it answers every accepted command in a bounded number of steps, unless a drain stays held or a writer has failed.
  \<^item> Recovery over the book interface of \<open>recovery.go\<close> agrees with that of the engine.
  \<^item> Metrics and load: the report has the numbers of the calls and percentiles exactly at their ranks, in spite of rounding; the producers of the load
    generator do not panic up to \<open>10^9\<close> commands per second each (above it \<open>NewTicker\<close> does), send valid commands with unique order ids, and their counters add up.

  \<^bold>\<open>Bounds and fuel.\<close>  The loops over the linked structures of a book are \<open>partial_function (option)\<close>, and that they return is
  a claim (\<open>book_calls_return\<close>); the binary search and the record loop of the reader have termination proofs; there is no fuel.
  Integers have their width.  Hypotheses of claims: fewer than \<open>2^32\<close> shards, the modulus of the routing hash; fewer than a million segments
  for each shard, the width of a segment name, beyond which names no longer sort by index; records that can be encoded (symbols of at most
  65535 bytes); for trade ids, sequence numbers below \<open>2^44\<close> and at most \<open>2^20\<close> trades for each command.  The disk is assumed to keep what a
  completed sync covers and, of what was written after it, some prefix: a crash that leaves zeros or blocks out of order in an unsynced tail is outside
  the model.  The logs that an engine or a log writer starts on are assumed to be in whole segments: after a crash that has torn the last
  record the log can be read and recovered, but the segment of a run that starts on it makes the tail unreadable
  (\<open>torn_segment_blocks_next_restart\<close>), so the claims about crashes do not hold across such a restart.  A replay accepts exactly the
  logs in increasing order of sequence numbers whose results it reproduces; the order itself is a hypothesis, since the check for it in the code is
  without effect (\<open>out_of_order_records_are_skipped\<close>).

  \<^bold>\<open>Parameters.\<close>  The gob encoder and decoder of snapshots (the decoder inverts the encoder), the JSON decoder, the files of a
  configuration, and the random source of the load generator (a number below its argument).

  \<^bold>\<open>Not modelled.\<close>  \<open>NoopSink\<close>, whose methods are empty; clocks, timers and signals, except that a timer or a deadline can fire at any point and a
  measured latency may be any number; the formatting of printed lines.  Some pieces of code are one step although other goroutines
  can run in between: a request of the log writer with its file calls and answers, the loop that raises a high-water mark, and the read of a queue's depth after a
  send; \<open>CreateSnapshot\<close> is a function from the point at which the drain is held, and the drain itself is in the step relation.  The data race freedom of the atomic
  counters is taken from Go's memory model.
\<close>

end
